(* ===== verification/RangeTree.thy ===== *)
theory RangeTree
  imports Prelude
begin

text \<open>
  The range tree of the Demeter guest module (\<open>mm/demeter/range_tree.h\<close> in
  \<open>patch/demeter.patch\<close>): the managed virtual address ranges with their access counts, the
  accounting of samples and the splitting of hot ranges.

  The tree is stored in the kernel's maple tree, used as a sparse array from addresses to
  pointers to heap objects.  Maple tree, allocator and CPU count are not part of the module:
  they are the fields of \<open>kernel\<close>, an argument of the operations, and \<open>kernel_laws\<close> states
  their documented behaviour, where the allocator and the tree may run out of memory at any
  call.  A \<open>BUG\<close> of the code is a value of the type \<open>bug\<close>.

  The theorems show that the operations refine the obvious ones on a sorted list of ranges,
  that splitting keeps the ranges a partition of the same addresses into aligned nonempty
  pieces, stays within \<open>RTREE_MAX_SIZE\<close> and never runs into a \<open>BUG\<close> other than out of memory.
\<close>

subsection \<open>Parameters and data\<close>

type_synonym ulong = u64
type_synonym ptr = u64

abbreviation ULONG_MAX :: ulong where
  "ULONG_MAX \<equiv> - 1"

definition RTREE_SPLIT_N :: nat where
  "RTREE_SPLIT_N = 2"

definition RTREE_GRANULARITY :: ulong where
  "RTREE_GRANULARITY = push_bit 20 2"

definition RTREE_SIGNIFICANCE_FACTOR :: ulong where
  "RTREE_SIGNIFICANCE_FACTOR = 2"

definition RTREE_MAX_SIZE :: ulong where
  "RTREE_MAX_SIZE = 2048"

definition RTREE_COOL_AGE :: ulong where
  "RTREE_COOL_AGE = 3"

record mrange =
  mr_start :: ulong
  mr_end :: ulong
  mr_age :: ulong
  nr_access :: ulong
  in_fmem :: ulong
  in_smem :: ulong

record 'mt range_tree =
  rt_len :: ulong
  rt_age :: ulong
  rt_min_range :: ulong
  rt_tree :: 'mt

datatype errno = ENOMEM | EEXIST | EINVAL

text \<open>
  \<open>Bug_unwrap\<close> is a failed \<open>UNWRAP\<close>, \<open>Bug_erase\<close> and \<open>Bug_edges\<close> are the two \<open>BUG_ON\<close> of
  \<open>rt_split\<close>; \<open>Bug_dangling\<close> is the access through a pointer to no live object, which in C is
  undefined.
\<close>

datatype bug = Bug_unwrap errno | Bug_erase | Bug_edges | Bug_dangling

type_synonym kheap = "ptr \<rightharpoonup> mrange"

text \<open>
  The kernel the module runs in.  \<open>mt_find\<close> returns the entry found and the updated search
  index.
\<close>

record 'mt kernel =
  mt_init :: 'mt
  mt_find :: "'mt \<Rightarrow> ulong \<Rightarrow> ulong \<Rightarrow> ptr option \<times> ulong"
  mt_find_after :: "'mt \<Rightarrow> ulong \<Rightarrow> ulong \<Rightarrow> ptr option \<times> ulong"
  mtree_insert_range :: "'mt \<Rightarrow> ulong \<Rightarrow> ulong \<Rightarrow> ptr \<Rightarrow> errno option \<times> 'mt"
  mtree_erase :: "'mt \<Rightarrow> ulong \<Rightarrow> ptr option \<times> 'mt"
  kmalloc :: "kheap \<Rightarrow> ptr option"
  num_online_cpus :: ulong
  rtree_split_thresh :: ulong

subsection \<open>Operations\<close>

definition round_down :: "ulong \<Rightarrow> ulong \<Rightarrow> ulong" where
  "round_down x y = x AND NOT (y - 1)"

definition round_up :: "ulong \<Rightarrow> ulong \<Rightarrow> ulong" where
  "round_up x y = ((x - 1) OR (y - 1)) + 1"

definition mrange_new ::
    "'mt kernel \<Rightarrow> kheap \<Rightarrow> ulong \<Rightarrow> ulong \<Rightarrow> ulong \<Rightarrow> ulong \<Rightarrow> errno + ptr \<times> kheap" where
  "mrange_new k h start fin age accesses = (case kmalloc k h of
      None \<Rightarrow> Inl ENOMEM
    | Some p \<Rightarrow> Inr (p, h(p \<mapsto> \<lparr>mr_start = start, mr_end = fin, mr_age = age, nr_access = accesses,
        in_fmem = 0, in_smem = 0\<rparr>)))"

definition mrange_drop :: "kheap \<Rightarrow> ptr \<Rightarrow> kheap" where
  "mrange_drop h p = h(p := None)"

definition mrange_freq :: "mrange \<Rightarrow> ulong" where
  "mrange_freq r = nr_access r * RTREE_GRANULARITY div (mr_end r - mr_start r + 1)"

text \<open>\<open>UNWRAP(mtree_insert_range(tree, start, end - 1, UNWRAP(mrange_new(...)), GFP_KERNEL))\<close>\<close>

definition insert_new_range ::
    "'mt kernel \<Rightarrow> 'mt \<Rightarrow> kheap \<Rightarrow> ulong \<Rightarrow> ulong \<Rightarrow> ulong \<Rightarrow> ulong \<Rightarrow> bug + ptr \<times> 'mt \<times> kheap" where
  "insert_new_range k t h start fin age accesses = (case mrange_new k h start fin age accesses of
      Inl e \<Rightarrow> Inl (Bug_unwrap e)
    | Inr (p, h') \<Rightarrow> (case mtree_insert_range k t start (fin - 1) p of
        (Some e, t') \<Rightarrow> Inl (Bug_unwrap e)
      | (None, t') \<Rightarrow> Inr (p, t', h')))"

definition rt_init ::
    "'mt kernel \<Rightarrow> kheap \<Rightarrow> ulong \<Rightarrow> ulong \<Rightarrow> bug + 'mt range_tree \<times> kheap" where
  "rt_init k h start fin =
    (let start = round_down start RTREE_GRANULARITY;
         fin = round_up fin RTREE_GRANULARITY in
     case insert_new_range k (mt_init k) h start fin 0 0 of
       Inl b \<Rightarrow> Inl b
     | Inr (p, t, h') \<Rightarrow>
         Inr (\<lparr>rt_len = 1, rt_age = 0, rt_min_range = fin - start, rt_tree = t\<rparr>, h'))"

definition rt_insert ::
    "'mt kernel \<Rightarrow> 'mt range_tree \<Rightarrow> kheap \<Rightarrow> ulong \<Rightarrow> ulong \<Rightarrow> bug + 'mt range_tree \<times> kheap" where
  "rt_insert k self h start fin =
    (let start = round_down start RTREE_GRANULARITY;
         fin = round_up fin RTREE_GRANULARITY in
     case insert_new_range k (rt_tree self) h start fin (rt_age self) 0 of
       Inl b \<Rightarrow> Inl b
     | Inr (p, t, h') \<Rightarrow> Inr (self\<lparr>rt_len := rt_len self + 1, rt_tree := t\<rparr>, h'))"

text \<open>The value returned is 0, or the code of the counter of erroneous samples.\<close>

definition PEBS_ERROR_CODE :: int where
  "PEBS_ERROR_CODE = 3"

definition rt_count ::
    "'mt kernel \<Rightarrow> 'mt range_tree \<Rightarrow> kheap \<Rightarrow> ulong \<Rightarrow> bug + int \<times> kheap" where
  "rt_count k self h addr = (case fst (mt_find k (rt_tree self) addr ULONG_MAX) of
      None \<Rightarrow> Inr (PEBS_ERROR_CODE, h)
    | Some p \<Rightarrow> (case h p of
        None \<Rightarrow> Inl Bug_dangling
      | Some r \<Rightarrow>
          if mr_start r > addr then Inr (PEBS_ERROR_CODE, h)
          else Inr (0, h(p \<mapsto> r\<lparr>nr_access := nr_access r + 1\<rparr>))))"

text \<open>First loop of \<open>rt_split\<close>: the access counts decay.\<close>

partial_function (option) rt_decay_loop ::
    "'mt kernel \<Rightarrow> 'mt \<Rightarrow> kheap \<Rightarrow> ptr option \<Rightarrow> ulong \<Rightarrow> (bug + kheap) option" where
  "rt_decay_loop k t h cur start = (case cur of
      None \<Rightarrow> Some (Inr h)
    | Some p \<Rightarrow> (case h p of
        None \<Rightarrow> Some (Inl Bug_dangling)
      | Some r \<Rightarrow>
          (let h' = h(p \<mapsto> r\<lparr>nr_access := nr_access r div 2\<rparr>);
               found = mt_find_after k t start ULONG_MAX in
           rt_decay_loop k t h' (fst found) (snd found))))"

text \<open>The conditions under which a range is split; \<open>prev\<close> and \<open>nxt\<close> are its neighbours.\<close>

definition significantly_above :: "'mt kernel \<Rightarrow> mrange option \<Rightarrow> mrange \<Rightarrow> bool" where
  "significantly_above k nb cur = (case nb of
      None \<Rightarrow> False
    | Some r \<Rightarrow> nr_access r + rtree_split_thresh k * num_online_cpus k * RTREE_SIGNIFICANCE_FACTOR
        < nr_access cur)"

definition rt_split_score :: "'mt kernel \<Rightarrow> mrange option \<Rightarrow> mrange \<Rightarrow> mrange option \<Rightarrow> int" where
  "rt_split_score k prev cur nxt =
    (if prev = None \<and> nxt = None then 1 else 0)
      + (if significantly_above k prev cur then 1 else 0)
      + (if significantly_above k nxt cur then 1 else 0)"

text \<open>A neighbour pointer is \<open>NULL\<close> or must point to a live object.\<close>

definition deref_opt :: "kheap \<Rightarrow> ptr option \<Rightarrow> mrange option option" where
  "deref_opt h q = (case q of None \<Rightarrow> Some None | Some p \<Rightarrow> map_option Some (h p))"

definition rt_wants_split ::
    "'mt kernel \<Rightarrow> kheap \<Rightarrow> ptr option \<Rightarrow> mrange \<Rightarrow> ptr option \<Rightarrow> bool option" where
  "rt_wants_split k h prev cur nxt =
    (if mr_end cur - mr_start cur < of_nat RTREE_SPLIT_N * RTREE_GRANULARITY then Some False
     else if nr_access cur < rtree_split_thresh k * num_online_cpus k then Some False
     else do {
       pr \<leftarrow> deref_opt h prev;
       nx \<leftarrow> deref_opt h nxt;
       Some (\<not> rt_split_score k pr cur nx < 1)
     })"

text \<open>The array \<open>edges\<close> from index \<open>i - 1\<close> on, with the \<open>BUG_ON\<close> that it increases.\<close>

fun rt_edges :: "mrange \<Rightarrow> ulong \<Rightarrow> nat \<Rightarrow> nat \<Rightarrow> ulong \<Rightarrow> bug + ulong list" where
  "rt_edges cur step i 0 e = Inr [e, mr_end cur]"
| "rt_edges cur step i (Suc n) e =
    (let e' = round_down (mr_start cur + of_nat i * step) RTREE_GRANULARITY in
     if e' \<le> e then Inl Bug_edges
     else case rt_edges cur step (i + 1) n e' of
         Inl b \<Rightarrow> Inl b
       | Inr es \<Rightarrow> Inr (e # es))"

text \<open>The insertion of the pieces between consecutive edges; the last one inserted is kept.\<close>

fun rt_insert_pieces ::
    "'mt kernel \<Rightarrow> ulong \<Rightarrow> ulong \<Rightarrow> ulong list \<Rightarrow> 'mt \<Rightarrow> kheap \<Rightarrow> ptr option \<Rightarrow> ulong
      \<Rightarrow> bug + 'mt \<times> kheap \<times> ptr option \<times> ulong" where
  "rt_insert_pieces k age accesses (a # b # es) t h ins min_range =
    (case insert_new_range k t h a b age accesses of
       Inl e \<Rightarrow> Inl e
     | Inr (p, t', h') \<Rightarrow>
         rt_insert_pieces k age accesses (b # es) t' h' (Some p) (min min_range (b - a)))"
| "rt_insert_pieces k age accesses es t h ins min_range = Inr (t, h, ins, min_range)"

text \<open>The splitting of the range \<open>cur\<close> at \<open>p\<close>.\<close>

definition rt_split_range ::
    "'mt kernel \<Rightarrow> 'mt range_tree \<Rightarrow> kheap \<Rightarrow> ptr \<Rightarrow> mrange
      \<Rightarrow> bug + 'mt range_tree \<times> kheap \<times> ptr option" where
  "rt_split_range k self h p cur =
    (let erased = mtree_erase k (rt_tree self) (mr_start cur) in
     if fst erased \<noteq> Some p then Inl Bug_erase
     else
       let age = rt_age self + 1;
           step = (mr_end cur - mr_start cur) div of_nat RTREE_SPLIT_N in
       (case rt_edges cur step 1 (RTREE_SPLIT_N - 1) (mr_start cur) of
          Inl b \<Rightarrow> Inl b
        | Inr edges \<Rightarrow>
            (case rt_insert_pieces k age (nr_access cur div of_nat RTREE_SPLIT_N) edges
                (snd erased) h None ULONG_MAX of
               Inl b \<Rightarrow> Inl b
             | Inr (t, h', ins, min_range) \<Rightarrow>
                 Inr (self\<lparr>rt_len := rt_len self + (of_nat RTREE_SPLIT_N - 1), rt_age := age,
                        rt_min_range := min (rt_min_range self) min_range, rt_tree := t\<rparr>,
                      mrange_drop h' p, ins))))"

text \<open>Second loop of \<open>rt_split\<close>.\<close>

partial_function (option) rt_split_loop ::
    "'mt kernel \<Rightarrow> 'mt range_tree \<Rightarrow> kheap \<Rightarrow> ptr option \<Rightarrow> ptr option \<Rightarrow> ptr option \<Rightarrow> ulong
      \<Rightarrow> (bug + 'mt range_tree \<times> kheap) option" where
  "rt_split_loop k self h prev cur nxt start = (case cur of
      None \<Rightarrow> Some (Inr (self, h))
    | Some p \<Rightarrow>
        if \<not> rt_len self < RTREE_MAX_SIZE then Some (Inr (self, h))
        else (case h p of
          None \<Rightarrow> Some (Inl Bug_dangling)
        | Some c \<Rightarrow> (case rt_wants_split k h prev c nxt of
            None \<Rightarrow> Some (Inl Bug_dangling)
          | Some split \<Rightarrow>
              if \<not> split then
                (let found = mt_find_after k (rt_tree self) start ULONG_MAX in
                 rt_split_loop k self h (Some p) nxt (fst found) (snd found))
              else (case rt_split_range k self h p c of
                Inl b \<Rightarrow> Some (Inl b)
              | Inr (self', h', ins) \<Rightarrow>
                  (let found = mt_find_after k (rt_tree self') start ULONG_MAX in
                   rt_split_loop k self' h' ins nxt (fst found) (snd found))))))"

declare rt_decay_loop.simps [code] rt_split_loop.simps [code]

definition rt_split ::
    "'mt kernel \<Rightarrow> 'mt range_tree \<Rightarrow> kheap \<Rightarrow> (bug + 'mt range_tree \<times> kheap) option" where
  "rt_split k self h =
    (let first = mt_find k (rt_tree self) 0 ULONG_MAX in
     case rt_decay_loop k (rt_tree self) h (fst first) (snd first) of
       None \<Rightarrow> None
     | Some (Inl b) \<Rightarrow> Some (Inl b)
     | Some (Inr h') \<Rightarrow>
         (let cur = mt_find k (rt_tree self) 0 ULONG_MAX;
              nxt = mt_find_after k (rt_tree self) (snd cur) ULONG_MAX in
          rt_split_loop k self h' None (fst cur) (fst nxt) (snd nxt)))"

definition rt_should_cool :: "'mt range_tree \<Rightarrow> mrange \<Rightarrow> bool" where
  "rt_should_cool self r \<longleftrightarrow> mr_age r + RTREE_COOL_AGE > rt_age self"

subsection \<open>What the kernel promises\<close>

text \<open>
  The content of a maple tree is its list of entries \<open>(first, last, pointer)\<close> in ascending
  order.
\<close>

type_synonym entry = "ulong \<times> ulong \<times> ptr"

fun mt_wf :: "entry list \<Rightarrow> bool" where
  "mt_wf [] = True"
| "mt_wf ((f, l, p) # es) \<longleftrightarrow> f \<le> l \<and> (\<forall>(f', l', p') \<in> set es. l < f') \<and> mt_wf es"

definition mt_find_spec :: "entry list \<Rightarrow> ulong \<Rightarrow> ptr option \<times> ulong" where
  "mt_find_spec es i = (case find (\<lambda>(f, l, p). i \<le> l) es of
      None \<Rightarrow> (None, i)
    | Some (f, l, p) \<Rightarrow> (Some p, l + 1))"

definition mt_insert_spec :: "ulong \<Rightarrow> ulong \<Rightarrow> ptr \<Rightarrow> entry list \<Rightarrow> entry list" where
  "mt_insert_spec f l p es =
    takeWhile (\<lambda>(f', _). f' < f) es @ (f, l, p) # dropWhile (\<lambda>(f', _). f' < f) es"

definition mt_free :: "ulong \<Rightarrow> ulong \<Rightarrow> entry list \<Rightarrow> bool" where
  "mt_free f l es \<longleftrightarrow> (\<forall>(f', l', p') \<in> set es. l < f' \<or> l' < f)"

definition kernel_laws :: "'mt kernel \<Rightarrow> ('mt \<Rightarrow> entry list) \<Rightarrow> bool" where
  "kernel_laws k entries \<longleftrightarrow>
    entries (mt_init k) = [] \<and>
    (\<forall>t. mt_wf (entries t)) \<and>
    (\<forall>t i. mt_find k t i ULONG_MAX = mt_find_spec (entries t) i) \<and>
    (\<forall>t i. mt_find_after k t i ULONG_MAX = (if i = 0 then (None, 0) else mt_find k t i ULONG_MAX)) \<and>
    (\<forall>t f l p. f \<le> l \<longrightarrow> (case mtree_insert_range k t f l p of
        (None, t') \<Rightarrow> mt_free f l (entries t) \<and> entries t' = mt_insert_spec f l p (entries t)
      | (Some e, t') \<Rightarrow> entries t' = entries t \<and>
          (e = ENOMEM \<or> e = EEXIST \<and> \<not> mt_free f l (entries t)))) \<and>
    (\<forall>t i. fst (mtree_erase k t i) =
        map_option (\<lambda>(f, l, p). p) (find (\<lambda>(f, l, p). f \<le> i \<and> i \<le> l) (entries t)) \<and>
      entries (snd (mtree_erase k t i)) =
        filter (\<lambda>(f, l, p). \<not> (f \<le> i \<and> i \<le> l)) (entries t)) \<and>
    (\<forall>h p. kmalloc k h = Some p \<longrightarrow> h p = None)"

lemma kernel_lawsD:
  assumes "kernel_laws k entries"
  shows "entries (mt_init k) = []"
    and "mt_wf (entries t)"
    and "mt_find k t i ULONG_MAX = mt_find_spec (entries t) i"
    and "i \<noteq> 0 \<Longrightarrow> mt_find_after k t i ULONG_MAX = mt_find_spec (entries t) i"
    and "fst (mtree_erase k t i) =
      map_option (\<lambda>(f, l, p). p) (find (\<lambda>(f, l, p). f \<le> i \<and> i \<le> l) (entries t))"
    and "entries (snd (mtree_erase k t i)) =
      filter (\<lambda>(f, l, p). \<not> (f \<le> i \<and> i \<le> l)) (entries t)"
    and "kmalloc k h = Some p \<Longrightarrow> h p = None"
  using assms by (simp_all add: kernel_laws_def)

lemma kernel_laws_insert:
  assumes "kernel_laws k entries" "f \<le> l"
  shows "case mtree_insert_range k t f l p of
        (None, t') \<Rightarrow> mt_free f l (entries t) \<and> entries t' = mt_insert_spec f l p (entries t)
      | (Some e, t') \<Rightarrow> entries t' = entries t \<and>
          (e = ENOMEM \<or> e = EEXIST \<and> \<not> mt_free f l (entries t))"
  using assms by (simp add: kernel_laws_def)

lemma mt_wf_append:
  "mt_wf (A @ B) \<longleftrightarrow> mt_wf A \<and> mt_wf B \<and>
    (\<forall>(f, l, p) \<in> set A. \<forall>(f', l', p') \<in> set B. l < f')"
  by (induction A rule: mt_wf.induct) auto

lemma mt_wf_ordered: "mt_wf es \<Longrightarrow> (f, l, p) \<in> set es \<Longrightarrow> f \<le> l"
  by (induction es rule: mt_wf.induct) auto

text \<open>Searching, inserting and erasing at a position of a well-formed entry list.\<close>

lemma mt_find_at:
  assumes "\<forall>(f, l, p) \<in> set A. l < i"
  shows "mt_find_spec (A @ B) i = mt_find_spec B i"
proof -
  have "find (\<lambda>(f, l, p). i \<le> l) A = None"
    using assms by (auto simp: find_None_iff not_le split: prod.splits)
  then show ?thesis
    by (induction A) (auto simp: mt_find_spec_def split: if_splits)
qed

lemma mt_insert_at:
  assumes "\<forall>(f', l', p') \<in> set A. f' < f" "\<forall>(f', l', p') \<in> set B. f < f'"
  shows "mt_insert_spec f l p (A @ B) = A @ (f, l, p) # B"
proof -
  have "takeWhile (\<lambda>(f', _). f' < f) (A @ B) = A @ takeWhile (\<lambda>(f', _). f' < f) B"
    "dropWhile (\<lambda>(f', _). f' < f) (A @ B) = dropWhile (\<lambda>(f', _). f' < f) B"
    using assms(1) by (induction A) auto
  moreover have "takeWhile (\<lambda>(f', _). f' < f) B = []" "dropWhile (\<lambda>(f', _). f' < f) B = B"
    using assms(2) by (cases B; force)+
  ultimately show ?thesis by (simp add: mt_insert_spec_def)
qed

lemma mt_erase_at:
  assumes "mt_wf (A @ (f, l, p) # B)"
  shows "find (\<lambda>(f', l', p'). f' \<le> f \<and> f \<le> l') (A @ (f, l, p) # B) = Some (f, l, p)"
    and "filter (\<lambda>(f', l', p'). \<not> (f' \<le> f \<and> f \<le> l')) (A @ (f, l, p) # B) = A @ B"
proof -
  have A: "\<forall>(f', l', p') \<in> set A. l' < f" and B: "\<forall>(f', l', p') \<in> set B. f < f'" and "f \<le> l"
    using assms by (force simp: mt_wf_append)+
  have "find (\<lambda>(f', l', p'). f' \<le> f \<and> f \<le> l') A = None"
    using A by (force simp: find_None_iff)
  then show "find (\<lambda>(f', l', p'). f' \<le> f \<and> f \<le> l') (A @ (f, l, p) # B) = Some (f, l, p)"
    using \<open>f \<le> l\<close> by (induction A) (auto split: if_splits)
  show "filter (\<lambda>(f', l', p'). \<not> (f' \<le> f \<and> f \<le> l')) (A @ (f, l, p) # B) = A @ B"
  proof -
    have "filter (\<lambda>(f', l', p'). \<not> (f' \<le> f \<and> f \<le> l')) A = A"
      "filter (\<lambda>(f', l', p'). \<not> (f' \<le> f \<and> f \<le> l')) B = B"
      using A B by (force simp: filter_id_conv)+
    then show ?thesis using \<open>f \<le> l\<close> by simp
  qed
qed

subsection \<open>Aligned ranges\<close>

definition aligned :: "ulong \<Rightarrow> bool" where
  "aligned x \<longleftrightarrow> 2 ^ 21 dvd unat x"

definition mrange_wf :: "mrange \<Rightarrow> bool" where
  "mrange_wf r \<longleftrightarrow> mr_start r < mr_end r \<and> aligned (mr_start r) \<and> aligned (mr_end r)"

definition mr_addrs :: "mrange \<Rightarrow> ulong set" where
  "mr_addrs r = {mr_start r..<mr_end r}"

lemma unat_gran [simp]: "unat RTREE_GRANULARITY = 2 ^ 21"
  by (simp add: RTREE_GRANULARITY_def)

lemma unat_round_down: "unat (round_down x RTREE_GRANULARITY) = unat x - unat x mod 2 ^ 21"
proof -
  have "RTREE_GRANULARITY - 1 = (mask 21 :: ulong)"
    by (simp add: RTREE_GRANULARITY_def mask_eq_exp_minus_1)
  then show ?thesis
    by (simp only: round_down_def unat_and_not_mask)
qed

lemma round_down_facts:
  "aligned (round_down x RTREE_GRANULARITY)"
  "round_down x RTREE_GRANULARITY \<le> x"
  "unat x < unat (round_down x RTREE_GRANULARITY) + 2 ^ 21"
proof -
  have m: "unat x mod 2 ^ 21 < 2 ^ 21" by simp
  then show "unat x < unat (round_down x RTREE_GRANULARITY) + 2 ^ 21"
    by (simp add: unat_round_down)
  show "aligned (round_down x RTREE_GRANULARITY)"
    by (simp only: aligned_def unat_round_down dvd_minus_mod)
  show "round_down x RTREE_GRANULARITY \<le> x"
    by (simp add: word_le_nat_alt unat_round_down)
qed

text \<open>The cut of a range of at least two granules lies properly inside it.\<close>

definition mid_of :: "mrange \<Rightarrow> ulong" where
  "mid_of c = round_down (mr_start c + (mr_end c - mr_start c) div 2) RTREE_GRANULARITY"

lemma mid_of_inside:
  assumes "mr_start c < mr_end c" "\<not> mr_end c - mr_start c < 2 * RTREE_GRANULARITY"
  shows "mr_start c < mid_of c" "mid_of c < mr_end c" "aligned (mid_of c)"
proof -
  define a b where "a = unat (mr_start c)" and "b = unat (mr_end c)"
  have ab: "a < b" using assms(1) by (simp add: a_def b_def word_less_nat_alt)
  have len: "unat (mr_end c - mr_start c) = b - a"
    using assms(1) by (simp add: a_def b_def unat_sub less_imp_le)
  have "2 ^ 22 \<le> b - a"
  proof -
    have "(2 * RTREE_GRANULARITY :: ulong) = 2 ^ 22"
      by (simp add: RTREE_GRANULARITY_def)
    moreover have "unat (2 ^ 22 :: ulong) = 2 ^ 22" by simp
    ultimately show ?thesis
      using assms(2) len by (simp add: word_less_nat_alt not_less)
  qed
  have x: "unat (mr_start c + (mr_end c - mr_start c) div 2) = a + (b - a) div 2"
  proof -
    have "b < 2 ^ 64" using unsigned_less [of "mr_end c", where 'a = nat] by (simp add: b_def)
    then have "a + (b - a) div 2 < 2 ^ 64" using ab by linarith
    then show ?thesis
      by (subst unat_add_no_wrap) (simp_all add: unat_div len a_def)
  qed
  have "a < unat (mid_of c)" "unat (mid_of c) < b"
    using round_down_facts(2,3) [of "mr_start c + (mr_end c - mr_start c) div 2"] \<open>2 ^ 22 \<le> b - a\<close>
    by (simp_all add: mid_of_def [symmetric] word_le_nat_alt x)
  then show "mr_start c < mid_of c" "mid_of c < mr_end c"
    by (simp_all add: a_def b_def word_less_nat_alt)
  show "aligned (mid_of c)" by (simp add: mid_of_def round_down_facts(1))
qed

lemma rt_edges_two:
  assumes "mr_start c < mr_end c" "\<not> mr_end c - mr_start c < 2 * RTREE_GRANULARITY"
  shows "rt_edges c ((mr_end c - mr_start c) div of_nat RTREE_SPLIT_N) 1 (RTREE_SPLIT_N - 1) (mr_start c)
    = Inr [mr_start c, mid_of c, mr_end c]"
  using mid_of_inside(1) [OF assms]
  by (simp add: RTREE_SPLIT_N_def mid_of_def numeral_2_eq_2 not_le Let_def)

subsection \<open>Inserting at a position\<close>

definition fresh_range :: "ulong \<Rightarrow> ulong \<Rightarrow> ulong \<Rightarrow> ulong \<Rightarrow> mrange" where
  "fresh_range a b age n =
    \<lparr>mr_start = a, mr_end = b, mr_age = age, nr_access = n, in_fmem = 0, in_smem = 0\<rparr>"

lemma word_pred_facts:
  assumes "a < (b :: ulong)"
  shows "a \<le> b - 1" "b - 1 < b" "b - 1 + 1 = b" "b - 1 < x \<longleftrightarrow> b \<le> x"
proof -
  have "0 < unat b" using assms by (simp add: word_less_nat_alt)
  then have "unat (b - 1) = unat b - 1"
    by (simp add: unat_sub word_le_nat_alt)
  with assms \<open>0 < unat b\<close> show "a \<le> b - 1" "b - 1 < b" "b - 1 + 1 = b" "b - 1 < x \<longleftrightarrow> b \<le> x"
    by (auto simp: word_le_nat_alt word_less_nat_alt)
qed

lemma insert_new_range_at:
  assumes laws: "kernel_laws k entries" and "entries t = A @ B" "a < b"
    and A: "\<forall>(f, l, p) \<in> set A. f \<le> l \<and> l < a" and B: "\<forall>(f, l, p) \<in> set B. b \<le> f"
  shows "insert_new_range k t h a b age n = Inl (Bug_unwrap ENOMEM) \<or>
    (\<exists>p t'. insert_new_range k t h a b age n = Inr (p, t', h(p \<mapsto> fresh_range a b age n)) \<and>
      h p = None \<and> entries t' = A @ (a, b - 1, p) # B)"
proof (cases "kmalloc k h")
  case None
  then show ?thesis by (simp add: insert_new_range_def mrange_new_def)
next
  case (Some p)
  note pred = word_pred_facts [OF \<open>a < b\<close>]
  have free: "mt_free a (b - 1) (entries t)"
    using A B pred(2) assms(2) by (fastforce simp: mt_free_def)
  have ins: "mt_insert_spec a (b - 1) p (entries t) = A @ (a, b - 1, p) # B"
    unfolding assms(2) using A B \<open>a < b\<close> by (intro mt_insert_at) fastforce+
  show ?thesis
    using kernel_laws_insert [OF laws pred(1), of t p] free ins kernel_lawsD(7) [OF laws Some] Some
    by (auto simp: insert_new_range_def mrange_new_def fresh_range_def split: prod.splits option.splits)
qed

subsection \<open>The tree as a sorted list of ranges\<close>

abbreviation ptrs :: "entry list \<Rightarrow> ptr list" where
  "ptrs \<equiv> map (\<lambda>(f, l, p). p)"

fun entry_rel :: "kheap \<Rightarrow> entry \<Rightarrow> mrange \<Rightarrow> bool" where
  "entry_rel h (f, l, p) r \<longleftrightarrow>
    h p = Some r \<and> f = mr_start r \<and> l = mr_end r - 1 \<and> mrange_wf r"

definition rt_rel :: "('mt \<Rightarrow> entry list) \<Rightarrow> 'mt range_tree \<Rightarrow> kheap \<Rightarrow> mrange list \<Rightarrow> bool" where
  "rt_rel entries self h rs \<longleftrightarrow>
    list_all2 (entry_rel h) (entries (rt_tree self)) rs \<and> distinct (ptrs (entries (rt_tree self))) \<and>
    length rs \<le> 2048 \<and> rt_len self = of_nat (length rs)"

lemma entry_rel_cong:
  "list_all2 (entry_rel h) E rs \<Longrightarrow> (\<And>p. p \<in> set (ptrs E) \<Longrightarrow> h' p = h p) \<Longrightarrow>
    list_all2 (entry_rel h') E rs"
  by (induction rule: list_all2_induct) auto

lemma entry_rel_upd_other:
  "list_all2 (entry_rel h) E rs \<Longrightarrow> p \<notin> set (ptrs E) \<Longrightarrow> list_all2 (entry_rel (h(p := x))) E rs"
  by (erule entry_rel_cong) (metis fun_upd_other)

lemma entry_rel_live: "list_all2 (entry_rel h) E rs \<Longrightarrow> p \<in> set (ptrs E) \<Longrightarrow> h p \<noteq> None"
  by (induction rule: list_all2_induct) (auto simp: rev_image_eqI)

text \<open>The two ranges a split produces.\<close>

definition split_pieces :: "ulong \<Rightarrow> mrange \<Rightarrow> mrange list" where
  "split_pieces age c =
    [fresh_range (mr_start c) (mid_of c) age (nr_access c div 2),
     fresh_range (mid_of c) (mr_end c) age (nr_access c div 2)]"

lemma fresh_range_sel [simp]:
  "mr_start (fresh_range a b age n) = a" "mr_end (fresh_range a b age n) = b"
  "nr_access (fresh_range a b age n) = n" "mr_age (fresh_range a b age n) = age"
  by (simp_all add: fresh_range_def)

lemma rt_split_range_ok:
  assumes laws: "kernel_laws k entries"
    and E: "entries (rt_tree self) = E1 @ (f, l, p) # E2"
    and rel: "list_all2 (entry_rel h) E1 rs1" "entry_rel h (f, l, p) c" "list_all2 (entry_rel h) E2 rs2"
    and dist: "distinct (ptrs (E1 @ (f, l, p) # E2))"
    and big: "\<not> mr_end c - mr_start c < 2 * RTREE_GRANULARITY"
  shows "rt_split_range k self h p c = Inl (Bug_unwrap ENOMEM) \<or>
    (\<exists>self' h' p1 p2. let E' = [(mr_start c, mid_of c - 1, p1), (mid_of c, mr_end c - 1, p2)] in
      rt_split_range k self h p c = Inr (self', h', Some p2) \<and>
      entries (rt_tree self') = E1 @ E' @ E2 \<and>
      list_all2 (entry_rel h') E1 rs1 \<and> list_all2 (entry_rel h') E' (split_pieces (rt_age self + 1) c) \<and>
      list_all2 (entry_rel h') E2 rs2 \<and> distinct (ptrs (E1 @ E' @ E2)) \<and>
      rt_len self' = rt_len self + 1 \<and> rt_age self' = rt_age self + 1 \<and>
      rt_min_range self' =
        min (rt_min_range self) (min (mid_of c - mr_start c) (mr_end c - mid_of c)))"
proof -
  define n age r1 r2 where "n = nr_access c div 2" and "age = rt_age self + 1"
    and "r1 = fresh_range (mr_start c) (mid_of c) age n"
    and "r2 = fresh_range (mid_of c) (mr_end c) age n"
  have c: "mr_start c < mr_end c" "aligned (mr_start c)" "aligned (mr_end c)"
    and f: "f = mr_start c" and l: "l = mr_end c - 1" and hp: "h p = Some c"
    using rel(2) by (simp_all add: mrange_wf_def)
  note mid = mid_of_inside [OF c(1) big]
  note wf = kernel_lawsD(2) [OF laws, of "rt_tree self", unfolded E]
  have A: "\<forall>(f', l', p') \<in> set E1. f' \<le> l' \<and> l' < mr_start c"
    using wf mt_wf_ordered f by (fastforce simp: mt_wf_append)
  have B: "\<forall>(f', l', p') \<in> set E2. mr_end c \<le> f'"
    using wf word_pred_facts(4) [OF c(1)] by (fastforce simp: mt_wf_append l)
  define t where "t = snd (mtree_erase k (rt_tree self) (mr_start c))"
  have er: "fst (mtree_erase k (rt_tree self) (mr_start c)) = Some p" and t: "entries t = E1 @ E2"
    using kernel_lawsD(5,6) [OF laws, of "rt_tree self" "mr_start c"] mt_erase_at [OF wf]
    by (simp_all add: t_def E f)
  have split: "rt_split_range k self h p c =
    (case insert_new_range k t h (mr_start c) (mid_of c) age n of
       Inl b \<Rightarrow> Inl b
     | Inr (p1, t1, h1) \<Rightarrow> (case insert_new_range k t1 h1 (mid_of c) (mr_end c) age n of
         Inl b \<Rightarrow> Inl b
       | Inr (p2, t2, h2) \<Rightarrow>
           Inr (self\<lparr>rt_len := rt_len self + 1, rt_age := age, rt_min_range := min (rt_min_range self)
             (min (mid_of c - mr_start c) (mr_end c - mid_of c)), rt_tree := t2\<rparr>, mrange_drop h2 p, Some p2)))"
    unfolding rt_split_range_def Let_def rt_edges_two [OF c(1) big]
    by (simp add: er t_def [symmetric] age_def n_def RTREE_SPLIT_N_def split: sum.splits prod.splits)
  consider "insert_new_range k t h (mr_start c) (mid_of c) age n = Inl (Bug_unwrap ENOMEM)"
    | p1 t1 where "insert_new_range k t h (mr_start c) (mid_of c) age n = Inr (p1, t1, h(p1 \<mapsto> r1))"
      "h p1 = None" "entries t1 = E1 @ (mr_start c, mid_of c - 1, p1) # E2"
    using insert_new_range_at [OF laws t mid(1), of h age n] A B mid(2) unfolding r1_def by fastforce
  then show ?thesis
  proof cases
    case 1
    then show ?thesis by (simp add: split)
  next
    case (2 p1 t1)
    have t1: "entries t1 = (E1 @ [(mr_start c, mid_of c - 1, p1)]) @ E2"
      using 2(3) by simp
    have A1: "\<forall>(f', l', p') \<in> set (E1 @ [(mr_start c, mid_of c - 1, p1)]). f' \<le> l' \<and> l' < mid_of c"
      using A mid(1) word_pred_facts(1,2) [OF mid(1)] by fastforce
    consider "insert_new_range k t1 (h(p1 \<mapsto> r1)) (mid_of c) (mr_end c) age n = Inl (Bug_unwrap ENOMEM)"
      | p2 t2 where "insert_new_range k t1 (h(p1 \<mapsto> r1)) (mid_of c) (mr_end c) age n
            = Inr (p2, t2, h(p1 \<mapsto> r1, p2 \<mapsto> r2))" "(h(p1 \<mapsto> r1)) p2 = None"
          "entries t2 = (E1 @ [(mr_start c, mid_of c - 1, p1)]) @ (mid_of c, mr_end c - 1, p2) # E2"
      using insert_new_range_at [OF laws t1 mid(2) A1 B, of "h(p1 \<mapsto> r1)" age n] unfolding r2_def by blast
    then show ?thesis
    proof cases
      case 1
      with 2 show ?thesis by (simp add: split)
    next
      case (2 p2 t2)
      have new: "p1 \<noteq> p2" "p1 \<noteq> p" "p2 \<noteq> p" "h p2 = None"
        using 2(2) \<open>h p1 = None\<close> hp by (auto split: if_splits)
      have keep: "list_all2 (entry_rel ((h(p1 \<mapsto> r1, p2 \<mapsto> r2))(p := None))) E rs"
        if "list_all2 (entry_rel h) E rs" "p \<notin> set (ptrs E)" for E rs
      proof (rule entry_rel_cong [OF that(1)])
        fix q
        assume "q \<in> set (ptrs E)"
        then have "q \<noteq> p" "h q \<noteq> None"
          using that(2) entry_rel_live [OF that(1)] by blast+
        with new \<open>h p1 = None\<close> show "((h(p1 \<mapsto> r1, p2 \<mapsto> r2))(p := None)) q = h q"
          by auto
      qed
      have notin: "p1 \<notin> set (ptrs E)" "p2 \<notin> set (ptrs E)" if "list_all2 (entry_rel h) E rs" for E rs
        using entry_rel_live [OF that] \<open>h p1 = None\<close> new by blast+
      show ?thesis
        using 2 \<open>insert_new_range k t h (mr_start c) (mid_of c) age n = Inr (p1, t1, h(p1 \<mapsto> r1))\<close>
          keep [OF rel(1)] keep [OF rel(3)] notin [OF rel(1)] notin [OF rel(3)] dist new mid c
        by (auto simp: split Let_def split_pieces_def mrange_drop_def age_def r1_def r2_def n_def mrange_wf_def)
    qed
  qed
qed

subsection \<open>The splitting pass on lists\<close>

definition spec_wants :: "'mt kernel \<Rightarrow> mrange option \<Rightarrow> mrange \<Rightarrow> mrange option \<Rightarrow> bool" where
  "spec_wants k prev c nxt \<longleftrightarrow>
    \<not> mr_end c - mr_start c < 2 * RTREE_GRANULARITY \<and>
    \<not> nr_access c < rtree_split_thresh k * num_online_cpus k \<and>
    1 \<le> rt_split_score k prev c nxt"

fun hd_opt :: "'a list \<Rightarrow> 'a option" where
  "hd_opt [] = None"
| "hd_opt (x # xs) = Some x"

text \<open>
  The pass over the ranges from left to right: \<open>len\<close> is the number of ranges in the whole tree,
  and the result is the new list with the new age and minimal range.
\<close>

fun spec_split :: "'mt kernel \<Rightarrow> mrange option \<Rightarrow> nat \<Rightarrow> ulong \<Rightarrow> ulong \<Rightarrow> mrange list
    \<Rightarrow> mrange list \<times> ulong \<times> ulong" where
  "spec_split k prev len age mr [] = ([], age, mr)"
| "spec_split k prev len age mr (c # rs) =
    (if 2048 \<le> len then (c # rs, age, mr)
     else if spec_wants k prev c (hd_opt rs) then
       (let ps = split_pieces (age + 1) c;
            mr' = min mr (min (mid_of c - mr_start c) (mr_end c - mid_of c));
            (out, res) = spec_split k (Some (last ps)) (len + 1) (age + 1) mr' rs in
        (ps @ out, res))
     else
       (let (out, res) = spec_split k (Some c) len age mr rs in (c # out, res)))"

definition decay :: "mrange \<Rightarrow> mrange" where
  "decay r = r\<lparr>nr_access := nr_access r div 2\<rparr>"

abbreviation hd_ptr :: "entry list \<Rightarrow> ptr option" where
  "hd_ptr E \<equiv> hd_opt (ptrs E)"

text \<open>The search index while the loop stands at the first of the remaining entries.\<close>

fun start_ok :: "entry list \<Rightarrow> ulong \<Rightarrow> bool" where
  "start_ok [] st = True"
| "start_ok [(f, l, p)] st \<longleftrightarrow> st = l + 1"
| "start_ok (_ # (f, l, p) # E) st \<longleftrightarrow> st = l + 1"

lemma entry_rel_no_wrap:
  "list_all2 (entry_rel h) E rs \<Longrightarrow> (f, l, p) \<in> set E \<Longrightarrow> l + 1 \<noteq> 0"
proof (induction rule: list_all2_induct)
  case (Cons e E r rs)
  have "l + 1 = mr_end r" "mr_end r \<noteq> 0" if "e = (f, l, p)"
    using Cons.hyps that by (auto simp: mrange_wf_def)
  with Cons show ?case by auto
qed simp

lemma index_after:
  assumes "l + 1 \<noteq> (0 :: ulong)"
  shows "l < x \<longleftrightarrow> l + 1 \<le> x"
  using assms by (auto simp: inc_less_eq_iff)

lemma mt_find_hd:
  assumes "i \<le> l"
  shows "mt_find_spec ((f, l, p) # E) i = (Some p, l + 1)"
  using assms by (simp add: mt_find_spec_def)

lemma find_next:
  assumes laws: "kernel_laws k entries" and E: "entries t = A @ e # B"
    and no_wrap: "\<And>f l p. (f, l, p) \<in> set (e # B) \<Longrightarrow> l + 1 \<noteq> 0" and st: "start_ok (e # B) st"
  shows "fst (mt_find_after k t st ULONG_MAX) = hd_ptr (tl B) \<and>
    start_ok B (snd (mt_find_after k t st ULONG_MAX))"
proof -
  note wf = kernel_lawsD(2) [OF laws, of t, unfolded E]
  note after = kernel_lawsD(4) [OF laws, of _ t, unfolded E]
  show ?thesis
  proof (cases B)
    case Nil
    obtain f l p where e: "e = (f, l, p)" by (cases e)
    have nz: "l + 1 \<noteq> 0" using no_wrap [of f l p] e by simp
    have "\<forall>(f', l', p') \<in> set (A @ [e]). l' < l + 1"
      using wf e Nil index_after [OF nz] mt_wf_ordered [of A] by (fastforce simp: mt_wf_append)
    then have "mt_find_spec ((A @ [e]) @ []) (l + 1) = (None, l + 1)"
      by (subst mt_find_at) (simp_all add: mt_find_spec_def)
    with st e nz after [of "l + 1"] Nil show ?thesis by simp
  next
    case (Cons n B')
    obtain f l p where n: "n = (f, l, p)" by (cases n)
    obtain fe le pe where e: "e = (fe, le, pe)" by (cases e)
    have nz: "l + 1 \<noteq> 0" using no_wrap [of f l p] n Cons by simp
    have "\<forall>(f', l', p') \<in> set (A @ [e, n]). l' < l + 1"
      using wf e n Cons index_after [OF nz] mt_wf_ordered [of A] by (fastforce simp: mt_wf_append)
    then have "mt_find_spec ((A @ [e, n]) @ B') (l + 1) = mt_find_spec B' (l + 1)"
      by (rule mt_find_at)
    then have found: "mt_find_after k t st ULONG_MAX = mt_find_spec B' (l + 1)"
      using after [of "l + 1"] nz st n e Cons by simp
    show ?thesis
    proof (cases B')
      case Nil
      then show ?thesis using found n Cons by (simp add: mt_find_spec_def)
    next
      case (Cons m B'')
      obtain fm lm pm where m: "m = (fm, lm, pm)" by (cases m)
      have "l < fm" "fm \<le> lm"
        using wf e n m \<open>B = n # B'\<close> Cons by (auto simp: mt_wf_append)
      then have "l + 1 \<le> lm" using index_after [OF nz, of fm] by auto
      then show ?thesis using found n m \<open>B = n # B'\<close> Cons by (simp add: mt_find_hd)
    qed
  qed
qed

lemma rt_wants_split_spec:
  assumes "deref_opt h prev = Some pr" "deref_opt h nxt = Some nx"
  shows "rt_wants_split k h prev c nxt = Some (spec_wants k pr c nx)"
  using assms by (auto simp: rt_wants_split_def spec_wants_def RTREE_SPLIT_N_def)

lemma deref_hd_ptr:
  assumes "list_all2 (entry_rel h) E rs"
  shows "deref_opt h (hd_ptr E) = Some (hd_opt rs)"
  using assms by (cases E; cases rs) (auto simp: deref_opt_def)

lemma rt_split_loop_ok:
  assumes laws: "kernel_laws k entries"
  shows "entries (rt_tree self) = E1 @ E2 \<Longrightarrow>
    list_all2 (entry_rel h) E1 rs1 \<Longrightarrow> list_all2 (entry_rel h) E2 rs2 \<Longrightarrow> distinct (ptrs (E1 @ E2)) \<Longrightarrow>
    rt_len self = of_nat (length rs1 + length rs2) \<Longrightarrow> length rs1 + length rs2 \<le> 2048 \<Longrightarrow>
    deref_opt h prev = Some pm \<Longrightarrow> start_ok E2 st \<Longrightarrow>
    spec_split k pm (length rs1 + length rs2) (rt_age self) (rt_min_range self) rs2 = (out, age, mr) \<Longrightarrow>
    \<exists>res. rt_split_loop k self h prev (hd_ptr E2) (hd_ptr (tl E2)) st = Some res \<and>
      (res = Inl (Bug_unwrap ENOMEM) \<or>
       (\<exists>self' h'. res = Inr (self', h') \<and> rt_rel entries self' h' (rs1 @ out) \<and>
          rt_age self' = age \<and> rt_min_range self' = mr))"
proof (induction rs2 arbitrary: self h E1 E2 rs1 prev pm st out)
  case Nil
  then have "E2 = []" by simp
  with Nil show ?case
    by (subst rt_split_loop.simps) (simp add: rt_rel_def)
next
  case (Cons c rs2)
  then obtain f l p E3 where E2: "E2 = (f, l, p) # E3"
    and relc: "entry_rel h (f, l, p) c" and rel3: "list_all2 (entry_rel h) E3 rs2"
    by (cases E2) auto
  have hp: "h p = Some c" using relc by simp
  have len: "rt_len self < RTREE_MAX_SIZE \<longleftrightarrow> \<not> 2048 \<le> length rs1 + length (c # rs2)"
  proof -
    have "unat (rt_len self) = length rs1 + length (c # rs2)"
      using Cons.prems(5,6) by (simp only:) (rule unat_of_nat_small, simp)
    then show ?thesis by (simp only: RTREE_MAX_SIZE_def word_less_nat_alt) auto
  qed
  show ?case
  proof (cases "2048 \<le> length rs1 + length (c # rs2)")
    case True
    then have "out = c # rs2" "age = rt_age self" "mr = rt_min_range self"
      using Cons.prems(9) by auto
    then have "rt_rel entries self h (rs1 @ out)"
      using Cons.prems(1-6) by (auto simp: rt_rel_def list_all2_appendI)
    moreover have "rt_split_loop k self h prev (hd_ptr E2) (hd_ptr (tl E2)) st = Some (Inr (self, h))"
      using True len by (subst rt_split_loop.simps) (simp add: E2)
    ultimately show ?thesis using Cons.prems(9) True by auto
  next
    case False
    have wants: "rt_wants_split k h prev c (hd_ptr E3) = Some (spec_wants k pm c (hd_opt rs2))"
      using Cons.prems(7) deref_hd_ptr [OF rel3] by (rule rt_wants_split_spec)
    have no_wrap: "l' + 1 \<noteq> 0" if "(f', l', p') \<in> set ((f, l, p) # E3)" for f' l' p'
      using entry_rel_no_wrap [OF Cons.prems(3)] that E2 by blast
    show ?thesis
    proof (cases "spec_wants k pm c (hd_opt rs2)")
      case nosplit: False
      define found where "found = mt_find_after k (rt_tree self) st ULONG_MAX"
      have found: "fst found = hd_ptr (tl E3)" "start_ok E3 (snd found)"
        using find_next [OF laws, of "rt_tree self" E1 "(f, l, p)" E3 st] Cons.prems(1,8) no_wrap E2
        by (simp_all add: found_def)
      have loop: "rt_split_loop k self h prev (hd_ptr E2) (hd_ptr (tl E2)) st =
          rt_split_loop k self h (Some p) (hd_ptr E3) (fst found) (snd found)"
        using wants nosplit False len hp
        by (subst rt_split_loop.simps) (simp add: E2 found_def Let_def)
      obtain out' where out: "out = c # out'"
        and spec: "spec_split k (Some c) (length (rs1 @ [c]) + length rs2) (rt_age self) (rt_min_range self) rs2
          = (out', age, mr)"
        using Cons.prems(9) nosplit False by (auto split: prod.splits)
      show ?thesis
        unfolding loop found(1) out
        using Cons.IH [of self "E1 @ [(f, l, p)]" E3 h "rs1 @ [c]" "Some p" "Some c" "snd found" out']
          Cons.prems relc rel3 found(2) spec hp
        by (simp add: E2 deref_opt_def list_all2_appendI)
    next
      case True
      then have big: "\<not> mr_end c - mr_start c < 2 * RTREE_GRANULARITY"
        by (simp add: spec_wants_def)
      let ?ps = "split_pieces (rt_age self + 1) c"
      obtain out' where out: "out = ?ps @ out'"
        and spec: "spec_split k (Some (last ?ps)) (length (rs1 @ ?ps) + length rs2) (rt_age self + 1)
          (min (rt_min_range self) (min (mid_of c - mr_start c) (mr_end c - mid_of c))) rs2 = (out', age, mr)"
        using Cons.prems(9) True False by (auto simp: Let_def split_pieces_def split: prod.splits)
      have dist: "distinct (ptrs (E1 @ (f, l, p) # E3))" using Cons.prems(4) E2 by simp
      have step: "rt_split_loop k self h prev (hd_ptr E2) (hd_ptr (tl E2)) st =
          (case rt_split_range k self h p c of
             Inl b \<Rightarrow> Some (Inl b)
           | Inr (self', h', ins) \<Rightarrow>
               (let found = mt_find_after k (rt_tree self') st ULONG_MAX in
                rt_split_loop k self' h' ins (hd_ptr E3) (fst found) (snd found)))"
        using wants True False len hp unfolding E2 list.sel
        by (subst rt_split_loop.simps) simp
      consider "rt_split_range k self h p c = Inl (Bug_unwrap ENOMEM)"
        | self' h' p1 p2 E' where "E' = [(mr_start c, mid_of c - 1, p1), (mid_of c, mr_end c - 1, p2)]"
          "rt_split_range k self h p c = Inr (self', h', Some p2)"
          "entries (rt_tree self') = E1 @ E' @ E3"
          "list_all2 (entry_rel h') E1 rs1" "list_all2 (entry_rel h') E' ?ps"
          "list_all2 (entry_rel h') E3 rs2" "distinct (ptrs (E1 @ E' @ E3))"
          "rt_len self' = rt_len self + 1" "rt_age self' = rt_age self + 1"
          "rt_min_range self' =
            min (rt_min_range self) (min (mid_of c - mr_start c) (mr_end c - mid_of c))"
        using rt_split_range_ok [OF laws Cons.prems(1) [unfolded E2] Cons.prems(2) relc rel3 dist big]
        unfolding Let_def by blast
      then show ?thesis
      proof cases
        case 1
        then show ?thesis by (simp add: step)
      next
        case (2 self' h' p1 p2 E')
        define found where "found = mt_find_after k (rt_tree self') st ULONG_MAX"
        have "start_ok ((mid_of c, mr_end c - 1, p2) # E3) st"
          using Cons.prems(8) relc by (cases E3) (auto simp: E2)
        moreover have "l' + 1 \<noteq> 0" if "(f', l', p') \<in> set ((mid_of c, mr_end c - 1, p2) # E3)" for f' l' p'
          using no_wrap that relc by (auto)
        ultimately have found: "fst found = hd_ptr (tl E3)" "start_ok E3 (snd found)"
          using find_next [OF laws, of "rt_tree self'" "E1 @ [(mr_start c, mid_of c - 1, p1)]"
            "(mid_of c, mr_end c - 1, p2)" E3 st] 2(1,3) by (simp_all add: found_def)
        have "deref_opt h' (Some p2) = Some (Some (last ?ps))"
          using 2(1,5) by (auto simp: deref_opt_def split_pieces_def)
        moreover have "rt_len self' = of_nat (length (rs1 @ ?ps) + length rs2)"
          "length (rs1 @ ?ps) + length rs2 \<le> 2048"
          using 2(8) Cons.prems(5,6) False by (simp_all add: split_pieces_def)
        ultimately show ?thesis
          using Cons.IH [of self' "E1 @ E'" E3 h' "rs1 @ ?ps" "Some p2" "Some (last ?ps)" "snd found" out']
            2 found spec by (simp add: step out found_def [symmetric] list_all2_appendI)
      qed
    qed
  qed
qed

lemma rt_decay_loop_ok:
  assumes laws: "kernel_laws k entries"
  shows "entries t = E1 @ E2 \<Longrightarrow> distinct (ptrs (E1 @ E2)) \<Longrightarrow>
    list_all2 (entry_rel h) E1 rs1 \<Longrightarrow> list_all2 (entry_rel h) E2 rs2 \<Longrightarrow>
    start_ok (take 1 E2) st \<Longrightarrow>
    \<exists>h'. rt_decay_loop k t h (hd_ptr E2) st = Some (Inr h') \<and>
      list_all2 (entry_rel h') (E1 @ E2) (rs1 @ map decay rs2)"
proof (induction rs2 arbitrary: h E1 E2 rs1 st)
  case Nil
  then show ?case by (subst rt_decay_loop.simps) simp
next
  case (Cons c rs2)
  then obtain f l p E3 where E2: "E2 = (f, l, p) # E3"
    and relc: "entry_rel h (f, l, p) c" and rel3: "list_all2 (entry_rel h) E3 rs2"
    by (cases E2) auto
  define h' where "h' = h(p \<mapsto> decay c)"
  define found where "found = mt_find_after k t st ULONG_MAX"
  have "l + 1 \<noteq> 0" using entry_rel_no_wrap [OF Cons.prems(4), of f l p] E2 by simp
  have found: "fst found = hd_ptr E3" "start_ok (take 1 E3) (snd found)"
  proof -
    have st: "st = l + 1" using Cons.prems(5) by (simp add: E2)
    note wf = kernel_lawsD(2) [OF laws, of t, unfolded Cons.prems(1) E2]
    have "\<forall>(f', l', p') \<in> set (E1 @ [(f, l, p)]). l' < l + 1"
      using wf index_after [OF \<open>l + 1 \<noteq> 0\<close>] mt_wf_ordered [of E1] by (fastforce simp: mt_wf_append)
    then have "mt_find_spec ((E1 @ [(f, l, p)]) @ E3) (l + 1) = mt_find_spec E3 (l + 1)"
      by (rule mt_find_at)
    then have eq: "found = mt_find_spec E3 (l + 1)"
      using kernel_lawsD(4) [OF laws, of st t] \<open>l + 1 \<noteq> 0\<close> Cons.prems(1) st
      by (simp add: found_def E2)
    have "l + 1 \<le> l'" if "E3 = (f', l', p') # E4" for f' l' p' E4
    proof -
      have "l < f'" "f' \<le> l'" using wf that by (auto simp: mt_wf_append)
      then show ?thesis using index_after [OF \<open>l + 1 \<noteq> 0\<close>, of f'] by auto
    qed
    then show "fst found = hd_ptr E3" "start_ok (take 1 E3) (snd found)"
      by (cases E3; auto simp: eq mt_find_hd mt_find_spec_def)+
  qed
  have "list_all2 (entry_rel h') E1 rs1" "list_all2 (entry_rel h') E3 rs2"
    using Cons.prems(2) entry_rel_upd_other [OF Cons.prems(3)] entry_rel_upd_other [OF rel3]
    by (simp_all add: h'_def E2)
  moreover have "entry_rel h' (f, l, p) (decay c)"
    using relc by (simp add: h'_def decay_def mrange_wf_def)
  ultimately have "\<exists>h''. rt_decay_loop k t h' (hd_ptr E3) (snd found) = Some (Inr h'') \<and>
      list_all2 (entry_rel h'') ((E1 @ [(f, l, p)]) @ E3) ((rs1 @ [decay c]) @ map decay rs2)"
    using Cons.prems(1,2) found(2) E2 by (intro Cons.IH) (auto simp: list_all2_appendI)
  moreover have "rt_decay_loop k t h (hd_ptr E2) st = rt_decay_loop k t h' (hd_ptr E3) (snd found)"
    using relc found(1) by (subst rt_decay_loop.simps) (simp add: E2 found_def h'_def decay_def Let_def)
  ultimately show ?case by (simp add: E2)
qed

subsection \<open>Splitting and counting refine their list counterparts\<close>

lemma mt_find_first:
  assumes "kernel_laws k entries"
  shows "fst (mt_find k t 0 ULONG_MAX) = hd_ptr (entries t)"
    and "start_ok (take 1 (entries t)) (snd (mt_find k t 0 ULONG_MAX))"
  unfolding kernel_lawsD(3) [OF assms]
  by (cases "entries t"; auto simp: mt_find_spec_def)+

lemma rt_split_refines:
  assumes laws: "kernel_laws k entries" and rel: "rt_rel entries self h rs"
    and spec: "spec_split k None (length rs) (rt_age self) (rt_min_range self) (map decay rs) = (out, age, mr)"
  shows "\<exists>res. rt_split k self h = Some res \<and>
    (res = Inl (Bug_unwrap ENOMEM) \<or>
     (\<exists>self' h'. res = Inr (self', h') \<and> rt_rel entries self' h' out \<and>
        rt_age self' = age \<and> rt_min_range self' = mr))"
proof -
  let ?E = "entries (rt_tree self)"
  let ?first = "mt_find k (rt_tree self) 0 ULONG_MAX"
  note first = mt_find_first [OF laws, of "rt_tree self"]
  have E: "list_all2 (entry_rel h) ?E rs" "distinct (ptrs ?E)"
    using rel by (simp_all add: rt_rel_def)
  obtain h' where h': "rt_decay_loop k (rt_tree self) h (fst ?first) (snd ?first) = Some (Inr h')"
    "list_all2 (entry_rel h') ?E (map decay rs)"
    using rt_decay_loop_ok [OF laws, of "rt_tree self" "[]" ?E h "[]" rs "snd ?first"] E first by auto
  let ?nxt = "mt_find_after k (rt_tree self) (snd ?first) ULONG_MAX"
  have nxt: "fst ?nxt = hd_ptr (tl ?E) \<and> start_ok ?E (snd ?nxt)"
  proof (cases ?E)
    case Nil
    then have "?nxt = (None, 0)"
      using first laws by (simp add: kernel_laws_def mt_find_spec_def)
    with Nil show ?thesis by simp
  next
    case (Cons e E')
    obtain f l p where e: "e = (f, l, p)" by (cases e)
    have st: "snd ?first = l + 1" using first(2) Cons e by simp
    have nz: "l + 1 \<noteq> 0" using entry_rel_no_wrap [OF E(1), of f l p] Cons e by simp
    note wf = kernel_lawsD(2) [OF laws, of "rt_tree self", unfolded Cons e]
    have "mt_find_spec ([e] @ E') (l + 1) = mt_find_spec E' (l + 1)"
      using index_after [OF nz, of "l + 1"] inc_less_eq_iff [of l l] nz
      by (intro mt_find_at) (auto simp: e)
    then have eq: "?nxt = mt_find_spec E' (l + 1)"
      using kernel_lawsD(4) [OF laws, of "l + 1" "rt_tree self"] nz st Cons by simp
    have "l + 1 \<le> l'" if "E' = (f', l', p') # E''" for f' l' p' E''
    proof -
      have "l < f'" "f' \<le> l'" using wf that by auto
      then show ?thesis using index_after [OF nz, of f'] by auto
    qed
    then show ?thesis using Cons e eq by (cases E') (auto simp: mt_find_hd mt_find_spec_def)
  qed
  have "\<exists>res. rt_split_loop k self h' None (hd_ptr ?E) (hd_ptr (tl ?E)) (snd ?nxt) = Some res \<and>
      (res = Inl (Bug_unwrap ENOMEM) \<or>
       (\<exists>self' h''. res = Inr (self', h'') \<and> rt_rel entries self' h'' ([] @ out) \<and>
          rt_age self' = age \<and> rt_min_range self' = mr))"
    using rel h'(2) E nxt spec
    by (intro rt_split_loop_ok [OF laws, where pm = None and ?rs2.0 = "map decay rs"])
      (auto simp: rt_rel_def deref_opt_def)
  moreover have "rt_split k self h =
      rt_split_loop k self h' None (hd_ptr ?E) (hd_ptr (tl ?E)) (snd ?nxt)"
    using nxt unfolding rt_split_def Let_def h'(1) option.case sum.case by (simp add: first(1))
  ultimately show ?thesis by simp
qed

subsection \<open>Splitting keeps the partition\<close>

definition covered :: "mrange list \<Rightarrow> ulong set" where
  "covered rs = (\<Union>r \<in> set rs. mr_addrs r)"

definition total_access :: "mrange list \<Rightarrow> nat" where
  "total_access rs = (\<Sum>r \<leftarrow> rs. unat (nr_access r))"

lemma covered_simps [simp]:
  "covered [] = {}" "covered (r # rs) = mr_addrs r \<union> covered rs" "covered (xs @ ys) = covered xs \<union> covered ys"
  by (auto simp: covered_def)

lemma total_access_simps [simp]:
  "total_access [] = 0" "total_access (r # rs) = unat (nr_access r) + total_access rs"
  "total_access (xs @ ys) = total_access xs + total_access ys"
  by (simp_all add: total_access_def)

lemma split_pieces_facts:
  assumes "mr_start c < mr_end c" "\<not> mr_end c - mr_start c < 2 * RTREE_GRANULARITY"
  shows "covered (split_pieces age c) = mr_addrs c" "length (split_pieces age c) = 2"
    "total_access (split_pieces age c) \<le> unat (nr_access c)"
  using mid_of_inside [OF assms]
  by (auto simp: split_pieces_def mr_addrs_def unat_div)

lemma spec_split_facts:
  assumes "\<forall>r \<in> set rs. mrange_wf r"
  shows "covered (fst (spec_split k prev len age mr rs)) = covered rs \<and>
    total_access (fst (spec_split k prev len age mr rs)) \<le> total_access rs \<and>
    length rs \<le> length (fst (spec_split k prev len age mr rs))"
  using assms
proof (induction k prev len age mr rs rule: spec_split.induct)
  case (2 k prev len age mr c rs)
  consider "2048 \<le> len" | "\<not> 2048 \<le> len" "spec_wants k prev c (hd_opt rs)"
    | "\<not> 2048 \<le> len" "\<not> spec_wants k prev c (hd_opt rs)" by blast
  then show ?case
  proof cases
    case 2
    then have "\<not> mr_end c - mr_start c < 2 * RTREE_GRANULARITY" "mr_start c < mr_end c"
      using "2.prems" by (simp_all add: spec_wants_def mrange_wf_def)
    then show ?thesis
      using 2 "2.IH"(1) [OF 2 refl refl] "2.prems" split_pieces_facts [of c "age + 1"]
      by (fastforce simp: Let_def split: prod.splits)
  next
    case 3
    then show ?thesis
      using "2.IH"(2) [OF 3] "2.prems" by (auto split: prod.splits)
  qed simp
qed simp

lemma decay_facts:
  "covered (map decay rs) = covered rs" "total_access (map decay rs) \<le> total_access rs div 2"
  "\<forall>r \<in> set rs. mrange_wf r \<Longrightarrow> \<forall>r \<in> set (map decay rs). mrange_wf r"
proof -
  show "covered (map decay rs) = covered rs"
    by (induction rs) (auto simp: decay_def mr_addrs_def)
  show "total_access (map decay rs) \<le> total_access rs div 2"
    by (induction rs) (auto simp: decay_def unat_div)
  show "\<forall>r \<in> set rs. mrange_wf r \<Longrightarrow> \<forall>r \<in> set (map decay rs). mrange_wf r"
    by (auto simp: decay_def mrange_wf_def)
qed

lemma rt_rel_wf: "rt_rel entries self h rs \<Longrightarrow> r \<in> set rs \<Longrightarrow> mrange_wf r"
proof -
  have "list_all2 (entry_rel h) E rs \<Longrightarrow> r \<in> set rs \<Longrightarrow> mrange_wf r" for E
    by (induction rule: list_all2_induct) auto
  then show "rt_rel entries self h rs \<Longrightarrow> r \<in> set rs \<Longrightarrow> mrange_wf r"
    by (auto simp: rt_rel_def)
qed

text \<open>
  C1: The split pass, on any maple tree and allocator that behave as documented, always
  returns.  Its only possible \<open>BUG\<close> is a failed allocation; otherwise it leaves a well-formed tree
  of at most \<open>RTREE_MAX_SIZE\<close> aligned, nonempty, disjoint ranges that cover exactly the addresses
  covered before, never fewer ranges, and at most half of the recorded accesses remain.
\<close>

theorem rt_split_keeps_partition:
  assumes "kernel_laws k entries" "rt_rel entries self h rs"
  shows "\<exists>res. rt_split k self h = Some res \<and>
    (res = Inl (Bug_unwrap ENOMEM) \<or>
     (\<exists>self' h' rs'. res = Inr (self', h') \<and> rt_rel entries self' h' rs' \<and>
        covered rs' = covered rs \<and> length rs \<le> length rs' \<and> length rs' \<le> unat RTREE_MAX_SIZE \<and>
        total_access rs' \<le> total_access rs div 2))"
proof -
  obtain out age mr where spec:
      "spec_split k None (length rs) (rt_age self) (rt_min_range self) (map decay rs) = (out, age, mr)"
    by (cases "spec_split k None (length rs) (rt_age self) (rt_min_range self) (map decay rs)")
  have "\<forall>r \<in> set (map decay rs). mrange_wf r"
    using decay_facts(3) rt_rel_wf [OF assms(2)] by blast
  note facts = spec_split_facts [OF this, of k None "length rs" "rt_age self" "rt_min_range self"]
  have "covered out = covered rs" "length rs \<le> length out" "total_access out \<le> total_access rs div 2"
    using facts decay_facts(1,2) [of rs] by (simp_all add: spec)
  then show ?thesis
    using rt_split_refines [OF assms spec] by (auto simp: rt_rel_def RTREE_MAX_SIZE_def)
qed

subsection \<open>Accounting a sample\<close>

definition bump :: "ulong \<Rightarrow> mrange \<Rightarrow> mrange" where
  "bump addr r = (if addr \<in> mr_addrs r then r\<lparr>nr_access := nr_access r + 1\<rparr> else r)"

lemma mr_addrs_entry:
  assumes "entry_rel h (f, l, p) r"
  shows "addr \<in> mr_addrs r \<longleftrightarrow> f \<le> addr \<and> addr \<le> l"
proof -
  have "mr_start r < mr_end r" using assms by (simp add: mrange_wf_def)
  from word_pred_facts(4) [OF this, of addr] show ?thesis
    using assms by (auto simp: mr_addrs_def)
qed

lemma bump_others:
  assumes "list_all2 (entry_rel h) E rs" "\<forall>(f, l, p) \<in> set E. \<not> (f \<le> addr \<and> addr \<le> l)"
  shows "map (bump addr) rs = rs \<and> addr \<notin> covered rs"
  using assms
proof (induction rule: list_all2_induct)
  case (Cons e E r rs)
  obtain f l p where "e = (f, l, p)" by (cases e)
  with Cons mr_addrs_entry [of h f l p r addr] show ?case by (auto simp: bump_def)
qed simp

text \<open>The entry found for an address splits the list of entries.\<close>

lemma mt_find_split:
  assumes "mt_wf E"
  obtains "fst (mt_find_spec E a) = None" "\<forall>(f, l, p) \<in> set E. l < a"
  | A f l p B where "E = A @ (f, l, p) # B" "fst (mt_find_spec E a) = Some p" "a \<le> l"
      "\<forall>(f', l', p') \<in> set A. l' < a" "\<forall>(f', l', p') \<in> set B. a < f'"
proof (cases "find (\<lambda>(f, l, p). a \<le> l) E")
  case None
  then have "\<forall>(f, l, p) \<in> set E. l < a" by (fastforce simp: find_None_iff not_le)
  with None show ?thesis using that(1) by (simp add: mt_find_spec_def)
next
  case (Some e)
  obtain f l p where e: "e = (f, l, p)" by (cases e)
  obtain A B where AB: "E = A @ e # B" "\<forall>x \<in> set A. \<not> (case x of (f, l, p) \<Rightarrow> a \<le> l)" "a \<le> l"
    using find_split [OF Some] e by auto
  show ?thesis
  proof (rule that(2))
    show "E = A @ (f, l, p) # B" "a \<le> l" using AB e by simp_all
    show "fst (mt_find_spec E a) = Some p" using Some e by (simp add: mt_find_spec_def)
    show "\<forall>(f', l', p') \<in> set A. l' < a" using AB(2) by fastforce
    show "\<forall>(f', l', p') \<in> set B. a < f'" using assms AB e by (fastforce simp: mt_wf_append)
  qed
qed

lemma rt_count_ok:
  assumes laws: "kernel_laws k entries" and rel: "rt_rel entries self h rs"
  shows "\<exists>h'. rt_count k self h addr = Inr (if addr \<in> covered rs then 0 else PEBS_ERROR_CODE, h') \<and>
    rt_rel entries self h' (map (bump addr) rs) \<and> (addr \<notin> covered rs \<longrightarrow> h' = h)"
proof -
  let ?E = "entries (rt_tree self)"
  have E: "list_all2 (entry_rel h) ?E rs" "distinct (ptrs ?E)"
    using rel by (simp_all add: rt_rel_def)
  have same: ?thesis if "\<forall>(f, l, p) \<in> set ?E. \<not> (f \<le> addr \<and> addr \<le> l)"
      "rt_count k self h addr = Inr (PEBS_ERROR_CODE, h)"
    using bump_others [OF E(1) that(1)] that(2) rel by auto
  note count = rt_count_def [of k self h addr, unfolded kernel_lawsD(3) [OF laws]]
  from kernel_lawsD(2) [OF laws, of "rt_tree self"] show ?thesis
  proof (cases rule: mt_find_split [of ?E addr])
    case 1
    then show ?thesis by (intro same) (auto simp: count)
  next
    case (2 A f l p B)
    then obtain rs1 r rs2 where rs: "rs = rs1 @ r # rs2" and rels: "list_all2 (entry_rel h) A rs1"
        "entry_rel h (f, l, p) r" "list_all2 (entry_rel h) B rs2"
      using E(1) by (auto simp: list_all2_append1 list_all2_Cons1)
    have others: "map (bump addr) rs1 = rs1" "map (bump addr) rs2 = rs2"
      "addr \<notin> covered rs1" "addr \<notin> covered rs2"
      using bump_others [OF rels(1), of addr] bump_others [OF rels(3), of addr] 2(4,5) by fastforce+
    show ?thesis
    proof (cases "f \<le> addr")
      case True
      have in_r: "addr \<in> mr_addrs r" using mr_addrs_entry [OF rels(2), of addr] True 2(3) by simp
      define h' where "h' = h(p \<mapsto> bump addr r)"
      have "list_all2 (entry_rel h') A rs1" "list_all2 (entry_rel h') B rs2"
        using E(2) entry_rel_upd_other [OF rels(1)] entry_rel_upd_other [OF rels(3)]
        by (simp_all add: h'_def 2(1))
      moreover have "entry_rel h' (f, l, p) (bump addr r)"
        using rels(2) in_r by (simp add: h'_def bump_def mrange_wf_def)
      ultimately have "rt_rel entries self h' (map (bump addr) rs)"
        using rel others by (simp add: rt_rel_def rs 2(1) list_all2_appendI)
      moreover have "rt_count k self h addr = Inr (0, h')"
        using 2(2) rels(2) True in_r by (auto simp: count h'_def bump_def)
      ultimately show ?thesis using in_r by (auto simp: rs)
    next
      case False
      have "\<forall>(f', l', p') \<in> set ?E. \<not> (f' \<le> addr \<and> addr \<le> l')"
        using 2 False by fastforce
      then show ?thesis using 2(2) rels(2) False by (intro same) (auto simp: count)
    qed
  qed
qed

text \<open>
  C4: Accounting a sample increments the count of exactly the range that contains the
  address and returns 0 when there is one; for any other address it changes nothing and returns
  the error code.  No live range is ever missed and no pointer dangles.
\<close>

theorem rt_count_counts:
  assumes laws: "kernel_laws k entries" and rel: "rt_rel entries self h rs"
  shows "\<exists>h'. rt_count k self h addr = Inr (if addr \<in> covered rs then 0 else PEBS_ERROR_CODE, h') \<and>
    rt_rel entries self h' (map (bump addr) rs) \<and> (addr \<notin> covered rs \<longrightarrow> h' = h)"
  by (rule rt_count_ok [OF assms])

subsection \<open>Setting up the tree\<close>

lemma unat_round_up:
  assumes "0 < unat x" "unat x + 2 ^ 21 \<le> 2 ^ 64"
  shows "unat (round_up x RTREE_GRANULARITY) = (unat x - 1) div 2 ^ 21 * 2 ^ 21 + 2 ^ 21"
proof -
  have m: "RTREE_GRANULARITY - 1 = (mask 21 :: ulong)"
    by (simp add: RTREE_GRANULARITY_def mask_eq_exp_minus_1)
  have pred: "unat (x - 1) = unat x - 1"
    using assms(1) by (simp add: unat_sub word_le_nat_alt)
  have "(x - 1) OR mask 21 = (x - 1) AND NOT (mask 21) OR mask 21"
    by (rule bit_eqI) (auto simp: bit_simps)
  also have "\<dots> = ((x - 1) AND NOT (mask 21)) + mask 21"
    by (rule disjunctive_add [symmetric]) (auto simp: bit_simps)
  finally have "round_up x RTREE_GRANULARITY = ((x - 1) AND NOT (mask 21)) + (mask 21 + 1)"
    unfolding round_up_def m by (simp add: add.assoc)
  moreover have "(mask 21 + 1 :: ulong) = 2 ^ 21" by (simp add: mask_eq_exp_minus_1)
  moreover have low: "unat ((x - 1) AND NOT (mask 21)) = (unat x - 1) div 2 ^ 21 * 2 ^ 21"
    unfolding unat_and_not_mask pred by (simp add: minus_mod_eq_div_mult)
  moreover have "(unat x - 1) div 2 ^ 21 * 2 ^ 21 + 2 ^ 21 < 2 ^ 64"
  proof -
    have "(unat x - 1) div 2 ^ 21 * 2 ^ 21 \<le> unat x - 1" by simp
    then show ?thesis using assms by linarith
  qed
  ultimately show ?thesis by (simp add: unat_add_no_wrap)
qed

lemma round_up_facts:
  assumes "0 < unat x" "unat x + 2 ^ 21 \<le> 2 ^ 64"
  shows "aligned (round_up x RTREE_GRANULARITY)" "x \<le> round_up x RTREE_GRANULARITY"
proof -
  note up = unat_round_up [OF assms]
  have "unat (round_up x RTREE_GRANULARITY) = ((unat x - 1) div 2 ^ 21 + 1) * 2 ^ 21"
    unfolding up by simp
  then show "aligned (round_up x RTREE_GRANULARITY)"
    unfolding aligned_def by (metis dvd_triv_right)
  have "unat x - 1 < (unat x - 1) div 2 ^ 21 * 2 ^ 21 + 2 ^ 21"
  proof -
    have "(unat x - 1) mod 2 ^ 21 < 2 ^ 21" by simp
    with div_mult_mod_eq [of "unat x - 1" "2 ^ 21"] show ?thesis by linarith
  qed
  then show "x \<le> round_up x RTREE_GRANULARITY"
    unfolding word_le_nat_alt up using assms(1) by linarith
qed

lemma rounded_wf:
  assumes "a < b" "unat b + 2 ^ 21 \<le> 2 ^ 64"
  shows "mrange_wf (fresh_range (round_down a RTREE_GRANULARITY) (round_up b RTREE_GRANULARITY) age n)"
    and "a \<in> mr_addrs (fresh_range (round_down a RTREE_GRANULARITY) (round_up b RTREE_GRANULARITY) age n)"
proof -
  have "0 < unat b" using assms(1) by (simp add: word_less_nat_alt)
  note up = round_up_facts [OF this assms(2)]
  have "round_down a RTREE_GRANULARITY \<le> a" "a < round_up b RTREE_GRANULARITY"
    using round_down_facts(2) [of a] up(2) assms(1) by auto
  then show "mrange_wf (fresh_range (round_down a RTREE_GRANULARITY) (round_up b RTREE_GRANULARITY) age n)"
    "a \<in> mr_addrs (fresh_range (round_down a RTREE_GRANULARITY) (round_up b RTREE_GRANULARITY) age n)"
    using up(1) round_down_facts(1) by (auto simp: mrange_wf_def mr_addrs_def)
qed

text \<open>Entries are free of an interval exactly when the ranges are.\<close>

lemma mt_free_iff_disjoint:
  assumes "list_all2 (entry_rel h) E rs" "a < b"
  shows "mt_free a (b - 1) E \<longleftrightarrow> {a..<b} \<inter> covered rs = {}"
  using assms(1)
proof (induction rule: list_all2_induct)
  case (Cons e E r rs)
  obtain f l p where e: "e = (f, l, p)" by (cases e)
  have wf: "mr_start r < mr_end r" and f: "f = mr_start r" "l = mr_end r - 1"
    using Cons.hyps e by (simp_all add: mrange_wf_def)
  have "b - 1 < f \<or> l < a \<longleftrightarrow> {a..<b} \<inter> mr_addrs r = {}"
    unfolding f word_pred_facts(4) [OF assms(2)] word_pred_facts(4) [OF wf] mr_addrs_def
    using interval_disjoint [OF assms(2) wf] by blast
  with Cons.IH show ?case by (auto simp: mt_free_def e Int_Un_distrib)
qed (simp add: mt_free_def)

lemma mt_wf_split_at:
  "mt_wf E \<Longrightarrow> mt_free a b E \<Longrightarrow> a \<le> b \<Longrightarrow> \<exists>A B. E = A @ B \<and>
    (\<forall>(f, l, p) \<in> set A. f \<le> l \<and> l < a) \<and> (\<forall>(f, l, p) \<in> set B. b < f)"
proof (induction E rule: mt_wf.induct)
  case (2 f l p E)
  show ?case
  proof (cases "l < a")
    case True
    have "mt_wf E" "mt_free a b E" using 2 by (simp_all add: mt_free_def)
    from "2.IH" [OF this "2.prems"(3)] obtain A B where
        "E = A @ B" "\<forall>(f, l, p) \<in> set A. f \<le> l \<and> l < a" "\<forall>(f, l, p) \<in> set B. b < f"
      by blast
    moreover have "f \<le> l" using "2.prems"(1) by simp
    ultimately show ?thesis using True
      by - (rule exI [of _ "(f, l, p) # A"], rule exI [of _ B], simp add: case_prod_unfold)
  next
    case False
    with 2 have "b < f" by (auto simp: mt_free_def)
    moreover have "\<forall>(f', l', p') \<in> set E. b < f'"
      using "2.prems"(1) \<open>b < f\<close> by fastforce
    ultimately show ?thesis
      by - (rule exI [of _ "[]"], rule exI [of _ "(f, l, p) # E"], simp add: case_prod_unfold)
  qed
qed simp

lemma insert_new_range_ok:
  assumes laws: "kernel_laws k entries" and rel: "list_all2 (entry_rel h) (entries t) rs"
    and dist: "distinct (ptrs (entries t))" and wf: "mrange_wf (fresh_range a b age n)"
  shows "insert_new_range k t h a b age n = Inl (Bug_unwrap ENOMEM) \<or>
    (if {a..<b} \<inter> covered rs = {} then
      (\<exists>p t' h' rs1 rs2. insert_new_range k t h a b age n = Inr (p, t', h') \<and> rs = rs1 @ rs2 \<and>
        list_all2 (entry_rel h') (entries t') (rs1 @ fresh_range a b age n # rs2) \<and> distinct (ptrs (entries t')))
     else insert_new_range k t h a b age n = Inl (Bug_unwrap EEXIST))"
proof -
  have ab: "a < b" using wf by (simp add: mrange_wf_def)
  note free = mt_free_iff_disjoint [OF rel ab]
  show ?thesis
  proof (cases "{a..<b} \<inter> covered rs = {}")
    case True
    obtain A B where AB: "entries t = A @ B" and A: "\<forall>(f, l, p) \<in> set A. f \<le> l \<and> l < a"
        and B: "\<forall>(f, l, p) \<in> set B. b - 1 < f"
      using mt_wf_split_at [OF kernel_lawsD(2) [OF laws] iffD2 [OF free True] word_pred_facts(1) [OF ab]]
      by blast
    have B': "\<forall>(f, l, p) \<in> set B. b \<le> f"
      using B by (simp add: word_pred_facts(4) [OF ab])
    obtain rs1 rs2 where rs: "rs = rs1 @ rs2" "list_all2 (entry_rel h) A rs1" "list_all2 (entry_rel h) B rs2"
      using rel AB by (auto simp: list_all2_append1)
    show ?thesis
      using insert_new_range_at [OF laws AB ab A B', of h age n]
    proof
      assume "\<exists>p t'. insert_new_range k t h a b age n = Inr (p, t', h(p \<mapsto> fresh_range a b age n)) \<and>
        h p = None \<and> entries t' = A @ (a, b - 1, p) # B"
      then obtain p t' where p: "insert_new_range k t h a b age n = Inr (p, t', h(p \<mapsto> fresh_range a b age n))"
        "h p = None" "entries t' = A @ (a, b - 1, p) # B" by blast
      have new: "p \<notin> set (ptrs A)" "p \<notin> set (ptrs B)"
        using entry_rel_live [OF rs(2)] entry_rel_live [OF rs(3)] p(2) by blast+
      have "list_all2 (entry_rel (h(p \<mapsto> fresh_range a b age n))) (entries t') (rs1 @ fresh_range a b age n # rs2)"
        using entry_rel_upd_other [OF rs(2) new(1)] entry_rel_upd_other [OF rs(3) new(2)] wf
        by (simp add: p(3) list_all2_appendI)
      moreover have "distinct (ptrs (entries t'))" using dist new by (simp add: p(3) AB)
      ultimately have "\<exists>p t' h' rs1 rs2. insert_new_range k t h a b age n = Inr (p, t', h') \<and> rs = rs1 @ rs2 \<and>
        list_all2 (entry_rel h') (entries t') (rs1 @ fresh_range a b age n # rs2) \<and> distinct (ptrs (entries t'))"
        using p(1) rs(1) by blast
      with True show ?thesis by simp
    qed simp
  next
    case False
    show ?thesis
    proof (cases "kmalloc k h")
      case None
      then show ?thesis by (simp add: insert_new_range_def mrange_new_def)
    next
      case (Some p)
      then show ?thesis
        using kernel_laws_insert [OF laws word_pred_facts(1) [OF ab], of t p] free False
        by (cases "mtree_insert_range k t a (b - 1) p")
          (auto simp: insert_new_range_def mrange_new_def split: option.splits)
    qed
  qed
qed

lemma rt_init_ok:
  assumes laws: "kernel_laws k entries" and "start < fin" "unat fin + 2 ^ 21 \<le> 2 ^ 64"
  shows "rt_init k h start fin = Inl (Bug_unwrap ENOMEM) \<or>
    (\<exists>self h'. rt_init k h start fin = Inr (self, h') \<and> rt_age self = 0 \<and>
      rt_rel entries self h'
        [fresh_range (round_down start RTREE_GRANULARITY) (round_up fin RTREE_GRANULARITY) 0 0])"
proof -
  let ?a = "round_down start RTREE_GRANULARITY" and ?b = "round_up fin RTREE_GRANULARITY"
  note wf = rounded_wf(1) [OF assms(2,3), of 0 0]
  have "list_all2 (entry_rel h) (entries (mt_init k)) []" "distinct (ptrs (entries (mt_init k)))"
    by (simp_all add: kernel_lawsD(1) [OF laws])
  from insert_new_range_ok [OF laws this wf]
  show ?thesis by (auto simp: rt_init_def Let_def rt_rel_def)
qed

text \<open>
  C6: Adding a range to a tree.  The bounds are rounded outwards to the granularity; if the
  rounded range is disjoint from the managed ones it is added to them (unless memory runs out),
  and otherwise the code stops in a \<open>BUG\<close>.
\<close>

theorem rt_insert_adds_range:
  assumes laws: "kernel_laws k entries" and rel: "rt_rel entries self h rs" "length rs < 2048"
    and bounds: "start < fin" "unat fin + 2 ^ 21 \<le> 2 ^ 64"
  defines "r \<equiv> fresh_range (round_down start RTREE_GRANULARITY) (round_up fin RTREE_GRANULARITY)
    (rt_age self) 0"
  shows "rt_insert k self h start fin = Inl (Bug_unwrap ENOMEM) \<or>
    (if mr_addrs r \<inter> covered rs = {} then
       (\<exists>self' h' rs1 rs2. rt_insert k self h start fin = Inr (self', h') \<and> rs = rs1 @ rs2 \<and>
          rt_rel entries self' h' (rs1 @ r # rs2) \<and> rt_age self' = rt_age self)
     else rt_insert k self h start fin = Inl (Bug_unwrap EEXIST))"
proof -
  let ?a = "round_down start RTREE_GRANULARITY" and ?b = "round_up fin RTREE_GRANULARITY"
  note wf = rounded_wf(1) [OF bounds, of "rt_age self" 0]
  have E: "list_all2 (entry_rel h) (entries (rt_tree self)) rs" "distinct (ptrs (entries (rt_tree self)))"
    using rel(1) by (simp_all add: rt_rel_def)
  have r: "mr_addrs r = {?a..<?b}" by (simp add: r_def mr_addrs_def)
  have run: "rt_insert k self h start fin =
      (case insert_new_range k (rt_tree self) h ?a ?b (rt_age self) 0 of
         Inl b \<Rightarrow> Inl b
       | Inr (p, t, h') \<Rightarrow> Inr (self\<lparr>rt_len := rt_len self + 1, rt_tree := t\<rparr>, h'))"
    by (simp add: rt_insert_def Let_def)
  have "rt_len self + 1 = of_nat (Suc (length rs))" using rel(1) by (simp add: rt_rel_def)
  then show ?thesis
    using insert_new_range_ok [OF laws E wf] rel(2) unfolding r run
    by (fastforce simp: rt_rel_def r_def split: if_splits)
qed

subsection \<open>A kernel that keeps the laws\<close>

text \<open>
  A maple tree kept as the sorted list of its entries, and an allocator that hands out the
  first unused of a few addresses.
\<close>

definition list_entries :: "entry list \<Rightarrow> entry list" where
  "list_entries t = (if mt_wf t then t else [])"

definition list_kernel :: "ptr list \<Rightarrow> ulong \<Rightarrow> entry list kernel" where
  "list_kernel pool cpus = \<lparr>
     mt_init = [],
     mt_find = (\<lambda>t i m. mt_find_spec (list_entries t) i),
     mt_find_after = (\<lambda>t i m. if i = 0 then (None, 0) else mt_find_spec (list_entries t) i),
     mtree_insert_range = (\<lambda>t f l p. if mt_free f l (list_entries t)
       then (None, mt_insert_spec f l p (list_entries t)) else (Some EEXIST, t)),
     mtree_erase = (\<lambda>t i.
       (map_option (\<lambda>(f, l, p). p) (find (\<lambda>(f, l, p). f \<le> i \<and> i \<le> l) (list_entries t)),
        filter (\<lambda>(f, l, p). \<not> (f \<le> i \<and> i \<le> l)) (list_entries t))),
     kmalloc = (\<lambda>h. find (\<lambda>p. h p = None) pool),
     num_online_cpus = cpus,
     rtree_split_thresh = 15\<rparr>"

lemma mt_wf_filter: "mt_wf es \<Longrightarrow> mt_wf (filter P es)"
  by (induction es rule: mt_wf.induct) auto

lemma mt_wf_insert:
  assumes "mt_wf es" "mt_free f l es" "f \<le> l"
  shows "mt_wf (mt_insert_spec f l p es)"
proof -
  obtain A B where AB: "es = A @ B" "\<forall>(f', l', p') \<in> set A. f' \<le> l' \<and> l' < f" "\<forall>(f', l', p') \<in> set B. l < f'"
    using mt_wf_split_at [OF assms] by blast
  have "mt_insert_spec f l p es = A @ (f, l, p) # B"
    unfolding AB(1) using AB(2,3) assms(3) by (intro mt_insert_at) fastforce+
  then show ?thesis using assms AB by (auto simp: mt_wf_append)
qed

lemma list_kernel_laws: "kernel_laws (list_kernel pool cpus) list_entries"
proof -
  have "mt_wf (list_entries t)" for t by (simp add: list_entries_def)
  then show ?thesis
    by (auto simp: kernel_laws_def list_kernel_def list_entries_def [of "mt_insert_spec _ _ _ _"]
        list_entries_def [of "filter _ _"] list_entries_def [of "[]"] mt_wf_insert mt_wf_filter
        dest!: find_split)
qed

text \<open>A tree with one hot range of a gigabyte, and the same tree with two ranges after the split.\<close>

definition demo_range :: mrange where
  "demo_range = \<lparr>mr_start = 0x40000000, mr_end = 0x80000000, mr_age = 0, nr_access = 100,
     in_fmem = 0, in_smem = 0\<rparr>"

definition demo_heap :: kheap where
  "demo_heap = [1 \<mapsto> demo_range]"

definition demo_tree :: "entry list range_tree" where
  "demo_tree = \<lparr>rt_len = 1, rt_age = 0, rt_min_range = 0x40000000,
     rt_tree = [(0x40000000, 0x7FFFFFFF, 1)]\<rparr>"

lemma demo_rel: "rt_rel list_entries demo_tree demo_heap [demo_range]"
  by (simp add: rt_rel_def demo_tree_def demo_heap_def demo_range_def list_entries_def mrange_wf_def
      aligned_def)

theorem rt_split_keeps_partition_witness:
  "\<exists>self' h' rs'. rt_split (list_kernel [2, 3] 1) demo_tree demo_heap = Some (Inr (self', h')) \<and>
    rt_rel list_entries self' h' rs' \<and> covered rs' = covered [demo_range] \<and>
    rt_tree self' = [(0x40000000, 0x5FFFFFFF, 2), (0x60000000, 0x7FFFFFFF, 3)] \<and>
    total_access rs' \<le> 50"
proof -
  have run: "map_option (map_sum id (\<lambda>(s, h). rt_tree s))
      (rt_split (list_kernel [2, 3] 1) demo_tree demo_heap)
    = Some (Inr [(0x40000000, 0x5FFFFFFF, 2), (0x60000000, 0x7FFFFFFF, 3)])"
    by code_simp
  have half: "total_access [demo_range] div 2 = 50"
    by (simp add: demo_range_def)
  obtain res where "rt_split (list_kernel [2, 3] 1) demo_tree demo_heap = Some res"
      "res = Inl (Bug_unwrap ENOMEM) \<or>
       (\<exists>self' h' rs'. res = Inr (self', h') \<and> rt_rel list_entries self' h' rs' \<and>
          covered rs' = covered [demo_range] \<and> total_access rs' \<le> 50)"
    using rt_split_keeps_partition [OF list_kernel_laws [of "[2, 3]" 1] demo_rel] unfolding half by blast
  with run show ?thesis by auto
qed

text \<open>
  C2: The split pass over maple tree and heap refines the pass over the sorted list of ranges:
  unless an allocation fails, the tree afterwards holds exactly the ranges, the age and the minimal
  range that \<open>spec_split\<close> computes from the list with all access counts halved.
\<close>

theorem rt_split_refines_pass:
  assumes "kernel_laws k entries" "rt_rel entries self h rs"
    and "spec_split k None (length rs) (rt_age self) (rt_min_range self) (map decay rs) = (out, age, mr)"
  shows "\<exists>res. rt_split k self h = Some res \<and>
    (res = Inl (Bug_unwrap ENOMEM) \<or>
     (\<exists>self' h'. res = Inr (self', h') \<and> rt_rel entries self' h' out \<and>
        rt_age self' = age \<and> rt_min_range self' = mr))"
  by (rule rt_split_refines [OF assms])

theorem rt_split_refines_pass_witness:
  "\<exists>self' h'. rt_split (list_kernel [2, 3] 1) demo_tree demo_heap = Some (Inr (self', h')) \<and>
    rt_rel list_entries self' h' [fresh_range 0x40000000 0x60000000 1 25, fresh_range 0x60000000 0x80000000 1 25] \<and>
    rt_age self' = 1 \<and> rt_min_range self' = 0x20000000"
proof -
  have run: "map_option (map_sum id (\<lambda>(s, h). rt_len s))
      (rt_split (list_kernel [2, 3] 1) demo_tree demo_heap) = Some (Inr 2)"
    by code_simp
  have spec: "spec_split (list_kernel [2, 3] 1) None (length [demo_range]) (rt_age demo_tree)
      (rt_min_range demo_tree) (map decay [demo_range])
    = ([fresh_range 0x40000000 0x60000000 1 25, fresh_range 0x60000000 0x80000000 1 25], 1, 0x20000000)"
    by code_simp
  from rt_split_refines_pass [OF list_kernel_laws [of "[2, 3]" 1] demo_rel spec] run show ?thesis by auto
qed

theorem rt_count_counts_witness:
  "\<exists>h'. rt_count (list_kernel [2, 3] 1) demo_tree demo_heap 0x50000000 = Inr (0, h') \<and>
    rt_rel list_entries demo_tree h' [demo_range\<lparr>nr_access := 101\<rparr>]"
proof -
  have "0x50000000 \<in> mr_addrs demo_range" by (simp add: mr_addrs_def demo_range_def)
  then have "0x50000000 \<in> covered [demo_range]"
    "map (bump 0x50000000) [demo_range] = [demo_range\<lparr>nr_access := 101\<rparr>]"
    by (simp_all add: bump_def) (simp add: demo_range_def)
  with rt_count_counts [OF list_kernel_laws [of "[2, 3]" 1] demo_rel, of "0x50000000"]
  show ?thesis by auto
qed

theorem rt_insert_adds_range_witness:
  "(\<exists>self' h' rs1 rs2. rt_insert (list_kernel [2, 3] 1) demo_tree demo_heap 0x80000001 0xC0000000 = Inr (self', h') \<and>
      [demo_range] = rs1 @ rs2 \<and>
      rt_rel list_entries self' h' (rs1 @ fresh_range 0x80000000 0xC0000000 0 0 # rs2)) \<and>
   rt_insert (list_kernel [2, 3] 1) demo_tree demo_heap 0x7FFFFFFF 0xC0000000 = Inl (Bug_unwrap EEXIST)"
proof
  have len: "length [demo_range] < 2048" by simp
  have age: "rt_age demo_tree = 0" by (simp add: demo_tree_def)
  have up: "round_up 0xC0000000 RTREE_GRANULARITY = 0xC0000000"
    "round_down 0x80000001 RTREE_GRANULARITY = 0x80000000"
    "round_down 0x7FFFFFFF RTREE_GRANULARITY = 0x7FE00000" by code_simp+
  have ok: "mr_addrs (fresh_range 0x80000000 0xC0000000 0 0) \<inter> covered [demo_range] = {}"
    "mr_addrs (fresh_range 0x7FE00000 0xC0000000 0 0) \<inter> covered [demo_range] \<noteq> {}"
    by (auto simp: mr_addrs_def demo_range_def)
  have run: "rt_insert (list_kernel [2, 3] 1) demo_tree demo_heap 0x80000001 0xC0000000 \<noteq> Inl (Bug_unwrap ENOMEM)"
    "rt_insert (list_kernel [2, 3] 1) demo_tree demo_heap 0x7FFFFFFF 0xC0000000 \<noteq> Inl (Bug_unwrap ENOMEM)"
    by (simp_all add: rt_insert_def insert_new_range_def mrange_new_def list_kernel_def demo_heap_def Let_def)
  show "\<exists>self' h' rs1 rs2. rt_insert (list_kernel [2, 3] 1) demo_tree demo_heap 0x80000001 0xC0000000 = Inr (self', h') \<and>
      [demo_range] = rs1 @ rs2 \<and> rt_rel list_entries self' h' (rs1 @ fresh_range 0x80000000 0xC0000000 0 0 # rs2)"
    using rt_insert_adds_range [OF list_kernel_laws [of "[2, 3]" 1] demo_rel len, of "0x80000001" "0xC0000000"]
      run(1) ok(1) unfolding age up by auto
  show "rt_insert (list_kernel [2, 3] 1) demo_tree demo_heap 0x7FFFFFFF 0xC0000000 = Inl (Bug_unwrap EEXIST)"
    using rt_insert_adds_range [OF list_kernel_laws [of "[2, 3]" 1] demo_rel len, of "0x7FFFFFFF" "0xC0000000"]
      run(2) ok(2) unfolding age up by simp
qed

end
