(* ===== verification/Migration.thy ===== *)
theory Migration
  imports Prelude "HOL-Library.Multiset" "HOL-Library.Sublist"
begin

text \<open>
  The migration worker of the Demeter guest module (\<open>migration_handle_req\<close> and its callees in
  \<open>mm/demeter/core.c\<close>): it takes an exchange request, two lists of folios isolated from the LRU
  lists of the slow and of the fast memory node, and exchanges them pairwise, keeping a
  blacklist of folios that cannot be exchanged.

  A folio is a value of an arbitrary type; its frame number, whether it is anonymous and the
  result of \<open>folio_exchange_isolated\<close> are the fields of \<open>folio_env\<close>, an argument of the
  definitions, so the theorems hold for every behaviour of the page exchange.  The linked lists
  are lists, the hash map \<open>bset\<close> is a map, and the folios put back on the LRU lists are a
  list in the order of the calls.

  The theorems show that handling a request always ends without a failed check, keeps the
  order, exchanges each folio successfully at most once and only anonymous ones that are not
  blacklisted, and that together with the response every isolated folio is put back exactly
  once.
\<close>

subsection \<open>Data\<close>

text \<open>
  \<open>exchange n a b\<close> is the return value of the \<open>n\<close>-th call of
  \<open>folio_exchange_isolated\<close>, so that it may depend on everything that happened before.
\<close>

record 'f folio_env =
  folio_pfn :: "'f \<Rightarrow> u64"
  folio_test_anon :: "'f \<Rightarrow> bool"
  exchange :: "nat \<Rightarrow> 'f \<Rightarrow> 'f \<Rightarrow> int"

definition MIGRATION_BSET_BACKOFF :: u64 where
  "MIGRATION_BSET_BACKOFF = 128"

definition ENOTSUPP :: int where
  "ENOTSUPP = 524"

record 'f exch_req =
  promotion :: "'f list"
  demotion :: "'f list"

text \<open>
  The local state of \<open>migration_handle_req\<close>.  \<open>calls\<close> lists the exchanges attempted with
  their return values.
\<close>

record 'f mig_state =
  mg_p :: "'f list"
  mg_d :: "'f list"
  promotion_done :: "'f list"
  demotion_done :: "'f list"
  bset :: "u64 \<rightharpoonup> u64"
  success :: u64
  failure :: u64
  blacklist :: u64
  calls :: "('f \<times> 'f \<times> int) list"

subsection \<open>One request\<close>

text \<open>
  \<open>CHECK_INSERTED(HashMapU64U64_insert(bset, &e), true, ...)\<close>: the check fails, and the kernel
  stops, when the key is already present.
\<close>

definition blacklist_insert :: "(u64 \<rightharpoonup> u64) \<Rightarrow> u64 \<Rightarrow> (u64 \<rightharpoonup> u64) option" where
  "blacklist_insert b pfn = do {
     assert_opt (b pfn = None);
     Some (b(pfn \<mapsto> 0))
   }"

text \<open>A blacklisted folio is passed over; after \<open>MIGRATION_BSET_BACKOFF\<close> times it is dropped from
  the blacklist.\<close>

definition blacklist_hit :: "(u64 \<rightharpoonup> u64) \<Rightarrow> u64 \<Rightarrow> u64 \<Rightarrow> u64 \<Rightarrow> (u64 \<rightharpoonup> u64) \<times> u64" where
  "blacklist_hit b pfn v bl =
    (let v' = v + 1 in
     if v' > MIGRATION_BSET_BACKOFF then (b(pfn := None), bl - 1)
     else (b(pfn \<mapsto> v'), bl))"

definition move_p :: "'f mig_state \<Rightarrow> 'f mig_state" where
  "move_p s = s\<lparr>mg_p := tl (mg_p s), promotion_done := promotion_done s @ [hd (mg_p s)]\<rparr>"

definition move_d :: "'f mig_state \<Rightarrow> 'f mig_state" where
  "move_d s = s\<lparr>mg_d := tl (mg_d s), demotion_done := demotion_done s @ [hd (mg_d s)]\<rparr>"

text \<open>
  The switch on the result of the exchange: the first or the second folio cannot be exchanged,
  or the pair is done.
\<close>

definition exchange_pair ::
    "'f folio_env \<Rightarrow> 'f mig_state \<Rightarrow> 'f \<Rightarrow> 'f \<Rightarrow> 'f mig_state option" where
  "exchange_pair env s folio0 folio1 =
    (let err = exchange env (length (calls s)) folio0 folio1;
         s = s\<lparr>calls := calls s @ [(folio0, folio1, err)]\<rparr>;
         s = (if err \<noteq> 0 then s\<lparr>failure := failure s + 1\<rparr> else s) in
     if err = - ENOTSUPP then do {
       b \<leftarrow> blacklist_insert (bset s) (folio_pfn env folio0);
       Some ((move_p s)\<lparr>bset := b, blacklist := blacklist s + 1\<rparr>)
     } else if err = - ENOTSUPP + 1 then do {
       b \<leftarrow> blacklist_insert (bset s) (folio_pfn env folio1);
       Some ((move_d s)\<lparr>bset := b, blacklist := blacklist s + 1\<rparr>)
     } else
       let s = (if err = 0 then s\<lparr>success := success s + 1\<rparr> else s) in
       Some (move_d (move_p s)))"

text \<open>One iteration of the loop, with the heads of the two lists.\<close>

definition migration_step ::
    "'f folio_env \<Rightarrow> 'f mig_state \<Rightarrow> 'f \<Rightarrow> 'f \<Rightarrow> 'f mig_state option" where
  "migration_step env s folio0 folio1 =
    (case bset s (folio_pfn env folio0) of
      Some v \<Rightarrow>
        (let (b, bl) = blacklist_hit (bset s) (folio_pfn env folio0) v (blacklist s) in
         Some ((move_p s)\<lparr>bset := b, blacklist := bl\<rparr>))
    | None \<Rightarrow>
        if \<not> folio_test_anon env folio0 then do {
          b \<leftarrow> blacklist_insert (bset s) (folio_pfn env folio0);
          Some ((move_p s)\<lparr>bset := b, blacklist := blacklist s + 1\<rparr>)
        } else (case bset s (folio_pfn env folio1) of
          Some v \<Rightarrow>
            (let (b, bl) = blacklist_hit (bset s) (folio_pfn env folio1) v (blacklist s) in
             Some ((move_d s)\<lparr>bset := b, blacklist := bl\<rparr>))
        | None \<Rightarrow>
            if \<not> folio_test_anon env folio1 then do {
              b \<leftarrow> blacklist_insert (bset s) (folio_pfn env folio1);
              Some ((move_d s)\<lparr>bset := b, blacklist := blacklist s + 1\<rparr>)
            } else exchange_pair env s folio0 folio1))"

text \<open>The while loop runs until one of the lists is empty.\<close>

partial_function (option) migration_loop ::
    "'f folio_env \<Rightarrow> 'f mig_state \<Rightarrow> 'f mig_state option option" where
  "migration_loop env s = (case (mg_p s, mg_d s) of
      (folio0 # ps, folio1 # ds) \<Rightarrow> (case migration_step env s folio0 folio1 of
          None \<Rightarrow> Some None
        | Some s' \<Rightarrow> migration_loop env s')
    | _ \<Rightarrow> Some (Some s))"

declare migration_loop.simps [code]

definition unmanage_folio :: "'f list \<Rightarrow> 'f list \<Rightarrow> 'f list" where
  "unmanage_folio lru managed = lru @ managed"

text \<open>
  The whole handler: the result is the request lists as the worker leaves them, the
  blacklist, and the folios put back.
\<close>

definition mig_init :: "'f exch_req \<Rightarrow> (u64 \<rightharpoonup> u64) \<Rightarrow> 'f mig_state" where
  "mig_init req b = \<lparr>mg_p = promotion req, mg_d = demotion req, promotion_done = [],
     demotion_done = [], bset = b, success = 0, failure = 0, blacklist = 0, calls = []\<rparr>"

definition migration_handle_req ::
    "'f folio_env \<Rightarrow> 'f exch_req \<Rightarrow> (u64 \<rightharpoonup> u64) \<Rightarrow> 'f list
      \<Rightarrow> ('f exch_req \<times> 'f mig_state \<times> 'f list) option option" where
  "migration_handle_req env req b lru = (case migration_loop env (mig_init req b) of
      None \<Rightarrow> None
    | Some None \<Rightarrow> Some None
    | Some (Some s) \<Rightarrow>
        (let lru = unmanage_folio lru (promotion_done s);
             lru = unmanage_folio lru (demotion_done s) in
         Some (Some (\<lparr>promotion = mg_p s, demotion = mg_d s\<rparr>, s, lru))))"

text \<open>The policy worker's handling of the response: both lists are released.\<close>

definition policy_handle_exch_rsp :: "'f exch_req \<Rightarrow> 'f list \<Rightarrow> 'f list" where
  "policy_handle_exch_rsp rsp lru = unmanage_folio (unmanage_folio lru (promotion rsp)) (demotion rsp)"

subsection \<open>Invariant of the loop\<close>

definition exchanged :: "('f \<times> 'f \<times> int) list \<Rightarrow> ('f \<times> 'f) list" where
  "exchanged cs = map (\<lambda>(a, b, e). (a, b)) (filter (\<lambda>(a, b, e). e = 0) cs)"

lemma exchanged_simps [simp]:
  "exchanged [] = []"
  "exchanged (cs @ [(a, b, e)]) = exchanged cs @ (if e = 0 then [(a, b)] else [])"
  by (simp_all add: exchanged_def)

definition mig_inv ::
    "'f folio_env \<Rightarrow> 'f list \<Rightarrow> 'f list \<Rightarrow> (u64 \<rightharpoonup> u64) \<Rightarrow> 'f mig_state \<Rightarrow> bool" where
  "mig_inv env p d b s \<longleftrightarrow>
    p = promotion_done s @ mg_p s \<and> d = demotion_done s @ mg_d s \<and>
    finite (dom (bset s)) \<and> blacklist s = of_int (int (card (dom (bset s))) - int (card (dom b))) \<and>
    success s = of_nat (length (exchanged (calls s))) \<and>
    failure s = of_nat (length (calls s) - length (exchanged (calls s))) \<and>
    length (exchanged (calls s)) \<le> length (calls s) \<and>
    subseq (map fst (exchanged (calls s))) (promotion_done s) \<and>
    subseq (map snd (exchanged (calls s))) (demotion_done s) \<and>
    (\<forall>(x, y, e) \<in> set (calls s). folio_test_anon env x \<and> folio_test_anon env y)"

lemma mig_inv_init:
  "finite (dom b) \<Longrightarrow> mig_inv env (promotion req) (demotion req) b (mig_init req b)"
  by (simp add: mig_inv_def mig_init_def)

lemma subseq_snoc: "subseq xs ys \<Longrightarrow> subseq (xs @ [z]) (ys @ [z])"
  by (rule list_emb_append_mono) auto

lemma subseq_grow: "subseq xs ys \<Longrightarrow> subseq xs (ys @ [z])"
  using list_emb_append_mono [of "(=)" xs ys "[]" "[z]"] by simp

text \<open>Moving a folio and changing the blacklist keep the invariant.\<close>

lemma blacklist_insert_new:
  "b pfn = None \<Longrightarrow> blacklist_insert b pfn = Some (b(pfn \<mapsto> 0))"
  by (simp add: blacklist_insert_def)

lemma dom_card:
  assumes "finite (dom b)"
  shows "b x = None \<Longrightarrow> card (insert x (dom b)) = card (dom b) + 1"
    and "b x = Some v \<Longrightarrow> card (dom b) = Suc (card (dom b - {x}))"
    and "b x = Some v \<Longrightarrow> insert x (dom b) = dom b"
proof -
  show "b x = None \<Longrightarrow> card (insert x (dom b)) = card (dom b) + 1"
    using assms by (subst card_insert_disjoint) auto
  show "b x = Some v \<Longrightarrow> card (dom b) = Suc (card (dom b - {x}))"
    using assms card_Suc_Diff1 [of "dom b" x] by (metis domI)
  show "b x = Some v \<Longrightarrow> insert x (dom b) = dom b" by auto
qed

lemma mig_step_move:
  assumes inv: "mig_inv env p d b s" and "mg_p s = f0 # ps" "mg_d s = f1 # ds"
    and bset': "finite (dom bs)"
      "bl = blacklist s + of_int (int (card (dom bs)) - int (card (dom (bset s))))"
  shows "mig_inv env p d b ((move_p s)\<lparr>bset := bs, blacklist := bl\<rparr>)"
    and "mig_inv env p d b ((move_d s)\<lparr>bset := bs, blacklist := bl\<rparr>)"
  using assms by (auto simp: mig_inv_def move_p_def move_d_def subseq_grow)

lemma blacklist_hit_ok:
  assumes "finite (dom b)" "b pfn = Some v"
  shows "finite (dom (fst (blacklist_hit b pfn v bl)))"
    and "snd (blacklist_hit b pfn v bl) =
      bl + of_int (int (card (dom (fst (blacklist_hit b pfn v bl)))) - int (card (dom b)))"
  using assms dom_card(2,3) [OF assms] by (auto simp: blacklist_hit_def Let_def)

lemma exchange_pair_ok:
  assumes inv: "mig_inv env p d b s" and heads: "mg_p s = f0 # ps" "mg_d s = f1 # ds"
    and free: "bset s (folio_pfn env f0) = None" "bset s (folio_pfn env f1) = None"
    and anon: "folio_test_anon env f0" "folio_test_anon env f1"
  shows "\<exists>s'. exchange_pair env s f0 f1 = Some s' \<and> mig_inv env p d b s' \<and>
    length (mg_p s') + length (mg_d s') < length (mg_p s) + length (mg_d s)"
proof -
  define err where "err = exchange env (length (calls s)) f0 f1"
  define s1 where "s1 = s\<lparr>calls := calls s @ [(f0, f1, err)], failure := failure s + 1\<rparr>"
  define s2 where "s2 = s\<lparr>calls := calls s @ [(f0, f1, 0)], success := success s + 1\<rparr>"
  have fin: "finite (dom (bset s))" using inv by (simp add: mig_inv_def)
  note card = dom_card(1) [OF fin free(1)] dom_card(1) [OF fin free(2)]
  have inv1: "mig_inv env p d b s1" if "err \<noteq> 0"
    using inv that anon by (auto simp: mig_inv_def s1_def Suc_diff_le le_SucI)
  have "mg_p s1 = f0 # ps" "mg_d s1 = f1 # ds" using heads by (simp_all add: s1_def)
  note moves = mig_step_move [OF inv1 this]
  have run: "exchange_pair env s f0 f1 =
    (if err = - ENOTSUPP then
       Some ((move_p s1)\<lparr>bset := (bset s)(folio_pfn env f0 \<mapsto> 0), blacklist := blacklist s + 1\<rparr>)
     else if err = - ENOTSUPP + 1 then
       Some ((move_d s1)\<lparr>bset := (bset s)(folio_pfn env f1 \<mapsto> 0), blacklist := blacklist s + 1\<rparr>)
     else if err \<noteq> 0 then Some (move_d (move_p s1)) else Some (move_d (move_p s2)))"
    using free by (simp add: exchange_pair_def err_def [symmetric] Let_def s1_def s2_def ENOTSUPP_def
        blacklist_insert_new)
  consider "err = - ENOTSUPP" | "err = - ENOTSUPP + 1"
    | "err \<noteq> - ENOTSUPP" "err \<noteq> - ENOTSUPP + 1" "err \<noteq> 0" | "err = 0"
    by (auto simp: ENOTSUPP_def)
  then show ?thesis
  proof cases
    case 1
    then have "err \<noteq> 0" by (simp add: ENOTSUPP_def)
    from moves(1) [OF this, of "(bset s)(folio_pfn env f0 \<mapsto> 0)" "blacklist s + 1"] 1 fin card heads
    show ?thesis by (simp add: run s1_def move_p_def)
  next
    case 2
    then have "err \<noteq> 0" by (simp add: ENOTSUPP_def)
    from moves(2) [OF this, of "(bset s)(folio_pfn env f1 \<mapsto> 0)" "blacklist s + 1"] 2 fin card heads
    show ?thesis by (simp add: run s1_def move_d_def ENOTSUPP_def)
  next
    case 3
    with inv1 heads show ?thesis
      by (auto simp: run mig_inv_def s1_def move_p_def move_d_def subseq_grow)
  next
    case 4
    with inv heads anon show ?thesis
      by (auto simp: run mig_inv_def s2_def move_p_def move_d_def ENOTSUPP_def subseq_snoc)
  qed
qed

lemma migration_step_ok:
  assumes inv: "mig_inv env p d b s" and heads: "mg_p s = f0 # ps" "mg_d s = f1 # ds"
  shows "\<exists>s'. migration_step env s f0 f1 = Some s' \<and> mig_inv env p d b s' \<and>
    length (mg_p s') + length (mg_d s') < length (mg_p s) + length (mg_d s)"
proof -
  have fin: "finite (dom (bset s))" using inv by (simp add: mig_inv_def)
  note moves = mig_step_move [OF inv heads]
  have shorter: "length (mg_p ((move_p s)\<lparr>bset := bs, blacklist := bl\<rparr>)) +
      length (mg_d ((move_p s)\<lparr>bset := bs, blacklist := bl\<rparr>)) < length (mg_p s) + length (mg_d s)"
    "length (mg_p ((move_d s)\<lparr>bset := bs, blacklist := bl\<rparr>)) +
      length (mg_d ((move_d s)\<lparr>bset := bs, blacklist := bl\<rparr>)) < length (mg_p s) + length (mg_d s)" for bs bl
    by (simp_all add: move_p_def move_d_def heads)
  have hit: "\<exists>s'. (let (bs, bl) = blacklist_hit (bset s) pfn v (blacklist s) in
        Some ((m s)\<lparr>bset := bs, blacklist := bl\<rparr>)) = Some s' \<and> mig_inv env p d b s' \<and>
      length (mg_p s') + length (mg_d s') < length (mg_p s) + length (mg_d s)"
    if "bset s pfn = Some v" "m = move_p \<or> m = move_d" for pfn v m
    using blacklist_hit_ok [OF fin that(1), of "blacklist s"] that(2)
      moves [of "fst (blacklist_hit (bset s) pfn v (blacklist s))"
        "snd (blacklist_hit (bset s) pfn v (blacklist s))"] shorter
    by (auto simp: case_prod_unfold Let_def)
  have new: "\<exists>s'. (blacklist_insert (bset s) pfn \<bind> (\<lambda>bs.
        Some ((m s)\<lparr>bset := bs, blacklist := blacklist s + 1\<rparr>))) = Some s' \<and> mig_inv env p d b s' \<and>
      length (mg_p s') + length (mg_d s') < length (mg_p s) + length (mg_d s)"
    if "bset s pfn = None" "m = move_p \<or> m = move_d" for pfn m
    using blacklist_insert_new [of "bset s" pfn, OF that(1)] dom_card(1) [OF fin that(1)] that(2) fin
      moves [of "(bset s)(pfn \<mapsto> 0)" "blacklist s + 1"] shorter by auto
  show ?thesis
    unfolding migration_step_def
    using hit [of "folio_pfn env f0" _ move_p] hit [of "folio_pfn env f1" _ move_d]
      new [of "folio_pfn env f0" move_p] new [of "folio_pfn env f1" move_d]
      exchange_pair_ok [OF inv heads] by (simp split: option.splits)
qed

lemma migration_loop_ok:
  assumes "mig_inv env p d b s"
  shows "\<exists>s'. migration_loop env s = Some (Some s') \<and> mig_inv env p d b s' \<and>
    (mg_p s' = [] \<or> mg_d s' = [])"
  using assms
proof (induction "length (mg_p s) + length (mg_d s)" arbitrary: s rule: less_induct)
  case less
  show ?case
  proof (cases "mg_p s = [] \<or> mg_d s = []")
    case True
    with less.prems show ?thesis
      by (subst migration_loop.simps) (auto split: list.splits)
  next
    case False
    then obtain f0 ps f1 ds where heads: "mg_p s = f0 # ps" "mg_d s = f1 # ds"
      by (auto simp: neq_Nil_conv)
    obtain s' where s': "migration_step env s f0 f1 = Some s'" "mig_inv env p d b s'"
        "length (mg_p s') + length (mg_d s') < length (mg_p s) + length (mg_d s)"
      using migration_step_ok [OF less.prems heads] by blast
    have "migration_loop env s = migration_loop env s'"
      by (subst migration_loop.simps) (simp add: heads s'(1))
    then show ?thesis using less.hyps [OF s'(3,2)] by simp
  qed
qed

subsection \<open>Properties of a request\<close>

text \<open>
  C5: Handling an exchange request always ends, and no insertion into the blacklist fails its
  check.  The worker consumes a prefix of each list, in order, until one list is empty; only
  pairs of anonymous folios are exchanged, a folio is exchanged successfully at most once, and
  the success counter is the number of successful exchanges.
\<close>

theorem migration_handles_request:
  assumes "finite (dom b)"
  shows "\<exists>rest s lru'. migration_handle_req env req b lru = Some (Some (rest, s, lru')) \<and>
    promotion req = promotion_done s @ promotion rest \<and>
    demotion req = demotion_done s @ demotion rest \<and>
    (promotion rest = [] \<or> demotion rest = []) \<and>
    (\<forall>(x, y, e) \<in> set (calls s). folio_test_anon env x \<and> folio_test_anon env y) \<and>
    subseq (map fst (exchanged (calls s))) (promotion_done s) \<and>
    subseq (map snd (exchanged (calls s))) (demotion_done s) \<and>
    success s = of_nat (length (exchanged (calls s)))"
proof -
  obtain s where s: "migration_loop env (mig_init req b) = Some (Some s)"
      "mig_inv env (promotion req) (demotion req) b s" "mg_p s = [] \<or> mg_d s = []"
    using migration_loop_ok [OF mig_inv_init [OF assms, of env req]] by blast
  then show ?thesis
    by (auto simp: migration_handle_req_def mig_inv_def Let_def)
qed

definition demo_env :: "nat folio_env" where
  "demo_env = \<lparr>folio_pfn = of_nat, folio_test_anon = (\<lambda>f. f \<noteq> 2),
     exchange = (\<lambda>n a b. if n = 1 then - ENOTSUPP else 0)\<rparr>"

theorem migration_handles_request_witness:
  "\<exists>rest s lru'. migration_handle_req demo_env
      \<lparr>promotion = [1, 2, 3, 4], demotion = [11, 12, 13, 14, 15]\<rparr> Map.empty []
      = Some (Some (rest, s, lru')) \<and>
    promotion rest = [] \<and> demotion rest = [13, 14, 15] \<and> exchanged (calls s) = [(1, 11), (4, 12)] \<and>
    success s = 2"
proof -
  let ?req = "\<lparr>promotion = [1, 2, 3, 4], demotion = [11, 12, 13, 14, 15 :: nat]\<rparr>"
  have "map_option (map_option (\<lambda>(rest, s, lru'). (promotion rest, demotion rest, exchanged (calls s))))
      (migration_handle_req demo_env ?req Map.empty [])
    = Some (Some ([], [13, 14, 15], [(1, 11), (4, 12)]))"
    by code_simp
  moreover obtain rest s lru' where
      "migration_handle_req demo_env ?req Map.empty [] = Some (Some (rest, s, lru'))"
      "success s = of_nat (length (exchanged (calls s)))"
    using migration_handles_request [of Map.empty demo_env ?req "[]"] by auto
  ultimately show ?thesis by auto
qed

text \<open>
  C3: Every folio isolated for a request is put back on the LRU lists exactly once: those the
  migration worker is done with by itself, the others when the policy worker handles the
  response.
\<close>

theorem isolated_folios_put_back_once:
  assumes "finite (dom b)"
  shows "\<exists>rest s lru'. migration_handle_req env req b lru = Some (Some (rest, s, lru')) \<and>
    mset (policy_handle_exch_rsp rest lru') = mset lru + mset (promotion req) + mset (demotion req)"
proof -
  obtain s where s: "migration_loop env (mig_init req b) = Some (Some s)"
      "mig_inv env (promotion req) (demotion req) b s"
    using migration_loop_ok [OF mig_inv_init [OF assms, of env req]] by blast
  then have "mset (promotion req) = mset (promotion_done s) + mset (mg_p s)"
    "mset (demotion req) = mset (demotion_done s) + mset (mg_d s)"
    by (auto simp: mig_inv_def)
  with s(1) show ?thesis
    by (auto simp: migration_handle_req_def policy_handle_exch_rsp_def unmanage_folio_def Let_def)
qed

theorem isolated_folios_put_back_once_witness:
  "\<exists>rest s lru'. migration_handle_req demo_env
      \<lparr>promotion = [1, 2, 3], demotion = [11, 12]\<rparr> [1 \<mapsto> 128] [7] = Some (Some (rest, s, lru')) \<and>
    mset (policy_handle_exch_rsp rest lru') = {#7, 1, 2, 3, 11, 12#}"
  using isolated_folios_put_back_once [of "[1 \<mapsto> 128]" demo_env
    "\<lparr>promotion = [1, 2, 3], demotion = [11, 12]\<rparr>" "[7]"]
  by (simp add: add_mset_commute)

text \<open>
  C26: The counter of blacklisted folios is the growth of the blacklist, modulo
  \<open>2\<^sup>6\<^sup>4\<close>: it wraps around when more entries leave the blacklist than enter it.
\<close>

theorem blacklist_counter_is_growth:
  assumes "finite (dom b)"
  shows "\<exists>rest s lru'. migration_handle_req env req b lru = Some (Some (rest, s, lru')) \<and>
    blacklist s = of_int (int (card (dom (bset s))) - int (card (dom b)))"
proof -
  obtain s where "migration_loop env (mig_init req b) = Some (Some s)"
      "mig_inv env (promotion req) (demotion req) b s"
    using migration_loop_ok [OF mig_inv_init [OF assms, of env req]] by blast
  then show ?thesis
    by (auto simp: migration_handle_req_def mig_inv_def Let_def)
qed

theorem blacklist_counter_is_growth_witness:
  "\<exists>rest s lru'. migration_handle_req demo_env \<lparr>promotion = [1], demotion = [11]\<rparr> [1 \<mapsto> 128] []
      = Some (Some (rest, s, lru')) \<and> blacklist s = of_int (int (card (dom (bset s))) - 1) \<and>
      blacklist s = - 1"
proof -
  have "map_option (map_option (\<lambda>(rest, s, lru'). blacklist s))
      (migration_handle_req demo_env \<lparr>promotion = [1], demotion = [11]\<rparr> [1 \<mapsto> 128] []) = Some (Some (- 1))"
    by code_simp
  then show ?thesis
    using blacklist_counter_is_growth [of "[1 \<mapsto> 128]" demo_env "\<lparr>promotion = [1], demotion = [11]\<rparr>" "[]"]
    by auto
qed

end
