(* ===== verification/Policy.thy ===== *)
theory Policy
  imports RangeTree Migration
begin

text \<open>
  The policy worker of the Demeter guest module (\<open>mm/demeter/core.c\<close>, with \<open>rt_rank\<close> and
  \<open>rt_isolate\<close> of \<open>mm/demeter/range_tree.h\<close>): accounting of access samples, ranking of the
  managed ranges, the choice of the ranges to promote and to demote, and the isolation of
  their folios.

  The page-table walk, the LRU lists and \<open>sort_r\<close> belong to the kernel and are the fields of
  \<open>mm_env\<close>.  Samples arrive as the list the channel delivers.  The managed ranges are the list
  of ranges that the tree of the theory RangeTree holds, in address order.
\<close>

subsection \<open>Samples\<close>

record perf_sample =
  sm_pid :: u32
  sm_addr :: ulong

record mm_layout =
  mmap_legacy_base :: ulong
  mmap_base :: ulong
  start_code :: ulong
  end_data :: ulong
  start_brk :: ulong

text \<open>The codes of the counters of discarded samples, relative to \<open>PEBS_NR_DISCARDED\<close>.\<close>

definition DISCARDED_NULL :: int where "DISCARDED_NULL = 1"
definition DISCARDED_PID :: int where "DISCARDED_PID = 2"
definition DISCARDED_IGNORE :: int where "DISCARDED_IGNORE = 4"

text \<open>\<open>TRY\<close> returns early on values that are error numbers, the 4095 values below zero.\<close>

definition is_err_value :: "int \<Rightarrow> bool" where
  "is_err_value v \<longleftrightarrow> (word_of_int v :: ulong) \<ge> word_of_int (- 4095)"

definition policy_handle_sample_one ::
    "'mt kernel \<Rightarrow> u32 \<Rightarrow> mm_layout \<Rightarrow> 'mt range_tree \<Rightarrow> kheap \<Rightarrow> perf_sample \<Rightarrow> bug + int \<times> kheap" where
  "policy_handle_sample_one k pid mm rt h s =
    (let vaddr = sm_addr s in
     if vaddr = 0 then Inr (DISCARDED_NULL, h)
     else if sm_pid s \<noteq> pid then Inr (DISCARDED_PID, h)
     else if \<not> (mmap_legacy_base mm \<le> vaddr \<and> vaddr < mmap_base mm) then Inr (DISCARDED_IGNORE, h)
     else if start_code mm \<le> vaddr \<and> vaddr < max (end_data mm) (start_brk mm)
       then Inr (DISCARDED_IGNORE, h)
     else (case rt_count k rt h vaddr of
         Inl b \<Rightarrow> Inl b
       | Inr (v, h') \<Rightarrow> if is_err_value v then Inr (v, h') else Inr (0, h')))"

definition MPSC_MAX_BATCH :: int where
  "MPSC_MAX_BATCH = 16384"

text \<open>
  \<open>if (!err) ++rcv; else ++dis[max(err, 0)];\<close> where an index outside \<open>dis\<close> has no defined meaning
  in C.
\<close>

definition account_sample :: "int \<Rightarrow> int \<Rightarrow> int list \<Rightarrow> (int \<times> int list) option" where
  "account_sample err rcv dis =
    (if err = 0 then Some (rcv + 1, dis)
     else
       let i = nat (max err 0) in
       if i < length dis then Some (rcv, dis[i := dis ! i + 1]) else None)"

text \<open>
  The loop over the samples the channel delivers.  The result is the number received, the
  array \<open>dis\<close> of discarded ones, the heap and the samples left in the channel.
\<close>

fun policy_handle_samples ::
    "'mt kernel \<Rightarrow> u32 \<Rightarrow> mm_layout \<Rightarrow> 'mt range_tree \<Rightarrow> kheap \<Rightarrow> int \<Rightarrow> int list \<Rightarrow> perf_sample list
      \<Rightarrow> (bug + int \<times> int list \<times> kheap \<times> perf_sample list) option" where
  "policy_handle_samples k pid mm rt h rcv dis [] = Some (Inr (rcv, dis, h, []))"
| "policy_handle_samples k pid mm rt h rcv dis (s # ss) =
    (case policy_handle_sample_one k pid mm rt h s of
       Inl b \<Rightarrow> Some (Inl b)
     | Inr (err, h') \<Rightarrow> (case account_sample err rcv dis of
         None \<Rightarrow> None
       | Some (rcv', dis') \<Rightarrow>
           if rcv' + dis' ! 0 > MPSC_MAX_BATCH then Some (Inr (rcv', dis', h', ss))
           else policy_handle_samples k pid mm rt h' rcv' dis' ss))"

text \<open>
  A sample is taken into account when its address is nonzero, belongs to the managed process
  and lies in the part of the address space that is managed.
\<close>

definition sample_relevant :: "u32 \<Rightarrow> mm_layout \<Rightarrow> perf_sample \<Rightarrow> bool" where
  "sample_relevant pid mm s \<longleftrightarrow> sm_addr s \<noteq> 0 \<and> sm_pid s = pid \<and>
    mmap_legacy_base mm \<le> sm_addr s \<and> sm_addr s < mmap_base mm \<and>
    \<not> (start_code mm \<le> sm_addr s \<and> sm_addr s < max (end_data mm) (start_brk mm))"

definition count_sample :: "u32 \<Rightarrow> mm_layout \<Rightarrow> perf_sample \<Rightarrow> mrange list \<Rightarrow> mrange list" where
  "count_sample pid mm s rs = (if sample_relevant pid mm s then map (bump (sm_addr s)) rs else rs)"

lemma is_err_value_small: "0 \<le> v \<Longrightarrow> v < 2 ^ 31 \<Longrightarrow> \<not> is_err_value v"
proof -
  assume v: "0 \<le> v" "v < 2 ^ 31"
  have "uint (word_of_int v :: ulong) = v"
    using v by (simp add: uint_word_of_int)
  moreover have "uint (word_of_int (- 4095) :: ulong) = 2 ^ 64 - 4095"
    by (simp add: uint_word_of_int)
  ultimately show "\<not> is_err_value v"
    using v by (simp add: is_err_value_def word_le_def)
qed

lemma covered_bump [simp]: "covered (map (bump a) rs) = covered rs"
  by (induction rs) (auto simp: bump_def mr_addrs_def)

lemma covered_count_sample [simp]: "covered (count_sample pid mm s rs) = covered rs"
  by (simp add: count_sample_def)

lemma sample_one_ok:
  assumes "kernel_laws k entries" "rt_rel entries rt h rs"
  shows "\<exists>code h'. policy_handle_sample_one k pid mm rt h s = Inr (code, h') \<and>
    rt_rel entries rt h' (count_sample pid mm s rs) \<and> (code = 0 \<longleftrightarrow> sample_relevant pid mm s) \<and>
    0 \<le> code \<and> code \<le> 4"
proof (cases "sample_relevant pid mm s")
  case True
  obtain h' where h': "rt_count k rt h (sm_addr s) =
      Inr (if sm_addr s \<in> covered rs then 0 else PEBS_ERROR_CODE, h')"
      "rt_rel entries rt h' (map (bump (sm_addr s)) rs)"
    using rt_count_ok [OF assms, of "sm_addr s"] by blast
  have "\<not> is_err_value (if sm_addr s \<in> covered rs then 0 else PEBS_ERROR_CODE)"
    by (rule is_err_value_small) (simp_all add: PEBS_ERROR_CODE_def)
  then have "policy_handle_sample_one k pid mm rt h s = Inr (0, h')"
    using True h'(1) by (auto simp: policy_handle_sample_one_def sample_relevant_def Let_def)
  with True h'(2) show ?thesis by (simp add: count_sample_def)
next
  case False
  then show ?thesis
    using assms(2)
    by (auto simp: policy_handle_sample_one_def sample_relevant_def count_sample_def Let_def
        DISCARDED_NULL_def DISCARDED_PID_def DISCARDED_IGNORE_def)
qed

definition samples_result ::
    "('mt \<Rightarrow> entry list) \<Rightarrow> 'mt range_tree \<Rightarrow> u32 \<Rightarrow> mm_layout \<Rightarrow> mrange list \<Rightarrow> int \<Rightarrow> int list
      \<Rightarrow> perf_sample list \<Rightarrow> perf_sample list
      \<Rightarrow> (bug + int \<times> int list \<times> kheap \<times> perf_sample list) option \<Rightarrow> bool" where
  "samples_result entries rt pid mm rs rcv dis used rest out \<longleftrightarrow>
    (\<exists>rcv' dis' h'. out = Some (Inr (rcv', dis', h', rest)) \<and>
      rt_rel entries rt h' (fold (count_sample pid mm) used rs) \<and>
      rcv' = rcv + int (length (filter (sample_relevant pid mm) used)) \<and>
      length dis' = 5 \<and> dis' ! 0 = 0 \<and>
      sum_list dis' = sum_list dis + int (length (filter (\<lambda>s. \<not> sample_relevant pid mm s) used)) \<and>
      (rest = [] \<or> rcv' = MPSC_MAX_BATCH + 1))"

lemma account_sample_ok:
  assumes "length dis = 5" "dis ! 0 = 0" "0 \<le> err" "err \<le> 4"
  shows "\<exists>rcv' dis'. account_sample err rcv dis = Some (rcv', dis') \<and> length dis' = 5 \<and> dis' ! 0 = 0 \<and>
    rcv' = rcv + (if err = 0 then 1 else 0) \<and> sum_list dis' = sum_list dis + (if err = 0 then 0 else 1)"
proof -
  have i: "nat err < length dis" using assms by simp
  have "sum_list (dis[nat err := dis ! nat err + 1]) = sum_list dis + 1"
    using i by (simp add: sum_list_update_group)
  with assms i show ?thesis by (auto simp: account_sample_def Let_def max_def)
qed

lemma policy_handle_samples_ok:
  assumes laws: "kernel_laws k entries"
  shows "rt_rel entries rt h rs \<Longrightarrow> length dis = 5 \<Longrightarrow> dis ! 0 = 0 \<Longrightarrow> rcv \<le> MPSC_MAX_BATCH \<Longrightarrow>
    \<exists>used rest. ss = used @ rest \<and>
      samples_result entries rt pid mm rs rcv dis used rest
        (policy_handle_samples k pid mm rt h rcv dis ss)"
proof (induction ss arbitrary: h rs rcv dis)
  case Nil
  then show ?case by (simp add: samples_result_def)
next
  case (Cons s ss)
  obtain code h1 where one: "policy_handle_sample_one k pid mm rt h s = Inr (code, h1)"
      "rt_rel entries rt h1 (count_sample pid mm s rs)" "code = 0 \<longleftrightarrow> sample_relevant pid mm s"
      "0 \<le> code" "code \<le> 4"
    using sample_one_ok [OF laws Cons.prems(1)] by blast
  obtain rcv1 dis1 where acc: "account_sample code rcv dis = Some (rcv1, dis1)" "length dis1 = 5"
      "dis1 ! 0 = 0" "rcv1 = rcv + (if code = 0 then 1 else 0)"
      "sum_list dis1 = sum_list dis + (if code = 0 then 0 else 1)"
    using account_sample_ok [OF Cons.prems(2,3) one(4,5)] by blast
  have run: "policy_handle_samples k pid mm rt h rcv dis (s # ss) =
      (if rcv1 > MPSC_MAX_BATCH then Some (Inr (rcv1, dis1, h1, ss))
       else policy_handle_samples k pid mm rt h1 rcv1 dis1 ss)"
    by (simp add: one(1) acc(1,3))
  have step: "samples_result entries rt pid mm rs rcv dis (s # used) rest out"
    if "samples_result entries rt pid mm (count_sample pid mm s rs) rcv1 dis1 used rest out" for used rest out
    using that acc(4,5) one(3) by (auto simp: samples_result_def)
  show ?case
  proof (cases "rcv1 > MPSC_MAX_BATCH")
    case True
    then have "rcv1 = MPSC_MAX_BATCH + 1"
      using Cons.prems(4) acc(4) by (simp split: if_splits)
    then have "samples_result entries rt pid mm (count_sample pid mm s rs) rcv1 dis1 [] ss
        (Some (Inr (rcv1, dis1, h1, ss)))"
      using one(2) acc by (simp add: samples_result_def)
    from step [OF this] have "samples_result entries rt pid mm rs rcv dis [s] ss
        (policy_handle_samples k pid mm rt h rcv dis (s # ss))"
      unfolding run using True by simp
    moreover have "s # ss = [s] @ ss" by simp
    ultimately show ?thesis by blast
  next
    case False
    then obtain used rest where "ss = used @ rest" "samples_result entries rt pid mm
        (count_sample pid mm s rs) rcv1 dis1 used rest (policy_handle_samples k pid mm rt h1 rcv1 dis1 ss)"
      using Cons.IH [OF one(2) acc(2,3), of rcv1] by (meson not_le_imp_less)
    with step have "s # ss = (s # used) @ rest" "samples_result entries rt pid mm rs rcv dis (s # used) rest
        (policy_handle_samples k pid mm rt h1 rcv1 dis1 ss)" by simp_all
    moreover have "policy_handle_samples k pid mm rt h rcv dis (s # ss) =
        policy_handle_samples k pid mm rt h1 rcv1 dis1 ss"
      unfolding run using False by simp
    ultimately show ?thesis by metis
  qed
qed

text \<open>
  C8: One batch of samples.  A prefix of the delivered samples is consumed, all of them
  unless more than \<open>MPSC_MAX_BATCH\<close> were received; every consumed sample is either received or
  entered into a counter inside the array \<open>dis\<close>, and the tree then holds exactly the access
  counts obtained by counting each relevant sample in the range that contains it.
\<close>

theorem policy_samples_accounted:
  assumes "kernel_laws k entries" "rt_rel entries rt h rs"
  shows "\<exists>used rest. ss = used @ rest \<and>
    samples_result entries rt pid mm rs 0 (replicate 5 0) used rest
      (policy_handle_samples k pid mm rt h 0 (replicate 5 0) ss)"
  by (rule policy_handle_samples_ok [OF assms]) (simp_all add: MPSC_MAX_BATCH_def)

definition demo_mm :: mm_layout where
  "demo_mm = \<lparr>mmap_legacy_base = 0x1000, mmap_base = 0x100000000, start_code = 0x2000,
     end_data = 0x3000, start_brk = 0x4000\<rparr>"

theorem policy_samples_accounted_witness:
  "\<exists>used rest. [\<lparr>sm_pid = 7, sm_addr = 0x50000000\<rparr>, \<lparr>sm_pid = 8, sm_addr = 0x50000000\<rparr>] = used @ rest \<and>
    samples_result list_entries demo_tree 7 demo_mm [demo_range] 0 (replicate 5 0) used rest
      (policy_handle_samples (list_kernel [2, 3] 1) 7 demo_mm demo_tree demo_heap 0 (replicate 5 0)
        [\<lparr>sm_pid = 7, sm_addr = 0x50000000\<rparr>, \<lparr>sm_pid = 8, sm_addr = 0x50000000\<rparr>])"
  by (rule policy_samples_accounted [OF list_kernel_laws demo_rel])

text \<open>
  C28: A relevant sample whose address lies in no managed range is reported as received
  (result 0), not as erroneous, although \<open>rt_count\<close> returns its error code: the code is
  positive and \<open>TRY\<close> only reacts to negative error numbers.
\<close>

theorem uncovered_sample_reported_received:
  assumes "kernel_laws k entries" "rt_rel entries rt h rs"
    and "sample_relevant pid mm s" "sm_addr s \<notin> covered rs"
  shows "rt_count k rt h (sm_addr s) = Inr (PEBS_ERROR_CODE, h) \<and>
    policy_handle_sample_one k pid mm rt h s = Inr (0, h)"
proof -
  have "rt_count k rt h (sm_addr s) = Inr (PEBS_ERROR_CODE, h)"
    using rt_count_ok [OF assms(1,2), of "sm_addr s"] assms(4) by auto
  moreover have "\<not> is_err_value PEBS_ERROR_CODE"
    by (rule is_err_value_small) (simp_all add: PEBS_ERROR_CODE_def)
  ultimately show ?thesis
    using assms(3) by (auto simp: policy_handle_sample_one_def sample_relevant_def Let_def)
qed

theorem uncovered_sample_reported_received_witness:
  "rt_count (list_kernel [2, 3] 1) demo_tree demo_heap 0x90000000 = Inr (PEBS_ERROR_CODE, demo_heap) \<and>
   policy_handle_sample_one (list_kernel [2, 3] 1) 7 demo_mm demo_tree demo_heap
     \<lparr>sm_pid = 7, sm_addr = 0x90000000\<rparr> = Inr (0, demo_heap)"
proof -
  have "sample_relevant 7 demo_mm \<lparr>sm_pid = 7, sm_addr = 0x90000000\<rparr>"
    by (simp add: sample_relevant_def demo_mm_def max_def)
  moreover have "sm_addr \<lparr>sm_pid = 7, sm_addr = 0x90000000\<rparr> \<notin> covered [demo_range]"
    by (simp add: mr_addrs_def demo_range_def)
  ultimately show ?thesis
    using uncovered_sample_reported_received [OF list_kernel_laws [of "[2, 3]" 1] demo_rel] by fastforce
qed

subsection \<open>Ranking\<close>

record 'f mm_env =
  walk :: "ulong \<Rightarrow> ulong \<Rightarrow> 'f list"
  folio_nid :: "'f \<Rightarrow> int"
  folio_anon :: "'f \<Rightarrow> bool"
  folio_isolate_lru :: "nat \<Rightarrow> 'f \<Rightarrow> bool"
  FMEM_NID :: int
  SMEM_NID :: int
  sort_r :: "(mrange \<Rightarrow> mrange \<Rightarrow> int) \<Rightarrow> mrange list \<Rightarrow> mrange list"
  node_avail_pages :: "int \<Rightarrow> ulong"

text \<open>The unsigned difference is returned as an \<open>int\<close>, which keeps its low 32 bits.\<close>

definition ulong_to_int :: "ulong \<Rightarrow> int" where
  "ulong_to_int x = sint (ucast x :: u32)"

definition rt_rank_cmp :: "mrange \<Rightarrow> mrange \<Rightarrow> int" where
  "rt_rank_cmp ra rb =
    (let freq = mrange_freq ra - mrange_freq rb;
         acc = nr_access ra - nr_access rb;
         age = mr_age ra - mr_age rb in
     ulong_to_int (if freq \<noteq> 0 then freq else if acc \<noteq> 0 then acc else age))"

definition count_folio :: "'f mm_env \<Rightarrow> 'f \<Rightarrow> mrange \<Rightarrow> mrange" where
  "count_folio env folio r =
    (let nid = (if folio_anon env folio then folio_nid env folio else - 1) in
     r\<lparr>in_fmem := in_fmem r + of_bool (nid = FMEM_NID env),
       in_smem := in_smem r + of_bool (nid = SMEM_NID env)\<rparr>)"

definition rank_populate :: "'f mm_env \<Rightarrow> mrange \<Rightarrow> mrange" where
  "rank_populate env r = fold (count_folio env) (walk env (mr_start r) (mr_end r)) r"

text \<open>The last loop of \<open>rt_rank\<close> on the reversed ranking: trailing young ranges are cut off.\<close>

fun rank_cut :: "'mt range_tree \<Rightarrow> nat \<Rightarrow> mrange list \<Rightarrow> nat" where
  "rank_cut self len [] = len"
| "rank_cut self len (r # rs) =
    (if rt_should_cool self r then rank_cut self len rs else length (r # rs))"

definition rt_rank :: "'f mm_env \<Rightarrow> 'mt range_tree \<Rightarrow> mrange list \<Rightarrow> nat \<Rightarrow> mrange list \<times> nat" where
  "rt_rank env self rs len =
    (let out = sort_r env rt_rank_cmp (map (rank_populate env) rs) in
     (out, rank_cut self len (rev out)))"

lemma ulong_to_int_diff:
  assumes "uint a < 2 ^ 31" "uint b < 2 ^ 31"
  shows "ulong_to_int (a - b) = uint a - uint b"
proof -
  define d where "d = uint a - uint b"
  have "a - b = word_of_int d"
    by (simp add: d_def)
  then have "ulong_to_int (a - b) = sint (word_of_int (take_bit 64 d) :: u32)"
    by (simp add: ulong_to_int_def unsigned_of_int)
  also have "\<dots> = signed_take_bit 31 d"
    by (simp add: sint_sbintrunc' signed_take_bit_take_bit)
  also have "\<dots> = d"
  proof (rule signed_take_bit_int_eq_self)
    show "- (2 ^ 31) \<le> d" "d < 2 ^ 31"
      using assms uint_ge_0 [of a] uint_ge_0 [of b] unfolding d_def by linarith+
  qed
  finally show ?thesis by (simp add: d_def)
qed

definition rank_key :: "mrange \<Rightarrow> int \<times> int \<times> int" where
  "rank_key r = (uint (mrange_freq r), uint (nr_access r), uint (mr_age r))"

definition rank_small :: "mrange \<Rightarrow> bool" where
  "rank_small r \<longleftrightarrow> uint (mrange_freq r) < 2 ^ 31 \<and> uint (nr_access r) < 2 ^ 31 \<and> uint (mr_age r) < 2 ^ 31"

definition lex_less :: "int \<times> int \<times> int \<Rightarrow> int \<times> int \<times> int \<Rightarrow> bool" where
  "lex_less x y \<longleftrightarrow> fst x < fst y \<or> fst x = fst y \<and>
    (fst (snd x) < fst (snd y) \<or> fst (snd x) = fst (snd y) \<and> snd (snd x) < snd (snd y))"

lemma ulong_sub_zero: "a - b = 0 \<longleftrightarrow> uint a = uint b" for a b :: ulong
  by (metis right_minus_eq word_uint_eq_iff)




definition folios_on :: "'f mm_env \<Rightarrow> int \<Rightarrow> mrange \<Rightarrow> 'f list" where
  "folios_on env nid r =
    filter (\<lambda>f. (if folio_anon env f then folio_nid env f else - 1) = nid) (walk env (mr_start r) (mr_end r))"

lemma fold_count_folio:
  "fold (count_folio env) fs r = r
    \<lparr>in_fmem := in_fmem r + of_nat (length (filter (\<lambda>f. (if folio_anon env f then folio_nid env f else - 1)
        = FMEM_NID env) fs)),
     in_smem := in_smem r + of_nat (length (filter (\<lambda>f. (if folio_anon env f then folio_nid env f else - 1)
        = SMEM_NID env) fs))\<rparr>"
  by (induction fs arbitrary: r) (simp_all add: count_folio_def Let_def)

lemma rank_populate_eq:
  "rank_populate env r = r\<lparr>in_fmem := in_fmem r + of_nat (length (folios_on env (FMEM_NID env) r)),
    in_smem := in_smem r + of_nat (length (folios_on env (SMEM_NID env) r))\<rparr>"
  by (simp add: rank_populate_def fold_count_folio folios_on_def)

text \<open>
  C29: Ranking counts the folios of a range on top of the counts of the previous ranking, so that
  after \<open>n\<close> rankings of an unchanged address space the counts are \<open>n\<close> times too large.
\<close>

theorem ranking_accumulates_folio_counts:
  "in_smem ((rank_populate env ^^ n) r) = in_smem r + of_nat (n * length (folios_on env (SMEM_NID env) r)) \<and>
   in_fmem ((rank_populate env ^^ n) r) = in_fmem r + of_nat (n * length (folios_on env (FMEM_NID env) r))"
proof -
  have "mr_start ((rank_populate env ^^ n) r) = mr_start r \<and> mr_end ((rank_populate env ^^ n) r) = mr_end r" for n
    by (induction n) (simp_all add: rank_populate_eq)
  then have "folios_on env nid ((rank_populate env ^^ n) r) = folios_on env nid r" for n nid
    by (simp add: folios_on_def)
  then show ?thesis
    by (induction n) (simp_all add: rank_populate_eq)
qed

lemma rank_cut_cases:
  "(\<forall>r \<in> set zs. rt_should_cool self r) \<and> rank_cut self len zs = len \<or>
   (\<exists>ys r rest. zs = ys @ r # rest \<and> (\<forall>y \<in> set ys. rt_should_cool self y) \<and>
      \<not> rt_should_cool self r \<and> rank_cut self len zs = Suc (length rest))"
proof (induction zs)
  case (Cons z zs)
  show ?case
  proof (cases "rt_should_cool self z")
    case True
    have "\<exists>ys' r rest. z # ys @ r' # rest' = ys' @ r # rest \<and> (\<forall>y \<in> set ys'. rt_should_cool self y) \<and>
        \<not> rt_should_cool self r \<and> Suc (length rest') = Suc (length rest)"
      if "\<forall>y \<in> set ys. rt_should_cool self y" "\<not> rt_should_cool self r'" for ys r' rest'
      using that True by (intro exI [of _ "z # ys"]) auto
    with Cons.IH True show ?thesis by fastforce
  next
    case False
    then have "z # zs = [] @ z # zs" "rank_cut self len (z # zs) = Suc (length zs)" by simp_all
    with False show ?thesis by (metis empty_iff empty_set)
  qed
qed simp

text \<open>
  C10: With a sorting routine that permutes its input, ranking keeps all ranges.  The ranges
  beyond the returned length are a tail of the ranking in which every range was split too recently,
  and that tail is cut off in full unless it is the whole ranking.
\<close>

theorem rt_rank_result:
  assumes sort: "\<And>xs. mset (sort_r env rt_rank_cmp xs) = mset xs" and "rs \<noteq> []"
    and rank: "rt_rank env self rs (length rs) = (out, n)"
  shows "mset out = mset (map (rank_populate env) rs) \<and> 0 < n \<and> n \<le> length out \<and>
    (\<forall>r \<in> set (drop n out). rt_should_cool self r) \<and>
    (rt_should_cool self (out ! (n - 1)) \<longrightarrow> n = length out \<and> (\<forall>r \<in> set out. rt_should_cool self r))"
proof -
  have out: "out = sort_r env rt_rank_cmp (map (rank_populate env) rs)"
    and n: "n = rank_cut self (length rs) (rev out)"
    using rank by (auto simp: rt_rank_def Let_def)
  have m: "mset out = mset (map (rank_populate env) rs)" by (simp only: out sort)
  then have len: "length out = length rs" by (metis length_map size_mset)
  from rank_cut_cases [of "rev out" self "length rs"] show ?thesis
  proof
    assume "(\<forall>r \<in> set (rev out). rt_should_cool self r) \<and> rank_cut self (length rs) (rev out) = length rs"
    then show ?thesis using m len n \<open>rs \<noteq> []\<close> by simp
  next
    assume "\<exists>ys r rest. rev out = ys @ r # rest \<and> (\<forall>y \<in> set ys. rt_should_cool self y) \<and>
      \<not> rt_should_cool self r \<and> rank_cut self (length rs) (rev out) = Suc (length rest)"
    then obtain ys r rest where r: "rev out = ys @ r # rest" "\<forall>y \<in> set ys. rt_should_cool self y"
      "\<not> rt_should_cool self r" "n = Suc (length rest)" using n by blast
    have "out = rev rest @ [r] @ rev ys" using arg_cong [OF r(1), of rev] by simp
    with r m show ?thesis by (simp add: nth_append)
  qed
qed

definition demo_mm_env :: "nat mm_env" where
  "demo_mm_env = \<lparr>walk = (\<lambda>a b. [1, 2, 3]), folio_nid = (\<lambda>f. if f = 2 then 0 else 1), folio_anon = (\<lambda>f. True),
     folio_isolate_lru = (\<lambda>n f. True), FMEM_NID = 0, SMEM_NID = 1, sort_r = (\<lambda>cmp xs. xs),
     node_avail_pages = (\<lambda>nid. 100)\<rparr>"

theorem rt_rank_result_witness:
  "rt_rank demo_mm_env (demo_tree\<lparr>rt_age := 4\<rparr>) [demo_range, demo_range\<lparr>mr_age := 4\<rparr>] 2
     = ([rank_populate demo_mm_env demo_range, rank_populate demo_mm_env (demo_range\<lparr>mr_age := 4\<rparr>)], 1) \<and>
   list_all (rt_should_cool (demo_tree\<lparr>rt_age := 4\<rparr>))
     (drop 1 [rank_populate demo_mm_env demo_range, rank_populate demo_mm_env (demo_range\<lparr>mr_age := 4\<rparr>)])"
proof -
  have sort: "mset (sort_r demo_mm_env rt_rank_cmp xs) = mset xs" for xs
    by (simp add: demo_mm_env_def)
  have rank: "rt_rank demo_mm_env (demo_tree\<lparr>rt_age := 4\<rparr>) [demo_range, demo_range\<lparr>mr_age := 4\<rparr>]
      (length [demo_range, demo_range\<lparr>mr_age := 4\<rparr>])
     = ([rank_populate demo_mm_env demo_range, rank_populate demo_mm_env (demo_range\<lparr>mr_age := 4\<rparr>)], 1)"
    by (simp add: rt_rank_def rank_populate_eq rt_should_cool_def demo_mm_env_def demo_tree_def
        demo_range_def RTREE_COOL_AGE_def)
  show ?thesis
    using rt_rank_result [OF sort _ rank] rank by (simp add: numeral_2_eq_2 list_all_iff)
qed

subsection \<open>Isolation of folios\<close>

text \<open>
  \<open>lst\<close> is the list the isolated folios are added to, \<open>refs\<close> the number of references the walk
  holds on each folio, \<open>tries\<close> the number of calls of \<open>folio_isolate_lru\<close>.
\<close>

record 'f iso =
  lst :: "'f list"
  refs :: "'f \<Rightarrow> int"
  tries :: nat

definition iso_get :: "'f \<Rightarrow> 'f iso \<Rightarrow> 'f iso" where
  "iso_get f st = st\<lparr>refs := (refs st)(f := refs st f + 1)\<rparr>"

definition iso_put :: "'f \<Rightarrow> 'f iso \<Rightarrow> 'f iso" where
  "iso_put f st = st\<lparr>refs := (refs st)(f := refs st f - 1)\<rparr>"

definition EAGAIN :: int where
  "EAGAIN = 11"

definition manage_folio :: "'f mm_env \<Rightarrow> 'f \<Rightarrow> 'f iso \<Rightarrow> int \<times> 'f iso" where
  "manage_folio env folio st =
    (let st = iso_get folio st;
         ok = folio_isolate_lru env (tries st) folio;
         st = st\<lparr>tries := tries st + 1\<rparr> in
     if \<not> ok then (- EAGAIN, iso_put folio st)
     else (0, iso_put folio (st\<lparr>lst := lst st @ [folio]\<rparr>)))"

text \<open>
  The walk over the folios of a range.  The reference of a folio is released when the loop
  advances; the early return does not advance the loop.
\<close>

fun rt_isolate_loop ::
    "'f mm_env \<Rightarrow> int \<Rightarrow> ulong \<Rightarrow> 'f list \<Rightarrow> int \<Rightarrow> 'f iso \<Rightarrow> int \<times> 'f iso" where
  "rt_isolate_loop env nid need [] got st = (got, st)"
| "rt_isolate_loop env nid need (folio # folios) got st =
    (let st = iso_get folio st in
     if folio_nid env folio \<noteq> nid then
       rt_isolate_loop env nid need folios got (iso_put folio st)
     else
       let res = manage_folio env folio st;
           got = got + of_bool (fst res = 0) in
       if (word_of_int got :: ulong) \<ge> need then (got, snd res)
       else rt_isolate_loop env nid need folios got (iso_put folio (snd res)))"

definition rt_isolate ::
    "'f mm_env \<Rightarrow> mrange \<Rightarrow> int \<Rightarrow> ulong \<Rightarrow> 'f iso \<Rightarrow> int \<times> 'f iso" where
  "rt_isolate env r nid need st =
    rt_isolate_loop env nid need (walk env (mr_start r) (mr_end r)) 0 st"

lemma word_of_int_ge_iff:
  assumes "0 \<le> g" "g < 2 ^ 64"
  shows "(word_of_int g :: ulong) \<ge> need \<longleftrightarrow> uint need \<le> g"
  using assms by (simp add: word_le_def uint_word_of_int)

lemma iso_put_get [simp]: "iso_put f (iso_get f st) = st"
  by (simp add: iso_put_def iso_get_def)

lemma manage_folio_eq:
  "manage_folio env f st =
    (if folio_isolate_lru env (tries st) f then (0, st\<lparr>lst := lst st @ [f], tries := tries st + 1\<rparr>)
     else (- EAGAIN, st\<lparr>tries := tries st + 1\<rparr>))"
  by (simp add: manage_folio_def Let_def iso_get_def iso_put_def)

text \<open>
  The outcome of an isolation, from a list \<open>l\<close> and references \<open>rf\<close>: \<open>new\<close> folios are appended, and
  the walk ended or was left early.
\<close>

definition iso_result :: "'f mm_env \<Rightarrow> int \<Rightarrow> ulong \<Rightarrow> 'f list \<Rightarrow> int \<Rightarrow> 'f list \<Rightarrow> ('f \<Rightarrow> int)
    \<Rightarrow> int \<times> 'f iso \<Rightarrow> bool" where
  "iso_result env nid need folios got l rf res \<longleftrightarrow>
    (\<exists>new. lst (snd res) = l @ new \<and> fst res = got + int (length new) \<and> subseq new folios \<and>
      (\<forall>f \<in> set new. folio_nid env f = nid) \<and>
      (if fst res = uint need
       then \<exists>f \<in> set folios. refs (snd res) = rf(f := rf f + 1)
       else fst res < uint need \<and> refs (snd res) = rf))"

lemma iso_result_skip:
  "iso_result env nid need folios got l rf res \<Longrightarrow> iso_result env nid need (f # folios) got l rf res"
  by (auto simp: iso_result_def split: if_splits)

lemma iso_result_step:
  assumes "iso_result env nid need folios (got + 1) (l @ [f]) rf res" "folio_nid env f = nid"
  shows "iso_result env nid need (f # folios) got l rf res"
proof -
  obtain new where new: "lst (snd res) = l @ f # new" "fst res = got + 1 + int (length new)"
      "subseq new folios" "\<forall>f \<in> set new. folio_nid env f = nid"
      "if fst res = uint need then \<exists>f \<in> set folios. refs (snd res) = rf(f := rf f + 1)
       else fst res < uint need \<and> refs (snd res) = rf"
    using assms(1) unfolding iso_result_def by auto
  then show ?thesis
    unfolding iso_result_def using assms(2) by (intro exI [of _ "f # new"]) (auto split: if_splits)
qed

lemma rt_isolate_loop_ok:
  assumes "0 \<le> got" "got + int (length folios) < 2 ^ 31" "got < uint need"
  shows "iso_result env nid need folios got (lst st) (refs st) (rt_isolate_loop env nid need folios got st)"
  using assms
proof (induction folios arbitrary: got st)
  case Nil
  then show ?case by (simp add: iso_result_def)
next
  case (Cons f folios)
  have ge: "(word_of_int g :: ulong) \<ge> need \<longleftrightarrow> uint need \<le> g" if "g = got \<or> g = got + 1" for g
    using that Cons.prems by (intro word_of_int_ge_iff) auto
  let ?st = "st\<lparr>lst := lst st @ [f], tries := tries st + 1\<rparr>"
  consider "folio_nid env f \<noteq> nid"
    | "folio_nid env f = nid" "\<not> folio_isolate_lru env (tries st) f"
    | "folio_nid env f = nid" "folio_isolate_lru env (tries st) f" "uint need = got + 1"
    | "folio_nid env f = nid" "folio_isolate_lru env (tries st) f" "got + 1 < uint need"
    using Cons.prems(3) by force
  then show ?case
  proof cases
    case 1
    then show ?thesis using Cons.IH [of got st] Cons.prems by (simp add: iso_result_skip)
  next
    case 2
    have "iso_result env nid need (f # folios) got (lst st) (refs st)
        (rt_isolate_loop env nid need folios got (st\<lparr>tries := tries st + 1\<rparr>))"
      using Cons.IH [of got "st\<lparr>tries := tries st + 1\<rparr>"] Cons.prems by (intro iso_result_skip) simp
    with 2 ge [of got] Cons.prems(3) show ?thesis
      by (simp add: manage_folio_eq Let_def EAGAIN_def iso_put_def iso_get_def)
  next
    case 3
    then show ?thesis
      using ge [of "got + 1"]
      by (simp add: manage_folio_eq Let_def iso_result_def iso_get_def)
  next
    case 4
    have "iso_result env nid need folios (got + 1) (lst st @ [f]) (refs st)
        (rt_isolate_loop env nid need folios (got + 1) ?st)"
      using 4 Cons.IH [of "got + 1" ?st] Cons.prems by simp
    from iso_result_step [OF this 4(1)] 4 ge [of "got + 1"] show ?thesis
      by (simp add: manage_folio_eq Let_def iso_put_def iso_get_def)
  qed
qed

text \<open>
  C9: Isolating folios of a range on a node appends folios of that node only, in walk order, at most
  as many as needed, and returns their number.  When the walk runs to its end all references it
  took are released; when the needed number is reached the function returns from inside the
  walk and one folio keeps the reference the walk took on it.
\<close>

theorem rt_isolate_result:
  assumes "int (length (walk env (mr_start r) (mr_end r))) < 2 ^ 31" "need \<noteq> 0"
  shows "iso_result env nid need (walk env (mr_start r) (mr_end r)) 0 (lst st) (refs st)
    (rt_isolate env r nid need st)"
proof -
  have "0 < uint need" using assms(2) by (simp add: word_neq_0_conv word_less_def)
  then show ?thesis
    unfolding rt_isolate_def using assms(1) by (intro rt_isolate_loop_ok) simp_all
qed

theorem rt_isolate_result_witness:
  "rt_isolate demo_mm_env demo_range 1 1 \<lparr>lst = [], refs = (\<lambda>_. 0), tries = 0\<rparr>
     = (1, \<lparr>lst = [1], refs = (\<lambda>_. 0)(1 := 1), tries = 1\<rparr>) \<and>
   iso_result demo_mm_env 1 1 [1, 2, 3] 0 [] (\<lambda>_. 0)
     (rt_isolate demo_mm_env demo_range 1 1 \<lparr>lst = [], refs = (\<lambda>_. 0), tries = 0\<rparr>)"
proof -
  have "rt_isolate demo_mm_env demo_range 1 1 \<lparr>lst = [], refs = (\<lambda>_. 0), tries = 0\<rparr>
     = (1, \<lparr>lst = [1], refs = (\<lambda>_. 0)(1 := 1), tries = 1\<rparr>)"
    by (simp add: rt_isolate_def demo_mm_env_def demo_range_def manage_folio_eq iso_get_def Let_def)
  then show ?thesis
    using rt_isolate_result [of demo_mm_env demo_range 1 1 "\<lparr>lst = [], refs = (\<lambda>_. 0), tries = 0\<rparr>"]
    by (simp add: demo_mm_env_def)
qed

subsection \<open>Exchange requests\<close>

text \<open>One iteration of the loop that sizes the two parts of the ranking.\<close>

definition choose_step ::
    "mrange list \<Rightarrow> nat \<Rightarrow> ulong \<Rightarrow> ulong \<Rightarrow> nat \<Rightarrow> ulong \<times> ulong \<times> ulong \<times> ulong \<Rightarrow> ulong \<times> ulong \<times> ulong \<times> ulong" where
  "choose_step mrs len smem_cap fmem_cap i = (\<lambda>(s, f, smem, fmem).
     let p = mrs ! i; q = mrs ! (len - 1 - i);
         smem = smem + (in_smem p + in_smem p);
         s = (if smem_cap > smem then s + 1 else s);
         fmem = fmem + (in_smem q + in_smem q);
         f = (if fmem_cap > fmem \<and> nr_access q > 0 then f - 1 else f) in
     (s, f, smem, fmem))"

definition choose_ranges ::
    "'f mm_env \<Rightarrow> mrange list \<Rightarrow> nat \<Rightarrow> ulong \<times> ulong \<times> ulong \<times> ulong" where
  "choose_ranges env mrs len =
    fold (choose_step mrs len (node_avail_pages env (SMEM_NID env)) (node_avail_pages env (FMEM_NID env)))
      [0..<len] (0, of_nat len, 0, 0)"

text \<open>
  The promotion loop \<open>for (ulong i = rlen - 1; i >= f; --i)\<close>; an index beyond the ranking reads a
  pointer that was never stored (\<open>None\<close> inside).
\<close>

partial_function (option) promote_loop ::
    "'f mm_env \<Rightarrow> mrange list \<Rightarrow> ulong \<Rightarrow> ulong \<Rightarrow> ulong \<Rightarrow> 'f iso \<Rightarrow> (ulong \<times> 'f iso) option option" where
  "promote_loop env mrs f i candidates st =
    (if i \<ge> f then
       if unat i < length mrs then
         (let res = rt_isolate env (mrs ! unat i) (SMEM_NID env) ULONG_MAX st in
          promote_loop env mrs f (i - 1) (candidates + word_of_int (fst res)) (snd res))
       else Some None
     else Some (Some (candidates, st)))"

declare promote_loop.simps [code]

text \<open>The demotion loop over the ranges before \<open>f\<close>.\<close>

fun demote_loop ::
    "'f mm_env \<Rightarrow> ulong \<Rightarrow> mrange list \<Rightarrow> ulong \<Rightarrow> 'f iso \<Rightarrow> ulong \<times> 'f iso" where
  "demote_loop env candidates [] matched st = (matched, st)"
| "demote_loop env candidates (r # rs) matched st =
    (if matched < candidates then
       let res = rt_isolate env r (FMEM_NID env) (candidates - matched) st in
       demote_loop env candidates rs (matched + word_of_int (fst res)) (snd res)
     else (matched, st))"

definition EFAULT :: int where
  "EFAULT = 14"

datatype 'f send_result =
    Send_err int
  | Send_bug
  | Send_wild_pointer
  | Send_ok "'f exch_req" ulong ulong

text \<open>
  The whole request: \<open>alloc\<close> says whether the two list heads could be allocated, \<open>sent\<close> whether
  the channel took the request, \<open>exch_thresh\<close> is the module parameter \<open>rtree_exch_thresh\<close>.
\<close>

definition policy_send_exch_reqs ::
    "'f mm_env \<Rightarrow> ulong \<Rightarrow> bool \<Rightarrow> bool \<Rightarrow> 'mt range_tree \<Rightarrow> mrange list \<Rightarrow> ('f \<Rightarrow> int)
      \<Rightarrow> 'f send_result option" where
  "policy_send_exch_reqs env exch_thresh alloc sent rt rs rf =
    (if rt_min_range rt > exch_thresh then Some (Send_err (- EAGAIN))
     else if \<not> alloc then Some (Send_err (- EFAULT))
     else
       let (mrs, rlen) = rt_rank env rt rs (length rs);
           (s, f, smem, fmem) = choose_ranges env mrs rlen in
       case promote_loop env mrs f (of_nat rlen - 1) 0 \<lparr>lst = [], refs = rf, tries = 0\<rparr> of
         None \<Rightarrow> None
       | Some None \<Rightarrow> Some Send_wild_pointer
       | Some (Some (candidates, promo)) \<Rightarrow>
           (let (matched, demo) = demote_loop env candidates (take (unat f) mrs) 0 (promo\<lparr>lst := []\<rparr>) in
            if \<not> sent then Some Send_bug
            else Some (Send_ok \<lparr>promotion = lst promo, demotion = lst demo\<rparr> candidates matched)))"

lemma choose_f:
  "\<exists>k. fst (snd (fold (choose_step mrs len sc fc) xs (s, f, sm, fm))) = f - of_nat k \<and> k \<le> length xs"
proof (induction xs arbitrary: s f sm fm)
  case (Cons x xs)
  obtain s' f' sm' fm' where step: "choose_step mrs len sc fc x (s, f, sm, fm) = (s', f', sm', fm')"
    by (metis prod_cases4)
  then have f': "f' = f \<or> f' = f - 1"
    by (auto simp: choose_step_def Let_def split: if_splits)
  obtain k where k: "fst (snd (fold (choose_step mrs len sc fc) xs (s', f', sm', fm'))) = f' - of_nat k" "k \<le> length xs"
    using Cons.IH by blast
  from f' show ?case
  proof
    assume "f' = f"
    with k step show ?thesis by (intro exI [of _ k]) simp
  next
    assume "f' = f - 1"
    with k step show ?thesis by (intro exI [of _ "Suc k"]) (simp add: algebra_simps)
  qed
qed simp

lemma choose_f_le:
  assumes "len < 2 ^ 64"
  shows "unat (fst (snd (choose_ranges env mrs len))) \<le> len"
proof -
  obtain k where k: "fst (snd (choose_ranges env mrs len)) = of_nat len - of_nat k" "k \<le> len"
    using choose_f [where xs = "[0..<len]"] by (fastforce simp: choose_ranges_def)
  then have "fst (snd (choose_ranges env mrs len)) = of_nat (len - k)" by (simp add: of_nat_diff)
  moreover have "unat (of_nat (len - k) :: ulong) = len - k"
    using assms by (intro unat_of_nat_small) simp
  ultimately show ?thesis by simp
qed

definition walks_short :: "'f mm_env \<Rightarrow> bool" where
  "walks_short env \<longleftrightarrow> (\<forall>a b. length (walk env a b) < 2 ^ 31)"

lemma isolate_all:
  assumes "walks_short env"
  shows "\<exists>new. rt_isolate env r nid ULONG_MAX st = (int (length new), snd (rt_isolate env r nid ULONG_MAX st)) \<and>
    lst (snd (rt_isolate env r nid ULONG_MAX st)) = lst st @ new \<and> length new < 2 ^ 31 \<and>
    (\<forall>f \<in> set new. folio_nid env f = nid) \<and> refs (snd (rt_isolate env r nid ULONG_MAX st)) = refs st"
proof -
  let ?ws = "walk env (mr_start r) (mr_end r)" and ?res = "rt_isolate env r nid ULONG_MAX st"
  have short: "int (length ?ws) < 2 ^ 31" using assms by (simp add: walks_short_def)
  have max: "uint ULONG_MAX = 2 ^ 64 - 1" by (simp add: unsigned_minus_1_eq_mask mask_eq_exp_minus_1)
  have "iso_result env nid ULONG_MAX ?ws 0 (lst st) (refs st) ?res"
    unfolding rt_isolate_def using short by (intro rt_isolate_loop_ok) (simp_all only: max, simp_all)
  then obtain new where new: "lst (snd ?res) = lst st @ new" "fst ?res = int (length new)" "subseq new ?ws"
      "\<forall>f \<in> set new. folio_nid env f = nid"
      "if fst ?res = uint ULONG_MAX then \<exists>f \<in> set ?ws. refs (snd ?res) = (refs st)(f := refs st f + 1)
       else fst ?res < uint ULONG_MAX \<and> refs (snd ?res) = refs st"
    unfolding iso_result_def by (metis add_0)
  have "length new \<le> length ?ws" using new(3) by (rule list_emb_length)
  then have "length new < 2 ^ 31" "fst ?res \<noteq> uint ULONG_MAX"
    using short unfolding max new(2) by simp_all
  with new show ?thesis by (metis prod.collapse)
qed

lemma promote_loop_ok:
  assumes walks: "walks_short env" and f: "0 < unat f" "unat f \<le> unat i + 1" "unat i < length mrs"
  shows "\<exists>st' new. promote_loop env mrs f i (of_nat (length (lst st))) st
      = Some (Some (of_nat (length (lst st')), st')) \<and> lst st' = lst st @ new \<and>
    (\<forall>x \<in> set new. folio_nid env x = SMEM_NID env) \<and> refs st' = refs st \<and>
    length new \<le> (unat i + 1 - unat f) * 2 ^ 31"
  using f
proof (induction "unat i + 1 - unat f" arbitrary: i st)
  case 0
  then have "\<not> i \<ge> f" by (simp add: word_le_nat_alt)
  then have "promote_loop env mrs f i (of_nat (length (lst st))) st = Some (Some (of_nat (length (lst st)), st))"
    by (subst promote_loop.simps) simp
  then show ?case by (intro exI [of _ st] exI [of _ "[]"]) simp
next
  case (Suc n)
  then have ge: "i \<ge> f" "0 < unat i" by (simp_all add: word_le_nat_alt)
  have pred: "unat (i - 1) = unat i - 1"
    using ge(2) by (simp add: unat_sub word_le_nat_alt)
  let ?res = "rt_isolate env (mrs ! unat i) (SMEM_NID env) ULONG_MAX st"
  obtain new where new: "fst ?res = int (length new)" "lst (snd ?res) = lst st @ new" "length new < 2 ^ 31"
      "\<forall>f \<in> set new. folio_nid env f = SMEM_NID env" "refs (snd ?res) = refs st"
    using isolate_all [OF walks, of "mrs ! unat i" "SMEM_NID env" st] by (metis fst_conv)
  have run: "promote_loop env mrs f i (of_nat (length (lst st))) st =
      promote_loop env mrs f (i - 1) (of_nat (length (lst (snd ?res)))) (snd ?res)"
    using ge Suc.prems(3) new(1,2) by (subst promote_loop.simps) (simp add: Let_def)
  have "n = unat (i - 1) + 1 - unat f" "unat f \<le> unat (i - 1) + 1" "unat (i - 1) < length mrs"
    using Suc.hyps(2) Suc.prems ge(2) by (simp_all add: pred)
  from Suc.hyps(1) [OF this(1) Suc.prems(1) this(2,3), of "snd ?res"]
  obtain st' new' where IH: "promote_loop env mrs f (i - 1) (of_nat (length (lst (snd ?res)))) (snd ?res)
      = Some (Some (of_nat (length (lst st')), st'))" "lst st' = lst (snd ?res) @ new'"
      "\<forall>x \<in> set new'. folio_nid env x = SMEM_NID env" "refs st' = refs (snd ?res)"
      "length new' \<le> (unat (i - 1) + 1 - unat f) * 2 ^ 31" by blast
  have "length (new @ new') \<le> (unat i + 1 - unat f) * 2 ^ 31"
  proof -
    have "unat i + 1 - unat f = Suc (unat (i - 1) + 1 - unat f)"
      using Suc.hyps(2) ge(2) by (simp add: pred)
    then show ?thesis using IH(5) new(3) by simp
  qed
  then show ?case
    unfolding run using IH new by (intro exI [of _ st'] exI [of _ "new @ new'"]) auto
qed

lemma demote_loop_ok:
  assumes walks: "walks_short env" and "c < 2 ^ 63"
  shows "length (lst st) \<le> c \<Longrightarrow>
    \<exists>st' new. demote_loop env (of_nat c) rs (of_nat (length (lst st))) st = (of_nat (length (lst st')), st') \<and>
      lst st' = lst st @ new \<and> length (lst st') \<le> c \<and> (\<forall>x \<in> set new. folio_nid env x = FMEM_NID env)"
proof (induction rs arbitrary: st)
  case Nil
  then show ?case by simp
next
  case (Cons r rs)
  let ?m = "of_nat (length (lst st)) :: ulong"
  have u: "unat ?m = length (lst st)" "unat (of_nat c :: ulong) = c"
    using Cons.prems assms(2) by (simp_all add: unat_of_nat_small)
  show ?case
  proof (cases "length (lst st) < c")
    case False
    then have "\<not> ?m < of_nat c" by (simp add: word_less_nat_alt u)
    with Cons.prems show ?thesis by simp
  next
    case True
    then have lt: "?m < of_nat c" by (simp add: word_less_nat_alt u)
    then have need: "unat (of_nat c - ?m) = c - length (lst st)" by (simp add: unat_sub u less_imp_le)
    have needi: "uint (of_nat c - ?m) = int (c - length (lst st))" unfolding need [symmetric] by simp
    let ?res = "rt_isolate env r (FMEM_NID env) (of_nat c - ?m) st"
    let ?ws = "walk env (mr_start r) (mr_end r)"
    have "iso_result env (FMEM_NID env) (of_nat c - ?m) ?ws 0 (lst st) (refs st) ?res"
      unfolding rt_isolate_def using True walks
      by (intro rt_isolate_loop_ok) (simp_all only: needi, simp_all add: walks_short_def)
    then obtain new where new: "lst (snd ?res) = lst st @ new" "fst ?res = int (length new)"
        "\<forall>x \<in> set new. folio_nid env x = FMEM_NID env" "fst ?res \<le> uint (of_nat c - ?m)"
      unfolding iso_result_def by (metis add_0 order.refl less_imp_le)
    have len: "length (lst (snd ?res)) \<le> c"
      using new(1,2,4) True unfolding needi by simp
    have run: "demote_loop env (of_nat c) (r # rs) ?m st =
        demote_loop env (of_nat c) rs (of_nat (length (lst (snd ?res)))) (snd ?res)"
      using lt new(1,2) by (simp add: Let_def)
    from Cons.IH [OF len] new show ?thesis
      unfolding run by (metis append.assoc set_append Un_iff)
  qed
qed

lemma promote_loop_wild:
  assumes "length mrs < 2 ^ 64" "unat i < length mrs"
  shows "promote_loop env mrs 0 i candidates st = Some None"
  using assms(2)
proof (induction "unat i" arbitrary: i candidates st)
  case 0
  then have "i = 0" by (simp add: unat_eq_0)
  have "\<not> unat ULONG_MAX < length mrs"
    using assms(1) by (simp add: unsigned_minus_1_eq_mask mask_eq_exp_minus_1)
  then have "promote_loop env mrs 0 ULONG_MAX c' st' = Some None" for c' st'
    by (subst promote_loop.simps) simp
  with \<open>i = 0\<close> 0 show ?case by (subst promote_loop.simps) (simp add: Let_def)
next
  case (Suc n)
  then have "unat (i - 1) = n"
    by (simp add: unat_sub word_le_nat_alt)
  with Suc have "promote_loop env mrs 0 (i - 1) c' st' = Some None" for c' st' by simp
  with Suc.prems show ?case by (subst promote_loop.simps) (simp add: Let_def)
qed

lemma rt_rank_lengths:
  assumes sort: "\<And>xs. mset (sort_r env rt_rank_cmp xs) = mset xs" and "rs \<noteq> []"
    and rank: "rt_rank env self rs (length rs) = (out, n)"
  shows "length out = length rs" "0 < n" "n \<le> length rs"
proof -
  have n: "n = rank_cut self (length rs) (rev out)"
    and "out = sort_r env rt_rank_cmp (map (rank_populate env) rs)"
    using rank by (auto simp: rt_rank_def Let_def)
  then have "mset out = mset (map (rank_populate env) rs)" by (simp only: sort)
  then show len: "length out = length rs" by (metis length_map size_mset)
  have "Suc (length rest) \<le> length rs" if "rev out = ys @ r # rest" for ys r rest
    using arg_cong [OF that, of length] len by simp
  then show "0 < n" "n \<le> length rs"
    using rank_cut_cases [of "rev out" self "length rs"] \<open>rs \<noteq> []\<close> by (auto simp: n)
qed

text \<open>
  C7: An exchange request, for a tree with at most \<open>RTREE_MAX_SIZE\<close> ranges.  If at least the
  lowest ranked range is left out of the promotion part, the request holds only folios of slow memory to
  promote and only folios of fast memory to demote, with at most as many demotions as promotions, and
  the two counts are those of the lists.  If the promotion part is the whole ranking
  (\<open>f = 0\<close>), the unsigned loop index wraps around and the loop reads outside the ranking.
\<close>

theorem exchange_request_wellformed:
  assumes sort: "\<And>xs. mset (sort_r env rt_rank_cmp xs) = mset xs"
    and walks: "walks_short env" and rs: "rs \<noteq> []" "length rs \<le> 2048"
    and go: "\<not> rt_min_range rt > exch_thresh"
    and rank: "rt_rank env rt rs (length rs) = (mrs, rlen)"
    and f: "fst (snd (choose_ranges env mrs rlen)) = f"
  shows "(f = 0 \<longrightarrow> policy_send_exch_reqs env exch_thresh True True rt rs rf = Some Send_wild_pointer) \<and>
    (f \<noteq> 0 \<longrightarrow> (\<exists>req candidates matched.
       policy_send_exch_reqs env exch_thresh True True rt rs rf = Some (Send_ok req candidates matched) \<and>
       (\<forall>x \<in> set (promotion req). folio_nid env x = SMEM_NID env) \<and>
       (\<forall>x \<in> set (demotion req). folio_nid env x = FMEM_NID env) \<and>
       length (demotion req) \<le> length (promotion req) \<and>
       candidates = of_nat (length (promotion req)) \<and> matched = of_nat (length (demotion req))))"
proof -
  note len = rt_rank_lengths [OF sort rs(1) rank]
  have i: "unat (of_nat rlen - 1 :: ulong) = rlen - 1"
  proof -
    have "(of_nat rlen - 1 :: ulong) = of_nat (rlen - 1)" using len(2) by (simp add: of_nat_diff)
    then show ?thesis using len(3) rs(2) by (simp only:) (simp add: unat_of_nat_small)
  qed
  let ?st = "\<lparr>lst = [], refs = rf, tries = 0\<rparr> :: 'a iso"
  have run: "policy_send_exch_reqs env exch_thresh True True rt rs rf =
      (case promote_loop env mrs f (of_nat rlen - 1) 0 ?st of
         None \<Rightarrow> None
       | Some None \<Rightarrow> Some Send_wild_pointer
       | Some (Some (candidates, promo)) \<Rightarrow>
           (let (matched, demo) = demote_loop env candidates (take (unat f) mrs) 0 (promo\<lparr>lst := []\<rparr>) in
            Some (Send_ok \<lparr>promotion = lst promo, demotion = lst demo\<rparr> candidates matched)))"
  proof -
    obtain s sm fm where "choose_ranges env mrs rlen = (s, f, sm, fm)"
      using f by (metis prod.collapse)
    with go show ?thesis by (simp add: policy_send_exch_reqs_def rank split: option.split)
  qed
  have "promote_loop env mrs 0 (of_nat rlen - 1) 0 ?st = Some None"
    using len rs(2) i by (intro promote_loop_wild) simp_all
  moreover have "\<exists>req candidates matched.
       policy_send_exch_reqs env exch_thresh True True rt rs rf = Some (Send_ok req candidates matched) \<and>
       (\<forall>x \<in> set (promotion req). folio_nid env x = SMEM_NID env) \<and>
       (\<forall>x \<in> set (demotion req). folio_nid env x = FMEM_NID env) \<and>
       length (demotion req) \<le> length (promotion req) \<and>
       candidates = of_nat (length (promotion req)) \<and> matched = of_nat (length (demotion req))" if "f \<noteq> 0"
  proof -
    have "unat f \<le> rlen" using choose_f_le [of rlen env mrs] f len(3) rs(2) by simp
    then have "0 < unat f" "unat f \<le> unat (of_nat rlen - 1 :: ulong) + 1"
        "unat (of_nat rlen - 1 :: ulong) < length mrs"
      using that len i by (simp_all add: unat_gt_0)
    from promote_loop_ok [OF walks this, of ?st] obtain promo new where promo:
        "promote_loop env mrs f (of_nat rlen - 1) 0 ?st = Some (Some (of_nat (length (lst promo)), promo))"
        "lst promo = new" "\<forall>x \<in> set new. folio_nid env x = SMEM_NID env"
        "length new \<le> (unat (of_nat rlen - 1 :: ulong) + 1 - unat f) * 2 ^ 31"
      by auto
    have "(unat (of_nat rlen - 1 :: ulong) + 1 - unat f) * 2 ^ 31 \<le> 2048 * 2 ^ 31"
      using len rs(2) i by (intro mult_right_mono) simp_all
    then have "length (lst promo) < 2 ^ 63" using promo(2,4) by simp
    from demote_loop_ok [OF walks this, of "promo\<lparr>lst := []\<rparr>" "take (unat f) mrs"] obtain demo new' where
      "demote_loop env (of_nat (length (lst promo))) (take (unat f) mrs) 0 (promo\<lparr>lst := []\<rparr>)
        = (of_nat (length (lst demo)), demo)" "lst demo = new'" "length (lst demo) \<le> length (lst promo)"
      "\<forall>x \<in> set new'. folio_nid env x = FMEM_NID env" by auto
    with promo show ?thesis unfolding run by simp
  qed
  ultimately show ?thesis unfolding run by auto
qed

theorem exchange_request_wellformed_witness:
  "(\<exists>req candidates matched.
     policy_send_exch_reqs demo_mm_env 0x40000000 True True demo_tree
       [demo_range\<lparr>nr_access := 0\<rparr>, demo_range] (\<lambda>_. 0) = Some (Send_ok req candidates matched) \<and>
     length (demotion req) \<le> length (promotion req)) \<and>
   policy_send_exch_reqs demo_mm_env 0x40000000 True True demo_tree [demo_range] (\<lambda>_. 0)
     = Some Send_wild_pointer"
proof
  have sort: "mset (sort_r demo_mm_env rt_rank_cmp xs) = mset xs" for xs
    by (simp add: demo_mm_env_def)
  have walks: "walks_short demo_mm_env" by (simp add: walks_short_def demo_mm_env_def)
  have go: "\<not> rt_min_range demo_tree > 0x40000000" by (simp add: demo_tree_def)
  let ?two = "[demo_range\<lparr>nr_access := 0\<rparr>, demo_range]"
  have rank: "rt_rank demo_mm_env demo_tree ?two (length ?two) = (map (rank_populate demo_mm_env) ?two, 2)"
    "rt_rank demo_mm_env demo_tree [demo_range] (length [demo_range]) = (map (rank_populate demo_mm_env) [demo_range], 1)"
    by (simp_all add: rt_rank_def rank_populate_eq rt_should_cool_def demo_mm_env_def demo_tree_def
        demo_range_def RTREE_COOL_AGE_def)
  have f: "fst (snd (choose_ranges demo_mm_env (map (rank_populate demo_mm_env) ?two) 2)) = 1"
    "fst (snd (choose_ranges demo_mm_env (map (rank_populate demo_mm_env) [demo_range]) 1)) = 0"
    by code_simp+
  show "\<exists>req candidates matched.
     policy_send_exch_reqs demo_mm_env 0x40000000 True True demo_tree ?two (\<lambda>_. 0)
       = Some (Send_ok req candidates matched) \<and> length (demotion req) \<le> length (promotion req)"
    using exchange_request_wellformed [OF sort walks _ _ go rank(1) f(1), of "\<lambda>_. 0"] by fastforce
  show "policy_send_exch_reqs demo_mm_env 0x40000000 True True demo_tree [demo_range] (\<lambda>_. 0)
     = Some Send_wild_pointer"
    using exchange_request_wellformed [OF sort walks _ _ go rank(2) f(2)] by auto
qed

end
