(* ===== verification/CLoops.thy ===== *)
theory CLoops
  imports Prelude
begin

text \<open>
  Arrays and loops of the C sources.  An access outside an array has no defined behaviour in C;
  \<open>rd\<close> and \<open>wr\<close> return \<^const>\<open>None\<close> there, so that a theorem that a function returns a value also
  says that all its accesses are in bounds.  Loops with a known number of iterations are
  \<open>for_each\<close>, other loops \<open>while_opt\<close>, a partial function that is \<^const>\<open>None\<close> also when it runs
  forever.  The rules at the end reduce a loop to an invariant and, for \<open>while_opt\<close>, a measure.
\<close>

subsection \<open>Arrays\<close>

definition rd :: "'a list \<Rightarrow> int \<Rightarrow> 'a option" where
  "rd xs i = (if 0 \<le> i \<and> i < int (length xs) then Some (xs ! nat i) else None)"

definition wr :: "'a list \<Rightarrow> int \<Rightarrow> 'a \<Rightarrow> 'a list option" where
  "wr xs i x = (if 0 \<le> i \<and> i < int (length xs) then Some (xs[nat i := x]) else None)"

lemma rd_in [simp]: "0 \<le> i \<Longrightarrow> i < int (length xs) \<Longrightarrow> rd xs i = Some (xs ! nat i)"
  by (simp add: rd_def)

lemma wr_in [simp]: "0 \<le> i \<Longrightarrow> i < int (length xs) \<Longrightarrow> wr xs i x = Some (xs[nat i := x])"
  by (simp add: wr_def)

lemma rd_eq_Some: "rd xs i = Some x \<longleftrightarrow> 0 \<le> i \<and> i < int (length xs) \<and> x = xs ! nat i"
  by (auto simp: rd_def)

lemma wr_eq_Some: "wr xs i x = Some ys \<longleftrightarrow> 0 \<le> i \<and> i < int (length xs) \<and> ys = xs[nat i := x]"
  by (auto simp: wr_def)

lemma nth_list_update_int:
  "0 \<le> i \<Longrightarrow> 0 \<le> j \<Longrightarrow> i < int (length xs) \<Longrightarrow>
    xs[nat i := x] ! nat j = (if i = j then x else xs ! nat j)"
  by (auto simp: nth_list_update)

definition incr :: "int \<Rightarrow> int list \<Rightarrow> int list option" where
  "incr k xs = do {
     x \<leftarrow> rd xs k;
     wr xs k (x + 1)
   }"

lemma incr_result:
  "0 \<le> k \<Longrightarrow> k < int (length xs) \<Longrightarrow> incr k xs = Some (xs[nat k := xs ! nat k + 1])"
  by (simp add: incr_def)

text \<open>
  An allocator returns an array of the requested length with any contents, or fails.
\<close>

type_synonym allocator = "nat \<Rightarrow> int list option"

definition alloc_law :: "allocator \<Rightarrow> bool" where
  "alloc_law alloc \<longleftrightarrow> (\<forall>n xs. alloc n = Some xs \<longrightarrow> length xs = n)"

lemma alloc_lawD: "alloc_law alloc \<Longrightarrow> alloc n = Some xs \<Longrightarrow> length xs = n"
  unfolding alloc_law_def by blast

subsection \<open>Loops\<close>

fun for_each :: "('a \<Rightarrow> 's \<Rightarrow> 's option) \<Rightarrow> 'a list \<Rightarrow> 's \<Rightarrow> 's option" where
  "for_each f [] s = Some s"
| "for_each f (x # xs) s = f x s \<bind> for_each f xs"

text \<open>\<open>for (k = lo; k < hi; ++k)\<close>\<close>

definition for_up :: "int \<Rightarrow> int \<Rightarrow> (int \<Rightarrow> 's \<Rightarrow> 's option) \<Rightarrow> 's \<Rightarrow> 's option" where
  "for_up lo hi f = for_each f [lo..hi - 1]"

partial_function (option) while_opt ::
    "('s \<Rightarrow> bool option) \<Rightarrow> ('s \<Rightarrow> 's option) \<Rightarrow> 's \<Rightarrow> 's option" where
  "while_opt b c s = b s \<bind> (\<lambda>go. if go then c s \<bind> while_opt b c else Some s)"

declare while_opt.simps [code]

subsection \<open>Rules\<close>

lemma for_each_append: "for_each f (xs @ ys) s = for_each f xs s \<bind> for_each f ys"
  by (induction xs arbitrary: s) (auto split: bind_split)

lemma for_each_cong:
  assumes "\<And>x s. x \<in> set xs \<Longrightarrow> f x s = f' x s"
  shows "for_each f xs s = for_each f' xs s"
  using assms by (induction xs arbitrary: s) (auto split: bind_split)

lemma for_each_inv:
  assumes "I [] s"
    and "\<And>ys x zs t. xs = ys @ x # zs \<Longrightarrow> I ys t \<Longrightarrow> \<exists>t'. f x t = Some t' \<and> I (ys @ [x]) t'"
  shows "\<exists>t. for_each f xs s = Some t \<and> I xs t"
proof -
  have "\<exists>t. for_each f zs u = Some t \<and> I (ys @ zs) t" if "xs = ys @ zs" "I ys u" for ys zs u
    using that
  proof (induction zs arbitrary: ys u)
    case (Cons z zs)
    obtain u' where "f z u = Some u'" "I (ys @ [z]) u'" using assms(2) Cons.prems by blast
    with Cons.IH [of "ys @ [z]" u'] Cons.prems(1) show ?case by simp
  qed simp
  from this [of "[]" xs s] assms(1) show ?thesis by simp
qed

lemma upto_split:
  assumes "[lo..hi] = ys @ x # zs"
  shows "lo \<le> x" "x \<le> hi" "ys = [lo..x - 1]"
proof -
  show b: "lo \<le> x" "x \<le> hi" using arg_cong [OF assms, of set] by auto
  have "ys @ [x] @ zs = [lo..x - 1] @ [x] @ [x + 1..hi]"
    using assms b upto_split3 [of lo x hi] by simp
  moreover have "length ys = length [lo..x - 1]"
  proof -
    have "distinct (ys @ x # zs)" unfolding assms [symmetric] by simp
    moreover have "(ys @ x # zs) ! length [lo..x - 1] = x"
      unfolding assms [symmetric] using b by simp
    moreover have "(ys @ x # zs) ! length ys = x" by simp
    moreover have "length [lo..x - 1] < length (ys @ x # zs)"
      unfolding assms [symmetric] using b by simp
    ultimately show ?thesis by (metis length_append length_Cons less_add_Suc1 add_Suc_right nth_eq_iff_index_eq)
  qed
  ultimately show "ys = [lo..x - 1]" by simp
qed

lemma for_up_inv:
  assumes "lo \<le> hi" "I lo s"
    and "\<And>k t. lo \<le> k \<Longrightarrow> k < hi \<Longrightarrow> I k t \<Longrightarrow> \<exists>t'. f k t = Some t' \<and> I (k + 1) t'"
  shows "\<exists>t. for_up lo hi f s = Some t \<and> I hi t"
proof -
  have "\<exists>t. for_each f [lo..hi - 1] s = Some t \<and> I (lo + int (length [lo..hi - 1])) t"
  proof (rule for_each_inv [where I = "\<lambda>ys t. I (lo + int (length ys)) t"])
    fix ys x zs t
    assume eq: "[lo..hi - 1] = ys @ x # zs" and "I (lo + int (length ys)) t"
    then have "I x t" using upto_split [OF eq] by simp
    with assms(3) [of x t] upto_split [OF eq]
    show "\<exists>t'. f x t = Some t' \<and> I (lo + int (length (ys @ [x]))) t'"
      by (simp add: add.commute)
  qed (simp add: assms(2))
  then show ?thesis using assms(1) by (simp add: for_up_def)
qed

lemma for_up_empty [simp]: "hi \<le> lo \<Longrightarrow> for_up lo hi f s = Some s"
  by (simp add: for_up_def)

lemma while_opt_unfold:
  "b s = Some True \<Longrightarrow> while_opt b c s = c s \<bind> while_opt b c"
  "b s = Some False \<Longrightarrow> while_opt b c s = Some s"
  by (subst while_opt.simps, simp)+

lemma while_opt_inv:
  fixes m :: "'s \<Rightarrow> nat"
  assumes "I s"
    and cond: "\<And>t. I t \<Longrightarrow> \<exists>go. b t = Some go"
    and body: "\<And>t. I t \<Longrightarrow> b t = Some True \<Longrightarrow> \<exists>t'. c t = Some t' \<and> I t' \<and> m t' < m t"
  shows "\<exists>t. while_opt b c s = Some t \<and> I t \<and> b t = Some False"
  using assms(1)
proof (induction "m s" arbitrary: s rule: less_induct)
  case less
  obtain go where go: "b s = Some go" using cond [OF less.prems] by blast
  show ?case
  proof (cases go)
    case True
    then obtain t where t: "c s = Some t" "I t" "m t < m s" using body [OF less.prems] go by auto
    then show ?thesis using less.hyps [OF t(3,2)] go True by (simp add: while_opt_unfold)
  next
    case False
    then show ?thesis using go less.prems by (simp add: while_opt_unfold)
  qed
qed

subsection \<open>Rules for runs that are known to return\<close>

lemma for_each_partial:
  assumes "for_each f xs s = Some t" "I [] s"
    and "\<And>ys x zs u u'. xs = ys @ x # zs \<Longrightarrow> I ys u \<Longrightarrow> f x u = Some u' \<Longrightarrow> I (ys @ [x]) u'"
  shows "I xs t"
proof -
  have "I (ys @ zs) t" if "xs = ys @ zs" "for_each f zs u = Some t" "I ys u" for ys zs u
    using that
  proof (induction zs arbitrary: ys u)
    case (Cons z zs)
    then obtain u' where "f z u = Some u'" "for_each f zs u' = Some t" by (auto simp: bind_eq_Some)
    with Cons.IH [of "ys @ [z]" u'] Cons.prems assms(3) show ?case by simp
  qed simp
  from this [of "[]" xs s] assms show ?thesis by simp
qed

lemma for_up_partial:
  assumes "for_up lo hi f s = Some t" "lo \<le> hi" "I lo s"
    and "\<And>k u u'. lo \<le> k \<Longrightarrow> k < hi \<Longrightarrow> I k u \<Longrightarrow> f k u = Some u' \<Longrightarrow> I (k + 1) u'"
  shows "I hi t"
proof -
  have "I (lo + int (length [lo..hi - 1])) t"
  proof (rule for_each_partial [where I = "\<lambda>ys t. I (lo + int (length ys)) t"])
    show "for_each f [lo..hi - 1] s = Some t" using assms(1) by (simp add: for_up_def)
    fix ys x zs u u'
    assume eq: "[lo..hi - 1] = ys @ x # zs" and I: "I (lo + int (length ys)) u" and "f x u = Some u'"
    moreover have "I x u" using I upto_split [OF eq] by simp
    ultimately show "I (lo + int (length (ys @ [x]))) u'"
      using assms(4) [of x u u'] upto_split [OF eq] by (simp add: add.commute)
  qed (simp add: assms(3))
  then show ?thesis using assms(2) by simp
qed

lemma while_opt_partial:
  assumes run: "while_opt b c s = Some t" and "I s"
    and step: "\<And>u u'. I u \<Longrightarrow> b u = Some True \<Longrightarrow> c u = Some u' \<Longrightarrow> I u'"
  shows "I t \<and> b t = Some False"
proof -
  have "b = b \<and> c = c \<and> I s \<longrightarrow> I t \<and> b t = Some False"
    using run
  proof (rule while_opt.raw_induct
      [where P = "\<lambda>b' c' s t. b' = b \<and> c' = c \<and> I s \<longrightarrow> I t \<and> b t = Some False", rotated])
    fix w :: "('a \<Rightarrow> bool option) \<Rightarrow> ('a \<Rightarrow> 'a option) \<Rightarrow> 'a \<Rightarrow> 'a option" and b' c' u y
    assume IH: "\<And>b' c' s t. w b' c' s = Some t \<Longrightarrow> b' = b \<and> c' = c \<and> I s \<longrightarrow> I t \<and> b t = Some False"
      and body: "(b' u \<bind> (\<lambda>go. if go then c' u \<bind> w b' c' else Some u)) = Some y"
    show "b' = b \<and> c' = c \<and> I u \<longrightarrow> I y \<and> b y = Some False"
    proof
      assume eq: "b' = b \<and> c' = c \<and> I u"
      obtain go where go: "b u = Some go" "(if go then c u \<bind> w b c else Some u) = Some y"
        using body eq by (auto simp: bind_eq_Some)
      show "I y \<and> b y = Some False"
      proof (cases go)
        case True
        then obtain u' where "c u = Some u'" "w b c u' = Some y" using go(2) by (auto simp: bind_eq_Some)
        with step [of u u'] eq IH [of b c u' y] go(1) True show ?thesis by simp
      next
        case False
        then show ?thesis using go eq by simp
      qed
    qed
  qed
  with assms(2) show ?thesis by simp
qed

subsection \<open>Filling arrays\<close>

lemma while_opt_diverges:
  assumes "I s" "\<And>u. I u \<Longrightarrow> b u = Some True" "\<And>u u'. I u \<Longrightarrow> c u = Some u' \<Longrightarrow> I u'"
  shows "while_opt b c s = None"
proof (cases "while_opt b c s")
  case (Some t)
  from while_opt_partial [where I = I, OF this assms(1)] assms(2,3) show ?thesis by force
qed simp

lemma fill_range:
  assumes "0 \<le> lo" "lo \<le> hi" "hi \<le> int (length xs)"
  shows "\<exists>ys. for_up lo hi (\<lambda>k t. wr t k c) xs = Some ys \<and> length ys = length xs \<and>
    (\<forall>i. 0 \<le> i \<and> i < int (length xs) \<longrightarrow> ys ! nat i = (if lo \<le> i \<and> i < hi then c else xs ! nat i))"
proof -
  have "\<exists>ys. for_up lo hi (\<lambda>k t. wr t k c) xs = Some ys \<and> (length ys = length xs \<and>
    (\<forall>i. 0 \<le> i \<and> i < int (length xs) \<longrightarrow> ys ! nat i = (if lo \<le> i \<and> i < hi then c else xs ! nat i)))"
    by (rule for_up_inv) (use assms in \<open>auto simp: nth_list_update_int\<close>)
  then show ?thesis by simp
qed

subsection \<open>Simulation\<close>

fun while_fuel :: "nat \<Rightarrow> ('s \<Rightarrow> bool option) \<Rightarrow> ('s \<Rightarrow> 's option) \<Rightarrow> 's \<Rightarrow> 's option" where
  "while_fuel 0 b c s = None"
| "while_fuel (Suc n) b c s = b s \<bind> (\<lambda>go. if go then c s \<bind> while_fuel n b c else Some s)"

lemma while_fuel_sound: "while_fuel n b c s = Some t \<Longrightarrow> while_opt b c s = Some t"
proof (induction n arbitrary: s)
  case (Suc n)
  obtain go where go: "b s = Some go" using Suc.prems by (cases "b s") simp_all
  show ?case
  proof (cases go)
    case True
    then obtain u where u: "c s = Some u" "while_fuel n b c u = Some t"
      using Suc.prems go by (cases "c s") simp_all
    from Suc.IH [OF u(2)] show ?thesis using go True u(1) by (simp add: while_opt_unfold(1))
  next
    case False
    then show ?thesis using Suc.prems go by (simp add: while_opt_unfold(2))
  qed
qed simp

lemma while_fuel_complete:
  assumes "while_opt b c s = Some t"
  shows "\<exists>n. while_fuel n b c s = Some t"
  using assms
proof (rule while_opt.raw_induct [where P = "\<lambda>b c s t. \<exists>n. while_fuel n b c s = Some t", rotated])
  fix w :: "('a \<Rightarrow> bool option) \<Rightarrow> ('a \<Rightarrow> 'a option) \<Rightarrow> 'a \<Rightarrow> 'a option" and b c u y
  assume IH: "\<And>b c u y. w b c u = Some y \<Longrightarrow> \<exists>n. while_fuel n b c u = Some y"
    and step: "b u \<bind> (\<lambda>go. if go then c u \<bind> w b c else Some u) = Some y"
  then obtain go where go: "b u = Some go" by (auto simp: bind_eq_Some)
  show "\<exists>n. while_fuel n b c u = Some y"
  proof (cases go)
    case True
    then obtain u' where u': "c u = Some u'" "w b c u' = Some y" using step go by (auto simp: bind_eq_Some)
    then obtain n where "while_fuel n b c u' = Some y" using IH by blast
    then show ?thesis using go True u'(1) by (intro exI [of _ "Suc n"]) simp
  next
    case False
    then show ?thesis using step go by (intro exI [of _ "Suc 0"]) simp
  qed
qed

lemma for_each_sim:
  assumes "\<And>x s. f' x (h s) = map_option h (f x s)"
  shows "for_each f' xs (h s) = map_option h (for_each f xs s)"
  by (induction xs arbitrary: s) (auto simp: assms split: bind_split)

lemma for_up_sim:
  assumes "\<And>x s. f' x (h s) = map_option h (f x s)"
  shows "for_up lo hi f' (h s) = map_option h (for_up lo hi f s)"
  unfolding for_up_def by (rule for_each_sim) (rule assms)

lemma while_fuel_sim:
  assumes "\<And>s. b' (h s) = b s" "\<And>s. c' (h s) = map_option h (c s)"
  shows "while_fuel n b' c' (h s) = map_option h (while_fuel n b c s)"
  by (induction n arbitrary: s) (auto simp: assms split: bind_split)

lemma while_opt_sim:
  assumes "\<And>s. b' (h s) = b s" "\<And>s. c' (h s) = map_option h (c s)"
  shows "while_opt b' c' (h s) = map_option h (while_opt b c s)"
proof (cases "while_opt b c s")
  case (Some t)
  note sim = while_fuel_sim [where h = h and b = b and b' = b' and c = c and c' = c', OF assms]
  obtain n where "while_fuel n b c s = Some t" using while_fuel_complete [OF Some] ..
  then have "while_fuel n b' c' (h s) = Some (h t)" by (simp add: sim)
  from while_fuel_sound [OF this] show ?thesis using Some by simp
next
  case None
  note sim = while_fuel_sim [where h = h and b = b and b' = b' and c = c and c' = c', OF assms]
  show ?thesis
  proof (cases "while_opt b' c' (h s)")
    case (Some t)
    obtain n where "while_fuel n b' c' (h s) = Some t" using while_fuel_complete [OF Some] ..
    then obtain u where "while_fuel n b c s = Some u" by (auto simp: sim)
    from while_fuel_sound [OF this] None show ?thesis by simp
  qed (simp add: None)
qed

text \<open>A loop that returns whenever another one does, with related results.\<close>

lemma for_each_rel:
  assumes "for_each f xs s = Some t" "R s s'"
    "\<And>x u v u'. f x u = Some v \<Longrightarrow> R u u' \<Longrightarrow> \<exists>v'. f' x u' = Some v' \<and> R v v'"
  shows "\<exists>t'. for_each f' xs s' = Some t' \<and> R t t'"
  using assms(1,2)
proof (induction xs arbitrary: s s')
  case (Cons x xs)
  obtain u where u: "f x s = Some u" "for_each f xs u = Some t" using Cons.prems(1) by (cases "f x s") simp_all
  obtain u' where u': "f' x s' = Some u'" "R u u'" using assms(3) [OF u(1) Cons.prems(2)] by blast
  from Cons.IH [OF u(2) u'(2)] u'(1) show ?case by simp
qed simp

lemma for_up_rel:
  assumes "for_up lo hi f s = Some t" "R s s'"
    "\<And>x u v u'. f x u = Some v \<Longrightarrow> R u u' \<Longrightarrow> \<exists>v'. f' x u' = Some v' \<and> R v v'"
  shows "\<exists>t'. for_up lo hi f' s' = Some t' \<and> R t t'"
  using assms(1) unfolding for_up_def by (rule for_each_rel) (rule assms(2), rule assms(3))

lemma while_opt_rel:
  assumes "while_opt b c s = Some t" "R s s'" "\<And>u u'. R u u' \<Longrightarrow> b' u' = b u"
    "\<And>u v u'. c u = Some v \<Longrightarrow> R u u' \<Longrightarrow> \<exists>v'. c' u' = Some v' \<and> R v v'"
  shows "\<exists>t'. while_opt b' c' s' = Some t' \<and> R t t'"
proof -
  obtain n where "while_fuel n b c s = Some t" using while_fuel_complete [OF assms(1)] ..
  then show ?thesis using assms(2)
  proof (induction n arbitrary: s s')
    case (Suc n)
    obtain go where go: "b s = Some go" using Suc.prems(1) by (cases "b s") simp_all
    have go': "b' s' = Some go" using go assms(3) [OF Suc.prems(2)] by simp
    show ?case
    proof (cases go)
      case True
      then obtain u where u: "c s = Some u" "while_fuel n b c u = Some t" using Suc.prems(1) go by (cases "c s") simp_all
      obtain u' where u': "c' s' = Some u'" "R u u'" using assms(4) [OF u(1) Suc.prems(2)] by blast
      from Suc.IH [OF u(2) u'(2)] show ?thesis using go' True u'(1) by (simp add: while_opt_unfold(1))
    next
      case False
      then have "s = t" using Suc.prems(1) go by simp
      then show ?thesis using go' False Suc.prems(2) by (simp add: while_opt_unfold(2))
    qed
  qed simp
qed

lemma for_up_mono:
  assumes "for_up lo hi f s = Some t" "\<And>x u v. f x u = Some v \<Longrightarrow> f' x u = Some v"
  shows "for_up lo hi f' s = Some t"
proof -
  have "\<exists>t'. for_up lo hi f' s = Some t' \<and> t = t'"
    by (rule for_up_rel [where R = "(=)", OF assms(1) refl]) (use assms(2) in blast)
  then show ?thesis by blast
qed

lemma while_opt_mono:
  assumes "while_opt b c s = Some t" "\<And>u v. c u = Some v \<Longrightarrow> c' u = Some v"
  shows "while_opt b c' s = Some t"
proof -
  have "\<exists>t'. while_opt b c' s = Some t' \<and> t = t'"
    by (rule while_opt_rel [where R = "(=)", OF assms(1) refl]) (use assms(2) in blast)+
  then show ?thesis by blast
qed

subsection \<open>Copying a block\<close>

definition copy_block :: "int \<Rightarrow> 'a list \<Rightarrow> int \<Rightarrow> 'a list \<Rightarrow> 'a list option" where
  "copy_block n src off = for_up 0 n (\<lambda>k dst. do {
     x \<leftarrow> rd src k;
     wr dst (off + k) x
   })"

definition put :: "'a list \<Rightarrow> nat \<Rightarrow> 'a list \<Rightarrow> 'a list" where
  "put xs k ys = take k xs @ ys @ drop (k + length ys) xs"

lemma put_Nil [simp]: "put xs k [] = xs"
  by (simp add: put_def)

lemma length_put [simp]: "k + length ys \<le> length xs \<Longrightarrow> length (put xs k ys) = length xs"
  by (simp add: put_def)

lemma put_snoc: "k + length ys < length xs \<Longrightarrow> (put xs k ys)[k + length ys := y] = put xs k (ys @ [y])"
  by (simp add: put_def list_update_append Cons_nth_drop_Suc [symmetric])

lemma take_put: "k + length ys \<le> length xs \<Longrightarrow> take (k + length ys) (put xs k ys) = take k xs @ ys"
  by (simp add: put_def)

lemma copy_block_eq:
  assumes "0 \<le> off" "off + int (length ys) \<le> int (length xs)"
  shows "copy_block (int (length ys)) ys off xs = Some (put xs (nat off) ys)"
proof -
  have "\<exists>zs. copy_block (int (length ys)) ys off xs = Some zs \<and> zs = put xs (nat off) (take (nat (int (length ys))) ys)"
    unfolding copy_block_def
  proof (rule for_up_inv [where I = "\<lambda>k zs. zs = put xs (nat off) (take (nat k) ys)"])
    fix k zs
    assume k: "0 \<le> k" "k < int (length ys)" and zs: "zs = put xs (nat off) (take (nat k) ys)"
    have b: "nat off + length (take (nat k) ys) < length xs" using k assms by auto
    have l: "length zs = length xs" unfolding zs using b by (intro length_put) simp
    have i: "nat (off + k) = nat off + length (take (nat k) ys)" using k assms by (simp add: nat_add_distrib)
    have "wr zs (off + k) (ys ! nat k) = Some (zs[nat (off + k) := ys ! nat k])" using k assms l by (intro wr_in) auto
    moreover have "zs[nat (off + k) := ys ! nat k] = put xs (nat off) (take (Suc (nat k)) ys)"
      unfolding zs i put_snoc [OF b] using k by (simp add: take_Suc_conv_app_nth)
    moreover have "nat (k + 1) = Suc (nat k)" using k by simp
    ultimately show "\<exists>zs'. do { x \<leftarrow> rd ys k; wr zs (off + k) x } = Some zs' \<and> zs' = put xs (nat off) (take (nat (k + 1)) ys)"
      using k by simp
  qed simp_all
  then show ?thesis by simp
qed

lemma copy_block_prefix:
  assumes "0 \<le> k" "k \<le> int (length ys)" "0 \<le> off" "off + k \<le> int (length xs)"
  shows "copy_block k ys off xs = Some (put xs (nat off) (take (nat k) ys))"
    "length (put xs (nat off) (take (nat k) ys)) = length xs"
    "take (nat (off + k)) (put xs (nat off) (take (nat k) ys)) = take (nat off) xs @ take (nat k) ys"
proof -
  let ?ys = "take (nat k) ys"
  have l: "int (length ?ys) = k" "nat off + length ?ys = nat (off + k)" "nat (off + k) \<le> length xs" using assms by auto
  have "copy_block k ys off xs = copy_block k ?ys off xs"
    unfolding copy_block_def for_up_def
    by (rule for_each_cong) (use assms(1,2) in \<open>auto simp: rd_def\<close>)
  also have "\<dots> = Some (put xs (nat off) ?ys)" using copy_block_eq [of off ?ys xs] assms l by simp
  finally show "copy_block k ys off xs = Some (put xs (nat off) ?ys)" .
  show "length (put xs (nat off) ?ys) = length xs" using l by simp
  show "take (nat (off + k)) (put xs (nat off) ?ys) = take (nat off) xs @ ?ys"
    using take_put [of "nat off" ?ys xs] l by simp
qed

end
