(* ===== verification/Edges.thy ===== *)
theory Edges
  imports Prelude
begin

text \<open>
  The edges of a Graph500 graph (\<open>generator/graph_generator.h\<close>), in the default layout of two
  64-bit vertex numbers and in the packed layout of 96 bits, which keeps 48 bits per vertex.
\<close>

record packed_edge =
  v0 :: int
  v1 :: int

definition get_v0_from_edge :: "packed_edge \<Rightarrow> int" where
  "get_v0_from_edge p = v0 p"

definition get_v1_from_edge :: "packed_edge \<Rightarrow> int" where
  "get_v1_from_edge p = v1 p"

definition write_edge :: "int \<Rightarrow> int \<Rightarrow> packed_edge" where
  "write_edge a b = \<lparr>v0 = a, v1 = b\<rparr>"

lemma edge_simps [simp]:
  "get_v0_from_edge (write_edge a b) = a"
  "get_v1_from_edge (write_edge a b) = b"
  by (simp_all add: get_v0_from_edge_def get_v1_from_edge_def write_edge_def)

subsection \<open>The packed layout\<close>

record packed_edge48 =
  v0_low :: u32
  v1_low :: u32
  high :: u32

text \<open>The 64-bit pattern with the given low half and the sign-extended 16-bit high part.\<close>

definition get_v0_from_edge48 :: "packed_edge48 \<Rightarrow> int" where
  "get_v0_from_edge48 p =
     sint ((ucast (v0_low p) :: u64) OR
       push_bit 32 (scast (ucast (high p AND 0xFFFF) :: 16 word) :: u64))"

definition get_v1_from_edge48 :: "packed_edge48 \<Rightarrow> int" where
  "get_v1_from_edge48 p =
     sint ((ucast (v1_low p) :: u64) OR
       push_bit 32 (scast (ucast (drop_bit 16 (high p)) :: 16 word) :: u64))"

definition write_edge48 :: "int \<Rightarrow> int \<Rightarrow> packed_edge48" where
  "write_edge48 a b =
     \<lparr>v0_low = word_of_int a, v1_low = word_of_int b,
      high = word_of_int ((drop_bit 32 a AND 0xFFFF) OR push_bit 16 (drop_bit 32 b AND 0xFFFF))\<rparr>"

subsection \<open>Round trip\<close>

lemma mask16: "(0xFFFF :: int) = mask 16" "(0xFFFF :: u32) = mask 16"
  by (simp_all add: mask_eq_exp_minus_1)

lemma halves_eq:
  fixes a :: int
  assumes "- (2 ^ 47) \<le> a" "a < 2 ^ 47"
  shows "sint ((ucast (word_of_int a :: u32) :: u64) OR
      push_bit 32 (scast (word_of_int (drop_bit 32 a) :: 16 word) :: u64)) = a"
proof -
  have "(ucast (word_of_int a :: u32) :: u64) OR push_bit 32 (scast (word_of_int (drop_bit 32 a) :: 16 word))
      = word_of_int a"
  proof (rule bit_eqI)
    fix n
    assume "possible_bit TYPE(64 word) n"
    then have n: "n < 64" by simp
    have high: "bit a n \<longleftrightarrow> bit a 47" if "47 \<le> n"
      using that assms signed_take_bit_int_eq_self [of 47 a] bit_signed_take_bit_iff [of 47 a n] by (simp add: min_def)
    show "bit ((ucast (word_of_int a :: u32) :: u64) OR
        push_bit 32 (scast (word_of_int (drop_bit 32 a) :: 16 word))) n \<longleftrightarrow> bit (word_of_int a :: u64) n"
      using n high by (cases "n < 32") (auto simp: bit_simps min_def)
  qed
  moreover have "sint (word_of_int a :: u64) = a"
    using assms signed_take_bit_int_eq_self [of 63 a] by (simp add: sint_sbintrunc')
  ultimately show ?thesis by simp
qed

lemma high_halves:
  fixes a b :: int
  defines "h \<equiv> word_of_int ((drop_bit 32 a AND 0xFFFF) OR push_bit 16 (drop_bit 32 b AND 0xFFFF)) :: u32"
  shows "(ucast (h AND 0xFFFF) :: 16 word) = word_of_int (drop_bit 32 a)"
    "(ucast (drop_bit 16 h) :: 16 word) = word_of_int (drop_bit 32 b)"
  unfolding h_def mask16 by (rule bit_eqI; auto simp: bit_simps)+

text \<open>
  C33: An edge written in the packed layout is read back unchanged when both vertex numbers fit
  into 48 signed bits.
\<close>

theorem packed_edge_roundtrip:
  assumes "- (2 ^ 47) \<le> a" "a < 2 ^ 47" "- (2 ^ 47) \<le> b" "b < 2 ^ 47"
  shows "get_v0_from_edge48 (write_edge48 a b) = a \<and> get_v1_from_edge48 (write_edge48 a b) = b"
  unfolding get_v0_from_edge48_def get_v1_from_edge48_def write_edge48_def
  using halves_eq [OF assms(1,2)] halves_eq [OF assms(3,4)] by (simp only: high_halves packed_edge48.simps)

theorem packed_edge_roundtrip_witness:
  "get_v0_from_edge48 (write_edge48 (- 5) 140737488355327) = - 5 \<and>
   get_v1_from_edge48 (write_edge48 (- 5) 140737488355327) = 140737488355327"
  using packed_edge_roundtrip [of "- 5" 140737488355327] by simp

end
