(* ===== verification/Bfs.thy ===== *)
theory Bfs
  imports CLoops Edges
begin

text \<open>
  Breadth-first search in the abstract: the neighbours given by an edge list, distances from a
  root, what a breadth-first tree is, and the queue-based search on a neighbour function.  The
  search of every Graph500 implementation is compared with the definitions of this theory.
\<close>

subsection \<open>Graphs and distances\<close>

definition edge_nbrs :: "packed_edge list \<Rightarrow> int \<Rightarrow> int set" where
  "edge_nbrs IJ v = {w. v \<noteq> w \<and> 0 \<le> v \<and> 0 \<le> w \<and>
     (\<exists>e \<in> set IJ. get_v0_from_edge e = v \<and> get_v1_from_edge e = w \<or>
        get_v0_from_edge e = w \<and> get_v1_from_edge e = v)}"

fun layer :: "(int \<Rightarrow> int set) \<Rightarrow> int \<Rightarrow> nat \<Rightarrow> int set" where
  "layer E r 0 = {r}"
| "layer E r (Suc n) = (\<Union>u \<in> layer E r n. E u)"

definition reachable :: "(int \<Rightarrow> int set) \<Rightarrow> int \<Rightarrow> int \<Rightarrow> bool" where
  "reachable E r v \<longleftrightarrow> (\<exists>n. v \<in> layer E r n)"

definition hops :: "(int \<Rightarrow> int set) \<Rightarrow> int \<Rightarrow> int \<Rightarrow> nat" where
  "hops E r v = (LEAST n. v \<in> layer E r n)"

text \<open>
  A breadth-first tree: the root is its own parent, every other reachable vertex has a reachable
  neighbour one step closer to the root as its parent, and all other vertices have none (a
  negative entry).
\<close>

definition bfs_tree_of :: "(int \<Rightarrow> int set) \<Rightarrow> int \<Rightarrow> int \<Rightarrow> int list \<Rightarrow> bool" where
  "bfs_tree_of E root nv tree \<longleftrightarrow> nv \<le> int (length tree) \<and>
     (\<forall>v. 0 \<le> v \<and> v < nv \<longrightarrow>
        (if v = root then tree ! nat v = root
         else if reachable E root v then
           v \<in> E (tree ! nat v) \<and> reachable E root (tree ! nat v) \<and>
           hops E root v = Suc (hops E root (tree ! nat v))
         else tree ! nat v < 0))"

lemma edge_nbrs_sym: "w \<in> edge_nbrs IJ v \<longleftrightarrow> v \<in> edge_nbrs IJ w"
  by (auto simp: edge_nbrs_def)

lemma edge_nbrs_Nil [simp]: "edge_nbrs [] v = {}"
  by (simp add: edge_nbrs_def)

lemma edge_nbrs_snoc:
  "edge_nbrs (es @ [e]) v = edge_nbrs es v \<union> {w. v \<noteq> w \<and> 0 \<le> v \<and> 0 \<le> w \<and>
     (get_v0_from_edge e = v \<and> get_v1_from_edge e = w \<or> get_v0_from_edge e = w \<and> get_v1_from_edge e = v)}"
  by (auto simp: edge_nbrs_def)

lemma reachable_root [simp]: "reachable E r r"
  unfolding reachable_def by (rule exI [of _ 0]) simp

lemma reachable_step: "reachable E r u \<Longrightarrow> v \<in> E u \<Longrightarrow> reachable E r v"
  unfolding reachable_def by (metis UN_iff layer.simps(2))

lemma layer_hops: "reachable E r v \<Longrightarrow> v \<in> layer E r (hops E r v)"
  unfolding reachable_def hops_def by (metis LeastI)

lemma hops_le: "v \<in> layer E r n \<Longrightarrow> hops E r v \<le> n"
  unfolding hops_def by (rule Least_le)

lemma hops_root [simp]: "hops E r r = 0"
  using hops_le [of r E r 0] by simp

lemma hops_0: "reachable E r v \<Longrightarrow> hops E r v = 0 \<Longrightarrow> v = r"
  using layer_hops [of E r v] by simp

lemma hops_step: "reachable E r u \<Longrightarrow> v \<in> E u \<Longrightarrow> hops E r v \<le> Suc (hops E r u)"
  using layer_hops [of E r u] by (intro hops_le) auto

lemma hops_pred:
  assumes "reachable E r v" "hops E r v = Suc n"
  shows "\<exists>u. reachable E r u \<and> hops E r u = n \<and> v \<in> E u"
proof -
  obtain u where u: "u \<in> layer E r n" "v \<in> E u" using layer_hops [OF assms(1)] assms(2) by auto
  then have "reachable E r u" by (auto simp: reachable_def)
  with u hops_step [of E r u v] hops_le [OF u(1)] assms(2) show ?thesis by (intro exI [of _ u]) simp
qed

lemma layer_closed:
  assumes "r \<in> S" "\<And>u v. u \<in> S \<Longrightarrow> v \<in> E u \<Longrightarrow> v \<in> S"
  shows "layer E r n \<subseteq> S"
  using assms by (induction n) auto

lemma reachable_closed:
  assumes "reachable E r v" "r \<in> S" "\<And>u v. u \<in> S \<Longrightarrow> v \<in> E u \<Longrightarrow> v \<in> S"
  shows "v \<in> S"
  using assms layer_closed [of r S E] by (auto simp: reachable_def)

subsection \<open>Visiting one vertex\<close>

text \<open>The tree of parents and the queue of discovered vertices.\<close>

fun relax :: "int \<Rightarrow> int \<Rightarrow> int list \<times> int list \<Rightarrow> int list \<times> int list" where
  "relax v j (tree, q) = (if tree ! nat j = -1 then (tree[nat j := v], q @ [j]) else (tree, q))"

definition visit :: "int \<Rightarrow> int list \<Rightarrow> int list \<times> int list \<Rightarrow> int list \<times> int list" where
  "visit v js = fold (relax v) js"

lemma visit_simps [simp]:
  "visit v [] s = s"
  "visit v (j # js) s = visit v js (relax v j s)"
  by (simp_all add: visit_def)

lemma visit_result:
  assumes "v \<noteq> -1" "\<forall>j \<in> set js. 0 \<le> j \<and> j < int (length tree)"
  shows "\<exists>tree' new. visit v js (tree, q) = (tree', q @ new) \<and> distinct new \<and>
    set new = {j \<in> set js. tree ! nat j = -1} \<and> length tree' = length tree \<and>
    (\<forall>i. 0 \<le> i \<and> i < int (length tree) \<longrightarrow>
      tree' ! nat i = (if i \<in> set new then v else tree ! nat i))"
  using assms(2)
proof (induction js arbitrary: tree q)
  case Nil
  then show ?case by simp
next
  case (Cons j js)
  have j: "0 \<le> j" "j < int (length tree)" using Cons.prems by simp_all
  show ?case
  proof (cases "tree ! nat j = -1")
    case False
    then have "{i. (i = j \<or> i \<in> set js) \<and> tree ! nat i = -1} = {i \<in> set js. tree ! nat i = -1}" by auto
    with False Cons.IH [of tree q] Cons.prems show ?thesis by simp
  next
    case True
    let ?t = "tree[nat j := v]"
    obtain tree' new where new: "visit v js (?t, q @ [j]) = (tree', (q @ [j]) @ new)" "distinct new"
      "set new = {i \<in> set js. ?t ! nat i = -1}" "length tree' = length ?t"
      "\<forall>i. 0 \<le> i \<and> i < int (length ?t) \<longrightarrow> tree' ! nat i = (if i \<in> set new then v else ?t ! nat i)"
      using Cons.IH [of ?t "q @ [j]"] Cons.prems by auto
    have upd: "?t ! nat i = (if i = j then v else tree ! nat i)" if "0 \<le> i" for i
      using that j by (auto simp: nth_list_update)
    have set_new: "set new = {i \<in> set js. i \<noteq> j \<and> tree ! nat i = -1}"
      unfolding new(3) using upd Cons.prems \<open>v \<noteq> -1\<close> by (auto split: if_splits)
    have "visit v (j # js) (tree, q) = (tree', q @ (j # new))" using True new(1) by simp
    moreover have "distinct (j # new)" using new(2) set_new by simp
    moreover have "set (j # new) = {i \<in> set (j # js). tree ! nat i = -1}"
      using set_new True by auto
    moreover have "\<forall>i. 0 \<le> i \<and> i < int (length tree) \<longrightarrow>
        tree' ! nat i = (if i \<in> set (j # new) then v else tree ! nat i)"
      using new(5) upd by simp
    ultimately show ?thesis using new(4) by (intro exI [of _ tree'] exI [of _ "j # new"]) simp
  qed
qed

subsection \<open>The queue invariant\<close>

text \<open>
  The first \<open>k\<close> vertices of the queue are done.  Distances do not decrease along the queue and
  no waiting vertex is more than one step farther than the next one to be visited.
\<close>

definition queue_ok :: "int \<Rightarrow> int list \<Rightarrow> int list \<Rightarrow> bool" where
  "queue_ok nv tree q \<longleftrightarrow> distinct q \<and> set q \<subseteq> {0..<nv} \<and> nv \<le> int (length tree) \<and>
     (\<forall>i. 0 \<le> i \<and> i < nv \<longrightarrow> (tree ! nat i \<noteq> -1 \<longleftrightarrow> i \<in> set q))"

definition bfs_inv ::
    "(int \<Rightarrow> int set) \<Rightarrow> int \<Rightarrow> int \<Rightarrow> int list \<Rightarrow> int list \<Rightarrow> nat \<Rightarrow> bool" where
  "bfs_inv E r nv tree q k \<longleftrightarrow> queue_ok nv tree q \<and> k \<le> length q \<and> r \<in> set q \<and> tree ! nat r = r \<and>
     (\<forall>v \<in> set q. reachable E r v) \<and>
     (\<forall>v \<in> set q. v \<noteq> r \<longrightarrow> tree ! nat v \<in> set q \<and> v \<in> E (tree ! nat v) \<and>
        hops E r v = Suc (hops E r (tree ! nat v))) \<and>
     sorted (map (hops E r) q) \<and>
     (\<forall>i < length q. \<forall>j < length q. k \<le> j \<longrightarrow> hops E r (q ! i) \<le> Suc (hops E r (q ! j))) \<and>
     (\<forall>i < k. E (q ! i) \<subseteq> set q)"

lemma queue_length:
  assumes "queue_ok nv tree q" "0 \<le> nv"
  shows "int (length q) \<le> nv"
proof -
  have "card (set q) \<le> card {0..<nv}" using assms by (intro card_mono) (auto simp: queue_ok_def)
  then show ?thesis using assms by (auto simp: queue_ok_def distinct_card)
qed

lemma queue_iff: "queue_ok nv tree q \<Longrightarrow> 0 \<le> i \<Longrightarrow> i < nv \<Longrightarrow> tree ! nat i = -1 \<longleftrightarrow> i \<notin> set q"
  by (auto simp: queue_ok_def)

lemma queue_range: "queue_ok nv tree q \<Longrightarrow> i \<in> set q \<Longrightarrow> 0 \<le> i \<and> i < nv"
  by (auto simp: queue_ok_def)

lemma bfs_inv_init:
  assumes "0 \<le> r" "r < nv" "nv \<le> int (length tree)"
    "\<And>i. 0 \<le> i \<Longrightarrow> i < nv \<Longrightarrow> tree ! nat i = (if i = r then r else -1)"
  shows "bfs_inv E r nv tree [r] 0"
  using assms by (auto simp: bfs_inv_def queue_ok_def)

text \<open>Everything as close as the next vertex has been discovered.\<close>

lemma discovered:
  assumes "bfs_inv E r nv tree q k" "k < length q" "reachable E r w" "hops E r w \<le> hops E r (q ! k)"
  shows "w \<in> set q"
  using assms(3,4)
proof (induction "hops E r w" arbitrary: w)
  case 0
  then show ?case using hops_0 [of E r w] assms(1) by (auto simp: bfs_inv_def)
next
  case (Suc n)
  then obtain u where u: "reachable E r u" "hops E r u = n" "w \<in> E u" using hops_pred by metis
  with Suc have "u \<in> set q" "hops E r u < hops E r (q ! k)" by auto
  then obtain i where i: "i < length q" "q ! i = u" by (auto simp: in_set_conv_nth)
  have "i < k"
  proof (rule ccontr)
    assume "\<not> i < k"
    then have "hops E r (q ! k) \<le> hops E r (q ! i)"
      using assms(1) i(1) by (auto simp: bfs_inv_def sorted_iff_nth_mono)
    with i(2) \<open>hops E r u < _\<close> show False by simp
  qed
  with i(2) u(3) assms(1) show ?case by (auto simp: bfs_inv_def)
qed

lemma bfs_inv_step:
  assumes inv: "bfs_inv E r nv tree q k" and k: "k < length q" and js: "set js = E (q ! k)"
    and E: "\<And>u. E u \<subseteq> {0..<nv}"
  shows "\<exists>tree' new. visit (q ! k) js (tree, q) = (tree', q @ new) \<and> length tree' = length tree \<and>
    bfs_inv E r nv tree' (q @ new) (Suc k)"
proof -
  let ?v = "q ! k"
  have ok: "queue_ok nv tree q" using inv by (simp add: bfs_inv_def)
  have v: "?v \<in> set q" "reachable E r ?v" "0 \<le> ?v"
    using k inv nth_mem [OF k] queue_range [OF ok, of ?v] by (auto simp: bfs_inv_def)
  have bounds: "\<forall>j \<in> set js. 0 \<le> j \<and> j < int (length tree)"
    using ok E [of ?v] unfolding js by (auto simp: queue_ok_def)
  obtain tree' new where new: "visit ?v js (tree, q) = (tree', q @ new)" "distinct new"
      "set new = {j \<in> set js. tree ! nat j = -1}" "length tree' = length tree"
      "\<forall>i. 0 \<le> i \<and> i < int (length tree) \<longrightarrow> tree' ! nat i = (if i \<in> set new then ?v else tree ! nat i)"
    using visit_result [OF _ bounds, of ?v q] v(3) by auto
  have old: "set new \<inter> set q = {}" "set new \<subseteq> {0..<nv}" "E ?v \<subseteq> set q \<union> set new"
    using new(3) E [of ?v] queue_iff [OF ok] queue_range [OF ok] unfolding js by auto
  have tree': "tree' ! nat i = (if i \<in> set new then ?v else tree ! nat i)" if "0 \<le> i" "i < nv" for i
    using new(5) that ok by (auto simp: queue_ok_def)
  have new_hops: "reachable E r j \<and> hops E r j = Suc (hops E r ?v) \<and> j \<in> E ?v" if "j \<in> set new" for j
  proof -
    have j: "j \<in> E ?v" using that new(3) js by simp
    moreover have "\<not> hops E r j \<le> hops E r ?v"
      using discovered [OF inv k reachable_step [OF v(2) j]] that old(1) by blast
    ultimately show ?thesis using hops_step [OF v(2) j] reachable_step [OF v(2) j] by auto
  qed
  have hops_q: "hops E r w \<le> Suc (hops E r ?v)" if "w \<in> set (q @ new)" for w
    using that new_hops inv k by (auto simp: bfs_inv_def in_set_conv_nth [of w q])
  have hops_later: "hops E r ?v \<le> hops E r ((q @ new) ! j)" if "k \<le> j" "j < length (q @ new)" for j
  proof (cases "j < length q")
    case True
    then show ?thesis using that inv by (auto simp: bfs_inv_def sorted_iff_nth_mono nth_append)
  next
    case False
    then have "(q @ new) ! j \<in> set new" using that(2) by (auto simp: nth_append)
    then show ?thesis using new_hops by simp
  qed
  have "queue_ok nv tree' (q @ new)"
    using ok new(2,4) old(1,2) tree' v(3) by (auto simp: queue_ok_def)
  moreover have "sorted (map (hops E r) (q @ new))"
  proof -
    have "sorted (map (hops E r) new)"
      using new_hops by (auto simp: sorted_iff_nth_mono)
    moreover have "\<forall>x \<in> set q. \<forall>y \<in> set new. hops E r x \<le> hops E r y"
      using new_hops hops_q by auto
    ultimately show ?thesis using inv by (auto simp: bfs_inv_def sorted_append)
  qed
  moreover have "\<forall>i < length (q @ new). \<forall>j < length (q @ new). Suc k \<le> j \<longrightarrow>
      hops E r ((q @ new) ! i) \<le> Suc (hops E r ((q @ new) ! j))"
    using hops_q hops_later by (meson Suc_leD Suc_le_mono le_trans nth_mem)
  moreover have "\<forall>w \<in> set (q @ new). w \<noteq> r \<longrightarrow> tree' ! nat w \<in> set (q @ new) \<and>
      w \<in> E (tree' ! nat w) \<and> hops E r w = Suc (hops E r (tree' ! nat w))"
  proof (intro ballI impI)
    fix w assume w: "w \<in> set (q @ new)" "w \<noteq> r"
    show "tree' ! nat w \<in> set (q @ new) \<and> w \<in> E (tree' ! nat w) \<and>
        hops E r w = Suc (hops E r (tree' ! nat w))"
    proof (cases "w \<in> set new")
      case True
      then show ?thesis using tree' [of w] old(2) new_hops [OF True] v(1) by auto
    next
      case False
      then show ?thesis using tree' [of w] queue_range [OF ok, of w] w inv by (auto simp: bfs_inv_def)
    qed
  qed
  moreover have "tree' ! nat r = r" "r \<in> set q"
    using tree' [of r] queue_range [OF ok, of r] old(1) inv by (auto simp: bfs_inv_def)
  moreover have "\<forall>i < Suc k. E ((q @ new) ! i) \<subseteq> set (q @ new)"
    using inv old(3) k by (auto simp: bfs_inv_def less_Suc_eq nth_append)
  ultimately have "bfs_inv E r nv tree' (q @ new) (Suc k)"
    unfolding bfs_inv_def using inv k new_hops by (auto simp: bfs_inv_def)
  with new(1,4) show ?thesis by blast
qed

lemma bfs_inv_done:
  assumes inv: "bfs_inv E r nv tree q (length q)" and E: "\<And>u. E u \<subseteq> {0..<nv}"
  shows "bfs_tree_of E r nv tree"
proof -
  have closed: "v \<in> set q" if "u \<in> set q" "v \<in> E u" for u v
  proof -
    obtain i where "i < length q" "u = q ! i" using \<open>u \<in> set q\<close> by (auto simp: in_set_conv_nth)
    then show ?thesis using inv \<open>v \<in> E u\<close> by (auto simp: bfs_inv_def)
  qed
  have all: "v \<in> set q \<longleftrightarrow> reachable E r v" for v
    using inv reachable_closed [of E r v "set q"] closed by (auto simp: bfs_inv_def)
  show ?thesis
    unfolding bfs_tree_of_def using inv all by (auto simp: bfs_inv_def queue_ok_def)
qed

subsection \<open>The queue as an array\<close>

text \<open>
  The implementations keep the queue in an array \<open>vlist\<close> with \<open>k2\<close> used elements.
  \<open>discover\<close> is the common body of their innermost loops.
\<close>

type_synonym vqueue = "int list \<times> int list \<times> int"

definition discover :: "int \<Rightarrow> int \<Rightarrow> vqueue \<Rightarrow> vqueue option" where
  "discover v j = (\<lambda>(bfs_tree, vlist, k2). do {
     t \<leftarrow> rd bfs_tree j;
     if t = -1 then do {
       bfs_tree \<leftarrow> wr bfs_tree j v;
       vlist \<leftarrow> wr vlist k2 j;
       Some (bfs_tree, vlist, k2 + 1)
     } else Some (bfs_tree, vlist, k2)
   })"

definition in_array :: "int \<Rightarrow> int list \<Rightarrow> int list \<Rightarrow> bool" where
  "in_array nv q vlist \<longleftrightarrow> int (length vlist) = nv \<and> length q \<le> length vlist \<and>
     take (length q) vlist = q"

lemma in_array_nth: "in_array nv q vlist \<Longrightarrow> k < length q \<Longrightarrow> vlist ! k = q ! k"
  by (metis in_array_def nth_take)

lemma in_array_push:
  assumes "in_array nv q vlist" "int (length q) < nv"
  shows "wr vlist (int (length q)) j = Some (vlist[length q := j])"
    "in_array nv (q @ [j]) (vlist[length q := j])"
  using assms by (auto simp: in_array_def take_Suc_conv_app_nth)

lemma queue_ok_push:
  assumes "queue_ok nv tree q" "0 \<le> j" "j < nv" "tree ! nat j = -1" "0 \<le> v"
  shows "queue_ok nv (tree[nat j := v]) (q @ [j])" "int (length q) < nv"
proof -
  have j: "j \<notin> set q" using queue_iff [OF assms(1-3)] assms(4) by simp
  show "queue_ok nv (tree[nat j := v]) (q @ [j])"
    using assms j by (auto simp: queue_ok_def nth_list_update split: if_splits)
  from queue_length [OF this] assms(2,3) show "int (length q) < nv" by simp
qed

lemma discover_cases:
  assumes "0 \<le> j" "j < int (length tree)"
  shows "tree ! nat j \<noteq> -1 \<Longrightarrow> discover v j (tree, vlist, k2) = Some (tree, vlist, k2)"
    "tree ! nat j = -1 \<Longrightarrow> wr vlist k2 j = Some vlist' \<Longrightarrow>
      discover v j (tree, vlist, k2) = Some (tree[nat j := v], vlist', k2 + 1)"
  using assms by (simp_all add: discover_def)

lemma discover_visits:
  assumes "queue_ok nv tree q" "in_array nv q vlist" "0 \<le> v" "\<forall>j \<in> set js. 0 \<le> j \<and> j < nv"
  shows "\<exists>tree' q' vlist'. for_each (discover v) js (tree, vlist, int (length q)) =
      Some (tree', vlist', int (length q')) \<and> visit v js (tree, q) = (tree', q') \<and> in_array nv q' vlist'"
  using assms
proof (induction js arbitrary: tree q vlist)
  case Nil
  then show ?case by simp
next
  case (Cons j js)
  have j: "0 \<le> j" "j < nv" "j < int (length tree)" using Cons.prems by (auto simp: queue_ok_def)
  show ?case
  proof (cases "tree ! nat j = -1")
    case True
    note push = queue_ok_push [OF Cons.prems(1) j(1,2) True Cons.prems(3)]
    note arr = in_array_push [OF Cons.prems(2) push(2), of j]
    obtain tree' q' vlist' where "for_each (discover v) js (tree[nat j := v], vlist[length q := j],
        int (length (q @ [j]))) = Some (tree', vlist', int (length q'))"
        "visit v js (tree[nat j := v], q @ [j]) = (tree', q')" "in_array nv q' vlist'"
      using Cons.IH [OF push(1) arr(2) Cons.prems(3)] Cons.prems(4) by auto
    then show ?thesis using discover_cases(2) [OF j(1,3) True arr(1)] True by (simp add: add.commute)
  next
    case False
    then show ?thesis using Cons.IH [OF Cons.prems(1-3)] Cons.prems(4) discover_cases(1) [OF j(1,3) False]
      by simp
  qed
qed

text \<open>One vertex of the queue, in the array.\<close>

lemma bfs_array_step:
  assumes inv: "bfs_inv E r nv tree q k" and arr: "in_array nv q vlist" and k: "k < length q"
    and js: "set js = E (q ! k)" and E: "\<And>u. E u \<subseteq> {0..<nv}"
  shows "\<exists>tree' q' vlist'. for_each (discover (q ! k)) js (tree, vlist, int (length q)) =
      Some (tree', vlist', int (length q')) \<and> length tree' = length tree \<and>
      bfs_inv E r nv tree' q' (Suc k) \<and> in_array nv q' vlist' \<and> (\<exists>new. q' = q @ new)"
proof -
  have ok: "queue_ok nv tree q" using inv by (simp add: bfs_inv_def)
  have v: "0 \<le> q ! k" using queue_range [OF ok nth_mem [OF k]] by simp
  have "\<forall>j \<in> set js. 0 \<le> j \<and> j < nv" using E [of "q ! k"] unfolding js by auto
  from discover_visits [OF ok arr v this] obtain tree' q' vlist' where
    run: "for_each (discover (q ! k)) js (tree, vlist, int (length q)) = Some (tree', vlist', int (length q'))"
      "visit (q ! k) js (tree, q) = (tree', q')" "in_array nv q' vlist'" by blast
  obtain tree2 new where "visit (q ! k) js (tree, q) = (tree2, q @ new)" "length tree2 = length tree"
    "bfs_inv E r nv tree2 (q @ new) (Suc k)" using bfs_inv_step [OF inv k js E] by blast
  with run show ?thesis by auto
qed

lemma for_up_reads:
  assumes "\<And>k. lo \<le> k \<Longrightarrow> k < hi \<Longrightarrow> g k = Some (h k)"
  shows "for_up lo hi (\<lambda>k s. g k \<bind> (\<lambda>j. f j s)) s = for_each f (map h [lo..hi - 1]) s"
proof -
  have "for_each (\<lambda>k s. g k \<bind> (\<lambda>j. f j s)) ks s = for_each f (map h ks) s"
    if "set ks \<subseteq> {lo..<hi}" for ks s
    using that assms by (induction ks arbitrary: s) (auto split: bind_split)
  from this [of "[lo..hi - 1]"] show ?thesis by (simp add: for_up_def subset_iff)
qed

end
