(* ===== verification/BfsVerify.thy ===== *)
theory BfsVerify
  imports Bfs
begin

text \<open>
  The validation of a search result in Graph500 (\<open>verify.c\<close>), as the sequential program without
  the parallel directives: levels are computed by running up the tree, then every edge of the
  input is checked against the tree and the levels.  Failing assertions, accesses out of bounds
  and endless loops are \<^const>\<open>None\<close>.
\<close>

subsection \<open>Levels\<close>

text \<open>Run up the tree until an already-leveled vertex is found.\<close>

definition run_up :: "int \<Rightarrow> int list \<Rightarrow> int list \<Rightarrow> int \<Rightarrow> (int \<times> int) option" where
  "run_up nv bfs_tree level k = while_opt
     (\<lambda>(parent, nhop).
        if parent \<ge> 0 then do {
          l \<leftarrow> rd level parent;
          Some (l < 0 \<and> nhop < nv)
        } else Some False)
     (\<lambda>(parent, nhop). do {
        p \<leftarrow> rd bfs_tree parent;
        assert_opt (parent \<noteq> p);
        Some (p, nhop + 1)
      }) (k, 0)"

text \<open>Assign levels until an already-leveled vertex is met.\<close>

definition assign_levels :: "int list \<Rightarrow> int list \<Rightarrow> int \<Rightarrow> int \<Rightarrow> (int list \<times> int \<times> int) option" where
  "assign_levels bfs_tree level nhop k = while_opt
     (\<lambda>(level, parent, nhop). do {
        l \<leftarrow> rd level parent;
        Some (l < 0)
      })
     (\<lambda>(level, parent, nhop). do {
        assert_opt (nhop > 0);
        level \<leftarrow> wr level parent nhop;
        p \<leftarrow> rd bfs_tree parent;
        Some (level, p, nhop - 1)
      }) (level, k, nhop)"

text \<open>The internal check that is compiled in unless \<open>NDEBUG\<close> is defined.\<close>

definition check_levels :: "int list \<Rightarrow> int list \<Rightarrow> int \<Rightarrow> (int \<times> int) option" where
  "check_levels bfs_tree level k = do {
     lk \<leftarrow> rd level k;
     while_opt
       (\<lambda>(parent, lastlvl). do {
          l \<leftarrow> rd level parent;
          Some (l > 0)
        })
       (\<lambda>(parent, lastlvl). do {
          l \<leftarrow> rd level parent;
          assert_opt (lastlvl = 1 + l);
          p \<leftarrow> rd bfs_tree parent;
          Some (p, l)
        }) (k, lk + 1)
   }"

definition level_vertex ::
    "int \<Rightarrow> int list \<Rightarrow> int \<Rightarrow> int \<Rightarrow> int list \<times> int \<Rightarrow> (int list \<times> int) option" where
  "level_vertex nv bfs_tree root k = (\<lambda>(level, err). do {
     lk \<leftarrow> rd level k;
     if lk \<ge> 0 then Some (level, err)
     else if err \<noteq> 0 then Some (level, err)
     else do {
       t \<leftarrow> rd bfs_tree k;
       if \<not> (t \<ge> 0 \<and> k \<noteq> root) then Some (level, err)
       else do {
         (parent, nhop) \<leftarrow> run_up nv bfs_tree level k;
         let terr = (if nhop \<ge> nv then -1 else 0);
         let terr = (if parent < 0 then -2 else terr);
         if terr \<noteq> 0 then Some (level, terr)
         else do {
           lp \<leftarrow> rd level parent;
           (level, parent, nhop) \<leftarrow> assign_levels bfs_tree level (nhop + lp) k;
           l \<leftarrow> rd level parent;
           assert_opt (nhop = l);
           _ \<leftarrow> check_levels bfs_tree level k;
           Some (level, err)
         }
       }
     }
   })"

definition compute_levels :: "int list \<Rightarrow> int \<Rightarrow> int list \<Rightarrow> int \<Rightarrow> (int list \<times> int) option" where
  "compute_levels level nv bfs_tree root = do {
     level \<leftarrow> for_up 0 nv (\<lambda>k level. wr level k (if k = root then 0 else -1)) level;
     for_up 0 nv (level_vertex nv bfs_tree root) (level, 0)
   }"

subsection \<open>Edges and roots\<close>

text \<open>The state of the edge loop: \<open>seen_edge\<close>, \<open>nedge_traversed\<close>, the shared error code.\<close>

definition verify_edge ::
    "int \<Rightarrow> int list \<Rightarrow> int list \<Rightarrow> packed_edge \<Rightarrow> int list \<times> int \<times> int \<Rightarrow> (int list \<times> int \<times> int) option" where
  "verify_edge max_bfsvtx bfs_tree level e = (\<lambda>(seen, nt, err).
     let i = get_v0_from_edge e; j = get_v1_from_edge e; terr = err in
     if i < 0 \<or> j < 0 then Some (seen, nt, err)
     else
       let terr = (if i > max_bfsvtx \<and> j \<le> max_bfsvtx then -10 else terr);
           terr = (if j > max_bfsvtx \<and> i \<le> max_bfsvtx then -11 else terr) in
       if terr \<noteq> 0 \<or> i > max_bfsvtx then Some (seen, nt, if terr \<noteq> 0 then terr else err)
       else do {
         ti \<leftarrow> rd bfs_tree i;
         tj \<leftarrow> rd bfs_tree j;
         let terr = (if ti \<ge> 0 \<and> tj < 0 then -12 else terr);
         let terr = (if tj \<ge> 0 \<and> ti < 0 then -13 else terr);
         if terr \<noteq> 0 \<or> ti < 0 then Some (seen, nt, if terr \<noteq> 0 then terr else err)
         else do {
           seen \<leftarrow> (if i \<noteq> j \<and> ti = j then wr seen i 1 else Some seen);
           seen \<leftarrow> (if i \<noteq> j \<and> tj = i then wr seen j 1 else Some seen);
           li \<leftarrow> rd level i;
           lj \<leftarrow> rd level j;
           let lvldiff = li - lj;
           Some (seen, nt + 1, if lvldiff > 1 \<or> lvldiff < -1 then -14 else err)
         }
       })"

definition verify_root :: "int \<Rightarrow> int list \<Rightarrow> int list \<Rightarrow> int \<Rightarrow> int \<Rightarrow> int option" where
  "verify_root root bfs_tree seen k err =
    (if err = 0 \<and> k \<noteq> root then do {
       t \<leftarrow> rd bfs_tree k;
       s \<leftarrow> (if t \<ge> 0 then rd seen k else Some 1);
       let terr = (if t \<ge> 0 \<and> s = 0 then -15 else 0);
       let terr = (if t = k then -16 else terr);
       Some (if terr \<noteq> 0 then terr else err)
     } else Some err)"

text \<open>
  \<open>seen_edge\<close> and \<open>level\<close> are the two halves of the allocated array; the allocation is not
  checked in the source, so that a failure is an access through a null pointer.
\<close>

definition verify_bfs_tree ::
    "allocator \<Rightarrow> int list \<Rightarrow> int \<Rightarrow> int \<Rightarrow> packed_edge list \<Rightarrow> int option" where
  "verify_bfs_tree alloc bfs_tree max_bfsvtx root IJ =
    (let nv = max_bfsvtx + 1 in
     if root > max_bfsvtx then Some (-999)
     else do {
       tr \<leftarrow> rd bfs_tree root;
       if tr \<noteq> root then Some (-999)
       else do {
         arr \<leftarrow> alloc (nat (2 * nv));
         let seen = take (nat nv) arr;
         let level = drop (nat nv) arr;
         (level, err) \<leftarrow> compute_levels level nv bfs_tree root;
         if err \<noteq> 0 then Some err
         else do {
           seen \<leftarrow> for_up 0 nv (\<lambda>k s. wr s k 0) seen;
           (seen, nt, err) \<leftarrow> for_each (verify_edge max_bfsvtx bfs_tree level) IJ (seen, 0, 0);
           err \<leftarrow> for_up 0 nv (verify_root root bfs_tree seen) err;
           Some (if err \<noteq> 0 then err else nt)
         }
       }
     })"

subsection \<open>What computed levels say\<close>

definition level_step :: "int list \<Rightarrow> int \<Rightarrow> int list \<Rightarrow> int \<Rightarrow> bool" where
  "level_step t n lv v \<longleftrightarrow> v < int (length t) \<and> 0 \<le> t ! nat v \<and> t ! nat v < n \<and>
     0 \<le> lv ! nat (t ! nat v) \<and> lv ! nat v = lv ! nat (t ! nat v) + 1"

definition leveled :: "int list \<Rightarrow> int \<Rightarrow> int \<Rightarrow> int list \<Rightarrow> bool" where
  "leveled t n root lv \<longleftrightarrow> int (length lv) = n \<and> lv ! nat root = 0 \<and>
     (\<forall>v. 0 \<le> v \<and> v < n \<and> v \<noteq> root \<and> 0 \<le> lv ! nat v \<longrightarrow> level_step t n lv v)"

text \<open>While levels are assigned, only the vertex assigned last may have an unleveled parent.\<close>

definition assigning ::
    "int list \<Rightarrow> int \<Rightarrow> int \<Rightarrow> int list \<Rightarrow> int \<Rightarrow> int list \<times> int \<times> int \<Rightarrow> bool" where
  "assigning t n root lv0 k = (\<lambda>(lv, p, h). int (length lv) = n \<and> lv ! nat root = 0 \<and>
     (\<forall>v. 0 \<le> v \<and> v < n \<and> 0 \<le> lv0 ! nat v \<longrightarrow> 0 \<le> lv ! nat v) \<and>
     (leveled t n root lv \<and> p = k \<or>
      0 \<le> h \<and> 0 \<le> lv ! nat k \<and>
      (\<exists>prev. 0 \<le> prev \<and> prev < n \<and> prev \<noteq> root \<and> prev < int (length t) \<and> t ! nat prev = p \<and>
        lv ! nat prev = h + 1 \<and>
        (\<forall>v. 0 \<le> v \<and> v < n \<and> v \<noteq> root \<and> v \<noteq> prev \<and> 0 \<le> lv ! nat v \<longrightarrow> level_step t n lv v))))"

lemma level_step_upd:
  assumes "level_step t n lv v" "lv ! nat p < 0" "0 \<le> p" "p < int (length lv)" "0 \<le> v" "0 \<le> lv ! nat v"
  shows "level_step t n (lv[nat p := h]) v"
proof -
  have "v \<noteq> p" "t ! nat v \<noteq> p" using assms by (auto simp: level_step_def)
  then show ?thesis using assms by (auto simp: level_step_def nth_list_update_int)
qed

lemma assign_step:
  assumes I: "assigning t n root lv0 k (lv, p, h)" and p: "0 \<le> p" "p < n" "lv ! nat p < 0" "p < int (length t)"
    and h: "0 < h" and root: "0 \<le> root" "root < n" and k: "0 \<le> k" "k < n"
  shows "assigning t n root lv0 k (lv[nat p := h], t ! nat p, h - 1)"
proof -
  let ?lv = "lv[nat p := h]"
  have len: "int (length lv) = n" and r: "lv ! nat root = 0" using I by (auto simp: assigning_def)
  have upd: "?lv ! nat v = (if v = p then h else lv ! nat v)" if "0 \<le> v" for v
    using that p len by (auto simp: nth_list_update_int)
  have pr: "p \<noteq> root" using p(3) r by auto
  have mono: "\<forall>v. 0 \<le> v \<and> v < n \<and> 0 \<le> lv0 ! nat v \<longrightarrow> 0 \<le> ?lv ! nat v"
    using I h upd by (auto simp: assigning_def)
  have root': "?lv ! nat root = 0" using upd root pr r by simp
  have rest: "level_step t n ?lv v" if v: "0 \<le> v" "v < n" "v \<noteq> root" "v \<noteq> p" "0 \<le> ?lv ! nat v" for v
  proof -
    have lv: "0 \<le> lv ! nat v" using upd [OF v(1)] v by simp
    show ?thesis
    proof (cases "leveled t n root lv \<and> p = k")
      case True
      then show ?thesis using level_step_upd [OF _ p(3,1) _ v(1) lv] v lv p(2) len by (auto simp: leveled_def)
    next
      case False
      then obtain prev where prev: "0 \<le> prev" "prev < n" "prev < int (length t)" "t ! nat prev = p"
          "lv ! nat prev = h + 1"
          "\<forall>v. 0 \<le> v \<and> v < n \<and> v \<noteq> root \<and> v \<noteq> prev \<and> 0 \<le> lv ! nat v \<longrightarrow> level_step t n lv v"
        using I by (auto simp: assigning_def)
      show ?thesis
      proof (cases "v = prev")
        case True
        then show ?thesis using prev(3-5) p(1,2) upd [OF v(1)] upd [OF p(1)] v(4) h by (simp add: level_step_def)
      next
        case False
        then show ?thesis using prev(6) level_step_upd [OF _ p(3,1) _ v(1) lv] v lv p(2) len by auto
      qed
    qed
  qed
  have kk: "0 \<le> ?lv ! nat k"
    using I upd [OF k(1)] h p(3) by (auto simp: assigning_def)
  show ?thesis
    unfolding assigning_def using len mono root' kk h p pr rest upd [OF p(1)]
    by (auto intro!: exI [of _ p])
qed

lemma assign_levels_partial:
  assumes run: "assign_levels t lv0 h0 k = Some (lv, p, h)" and lv0: "leveled t n root lv0"
    and root: "0 \<le> root" "root < n" and k: "0 \<le> k" "k < n" and final: "rd lv p = Some h"
  shows "leveled t n root lv \<and> 0 \<le> lv ! nat k \<and> (\<forall>v. 0 \<le> v \<and> v < n \<and> 0 \<le> lv0 ! nat v \<longrightarrow> 0 \<le> lv ! nat v)"
proof -
  have "assigning t n root lv0 k (lv, p, h) \<and>
      (\<lambda>(level, parent, nhop). rd level parent \<bind> (\<lambda>l. Some (l < 0))) (lv, p, h) = Some False"
    using run unfolding assign_levels_def
  proof (rule while_opt_partial [where I = "assigning t n root lv0 k"])
    show "assigning t n root lv0 k (lv0, k, h0)" using lv0 by (simp add: assigning_def leveled_def)
  next
    fix u u'
    assume I: "assigning t n root lv0 k u"
      and go: "(case u of (level, parent, nhop) \<Rightarrow> rd level parent \<bind> (\<lambda>l. Some (l < 0))) = Some True"
      and body: "(case u of (level, parent, nhop) \<Rightarrow> do {
        assert_opt (nhop > 0);
        level \<leftarrow> wr level parent nhop;
        p \<leftarrow> rd t parent;
        Some (level, p, nhop - 1)
      }) = Some u'"
    obtain l q g where u: "u = (l, q, g)" by (cases u) auto
    have "int (length l) = n" using I by (simp add: u assigning_def)
    then have q: "0 \<le> q" "q < n" "l ! nat q < 0" using go by (auto simp: u bind_eq_Some rd_eq_Some)
    moreover have "0 < g" "q < int (length t)" "u' = (l[nat q := g], t ! nat q, g - 1)"
      using body by (auto simp: u bind_eq_Some rd_eq_Some wr_eq_Some)
    ultimately show "assigning t n root lv0 k u'"
      using assign_step [OF I [unfolded u] q _ _ root k] by simp
  qed
  then have I: "assigning t n root lv0 k (lv, p, h)" and "\<not> lv ! nat p < 0"
    using final by (auto simp: bind_eq_Some rd_eq_Some)
  have p: "0 \<le> p" "p < n" "lv ! nat p = h" using final I by (auto simp: rd_eq_Some assigning_def)
  have "leveled t n root lv \<and> 0 \<le> lv ! nat k"
  proof (cases "leveled t n root lv \<and> p = k")
    case True
    then show ?thesis using \<open>\<not> lv ! nat p < 0\<close> by simp
  next
    case False
    then obtain prev where "0 \<le> h" "0 \<le> lv ! nat k" "0 \<le> prev" "prev < n" "prev < int (length t)" "t ! nat prev = p" "lv ! nat prev = h + 1"
        "\<forall>v. 0 \<le> v \<and> v < n \<and> v \<noteq> root \<and> v \<noteq> prev \<and> 0 \<le> lv ! nat v \<longrightarrow> level_step t n lv v"
      using I by (auto simp: assigning_def)
    moreover from this have "level_step t n lv prev" using p by (simp add: level_step_def)
    ultimately show ?thesis using I by (auto simp: leveled_def assigning_def)
  qed
  then show ?thesis using I by (auto simp: assigning_def)
qed

definition leveling :: "int list \<Rightarrow> int \<Rightarrow> int \<Rightarrow> int \<Rightarrow> int list \<times> int \<Rightarrow> bool" where
  "leveling t n root k = (\<lambda>(l, err). err = 0 \<longrightarrow> leveled t n root l \<and>
     (\<forall>v. 0 \<le> v \<and> v < k \<and> v \<noteq> root \<longrightarrow> v < int (length t) \<and> (0 \<le> t ! nat v \<longrightarrow> 0 \<le> l ! nat v)))"

lemma leveling_extend:
  assumes "leveling t n root k (l, 0)" "leveled t n root l'"
    "\<And>v. 0 \<le> v \<Longrightarrow> v < k \<Longrightarrow> 0 \<le> l ! nat v \<Longrightarrow> 0 \<le> l' ! nat v"
    "k \<noteq> root \<Longrightarrow> k < int (length t) \<and> (0 \<le> t ! nat k \<longrightarrow> 0 \<le> l' ! nat k)"
  shows "leveling t n root (k + 1) (l', 0)"
proof -
  have "v < int (length t) \<and> (0 \<le> t ! nat v \<longrightarrow> 0 \<le> l' ! nat v)"
    if "0 \<le> v" "v < k + 1" "v \<noteq> root" for v
    using that assms(1) assms(3) [of v] assms(4) by (cases "v = k") (auto simp: leveling_def)
  with assms(2) show ?thesis by (simp add: leveling_def)
qed

lemma level_vertex_run:
  assumes run: "level_vertex n t root k (l, 0) = Some u'" and "leveled t n root l" "0 \<le> root" "root < n"
    and k: "0 \<le> k" "k < n" and go: "l ! nat k < 0" "0 \<le> t ! nat k" "k \<noteq> root" "k < int (length t)"
  shows "(\<exists>l'. u' = (l', 0) \<and> leveled t n root l' \<and> 0 \<le> l' ! nat k \<and>
      (\<forall>v. 0 \<le> v \<and> v < n \<and> 0 \<le> l ! nat v \<longrightarrow> 0 \<le> l' ! nat v)) \<or> snd u' \<noteq> 0"
proof -
  have lk: "rd l k = Some (l ! nat k)" using k assms(2) by (simp add: leveled_def)
  obtain par nh where rest: "(let terr = (if nh \<ge> n then -1 else 0); terr = (if par < 0 then -2 else terr) in
        if terr \<noteq> 0 then Some (l, terr)
        else do {
          lp \<leftarrow> rd l par;
          (level, parent, nhop) \<leftarrow> assign_levels t l (nh + lp) k;
          x \<leftarrow> rd level parent;
          assert_opt (nhop = x);
          _ \<leftarrow> check_levels t level k;
          Some (level, 0)
        }) = Some u'"
    using run lk go k by (auto simp: level_vertex_def bind_eq_Some Let_def)
  show ?thesis
  proof (cases "nh \<ge> n \<or> par < 0")
    case True
    then show ?thesis using rest by (auto split: if_splits)
  next
    case False
    then obtain lp l' p' h' where r: "assign_levels t l (nh + lp) k = Some (l', p', h')" "rd l' p' = Some h'" "u' = (l', 0)"
      using rest by (auto simp: bind_eq_Some)
    then show ?thesis using assign_levels_partial [OF r(1) assms(2-4) k r(2)] by auto
  qed
qed

lemma level_vertex_partial:
  assumes step: "level_vertex n t root k u = Some u'" and I: "leveling t n root k u"
    and root: "0 \<le> root" "root < n" and k: "0 \<le> k" "k < n"
  shows "leveling t n root (k + 1) u'"
proof -
  obtain l err where u: "u = (l, err)" by fastforce
  show ?thesis
  proof (cases "err = 0")
    case False
    then have "u' = u" using step by (auto simp: u level_vertex_def bind_eq_Some split: if_splits)
    with False show ?thesis by (simp add: u leveling_def)
  next
    case True
    then have L: "leveled t n root l" "leveling t n root k (l, 0)" using I by (auto simp: u leveling_def)
    have lk: "rd l k = Some (l ! nat k)" using k L(1) by (simp add: leveled_def)
    consider (leveled) "0 \<le> l ! nat k" | (none) "l ! nat k < 0" "k < int (length t)" "\<not> (0 \<le> t ! nat k \<and> k \<noteq> root)"
      | (run) "l ! nat k < 0" "k < int (length t)" "0 \<le> t ! nat k" "k \<noteq> root"
      using step k True by (auto simp: u level_vertex_def lk bind_eq_Some rd_eq_Some split: if_splits)
    then show ?thesis
    proof cases
      case leveled
      then have "u' = u" using step lk by (simp add: u level_vertex_def)
      moreover have "level_step t n l k" if "k \<noteq> root" using that leveled L(1) k by (simp add: leveled_def)
      ultimately show ?thesis using leveling_extend [OF L(2,1)] leveled by (simp add: u True level_step_def)
    next
      case none
      then have "u' = u" using step lk True k by (auto simp: u level_vertex_def)
      then show ?thesis using leveling_extend [OF L(2,1)] none by (auto simp: u True)
    next
      case run
      from level_vertex_run [OF step [unfolded u True] L(1) root k run(1,3,4,2)] show ?thesis
      proof (elim disjE exE conjE)
        fix l'
        assume "u' = (l', 0)" "leveled t n root l'" "0 \<le> l' ! nat k"
          "\<forall>v. 0 \<le> v \<and> v < n \<and> 0 \<le> l ! nat v \<longrightarrow> 0 \<le> l' ! nat v"
        with leveling_extend [OF L(2), of l'] run(2) k show ?thesis by simp
      qed (auto simp: leveling_def)
    qed
  qed
qed

lemma compute_levels_partial:
  assumes run: "compute_levels lv0 n t root = Some (lv, 0)" and root: "0 \<le> root" "root < n" "root < int (length t)"
    and len: "int (length lv0) = n"
  shows "leveled t n root lv \<and>
    (\<forall>v. 0 \<le> v \<and> v < n \<longrightarrow> v < int (length t) \<and> (v \<noteq> root \<longrightarrow> (0 \<le> t ! nat v \<longleftrightarrow> 0 \<le> lv ! nat v)))"
proof -
  obtain l0 where l0: "for_up 0 n (\<lambda>k level. wr level k (if k = root then 0 else -1)) lv0 = Some l0"
      "for_up 0 n (level_vertex n t root) (l0, 0) = Some (lv, 0)"
    using run by (auto simp: compute_levels_def bind_eq_Some)
  have "int (length l0) = n \<and> (\<forall>v. 0 \<le> v \<and> v < n \<longrightarrow> l0 ! nat v = (if v = root then 0 else -1))"
    using l0(1)
  proof (rule for_up_partial [where I = "\<lambda>k l. int (length l) = n \<and>
      (\<forall>v. 0 \<le> v \<and> v < k \<longrightarrow> l ! nat v = (if v = root then 0 else -1))"])
    show "0 \<le> n" using root by simp
  qed (use len in \<open>auto simp: wr_eq_Some nth_list_update_int\<close>)
  then have init: "leveling t n root 0 (l0, 0)" using root by (auto simp: leveled_def leveling_def)
  have "leveling t n root n (lv, 0)"
    using root init level_vertex_partial [OF _ _ root(1,2)]
    by (intro for_up_partial [OF l0(2), where I = "leveling t n root"]) auto
  then have res: "leveled t n root lv" "\<And>v. 0 \<le> v \<Longrightarrow> v < n \<Longrightarrow> v \<noteq> root \<Longrightarrow>
      v < int (length t) \<and> (0 \<le> t ! nat v \<longrightarrow> 0 \<le> lv ! nat v)" by (auto simp: leveling_def)
  have "v < int (length t)" if "0 \<le> v" "v < n" for v
    using that root(3) res(2) by (cases "v = root") auto
  moreover have "0 \<le> t ! nat v \<longleftrightarrow> 0 \<le> lv ! nat v" if "0 \<le> v" "v < n" "v \<noteq> root" for v
    using that res by (auto simp: leveled_def level_step_def)
  ultimately show ?thesis using res(1) by blast
qed

subsection \<open>What the edge loop checks\<close>

text \<open>An accepted edge: both ends inside or both outside, and at most one level apart.\<close>

definition edge_fits :: "int \<Rightarrow> int list \<Rightarrow> int list \<Rightarrow> packed_edge \<Rightarrow> bool" where
  "edge_fits m t lv e \<longleftrightarrow>
    (let i = get_v0_from_edge e; j = get_v1_from_edge e in
     0 \<le> i \<and> 0 \<le> j \<longrightarrow> (i \<le> m \<longleftrightarrow> j \<le> m) \<and>
       (i \<le> m \<longrightarrow> (0 \<le> t ! nat i \<longleftrightarrow> 0 \<le> t ! nat j) \<and>
          (0 \<le> t ! nat i \<longrightarrow> \<bar>lv ! nat i - lv ! nat j\<bar> \<le> 1)))"

definition traversed :: "int \<Rightarrow> int list \<Rightarrow> packed_edge \<Rightarrow> bool" where
  "traversed m t e \<longleftrightarrow> 0 \<le> get_v0_from_edge e \<and> 0 \<le> get_v1_from_edge e \<and> get_v0_from_edge e \<le> m \<and>
     0 \<le> t ! nat (get_v0_from_edge e)"

text \<open>The edge of the tree above a vertex, in the edge list.\<close>

definition parent_edge :: "int list \<Rightarrow> int \<Rightarrow> packed_edge \<Rightarrow> bool" where
  "parent_edge t v e \<longleftrightarrow> get_v0_from_edge e \<noteq> get_v1_from_edge e \<and> 0 \<le> get_v0_from_edge e \<and> 0 \<le> get_v1_from_edge e \<and>
     (v = get_v0_from_edge e \<and> t ! nat v = get_v1_from_edge e \<or>
      v = get_v1_from_edge e \<and> t ! nat v = get_v0_from_edge e)"

definition edges_checked ::
    "int \<Rightarrow> int list \<Rightarrow> int list \<Rightarrow> packed_edge list \<Rightarrow> int list \<times> int \<times> int \<Rightarrow> bool" where
  "edges_checked m t lv es = (\<lambda>(seen, nt, err). err \<le> 0 \<and> int (length seen) = m + 1 \<and>
     (err = 0 \<longrightarrow> list_all (edge_fits m t lv) es \<and> nt = int (length (filter (traversed m t) es)) \<and>
        (\<forall>v. 0 \<le> v \<and> v \<le> m \<longrightarrow> seen ! nat v \<noteq> 0 \<longrightarrow> (\<exists>e \<in> set es. parent_edge t v e))))"

lemma verify_edge_error:
  assumes "verify_edge m t lv e (seen, nt, err) = Some s" "err \<noteq> 0" "err \<le> 0"
  shows "fst s = seen \<and> snd (snd s) < 0"
  using assms by (auto simp: verify_edge_def Let_def bind_eq_Some split: if_splits)

lemma verify_edge_inside:
  fixes e :: packed_edge
  defines "i \<equiv> get_v0_from_edge e" and "j \<equiv> get_v1_from_edge e"
  assumes run: "verify_edge m t lv e (seen, nt, 0) = Some s" and b: "0 \<le> i" "0 \<le> j" "i \<le> m" "j \<le> m"
    and tree: "0 \<le> t ! nat i" "0 \<le> t ! nat j" and len: "int (length seen) = m + 1" "m < int (length t)"
  shows "\<exists>seen'. s = (seen', nt + 1, if \<bar>lv ! nat i - lv ! nat j\<bar> \<le> 1 then 0 else -14) \<and> length seen' = length seen \<and>
    (\<forall>v. 0 \<le> v \<and> v \<le> m \<longrightarrow> seen' ! nat v = (if parent_edge t v e then 1 else seen ! nat v))"
proof -
  have rds: "rd t i = Some (t ! nat i)" "rd t j = Some (t ! nat j)" using b len by simp_all
  define s1 where "s1 = (if i \<noteq> j \<and> t ! nat i = j then seen[nat i := 1] else seen)"
  define s2 where "s2 = (if i \<noteq> j \<and> t ! nat j = i then s1[nat j := 1] else s1)"
  have w: "(if i \<noteq> j \<and> t ! nat i = j then wr seen i 1 else Some seen) = Some s1"
      "(if i \<noteq> j \<and> t ! nat j = i then wr s1 j 1 else Some s1) = Some s2" "length s2 = length seen"
    using b len by (auto simp: s1_def s2_def)
  obtain li lj where "rd lv i = Some li" "rd lv j = Some lj"
      "s = (s2, nt + 1, if li - lj > 1 \<or> li - lj < -1 then -14 else 0)"
    using run b tree rds w unfolding verify_edge_def i_def [symmetric] j_def [symmetric]
    by (simp add: Let_def bind_eq_Some) blast
  then have "s = (s2, nt + 1, if \<bar>lv ! nat i - lv ! nat j\<bar> \<le> 1 then 0 else -14)"
    by (auto simp: rd_eq_Some)
  moreover have "s2 ! nat v = (if parent_edge t v e then 1 else seen ! nat v)" if "0 \<le> v" "v \<le> m" for v
    using that b len unfolding s2_def s1_def parent_edge_def i_def [symmetric] j_def [symmetric]
    by (auto simp: nth_list_update_int)
  ultimately show ?thesis using w(3) by blast
qed

lemma verify_edge_partial:
  assumes run: "verify_edge m t lv e s = Some s'" and I: "edges_checked m t lv es s" and len: "m < int (length t)"
  shows "edges_checked m t lv (es @ [e]) s'"
proof -
  let ?i = "get_v0_from_edge e" and ?j = "get_v1_from_edge e"
  obtain seen nt err where s: "s = (seen, nt, err)" by (cases s) auto
  have sl: "int (length seen) = m + 1" using I by (simp add: s edges_checked_def)
  show ?thesis
  proof (cases "err = 0")
    case False
    then have "fst s' = seen \<and> snd (snd s') < 0"
      using verify_edge_error [of m t lv e seen nt err s'] run I by (auto simp: s edges_checked_def)
    then show ?thesis using sl by (cases s') (auto simp: edges_checked_def)
  next
    case True
    have old: "list_all (edge_fits m t lv) es" "nt = int (length (filter (traversed m t) es))"
        "\<And>v. 0 \<le> v \<Longrightarrow> v \<le> m \<Longrightarrow> seen ! nat v \<noteq> 0 \<Longrightarrow> \<exists>e \<in> set es. parent_edge t v e"
      using I True by (auto simp: s edges_checked_def)
    have run: "verify_edge m t lv e (seen, nt, 0) = Some s'" using run True by (simp add: s)
    show ?thesis
    proof (cases "0 \<le> ?i \<and> 0 \<le> ?j \<and> ?i \<le> m \<and> ?j \<le> m \<and> 0 \<le> t ! nat ?i \<and> 0 \<le> t ! nat ?j")
      case True
      then obtain seen' where s': "s' = (seen', nt + 1, if \<bar>lv ! nat ?i - lv ! nat ?j\<bar> \<le> 1 then 0 else -14)"
          "length seen' = length seen" "\<forall>v. 0 \<le> v \<and> v \<le> m \<longrightarrow> seen' ! nat v = (if parent_edge t v e then 1 else seen ! nat v)"
        using verify_edge_inside [OF run _ _ _ _ _ _ sl len] by blast
      have "traversed m t e" using True by (simp add: traversed_def)
      then show ?thesis
        using s' old sl True by (auto simp: edges_checked_def edge_fits_def Let_def)
    next
      case False
      have "\<not> traversed m t e \<and> edge_fits m t lv e \<and> s' = (seen, nt, 0) \<or> s' = (seen, nt, snd (snd s')) \<and> snd (snd s') < 0"
        using run False len
        by (auto simp: verify_edge_def traversed_def edge_fits_def Let_def bind_eq_Some rd_eq_Some split: if_splits)
      then show ?thesis
        using old sl by (cases s') (auto simp: edges_checked_def)
    qed
  qed
qed

lemma verify_root_partial:
  assumes "for_up 0 (m + 1) (verify_root root t seen) err = Some 0" "0 \<le> m + 1" "err \<le> 0"
  shows "err = 0 \<and> (\<forall>v. 0 \<le> v \<and> v \<le> m \<and> v \<noteq> root \<longrightarrow> t ! nat v \<noteq> v \<and> (0 \<le> t ! nat v \<longrightarrow> seen ! nat v \<noteq> 0))"
proof -
  let ?I = "\<lambda>k err'. err' = 0 \<longrightarrow> err = 0 \<and>
    (\<forall>v. 0 \<le> v \<and> v < k \<and> v \<noteq> root \<longrightarrow> t ! nat v \<noteq> v \<and> (0 \<le> t ! nat v \<longrightarrow> seen ! nat v \<noteq> 0))"
  have "?I (m + 1) (0 :: int)"
  proof (rule for_up_partial [OF assms(1,2), where I = ?I])
    fix k u u'
    assume k: "0 \<le> k" and I: "?I k u" and step: "verify_root root t seen k u = Some u'"
    show "?I (k + 1) u'"
    proof
      assume "u' = 0"
      then have u: "u = 0" "k \<noteq> root \<Longrightarrow> t ! nat k \<noteq> k \<and> (0 \<le> t ! nat k \<longrightarrow> seen ! nat k \<noteq> 0)"
        using step by (auto simp: verify_root_def bind_eq_Some rd_eq_Some Let_def split: if_splits)
      have "t ! nat v \<noteq> v \<and> (0 \<le> t ! nat v \<longrightarrow> seen ! nat v \<noteq> 0)" if "0 \<le> v" "v < k + 1" "v \<noteq> root" for v
        using that u I by (cases "v = k") auto
      with I u(1) show "err = 0 \<and> (\<forall>v. 0 \<le> v \<and> v < k + 1 \<and> v \<noteq> root \<longrightarrow> t ! nat v \<noteq> v \<and> (0 \<le> t ! nat v \<longrightarrow> seen ! nat v \<noteq> 0))"
        by simp
    qed
  qed simp
  then show ?thesis by auto
qed

subsection \<open>Accepted trees are breadth-first trees\<close>

lemma levels_are_distances:
  fixes IJ :: "packed_edge list"
  defines "E \<equiv> edge_nbrs IJ"
  assumes lv: "leveled t (m + 1) root lv" and root: "0 \<le> root" "root \<le> m" "t ! nat root = root"
    and tree: "\<forall>v. 0 \<le> v \<and> v \<le> m \<and> v \<noteq> root \<longrightarrow> (0 \<le> t ! nat v \<longleftrightarrow> 0 \<le> lv ! nat v)"
    and fits: "list_all (edge_fits m t lv) IJ"
    and par: "\<forall>v. 0 \<le> v \<and> v \<le> m \<and> v \<noteq> root \<and> 0 \<le> t ! nat v \<longrightarrow> (\<exists>e \<in> set IJ. parent_edge t v e)"
    and v: "0 \<le> v" "v \<le> m"
  shows "0 \<le> t ! nat v \<longleftrightarrow> reachable E root v"
    and "reachable E root v \<Longrightarrow> lv ! nat v = int (hops E root v)"
    and "reachable E root v \<Longrightarrow> v \<noteq> root \<Longrightarrow> v \<in> E (t ! nat v)"
proof -
  have nbr: "v \<in> E (t ! nat v)" if "0 \<le> v" "v \<le> m" "v \<noteq> root" "0 \<le> t ! nat v" for v
    using par [rule_format, of v] that by (auto simp: parent_edge_def E_def edge_nbrs_def)
  have step: "v \<le> m \<and> 0 \<le> t ! nat v \<and> \<bar>lv ! nat u - lv ! nat v\<bar> \<le> 1" if "v \<in> E u" "u \<le> m" "0 \<le> t ! nat u" for u v
  proof -
    obtain e where e: "e \<in> set IJ" "0 \<le> u" "0 \<le> v" "get_v0_from_edge e = u \<and> get_v1_from_edge e = v \<or>
        get_v0_from_edge e = v \<and> get_v1_from_edge e = u" using \<open>v \<in> E u\<close> by (auto simp: E_def edge_nbrs_def)
    have "edge_fits m t lv e" using fits e(1) by (simp add: list_all_iff)
    with e(2-4) that(2,3) show ?thesis by (auto simp: edge_fits_def Let_def abs_minus_commute)
  qed
  have layers: "0 \<le> v \<and> v \<le> m \<and> 0 \<le> t ! nat v \<and> lv ! nat v \<le> int k" if "v \<in> layer E root k" for v k
    using that
  proof (induction k arbitrary: v)
    case 0
    then show ?case using root lv by (simp add: leveled_def)
  next
    case (Suc k)
    then obtain u where u: "u \<in> layer E root k" "v \<in> E u" by auto
    have "0 \<le> v" using u(2) by (simp add: E_def edge_nbrs_def)
    with Suc.IH [OF u(1)] step [OF u(2)] show ?case by auto
  qed
  have up: "v \<in> layer E root k" if "0 \<le> v" "v \<le> m" "lv ! nat v = int k" for v k
    using that
  proof (induction k arbitrary: v)
    case 0
    then have "\<not> level_step t (m + 1) lv v" by (auto simp: level_step_def)
    then show ?case using lv 0 by (auto simp: leveled_def)
  next
    case (Suc k)
    then have "v \<noteq> root" using lv by (auto simp: leveled_def)
    then have st: "level_step t (m + 1) lv v" using lv Suc.prems by (simp add: leveled_def)
    then have "t ! nat v \<in> layer E root k" using Suc.IH [of "t ! nat v"] Suc.prems by (auto simp: level_step_def)
    moreover have "v \<in> E (t ! nat v)" using nbr [of v] st Suc.prems \<open>v \<noteq> root\<close> by (auto simp: level_step_def)
    ultimately show ?case by auto
  qed
  have lvl: "v \<in> layer E root (nat (lv ! nat v))" if "0 \<le> v" "v \<le> m" "0 \<le> t ! nat v" for v
    using up [of v "nat (lv ! nat v)"] that tree lv root by (cases "v = root") (auto simp: leveled_def)
  show "0 \<le> t ! nat v \<longleftrightarrow> reachable E root v"
    using lvl [OF v] layers [of v] by (auto simp: reachable_def)
  show "lv ! nat v = int (hops E root v)" if "reachable E root v"
  proof -
    note d = layers [OF layer_hops [OF that]]
    have "0 \<le> lv ! nat v" using d v tree lv by (cases "v = root") (auto simp: leveled_def)
    moreover have "hops E root v \<le> nat (lv ! nat v)" using lvl [of v] d v by (intro hops_le) auto
    ultimately show ?thesis using d by linarith
  qed
  show "v \<in> E (t ! nat v)" if "reachable E root v" "v \<noteq> root"
    using that layers [OF layer_hops [OF that(1)]] nbr [OF v] by simp
qed

lemma level_vertex_err:
  "level_vertex n t root k (l, e) = Some (l', e') \<Longrightarrow> e \<le> 0 \<Longrightarrow> e' \<le> 0"
  by (auto simp: level_vertex_def bind_eq_Some Let_def split: if_splits)

lemma compute_levels_err:
  assumes "compute_levels lv0 n t root = Some (lv, err)" "0 \<le> n"
  shows "err \<le> 0"
proof -
  obtain l0 where "for_up 0 n (level_vertex n t root) (l0, 0) = Some (lv, err)"
    using assms(1) by (auto simp: compute_levels_def bind_eq_Some)
  then have "snd (lv, err) \<le> 0"
    by (rule for_up_partial [where I = "\<lambda>k s. snd s \<le> 0"]) (use assms(2) level_vertex_err in auto)
  then show ?thesis by simp
qed

lemma verify_root_err:
  assumes "for_up 0 n (verify_root root t seen) err = Some err'" "0 \<le> n" "err \<le> 0"
  shows "err' \<le> 0"
  by (rule for_up_partial [OF assms(1,2), where I = "\<lambda>k e. e \<le> 0"])
    (use assms(3) in \<open>auto simp: verify_root_def bind_eq_Some Let_def split: if_splits\<close>)

lemma edge_loop_result:
  assumes "for_each (verify_edge m t lv) IJ (seen, 0, 0) = Some s" "m < int (length t)"
    "int (length seen) = m + 1" "\<And>v. 0 \<le> v \<Longrightarrow> v \<le> m \<Longrightarrow> seen ! nat v = 0"
  shows "edges_checked m t lv IJ s"
  by (rule for_each_partial [OF assms(1), where I = "edges_checked m t lv"])
    (use assms(2-4) verify_edge_partial in \<open>auto simp: edges_checked_def\<close>)

lemma verify_bfs_tree_accepts:
  assumes al: "alloc_law alloc" and run: "verify_bfs_tree alloc t m root IJ = Some r" and r: "0 \<le> r"
  obtains lv where "leveled t (m + 1) root lv" "0 \<le> root" "root \<le> m" "t ! nat root = root" "m < int (length t)"
    "\<forall>v. 0 \<le> v \<and> v \<le> m \<and> v \<noteq> root \<longrightarrow> (0 \<le> t ! nat v \<longleftrightarrow> 0 \<le> lv ! nat v)"
    "list_all (edge_fits m t lv) IJ"
    "\<forall>v. 0 \<le> v \<and> v \<le> m \<and> v \<noteq> root \<and> 0 \<le> t ! nat v \<longrightarrow> (\<exists>e \<in> set IJ. parent_edge t v e)"
    "r = int (length (filter (traversed m t) IJ))"
proof -
  have root: "0 \<le> root" "root \<le> m" "root < int (length t)" "t ! nat root = root"
    using run r by (auto simp: verify_bfs_tree_def Let_def bind_eq_Some rd_eq_Some split: if_splits)
  obtain arr lv err where arr: "alloc (nat (2 * (m + 1))) = Some arr"
      "compute_levels (drop (nat (m + 1)) arr) (m + 1) t root = Some (lv, err)" "err \<noteq> 0 \<Longrightarrow> r = err"
    and rest: "err = 0 \<Longrightarrow> \<exists>seen seen' nt err' err''.
           for_up 0 (m + 1) (\<lambda>k s. wr s k 0) (take (nat (m + 1)) arr) = Some seen \<and>
           for_each (verify_edge m t lv) IJ (seen, 0, 0) = Some (seen', nt, err') \<and>
           for_up 0 (m + 1) (verify_root root t seen') err' = Some err'' \<and>
           r = (if err'' \<noteq> 0 then err'' else nt)"
    using run root by (auto simp: verify_bfs_tree_def Let_def bind_eq_Some split: if_splits)
  have len: "length arr = nat (2 * (m + 1))" using alloc_lawD [OF al arr(1)] .
  have e0: "err = 0" using compute_levels_err [OF arr(2)] arr(3) r root by linarith
  obtain seen seen' nt err' err'' where s: "for_up 0 (m + 1) (\<lambda>k s. wr s k 0) (take (nat (m + 1)) arr) = Some seen"
    and l: "for_each (verify_edge m t lv) IJ (seen, 0, 0) = Some (seen', nt, err')"
    and f: "for_up 0 (m + 1) (verify_root root t seen') err' = Some err''"
    and rr: "r = (if err'' \<noteq> 0 then err'' else nt)"
    using rest [OF e0] by blast
  have lvs: "leveled t (m + 1) root lv" "\<And>v. 0 \<le> v \<Longrightarrow> v < m + 1 \<Longrightarrow> v < int (length t) \<and> (v \<noteq> root \<longrightarrow> (0 \<le> t ! nat v \<longleftrightarrow> 0 \<le> lv ! nat v))"
    using compute_levels_partial [of "drop (nat (m + 1)) arr" "m + 1" t root lv] arr(2) e0 root len by auto
  have mt: "m < int (length t)" using lvs(2) [of m] root by simp
  have seen: "int (length seen) = m + 1" "\<And>v. 0 \<le> v \<Longrightarrow> v \<le> m \<Longrightarrow> seen ! nat v = 0"
    using fill_range [of 0 "m + 1" "take (nat (m + 1)) arr" 0] s root len by auto
  note c = edge_loop_result [OF l mt seen]
  have "err'' = 0" using verify_root_err [OF f] c r rr root by (auto simp: edges_checked_def split: if_splits)
  moreover from this have "err' = 0 \<and> (\<forall>v. 0 \<le> v \<and> v \<le> m \<and> v \<noteq> root \<longrightarrow> t ! nat v \<noteq> v \<and> (0 \<le> t ! nat v \<longrightarrow> seen' ! nat v \<noteq> 0))"
    using verify_root_partial f c root by (auto simp: edges_checked_def)
  ultimately show ?thesis
    using that [of lv] lvs root mt c rr by (auto simp: edges_checked_def)
qed

lemma verify_sound:
  assumes "alloc_law alloc" "verify_bfs_tree alloc t m root IJ = Some r" "0 \<le> r"
  shows "bfs_tree_of (edge_nbrs IJ) root (m + 1) t \<and>
    r = int (length (filter (\<lambda>e. 0 \<le> get_v0_from_edge e \<and> 0 \<le> get_v1_from_edge e \<and> get_v0_from_edge e \<le> m \<and>
      reachable (edge_nbrs IJ) root (get_v0_from_edge e)) IJ))"
proof -
  let ?E = "edge_nbrs IJ"
  obtain lv where A: "leveled t (m + 1) root lv" "0 \<le> root" "root \<le> m" "t ! nat root = root"
    "\<forall>v. 0 \<le> v \<and> v \<le> m \<and> v \<noteq> root \<longrightarrow> (0 \<le> t ! nat v \<longleftrightarrow> 0 \<le> lv ! nat v)"
    "list_all (edge_fits m t lv) IJ"
    "\<forall>v. 0 \<le> v \<and> v \<le> m \<and> v \<noteq> root \<and> 0 \<le> t ! nat v \<longrightarrow> (\<exists>e \<in> set IJ. parent_edge t v e)"
    and mt: "m < int (length t)" and r: "r = int (length (filter (traversed m t) IJ))"
    using verify_bfs_tree_accepts [OF assms] by blast
  note L = levels_are_distances [OF A]
  have "v \<in> ?E (t ! nat v) \<and> reachable ?E root (t ! nat v) \<and> hops ?E root v = Suc (hops ?E root (t ! nat v))"
    if v: "0 \<le> v" "v \<le> m" "v \<noteq> root" "reachable ?E root v" for v
  proof -
    have "0 \<le> lv ! nat v" using L(1,2) v by simp
    then have st: "level_step t (m + 1) lv v" using A(1) v by (simp add: leveled_def)
    then have p: "0 \<le> t ! nat v" "t ! nat v \<le> m" by (auto simp: level_step_def)
    have "0 \<le> t ! nat (t ! nat v)" using A(4,5) st p by (cases "t ! nat v = root") (auto simp: level_step_def A(2))
    then have "reachable ?E root (t ! nat v)" using L(1) [OF p] by simp
    then show ?thesis using L(2,3) v L(2) [OF p] st by (simp add: level_step_def)
  qed
  then have "bfs_tree_of ?E root (m + 1) t"
    using mt A(4) L(1) by (auto simp: bfs_tree_of_def not_le [symmetric])
  moreover have "traversed m t e \<longleftrightarrow> 0 \<le> get_v0_from_edge e \<and> 0 \<le> get_v1_from_edge e \<and> get_v0_from_edge e \<le> m \<and>
      reachable ?E root (get_v0_from_edge e)" for e
    using L(1) [of "get_v0_from_edge e"] by (auto simp: traversed_def)
  ultimately show ?thesis unfolding r by presburger
qed

text \<open>
  C13: When the validation returns a number that is not an error code, the array is a
  breadth-first tree of the graph for the given root, and the number is the count of the input
  edges in the component of the root.
\<close>

theorem verify_bfs_tree_sound:
  assumes "alloc_law alloc" "verify_bfs_tree alloc t m root IJ = Some r" "0 \<le> r"
  shows "bfs_tree_of (edge_nbrs IJ) root (m + 1) t \<and>
    r = int (length (filter (\<lambda>e. 0 \<le> get_v0_from_edge e \<and> 0 \<le> get_v1_from_edge e \<and> get_v0_from_edge e \<le> m \<and>
      reachable (edge_nbrs IJ) root (get_v0_from_edge e)) IJ))"
  using assms by (rule verify_sound)

theorem verify_bfs_tree_sound_witness:
  "alloc_law (\<lambda>n. Some (replicate n 0)) \<and>
   verify_bfs_tree (\<lambda>n. Some (replicate n 0)) [0, 0, 1, -1] 3 0
     [write_edge 0 1, write_edge 2 1, write_edge 2 2] = Some 3 \<and>
   bfs_tree_of (edge_nbrs [write_edge 0 1, write_edge 2 1, write_edge 2 2]) 0 4 [0, 0, 1, -1]"
proof -
  have "alloc_law (\<lambda>n. Some (replicate n 0))" by (simp add: alloc_law_def)
  moreover have "verify_bfs_tree (\<lambda>n. Some (replicate n 0)) [0, 0, 1, -1] 3 0
     [write_edge 0 1, write_edge 2 1, write_edge 2 2] = Some 3" by code_simp
  ultimately show ?thesis using verify_bfs_tree_sound [of "\<lambda>n. Some (replicate n 0)" "[0, 0, 1, -1]" 3 0
     "[write_edge 0 1, write_edge 2 1, write_edge 2 2]" 3] by simp
qed

subsection \<open>Breadth-first trees are accepted\<close>

lemma edge_nbrs_below:
  assumes "list_all (\<lambda>e. get_v0_from_edge e < n \<and> get_v1_from_edge e < n) IJ"
  shows "edge_nbrs IJ u \<subseteq> {0..<n}"
  using assms by (auto simp: edge_nbrs_def list_all_iff)

lemma reachable_range:
  assumes "reachable E root v" "0 \<le> root" "root < n" "\<And>u. E u \<subseteq> {0..<n}"
  shows "0 \<le> v" "v < n"
proof -
  have "v \<in> {0..<n}" by (rule reachable_closed [OF assms(1)]) (use assms(2,3) subsetD [OF assms(4)] in auto)
  then show "0 \<le> v" "v < n" by auto
qed

lemma hops_bound:
  assumes "reachable E root v" "0 \<le> root" "root < n" "\<And>u. E u \<subseteq> {0..<n}"
  shows "int (hops E root v) < n"
proof -
  have onto: "\<exists>u. reachable E root u \<and> hops E root u = d" if "d \<le> hops E root v" for d
    using that
  proof (induction "hops E root v - d" arbitrary: d)
    case 0
    then show ?case using assms(1) by auto
  next
    case (Suc x)
    have "x = hops E root v - Suc d" "Suc d \<le> hops E root v" using Suc.hyps(2) by simp_all
    from Suc.hyps(1) [OF this] obtain u where "reachable E root u" "hops E root u = Suc d" by blast
    from hops_pred [OF this] show ?case by blast
  qed
  have "{0..hops E root v} \<subseteq> hops E root ` {0..<n}"
  proof
    fix d assume "d \<in> {0..hops E root v}"
    then obtain u where "reachable E root u" "d = hops E root u" using onto [of d] by auto
    then show "d \<in> hops E root ` {0..<n}" using reachable_range [of E root u n] assms(2-4) by auto
  qed
  then have "card {0..hops E root v} \<le> card {0..<n}"
    by (meson card_image_le card_mono finite_atLeastLessThan_int finite_imageI order_trans)
  then show ?thesis using assms(2,3) by simp
qed

definition valid_tree :: "(int \<Rightarrow> int set) \<Rightarrow> int \<Rightarrow> int \<Rightarrow> int list \<Rightarrow> bool" where
  "valid_tree E root n t \<longleftrightarrow> bfs_tree_of E root n t \<and> 0 \<le> root \<and> root < n \<and> (\<forall>u. E u \<subseteq> {0..<n})"

definition hops_levels :: "(int \<Rightarrow> int set) \<Rightarrow> int \<Rightarrow> int \<Rightarrow> int list \<Rightarrow> bool" where
  "hops_levels E root n lv \<longleftrightarrow> int (length lv) = n \<and> lv ! nat root = 0 \<and>
     (\<forall>v. 0 \<le> v \<and> v < n \<longrightarrow> lv ! nat v < 0 \<or> reachable E root v \<and> lv ! nat v = int (hops E root v))"

lemma valid_tree_range:
  assumes "valid_tree E root n t" "reachable E root v"
  shows "0 \<le> v" "v < n" "int (hops E root v) < n" "v < int (length t)"
proof -
  have *: "0 \<le> root" "root < n" "\<And>u. E u \<subseteq> {0..<n}" "n \<le> int (length t)"
    using assms(1) unfolding valid_tree_def bfs_tree_of_def by blast+
  show "0 \<le> v" "v < n" by (rule reachable_range [OF assms(2) *(1-3)])+
  then show "v < int (length t)" using *(4) by simp
  show "int (hops E root v) < n" by (rule hops_bound [OF assms(2) *(1-3)])
qed

lemma valid_treeD:
  assumes "valid_tree E root n t" "0 \<le> v" "v < n"
  shows "if v = root then t ! nat v = root
    else if reachable E root v then v \<in> E (t ! nat v) \<and> reachable E root (t ! nat v) \<and>
      hops E root v = Suc (hops E root (t ! nat v))
    else t ! nat v < 0"
  using assms unfolding valid_tree_def bfs_tree_of_def by blast

lemma valid_tree_root: "valid_tree E root n t \<Longrightarrow> 0 \<le> root \<and> root < n"
  by (simp add: valid_tree_def)

lemma valid_tree_parent:
  assumes "valid_tree E root n t" "reachable E root v" "v \<noteq> root"
  shows "reachable E root (t ! nat v)" "hops E root v = Suc (hops E root (t ! nat v))" "v \<in> E (t ! nat v)"
  using valid_treeD [OF assms(1) valid_tree_range(1,2) [OF assms(1,2)]] assms(2,3) by simp_all

lemma valid_tree_iff:
  assumes "valid_tree E root n t" "0 \<le> v" "v < n"
  shows "0 \<le> t ! nat v \<longleftrightarrow> reachable E root v"
proof (cases "v = root \<or> \<not> reachable E root v")
  case True
  then show ?thesis using valid_treeD [OF assms] valid_tree_root [OF assms(1)] by (cases "v = root") simp_all
next
  case False
  then show ?thesis using valid_tree_range(1) [OF assms(1) valid_tree_parent(1) [OF assms(1)]] by auto
qed

lemma run_up_total:
  assumes vt: "valid_tree E root n t" and lv: "hops_levels E root n lv" and k: "reachable E root k"
  shows "\<exists>p h. run_up n t lv k = Some (p, h) \<and> reachable E root p \<and> 0 \<le> lv ! nat p \<and> 0 \<le> h \<and> h < n \<and>
    h + lv ! nat p = int (hops E root k)"
proof -
  let ?I = "\<lambda>(p, h). reachable E root p \<and> 0 \<le> h \<and> h + int (hops E root p) = int (hops E root k)"
  let ?b = "\<lambda>(parent, nhop). if 0 \<le> parent then do { l \<leftarrow> rd lv parent; Some (l < 0 \<and> nhop < n) } else Some False"
  note R = valid_tree_range [OF vt]
  have root: "lv ! nat root = 0" and len: "int (length lv) = n" using lv by (auto simp: hops_levels_def)
  have "\<exists>s. run_up n t lv k = Some s \<and> ?I s \<and> ?b s = Some False"
    unfolding run_up_def
  proof (rule while_opt_inv [where I = ?I and m = "\<lambda>(p, h). hops E root p"])
    show "?I (k, 0)" using k by simp
    show "\<exists>go. ?b s = Some go" if "?I s" for s using that R len by (cases s) auto
    show "\<exists>s'. (case s of (parent, nhop) \<Rightarrow> do {
        p \<leftarrow> rd t parent; assert_opt (parent \<noteq> p); Some (p, nhop + 1) }) = Some s' \<and> ?I s' \<and>
        (case s' of (p, h) \<Rightarrow> hops E root p) < (case s of (p, h) \<Rightarrow> hops E root p)"
      if I: "?I s" and b: "?b s = Some True" for s
    proof -
      obtain p h where s: "s = (p, h)" by (cases s)
      have p: "reachable E root p" using I s by simp
      then have "p \<noteq> root" using b s root R len by auto
      note P = valid_tree_parent [OF vt p this]
      have "p \<noteq> t ! nat p" using P(2) by (metis n_not_Suc_n)
      then show ?thesis using I s P R [OF p] by simp
    qed
  qed
  then obtain p h where s: "run_up n t lv k = Some (p, h)" "?I (p, h)" "?b (p, h) = Some False"
    unfolding split_paired_Ex by (elim exE conjE) (rule that)
  then have p: "reachable E root p" "0 \<le> h" "h + int (hops E root p) = int (hops E root k)" by auto
  have h: "h < n" using p R(3) [OF k] by linarith
  then have "0 \<le> lv ! nat p" using s(3) R [OF p(1)] len by (auto simp: not_less)
  moreover from this have "lv ! nat p = int (hops E root p)" using lv R [OF p(1)] by (auto simp: hops_levels_def)
  ultimately show ?thesis using s(1) p h by auto
qed

lemma assign_levels_total:
  assumes vt: "valid_tree E root n t" and lv: "hops_levels E root n lv" and k: "reachable E root k"
  shows "\<exists>lv' p h. assign_levels t lv (int (hops E root k)) k = Some (lv', p, h) \<and> hops_levels E root n lv' \<and>
    rd lv' p = Some h"
proof -
  let ?I = "\<lambda>(lv, p, h). hops_levels E root n lv \<and> reachable E root p \<and> h = int (hops E root p)"
  let ?b = "\<lambda>(lv, p, h). do { l \<leftarrow> rd lv p; Some (l < 0) }"
  note R = valid_tree_range [OF vt]
  have "\<exists>s. assign_levels t lv (int (hops E root k)) k = Some s \<and> ?I s \<and> ?b s = Some False"
    unfolding assign_levels_def
  proof (rule while_opt_inv [where I = ?I and m = "\<lambda>(lv, p, h). hops E root p"])
    show "?I (lv, k, int (hops E root k))" using k lv by simp
    show "\<exists>go. ?b s = Some go" if "?I s" for s using that R by (cases s) (auto simp: hops_levels_def)
    show "\<exists>s'. (case s of (level, parent, nhop) \<Rightarrow> do {
        assert_opt (nhop > 0); level \<leftarrow> wr level parent nhop; p \<leftarrow> rd t parent; Some (level, p, nhop - 1) }) = Some s' \<and>
        ?I s' \<and> (case s' of (lv, p, h) \<Rightarrow> hops E root p) < (case s of (lv, p, h) \<Rightarrow> hops E root p)"
      if I: "?I s" and b: "?b s = Some True" for s
    proof -
      obtain l p h where s: "s = (l, p, h)" by (cases s)
      have p: "reachable E root p" "h = int (hops E root p)" and l: "hops_levels E root n l" using I s by auto
      have len: "int (length l) = n" using l by (simp add: hops_levels_def)
      have "p \<noteq> root" using b s l R [OF p(1)] by (auto simp: hops_levels_def)
      note P = valid_tree_parent [OF vt p(1) this]
      have "hops_levels E root n (l[nat p := int (hops E root p)])"
        using l R [OF p(1)] \<open>p \<noteq> root\<close> p vt by (auto simp: hops_levels_def nth_list_update_int valid_tree_def)
      then show ?thesis using P R [OF p(1)] p len by (simp add: s)
    qed
  qed
  then obtain l p h where s: "assign_levels t lv (int (hops E root k)) k = Some (l, p, h)" "?I (l, p, h)"
      "?b (l, p, h) = Some False"
    unfolding split_paired_Ex by (elim exE conjE) (rule that)
  have p: "reachable E root p" using s(2) by simp
  have "rd l p = Some h" using s(2,3) R [OF p] by (auto simp: hops_levels_def not_less bind_eq_Some)
  then show ?thesis using s by auto
qed

lemma check_levels_total:
  assumes lv: "leveled t n root lv" and root: "0 \<le> root" "root < n" and k: "0 \<le> k" "k < n" "0 \<le> lv ! nat k"
  shows "\<exists>s. check_levels t lv k = Some s"
proof -
  let ?I = "\<lambda>(p, lst). 0 \<le> p \<and> p < n \<and> 0 \<le> lv ! nat p \<and> lst = lv ! nat p + 1"
  let ?b = "\<lambda>(p, lst). do { l \<leftarrow> rd lv p; Some (l > 0) }"
  let ?c = "\<lambda>(parent, lastlvl). do {
          l \<leftarrow> rd lv parent;
          assert_opt (lastlvl = 1 + l);
          p \<leftarrow> rd t parent;
          Some (p, l)
        }"
  have len: "int (length lv) = n" using lv by (simp add: leveled_def)
  have "\<exists>s. while_opt ?b ?c (k, lv ! nat k + 1) = Some s \<and> ?I s \<and> ?b s = Some False"
  proof (rule while_opt_inv [where I = ?I and m = "\<lambda>(p, lst). nat (lv ! nat p)"])
    show "?I (k, lv ! nat k + 1)" using k by simp
    show "\<exists>go. ?b s = Some go" if "?I s" for s using that len by (cases s) auto
    show "\<exists>s'. ?c s = Some s' \<and> ?I s' \<and> (case s' of (p, lst) \<Rightarrow> nat (lv ! nat p)) < (case s of (p, lst) \<Rightarrow> nat (lv ! nat p))"
      if I: "?I s" and b: "?b s = Some True" for s
    proof -
      obtain p lst where s: "s = (p, lst)" by (cases s)
      have p: "0 \<le> p" "p < n" "lst = lv ! nat p + 1" "0 < lv ! nat p" using b I s len by auto
      have r0: "lv ! nat root = 0" and st: "\<And>v. 0 \<le> v \<Longrightarrow> v < n \<Longrightarrow> v \<noteq> root \<Longrightarrow> 0 \<le> lv ! nat v \<Longrightarrow> level_step t n lv v"
        using lv unfolding leveled_def by blast+
      have "p \<noteq> root" using p r0 by auto
      then have "level_step t n lv p" using st p by simp
      then show ?thesis using p s len by (simp add: level_step_def)
    qed
  qed
  then obtain s where "while_opt ?b ?c (k, lv ! nat k + 1) = Some s" by (elim exE conjE) (rule that)
  then show ?thesis using k len by (intro exI [of _ s]) (simp add: check_levels_def)
qed

lemma level_vertex_total:
  assumes vt: "valid_tree E root n t" and lv: "hops_levels E root n lv" "leveled t n root lv" and k: "0 \<le> k" "k < n"
  shows "\<exists>lv'. level_vertex n t root k (lv, 0) = Some (lv', 0) \<and> hops_levels E root n lv' \<and> leveled t n root lv'"
proof -
  have root: "0 \<le> root" "root < n" using valid_tree_root [OF vt] by auto
  have len: "int (length lv) = n" "k < int (length t)"
    using lv(2) vt k by (auto simp: leveled_def valid_tree_def bfs_tree_of_def)
  show ?thesis
  proof (cases "0 \<le> lv ! nat k \<or> t ! nat k < 0 \<or> k = root")
    case True
    then show ?thesis using lv k len by (auto simp: level_vertex_def)
  next
    case False
    then have r: "reachable E root k" using valid_tree_iff [OF vt k] by simp
    obtain p h where up: "run_up n t lv k = Some (p, h)" "reachable E root p" "0 \<le> lv ! nat p" "h < n"
        "h + lv ! nat p = int (hops E root k)" using run_up_total [OF vt lv(1) r] by blast
    obtain lv' p' h' where as: "assign_levels t lv (int (hops E root k)) k = Some (lv', p', h')"
        "hops_levels E root n lv'" "rd lv' p' = Some h'" using assign_levels_total [OF vt lv(1) r] by blast
    note L = assign_levels_partial [OF as(1) lv(2) root k as(3)]
    obtain s where "check_levels t lv' k = Some s" using check_levels_total [OF _ root k] L by blast
    then show ?thesis
      using False up as L k len valid_tree_range [OF vt up(2)] by (simp add: level_vertex_def)
  qed
qed

lemma leveled_init:
  assumes "0 \<le> root" "root < n" "int (length lv) = n"
    "\<And>v. 0 \<le> v \<Longrightarrow> v < n \<Longrightarrow> lv ! nat v = (if v = root then 0 else -1)"
  shows "leveled t n root lv" "hops_levels E root n lv"
  using assms by (auto simp: leveled_def hops_levels_def)

lemma compute_levels_total:
  assumes vt: "valid_tree E root n t" and len: "int (length lv0) = n"
  shows "\<exists>lv. compute_levels lv0 n t root = Some (lv, 0) \<and>
    int (length lv) = n \<and> (\<forall>v. reachable E root v \<longrightarrow> lv ! nat v = int (hops E root v))"
proof -
  have root: "0 \<le> root" "root < n" "root < int (length t)"
    using valid_tree_root [OF vt] valid_tree_range(4) [OF vt reachable_root] by auto
  have "\<exists>l. for_up 0 n (\<lambda>k level. wr level k (if k = root then 0 else -1)) lv0 = Some l \<and>
      (int (length l) = n \<and> (\<forall>v. 0 \<le> v \<and> v < n \<longrightarrow> l ! nat v = (if v = root then 0 else -1)))"
  proof (rule for_up_inv [where I = "\<lambda>k l. int (length l) = n \<and>
      (\<forall>v. 0 \<le> v \<and> v < k \<longrightarrow> l ! nat v = (if v = root then 0 else -1))"])
    show "0 \<le> n" using root by simp
  qed (use len in \<open>auto simp: wr_eq_Some nth_list_update_int\<close>)
  then obtain l where l: "for_up 0 n (\<lambda>k level. wr level k (if k = root then 0 else -1)) lv0 = Some l"
      "int (length l) = n" "\<And>v. 0 \<le> v \<Longrightarrow> v < n \<Longrightarrow> l ! nat v = (if v = root then 0 else -1)" by blast
  have "\<exists>s. for_up 0 n (level_vertex n t root) (l, 0) = Some s \<and>
      (snd s = 0 \<and> hops_levels E root n (fst s) \<and> leveled t n root (fst s))"
  proof (rule for_up_inv [where I = "\<lambda>k s. snd s = 0 \<and> hops_levels E root n (fst s) \<and> leveled t n root (fst s)"])
    show "0 \<le> n" using root by simp
    show "snd (l, 0 :: int) = 0 \<and> hops_levels E root n (fst (l, 0 :: int)) \<and> leveled t n root (fst (l, 0 :: int))"
      using leveled_init [OF root(1,2) l(2,3)] by simp
    fix k and s :: "int list \<times> int"
    assume k: "0 \<le> k" "k < n" and I: "snd s = 0 \<and> hops_levels E root n (fst s) \<and> leveled t n root (fst s)"
    then show "\<exists>s'. level_vertex n t root k s = Some s' \<and> snd s' = 0 \<and> hops_levels E root n (fst s') \<and> leveled t n root (fst s')"
      using level_vertex_total [OF vt _ _ k, of "fst s"] by (cases s) fastforce
  qed
  then obtain lv where lv: "for_up 0 n (level_vertex n t root) (l, 0) = Some (lv, 0)" "hops_levels E root n lv"
    unfolding split_paired_Ex by auto
  then have c: "compute_levels lv0 n t root = Some (lv, 0)" using l(1) by (simp add: compute_levels_def)
  have "lv ! nat v = int (hops E root v)" if r: "reachable E root v" for v
  proof -
    note R = valid_tree_range [OF vt r]
    have "0 \<le> lv ! nat v" using compute_levels_partial [OF c root len] valid_tree_iff [OF vt R(1,2)] r R
        lv(2) by (cases "v = root") (auto simp: hops_levels_def)
    then show ?thesis using lv(2) R by (auto simp: hops_levels_def)
  qed
  then show ?thesis using c lv(2) by (auto simp: hops_levels_def)
qed

lemma verify_edge_total:
  assumes vt: "valid_tree (edge_nbrs IJ) root (m + 1) t" and e: "e \<in> set IJ"
    and b: "get_v0_from_edge e \<le> m" "get_v1_from_edge e \<le> m"
    and lv: "int (length lv) = m + 1" "\<And>v. reachable (edge_nbrs IJ) root v \<Longrightarrow> lv ! nat v = int (hops (edge_nbrs IJ) root v)"
    and seen: "int (length seen) = m + 1"
  shows "\<exists>seen' nt'. verify_edge m t lv e (seen, nt, 0) = Some (seen', nt', 0) \<and> int (length seen') = m + 1 \<and>
    (\<forall>v. 0 \<le> v \<and> v \<le> m \<longrightarrow> seen' ! nat v = (if parent_edge t v e \<and> 0 \<le> t ! nat v then 1 else seen ! nat v))"
proof (cases "get_v0_from_edge e < 0 \<or> get_v1_from_edge e < 0")
  case True
  then show ?thesis using seen by (auto simp: verify_edge_def parent_edge_def)
next
  case False
  define i j where "i = get_v0_from_edge e" and "j = get_v1_from_edge e"
  have ij: "0 \<le> i" "i < m + 1" "0 \<le> j" "j < m + 1" "m < int (length t)"
    using False b vt by (auto simp: i_def j_def valid_tree_def bfs_tree_of_def)
  let ?E = "edge_nbrs IJ"
  have nb: "i \<noteq> j \<Longrightarrow> j \<in> ?E i \<and> i \<in> ?E j" using e ij by (auto simp: edge_nbrs_def i_def j_def)
  have same: "reachable ?E root i \<longleftrightarrow> reachable ?E root j" using nb reachable_step [of ?E root] by (cases "i = j") auto
  have tr: "0 \<le> t ! nat i \<longleftrightarrow> reachable ?E root i" "0 \<le> t ! nat j \<longleftrightarrow> reachable ?E root i"
    using valid_tree_iff [OF vt] ij same by auto
  show ?thesis
  proof (cases "reachable ?E root i")
    case False
    then have "verify_edge m t lv e (seen, nt, 0) = Some (seen, nt, 0)"
      using ij tr unfolding verify_edge_def i_def [symmetric] j_def [symmetric] by (simp add: not_less)
    moreover have "\<not> (parent_edge t v e \<and> 0 \<le> t ! nat v)" for v
      using False tr by (auto simp: parent_edge_def i_def j_def)
    ultimately show ?thesis using seen by auto
  next
    case True
    have d: "\<bar>lv ! nat i - lv ! nat j\<bar> \<le> 1"
    proof (cases "i = j")
      case False
      then show ?thesis using lv(2) [OF True] lv(2) [of j] same True nb hops_step [of ?E root i j] hops_step [of ?E root j i] by auto
    qed simp
    define s1 where "s1 = (if i \<noteq> j \<and> t ! nat i = j then seen[nat i := 1] else seen)"
    define s2 where "s2 = (if i \<noteq> j \<and> t ! nat j = i then s1[nat j := 1] else s1)"
    have "verify_edge m t lv e (seen, nt, 0) = Some (s2, nt + 1, 0)"
      using ij tr True d seen lv(1) unfolding verify_edge_def i_def [symmetric] j_def [symmetric]
      by (simp add: s1_def s2_def abs_le_iff)
    moreover have "int (length s2) = m + 1" using seen by (simp add: s1_def s2_def)
    moreover have "s2 ! nat v = (if parent_edge t v e \<and> 0 \<le> t ! nat v then 1 else seen ! nat v)" if "0 \<le> v" "v \<le> m" for v
      using that ij seen tr True unfolding parent_edge_def i_def [symmetric] j_def [symmetric]
      by (auto simp: s1_def s2_def nth_list_update_int)
    ultimately show ?thesis by blast
  qed
qed

lemma edge_loop_total:
  assumes vt: "valid_tree (edge_nbrs IJ) root (m + 1) t"
    and b: "list_all (\<lambda>e. get_v0_from_edge e \<le> m \<and> get_v1_from_edge e \<le> m) IJ"
    and lv: "int (length lv) = m + 1" "\<And>v. reachable (edge_nbrs IJ) root v \<Longrightarrow> lv ! nat v = int (hops (edge_nbrs IJ) root v)"
    and seen: "int (length seen) = m + 1"
  shows "\<exists>seen' nt. for_each (verify_edge m t lv) IJ (seen, 0, 0) = Some (seen', nt, 0) \<and> int (length seen') = m + 1 \<and>
    (\<forall>v e. 0 \<le> v \<and> v \<le> m \<and> e \<in> set IJ \<and> parent_edge t v e \<and> 0 \<le> t ! nat v \<longrightarrow> seen' ! nat v = 1)"
proof -
  let ?I = "\<lambda>es (s :: int list, nt :: int, err :: int). err = 0 \<and> int (length s) = m + 1 \<and>
    (\<forall>v e. 0 \<le> v \<and> v \<le> m \<and> e \<in> set es \<and> parent_edge t v e \<and> 0 \<le> t ! nat v \<longrightarrow> s ! nat v = 1)"
  have "\<exists>r. for_each (verify_edge m t lv) IJ (seen, 0, 0) = Some r \<and> ?I IJ r"
  proof (rule for_each_inv [where I = ?I])
    show "?I [] (seen, 0 :: int, 0 :: int)" using seen by simp
    fix ys e zs and s :: "int list \<times> int \<times> int"
    assume es: "IJ = ys @ e # zs" and I: "?I ys s"
    obtain sn nt where s: "s = (sn, nt, 0)" using I by (cases s) auto
    have e: "e \<in> set IJ" using es by simp
    obtain sn' nt' where "verify_edge m t lv e (sn, nt, 0) = Some (sn', nt', 0)" "int (length sn') = m + 1"
      and up: "\<And>v. 0 \<le> v \<Longrightarrow> v \<le> m \<Longrightarrow> sn' ! nat v = (if parent_edge t v e \<and> 0 \<le> t ! nat v then 1 else sn ! nat v)"
      using verify_edge_total [OF vt e _ _ lv, of sn nt] I s b e by (auto simp: list_all_iff)
    then show "\<exists>s'. verify_edge m t lv e s = Some s' \<and> ?I (ys @ [e]) s'" using I s by auto
  qed
  then show ?thesis by auto
qed

lemma root_loop_total:
  assumes "m < int (length t)" "0 \<le> m" "int (length seen) = m + 1"
    "\<And>v. 0 \<le> v \<Longrightarrow> v \<le> m \<Longrightarrow> v \<noteq> root \<Longrightarrow> t ! nat v \<noteq> v \<and> (0 \<le> t ! nat v \<longrightarrow> seen ! nat v = 1)"
  shows "for_up 0 (m + 1) (verify_root root t seen) 0 = Some 0"
proof -
  have "\<exists>r. for_up 0 (m + 1) (verify_root root t seen) 0 = Some r \<and> r = 0"
    by (rule for_up_inv [where I = "\<lambda>k e. e = 0"]) (use assms in \<open>auto simp: verify_root_def\<close>)
  then show ?thesis by simp
qed

lemma parent_edge_exists:
  assumes vt: "valid_tree (edge_nbrs IJ) root n t" and v: "reachable (edge_nbrs IJ) root v" "v \<noteq> root"
  shows "\<exists>e \<in> set IJ. parent_edge t v e"
proof -
  have "v \<in> edge_nbrs IJ (t ! nat v)" by (rule valid_tree_parent(3) [OF vt v])
  then obtain e where e: "e \<in> set IJ" "t ! nat v \<noteq> v" "0 \<le> t ! nat v" "0 \<le> v"
      "get_v0_from_edge e = t ! nat v \<and> get_v1_from_edge e = v \<or> get_v0_from_edge e = v \<and> get_v1_from_edge e = t ! nat v"
    unfolding edge_nbrs_def mem_Collect_eq by blast
  have "parent_edge t v e" using e(5) by (rule disjE) (use e(2-4) in \<open>simp_all add: parent_edge_def\<close>)
  with e(1) show ?thesis by blast
qed

lemma verify_complete:
  assumes al: "alloc_law alloc" "alloc (nat (2 * (m + 1))) = Some arr"
    and tree: "bfs_tree_of (edge_nbrs IJ) root (m + 1) t" and root: "0 \<le> root" "root \<le> m"
    and b: "list_all (\<lambda>e. get_v0_from_edge e \<le> m \<and> get_v1_from_edge e \<le> m) IJ"
  shows "\<exists>r. verify_bfs_tree alloc t m root IJ = Some r \<and> 0 \<le> r"
proof -
  let ?E = "edge_nbrs IJ"
  have "list_all (\<lambda>e. get_v0_from_edge e < m + 1 \<and> get_v1_from_edge e < m + 1) IJ" using b by (auto simp: list_all_iff)
  then have vt: "valid_tree ?E root (m + 1) t" using tree root edge_nbrs_below [of "m + 1" IJ] by (simp add: valid_tree_def)
  have len: "length arr = nat (2 * (m + 1))" by (rule alloc_lawD [OF al])
  have mt: "m < int (length t)" "t ! nat root = root" using tree root by (auto simp: bfs_tree_of_def)
  obtain lv where lv: "compute_levels (drop (nat (m + 1)) arr) (m + 1) t root = Some (lv, 0)"
      "int (length lv) = m + 1" "\<And>v. reachable ?E root v \<Longrightarrow> lv ! nat v = int (hops ?E root v)"
    using compute_levels_total [OF vt, of "drop (nat (m + 1)) arr"] len root by auto
  obtain seen where seen: "for_up 0 (m + 1) (\<lambda>k s. wr s k 0) (take (nat (m + 1)) arr) = Some seen"
      "int (length seen) = m + 1" "\<And>v. 0 \<le> v \<Longrightarrow> v \<le> m \<Longrightarrow> seen ! nat v = 0"
    using fill_range [of 0 "m + 1" "take (nat (m + 1)) arr" 0] root len by auto
  obtain seen' nt where l: "for_each (verify_edge m t lv) IJ (seen, 0, 0) = Some (seen', nt, 0)"
      "int (length seen') = m + 1"
      "\<And>v e. 0 \<le> v \<Longrightarrow> v \<le> m \<Longrightarrow> e \<in> set IJ \<Longrightarrow> parent_edge t v e \<Longrightarrow> 0 \<le> t ! nat v \<Longrightarrow> seen' ! nat v = 1"
    using edge_loop_total [OF vt b lv(2,3) seen(2)] by blast
  have "0 \<le> nt" using edge_loop_result [OF l(1) mt(1) seen(2,3)] by (simp add: edges_checked_def)
  moreover have "for_up 0 (m + 1) (verify_root root t seen') 0 = Some 0"
  proof (rule root_loop_total [OF mt(1) _ l(2)])
    fix v assume v: "0 \<le> v" "v \<le> m" "v \<noteq> root"
    show "t ! nat v \<noteq> v \<and> (0 \<le> t ! nat v \<longrightarrow> seen' ! nat v = 1)"
    proof (cases "reachable ?E root v")
      case True
      obtain e where "e \<in> set IJ" "parent_edge t v e" using parent_edge_exists [OF vt True v(3)] by blast
      then show ?thesis using l(3) [OF v(1,2)] by (auto simp: parent_edge_def)
    next
      case False
      then show ?thesis using valid_tree_iff [OF vt, of v] v by auto
    qed
  qed (use root in simp)
  ultimately show ?thesis using al(2) mt root lv(1) seen(1) l(1) by (simp add: verify_bfs_tree_def Let_def)
qed

text \<open>
  C14: A breadth-first tree of the graph, for a root of the graph and with \<open>max_bfsvtx\<close> at least
  the largest vertex, is never rejected: no assertion of the validation fails, every loop ends and
  the result is a count of edges.
\<close>

theorem verify_bfs_tree_complete:
  assumes "alloc_law alloc" "alloc (nat (2 * (m + 1))) = Some arr"
    and "bfs_tree_of (edge_nbrs IJ) root (m + 1) t" and "0 \<le> root" "root \<le> m"
    and "list_all (\<lambda>e. get_v0_from_edge e \<le> m \<and> get_v1_from_edge e \<le> m) IJ"
  shows "\<exists>r. verify_bfs_tree alloc t m root IJ = Some r \<and> 0 \<le> r"
  using assms by (rule verify_complete)

theorem verify_bfs_tree_complete_witness:
  "\<exists>r. verify_bfs_tree (\<lambda>n. Some (replicate n 0)) [0] 0 0 [write_edge 0 0] = Some r \<and> 0 \<le> r"
proof (rule verify_bfs_tree_complete)
  show "alloc_law (\<lambda>n. Some (replicate n 0))" by (simp add: alloc_law_def)
  show "Some (replicate (nat (2 * (0 + 1))) 0) = Some [0 :: int, 0]" by (simp add: numeral_2_eq_2)
  show "bfs_tree_of (edge_nbrs [write_edge 0 0]) 0 (0 + 1) [0]" by (simp add: bfs_tree_of_def)
qed simp_all

end
