(* ===== verification/Backend.thy ===== *)
theory Backend
  imports BfsVerify
begin

text \<open>
  The interface of Graph500 (\<open>graph500.h\<close>) behind which the implementations of construction and
  search are exchanged: what \<open>create_graph_from_edgelist\<close> and \<open>make_bfs_tree\<close> promise, and what the
  benchmark gets from any implementation that keeps the promise.
\<close>

subsection \<open>The largest vertex\<close>

definition max_vertex :: "packed_edge list \<Rightarrow> int" where
  "max_vertex IJ = foldr (\<lambda>e m. max (get_v0_from_edge e) (max (get_v1_from_edge e) m)) IJ (-1)"

lemma max_vertex_simps [simp]:
  "max_vertex [] = -1"
  "max_vertex (e # IJ) = max (get_v0_from_edge e) (max (get_v1_from_edge e) (max_vertex IJ))"
  by (simp_all add: max_vertex_def)

lemma max_vertex_ge: "-1 \<le> max_vertex IJ"
  by (induction IJ) simp_all

lemma max_vertex_bound:
  "list_all (\<lambda>e. get_v0_from_edge e \<le> max_vertex IJ \<and> get_v1_from_edge e \<le> max_vertex IJ) IJ"
proof (induction IJ)
  case (Cons e IJ)
  then show ?case by (fastforce simp: list_all_iff)
qed simp

lemma max_vertex_least:
  assumes "-1 \<le> m" "list_all (\<lambda>e. get_v0_from_edge e \<le> m \<and> get_v1_from_edge e \<le> m) IJ"
  shows "max_vertex IJ \<le> m"
  using assms by (induction IJ) auto

text \<open>The loop that every implementation uses to find it.\<close>

definition max_vtx :: "packed_edge \<Rightarrow> int \<Rightarrow> int" where
  "max_vtx e m =
    (let m = (if get_v0_from_edge e > m then get_v0_from_edge e else m) in
     if get_v1_from_edge e > m then get_v1_from_edge e else m)"

lemma fold_max_vtx: "fold max_vtx IJ m = max m (max_vertex IJ)" if "-1 \<le> m"
  using that
proof (induction IJ arbitrary: m)
  case (Cons e IJ)
  have "max_vtx e m = max m (max (get_v0_from_edge e) (get_v1_from_edge e))"
    by (simp add: max_vtx_def Let_def)
  then show ?case using Cons by simp
qed simp

subsection \<open>The interface\<close>

text \<open>The number of input edges in the component of a vertex.\<close>

definition component_edges :: "packed_edge list \<Rightarrow> int \<Rightarrow> int" where
  "component_edges IJ r = int (length (filter (\<lambda>e. 0 \<le> get_v0_from_edge e \<and> 0 \<le> get_v1_from_edge e \<and>
     reachable (edge_nbrs IJ) r (get_v0_from_edge e)) IJ))"

lemma validation_counts:
  assumes "alloc_law alloc" "alloc (nat (2 * (max_vertex IJ + 1))) = Some arr"
    "bfs_tree_of (edge_nbrs IJ) r (max_vertex IJ + 1) t" "0 \<le> r" "r \<le> max_vertex IJ"
  shows "verify_bfs_tree alloc t (max_vertex IJ) r IJ = Some (component_edges IJ r)"
proof -
  let ?m = "max_vertex IJ"
  obtain n where n: "verify_bfs_tree alloc t ?m r IJ = Some n" "0 \<le> n"
    using verify_complete [OF assms max_vertex_bound] by blast
  have "filter (\<lambda>e. 0 \<le> get_v0_from_edge e \<and> 0 \<le> get_v1_from_edge e \<and> get_v0_from_edge e \<le> ?m \<and>
      reachable (edge_nbrs IJ) r (get_v0_from_edge e)) IJ =
    filter (\<lambda>e. 0 \<le> get_v0_from_edge e \<and> 0 \<le> get_v1_from_edge e \<and>
      reachable (edge_nbrs IJ) r (get_v0_from_edge e)) IJ"
    using max_vertex_bound [of IJ] by (intro filter_cong refl) (auto simp: list_all_iff)
  then show ?thesis using n verify_sound [OF assms(1) n] by (simp add: component_edges_def)
qed

text \<open>
  \<open>admits\<close> is what an implementation requires of the edge list.  A failure is reported by a
  non-zero code and has a failed allocation as its cause.
\<close>

locale bfs_backend =
  fixes admits :: "packed_edge list \<Rightarrow> bool"
    and create :: "allocator \<Rightarrow> packed_edge list \<Rightarrow> (int + 'g) option"
    and make :: "allocator \<Rightarrow> 'g \<Rightarrow> int list \<Rightarrow> int \<Rightarrow> (int \<times> int \<times> int list) option"
  assumes create_returns: "alloc_law alloc \<Longrightarrow> admits IJ \<Longrightarrow>
      (\<exists>g. create alloc IJ = Some (Inr g)) \<or>
      (\<exists>e n. create alloc IJ = Some (Inl e) \<and> e \<noteq> 0 \<and> alloc n = None)"
    and make_returns: "alloc_law alloc \<Longrightarrow> admits IJ \<Longrightarrow> create alloc IJ = Some (Inr g) \<Longrightarrow>
      0 \<le> src \<Longrightarrow> src \<le> max_vertex IJ \<Longrightarrow> max_vertex IJ < int (length out) \<Longrightarrow>
      (\<exists>tree. make alloc g out src = Some (0, max_vertex IJ, tree) \<and> length tree = length out \<and>
         bfs_tree_of (edge_nbrs IJ) src (max_vertex IJ + 1) tree) \<or>
      (\<exists>e m t n. make alloc g out src = Some (e, m, t) \<and> e \<noteq> 0 \<and> alloc n = None)"
begin

lemma create_total:
  assumes "alloc_law alloc" "\<forall>n. alloc n \<noteq> None" "admits IJ"
  shows "\<exists>g. create alloc IJ = Some (Inr g)"
  using create_returns [OF assms(1,3)] assms(2) by blast

lemma search_validates:
  assumes "alloc_law alloc" "\<forall>n. alloc n \<noteq> None" "admits IJ" "create alloc IJ = Some (Inr g)"
    "0 \<le> src" "src \<le> max_vertex IJ" "max_vertex IJ < int (length out)"
  shows "\<exists>tree. make alloc g out src = Some (0, max_vertex IJ, tree) \<and>
    verify_bfs_tree alloc tree (max_vertex IJ) src IJ = Some (component_edges IJ src)"
proof -
  obtain tree where t: "make alloc g out src = Some (0, max_vertex IJ, tree)"
      "bfs_tree_of (edge_nbrs IJ) src (max_vertex IJ + 1) tree"
    using make_returns [OF assms(1,3-7)] assms(2) by blast
  obtain arr where "alloc (nat (2 * (max_vertex IJ + 1))) = Some arr" using assms(2) by blast
  from validation_counts [OF assms(1) this t(2) assms(5,6)] t(1) show ?thesis by blast
qed

end

end
