(* ===== verification/ModArith.thy ===== *)
theory ModArith
  imports Prelude
begin

text \<open>
  Arithmetic modulo \<open>2\<^sup>3\<^sup>1 - 1\<close> of the Graph500 generator
  (\<open>workload/graph500/generator/mod_arith_64bit.h\<close> and \<open>mod_arith_32bit.h\<close>).  The build
  defines \<open>FAST_64BIT_ARITHMETIC\<close>, so the 64-bit header is the one in use; on the build
  platform \<open>uint_fast32_t\<close> and \<open>uint_fast64_t\<close> are both 64 bits wide.  The 32-bit header is
  the one for platforms on which \<open>uint_fast32_t\<close> has 32 bits, and is modelled at that width,
  where its intermediate sums come within four of wrapping around.
\<close>

abbreviation mprime :: nat where
  "mprime \<equiv> 0x7FFFFFFF"

subsection \<open>The 64-bit header\<close>

definition mod_add :: "u64 \<Rightarrow> u64 \<Rightarrow> u64 option" where
  "mod_add a b = do {
     assert_opt (a \<le> 0x7FFFFFFE);
     assert_opt (b \<le> 0x7FFFFFFE);
     Some ((a + b) mod 0x7FFFFFFF)
   }"

definition mod_mul :: "u64 \<Rightarrow> u64 \<Rightarrow> u64 option" where
  "mod_mul a b = do {
     assert_opt (a \<le> 0x7FFFFFFE);
     assert_opt (b \<le> 0x7FFFFFFE);
     Some (a * b mod 0x7FFFFFFF)
   }"

definition mod_mac :: "u64 \<Rightarrow> u64 \<Rightarrow> u64 \<Rightarrow> u64 option" where
  "mod_mac acc a b = do {
     assert_opt (acc \<le> 0x7FFFFFFE);
     assert_opt (a \<le> 0x7FFFFFFE);
     assert_opt (b \<le> 0x7FFFFFFE);
     Some ((a * b + acc) mod 0x7FFFFFFF)
   }"

definition mod_mac2 :: "u64 \<Rightarrow> u64 \<Rightarrow> u64 \<Rightarrow> u64 \<Rightarrow> u64 \<Rightarrow> u64 option" where
  "mod_mac2 acc a b c d = do {
     assert_opt (acc \<le> 0x7FFFFFFE);
     assert_opt (a \<le> 0x7FFFFFFE);
     assert_opt (b \<le> 0x7FFFFFFE);
     assert_opt (c \<le> 0x7FFFFFFE);
     assert_opt (d \<le> 0x7FFFFFFE);
     Some ((a * b + c * d + acc) mod 0x7FFFFFFF)
   }"

definition mod_mac3 :: "u64 \<Rightarrow> u64 \<Rightarrow> u64 \<Rightarrow> u64 \<Rightarrow> u64 \<Rightarrow> u64 \<Rightarrow> u64 \<Rightarrow> u64 option" where
  "mod_mac3 acc a b c d e f = do {
     assert_opt (acc \<le> 0x7FFFFFFE);
     assert_opt (a \<le> 0x7FFFFFFE);
     assert_opt (b \<le> 0x7FFFFFFE);
     assert_opt (c \<le> 0x7FFFFFFE);
     assert_opt (d \<le> 0x7FFFFFFE);
     assert_opt (e \<le> 0x7FFFFFFE);
     assert_opt (f \<le> 0x7FFFFFFE);
     Some ((a * b + c * d + e * f + acc) mod 0x7FFFFFFF)
   }"

definition mod_mac4 ::
    "u64 \<Rightarrow> u64 \<Rightarrow> u64 \<Rightarrow> u64 \<Rightarrow> u64 \<Rightarrow> u64 \<Rightarrow> u64 \<Rightarrow> u64 \<Rightarrow> u64 \<Rightarrow> u64 option" where
  "mod_mac4 acc a b c d e f g h = do {
     assert_opt (acc \<le> 0x7FFFFFFE);
     assert_opt (a \<le> 0x7FFFFFFE);
     assert_opt (b \<le> 0x7FFFFFFE);
     assert_opt (c \<le> 0x7FFFFFFE);
     assert_opt (d \<le> 0x7FFFFFFE);
     assert_opt (e \<le> 0x7FFFFFFE);
     assert_opt (f \<le> 0x7FFFFFFE);
     assert_opt (g \<le> 0x7FFFFFFE);
     assert_opt (h \<le> 0x7FFFFFFE);
     Some ((a * b + c * d + e * f + g * h + acc) mod 0x7FFFFFFF)
   }"

definition mod_mul_x :: "u64 \<Rightarrow> u64 option" where
  "mod_mul_x a = mod_mul a 107374182"

definition mod_mul_y :: "u64 \<Rightarrow> u64 option" where
  "mod_mul_y a = mod_mul a 104480"

definition mod_mac_y :: "u64 \<Rightarrow> u64 \<Rightarrow> u64 option" where
  "mod_mac_y acc a = mod_mac acc a 104480"

subsection \<open>The 32-bit header\<close>

definition mod_add_32 :: "u32 \<Rightarrow> u32 \<Rightarrow> u32 option" where
  "mod_add_32 a b = do {
     assert_opt (a \<le> 0x7FFFFFFE);
     assert_opt (b \<le> 0x7FFFFFFE);
     let x = a + b in
     Some (if x \<ge> 0x7FFFFFFF then x - 0x7FFFFFFF else x)
   }"

definition mod_mul_32 :: "u32 \<Rightarrow> u32 \<Rightarrow> u32 option" where
  "mod_mul_32 a b = do {
     assert_opt (a \<le> 0x7FFFFFFE);
     assert_opt (b \<le> 0x7FFFFFFE);
     let temp = (ucast a :: u64) * ucast b;
         temp2 = (ucast (temp AND 0x7FFFFFFF) :: u32) + ucast (drop_bit 31 temp) in
     Some (if temp2 \<ge> 0x7FFFFFFF then temp2 - 0x7FFFFFFF else temp2)
   }"

definition mod_mac_32 :: "u32 \<Rightarrow> u32 \<Rightarrow> u32 \<Rightarrow> u32 option" where
  "mod_mac_32 acc a b = do {
     assert_opt (acc \<le> 0x7FFFFFFE);
     assert_opt (a \<le> 0x7FFFFFFE);
     assert_opt (b \<le> 0x7FFFFFFE);
     let temp = (ucast a :: u64) * ucast b + ucast acc;
         temp2 = (ucast (temp AND 0x7FFFFFFF) :: u32) + ucast (drop_bit 31 temp) in
     Some (if temp2 \<ge> 0x7FFFFFFF then temp2 - 0x7FFFFFFF else temp2)
   }"

definition mod_mac2_32 :: "u32 \<Rightarrow> u32 \<Rightarrow> u32 \<Rightarrow> u32 \<Rightarrow> u32 \<Rightarrow> u32 option" where
  "mod_mac2_32 acc a b c d = do {
     assert_opt (acc \<le> 0x7FFFFFFE);
     assert_opt (a \<le> 0x7FFFFFFE);
     assert_opt (b \<le> 0x7FFFFFFE);
     assert_opt (c \<le> 0x7FFFFFFE);
     assert_opt (d \<le> 0x7FFFFFFE);
     s1 \<leftarrow> mod_mac_32 acc a b;
     mod_mac_32 s1 c d
   }"

definition mod_mac3_32 ::
    "u32 \<Rightarrow> u32 \<Rightarrow> u32 \<Rightarrow> u32 \<Rightarrow> u32 \<Rightarrow> u32 \<Rightarrow> u32 \<Rightarrow> u32 option" where
  "mod_mac3_32 acc a b c d e f = do {
     assert_opt (acc \<le> 0x7FFFFFFE);
     assert_opt (a \<le> 0x7FFFFFFE);
     assert_opt (b \<le> 0x7FFFFFFE);
     assert_opt (c \<le> 0x7FFFFFFE);
     assert_opt (d \<le> 0x7FFFFFFE);
     assert_opt (e \<le> 0x7FFFFFFE);
     assert_opt (f \<le> 0x7FFFFFFE);
     s1 \<leftarrow> mod_mac_32 acc a b;
     mod_mac2_32 s1 c d e f
   }"

definition mod_mac4_32 ::
    "u32 \<Rightarrow> u32 \<Rightarrow> u32 \<Rightarrow> u32 \<Rightarrow> u32 \<Rightarrow> u32 \<Rightarrow> u32 \<Rightarrow> u32 \<Rightarrow> u32 \<Rightarrow> u32 option" where
  "mod_mac4_32 acc a b c d e f g h = do {
     assert_opt (acc \<le> 0x7FFFFFFE);
     assert_opt (a \<le> 0x7FFFFFFE);
     assert_opt (b \<le> 0x7FFFFFFE);
     assert_opt (c \<le> 0x7FFFFFFE);
     assert_opt (d \<le> 0x7FFFFFFE);
     assert_opt (e \<le> 0x7FFFFFFE);
     assert_opt (f \<le> 0x7FFFFFFE);
     assert_opt (g \<le> 0x7FFFFFFE);
     assert_opt (h \<le> 0x7FFFFFFE);
     s1 \<leftarrow> mod_mac2_32 acc a b c d;
     mod_mac2_32 s1 e f g h
   }"

text \<open>
  The signed intermediate values of \<open>mod_mul_x\<close> and \<open>mod_mul_y\<close> are \<open>int_fast32_t\<close>; division
  of the non-negative argument truncates.  The result is written on words: signed 32-bit
  arithmetic and its comparison with zero (\<open><s\<close>).  An argument that would be negative as
  \<open>int_fast32_t\<close> fails the assertion inside \<open>mod_mul\<close> whatever the division gives.
\<close>

definition mod_mul_x_32 :: "u32 \<Rightarrow> u32 option" where
  "mod_mul_x_32 a =
    (let result0 = a div 20;
         result1 = 107374182 * (a - result0 * 20) - result0 * 7;
         result = result1 + (if result1 <s 0 then 0x7FFFFFFF else 0) in
     do {
       m \<leftarrow> mod_mul_32 a 107374182;
       assert_opt (result = m);
       Some result
     })"

definition mod_mul_y_32 :: "u32 \<Rightarrow> u32 option" where
  "mod_mul_y_32 a =
    (let result0 = a div 20554;
         result1 = 104480 * (a - result0 * 20554) - result0 * 1727;
         result = result1 + (if result1 <s 0 then 0x7FFFFFFF else 0) in
     do {
       m \<leftarrow> mod_mul_32 a 104480;
       assert_opt (result = m);
       Some result
     })"

definition mod_mac_y_32 :: "u32 \<Rightarrow> u32 \<Rightarrow> u32 option" where
  "mod_mac_y_32 acc a = do {
     m \<leftarrow> mod_mul_y_32 a;
     result \<leftarrow> mod_add_32 acc m;
     m' \<leftarrow> mod_mac_32 acc a 104480;
     assert_opt (result = m');
     Some result
   }"

subsection \<open>The contract of a modular-arithmetic header\<close>

text \<open>
  Both headers promise the same: on arguments below the modulus no assertion fails and the
  result is the exact sum of products, reduced.  \<open>val\<close> reads a machine integer as a natural
  number.
\<close>

locale mod_arith =
  fixes val :: "'w \<Rightarrow> nat"
    and add mul :: "'w \<Rightarrow> 'w \<Rightarrow> 'w option"
    and mac :: "'w \<Rightarrow> 'w \<Rightarrow> 'w \<Rightarrow> 'w option"
    and mac2 :: "'w \<Rightarrow> 'w \<Rightarrow> 'w \<Rightarrow> 'w \<Rightarrow> 'w \<Rightarrow> 'w option"
    and mac3 :: "'w \<Rightarrow> 'w \<Rightarrow> 'w \<Rightarrow> 'w \<Rightarrow> 'w \<Rightarrow> 'w \<Rightarrow> 'w \<Rightarrow> 'w option"
    and mac4 :: "'w \<Rightarrow> 'w \<Rightarrow> 'w \<Rightarrow> 'w \<Rightarrow> 'w \<Rightarrow> 'w \<Rightarrow> 'w \<Rightarrow> 'w \<Rightarrow> 'w \<Rightarrow> 'w option"
    and mul_x mul_y :: "'w \<Rightarrow> 'w option"
    and mac_y :: "'w \<Rightarrow> 'w \<Rightarrow> 'w option"
  assumes val_inj: "val a = val b \<Longrightarrow> a = b"
    and add_result: "val a < mprime \<Longrightarrow> val b < mprime \<Longrightarrow>
      \<exists>r. add a b = Some r \<and> val r = (val a + val b) mod mprime"
    and mul_result: "val a < mprime \<Longrightarrow> val b < mprime \<Longrightarrow>
      \<exists>r. mul a b = Some r \<and> val r = val a * val b mod mprime"
    and mac_result: "val acc < mprime \<Longrightarrow> val a < mprime \<Longrightarrow> val b < mprime \<Longrightarrow>
      \<exists>r. mac acc a b = Some r \<and> val r = (val a * val b + val acc) mod mprime"
    and mac2_result: "val acc < mprime \<Longrightarrow> val a < mprime \<Longrightarrow> val b < mprime \<Longrightarrow>
      val c < mprime \<Longrightarrow> val d < mprime \<Longrightarrow>
      \<exists>r. mac2 acc a b c d = Some r \<and>
        val r = (val a * val b + val c * val d + val acc) mod mprime"
    and mac3_result: "val acc < mprime \<Longrightarrow> val a < mprime \<Longrightarrow> val b < mprime \<Longrightarrow>
      val c < mprime \<Longrightarrow> val d < mprime \<Longrightarrow> val e < mprime \<Longrightarrow> val f < mprime \<Longrightarrow>
      \<exists>r. mac3 acc a b c d e f = Some r \<and>
        val r = (val a * val b + val c * val d + val e * val f + val acc) mod mprime"
    and mac4_result: "val acc < mprime \<Longrightarrow> val a < mprime \<Longrightarrow> val b < mprime \<Longrightarrow>
      val c < mprime \<Longrightarrow> val d < mprime \<Longrightarrow> val e < mprime \<Longrightarrow> val f < mprime \<Longrightarrow>
      val g < mprime \<Longrightarrow> val h < mprime \<Longrightarrow>
      \<exists>r. mac4 acc a b c d e f g h = Some r \<and>
        val r = (val a * val b + val c * val d + val e * val f + val g * val h + val acc) mod mprime"
    and mul_x_result: "val a < mprime \<Longrightarrow>
      \<exists>r. mul_x a = Some r \<and> val r = 107374182 * val a mod mprime"
    and mul_y_result: "val a < mprime \<Longrightarrow>
      \<exists>r. mul_y a = Some r \<and> val r = 104480 * val a mod mprime"
    and mac_y_result: "val acc < mprime \<Longrightarrow> val a < mprime \<Longrightarrow>
      \<exists>r. mac_y acc a = Some r \<and> val r = (104480 * val a + val acc) mod mprime"

subsection \<open>The 64-bit header meets the contract\<close>

lemma in_range_64: "a \<le> 0x7FFFFFFE \<longleftrightarrow> unat a < mprime" for a :: u64
  by (auto simp: word_le_nat_alt)

lemma prod_bound:
  "a < mprime \<Longrightarrow> b < mprime \<Longrightarrow> a * b \<le> 0x7FFFFFFE * 0x7FFFFFFE" for a b :: nat
  by (rule mult_le_mono) simp_all

lemma unat_prod_64:
  "unat a < mprime \<Longrightarrow> unat b < mprime \<Longrightarrow> unat (a * b) = unat a * unat b" for a b :: u64
  using prod_bound [of "unat a" "unat b"] by (intro unat_mult_no_wrap) simp

lemmas ranges_64 = in_range_64 unat_prod_64 unat_mod unat_add_no_wrap

lemma mod_mac4_64_result:
  assumes "unat acc < mprime" "unat a < mprime" "unat b < mprime" "unat c < mprime"
    "unat d < mprime" "unat e < mprime" "unat f < mprime" "unat g < mprime" "unat h < mprime"
  shows "\<exists>r. mod_mac4 acc a b c d e f g h = Some r \<and>
    unat r = (unat a * unat b + unat c * unat d + unat e * unat f + unat g * unat h + unat acc)
      mod mprime"
proof -
  note p = prod_bound [OF assms(2,3)] prod_bound [OF assms(4,5)] prod_bound [OF assms(6,7)]
    prod_bound [OF assms(8,9)]
  show ?thesis
    using assms p by (simp add: mod_mac4_def ranges_64)
qed

text \<open>The shorter multiply-accumulates are the longest one with zero operands.\<close>

lemma mac_shorten_64:
  "mod_mac3 acc a b c d e f = mod_mac4 acc a b c d e f 0 0"
  "mod_mac2 acc a b c d = mod_mac4 acc a b c d 0 0 0 0"
  "mod_mac acc a b = mod_mac4 acc a b 0 0 0 0 0 0"
  "mod_mul a b = mod_mac4 0 a b 0 0 0 0 0 0"
  by (simp_all add: mod_mac4_def mod_mac3_def mod_mac2_def mod_mac_def mod_mul_def)

lemma mod_add_64_result:
  assumes "unat a < mprime" "unat b < mprime"
  shows "\<exists>r. mod_add a b = Some r \<and> unat r = (unat a + unat b) mod mprime"
  using assms by (simp add: mod_add_def ranges_64)

interpretation m64: mod_arith unat mod_add mod_mul mod_mac mod_mac2 mod_mac3 mod_mac4
    mod_mul_x mod_mul_y mod_mac_y
proof (unfold_locales, goal_cases)
  case (1 a b)
  then show ?case by (rule unsigned_word_eqI)
next
  case (2 a b)
  then show ?case by (rule mod_add_64_result)
next
  case (3 a b)
  then show ?case
    using mod_mac4_64_result [of 0 a b 0 0 0 0 0 0] by (simp add: mac_shorten_64)
next
  case (4 acc a b)
  then show ?case
    using mod_mac4_64_result [of acc a b 0 0 0 0 0 0] by (simp add: mac_shorten_64)
next
  case (5 acc a b c d)
  then show ?case
    using mod_mac4_64_result [of acc a b c d 0 0 0 0] by (simp add: mac_shorten_64)
next
  case (6 acc a b c d e f)
  then show ?case
    using mod_mac4_64_result [of acc a b c d e f 0 0] by (simp add: mac_shorten_64)
next
  case (7 acc a b c d e f g h)
  then show ?case by (rule mod_mac4_64_result)
next
  case (8 a)
  then show ?case
    using mod_mac4_64_result [of 0 a 107374182 0 0 0 0 0 0]
    by (simp add: mod_mul_x_def mac_shorten_64 mult.commute)
next
  case (9 a)
  then show ?case
    using mod_mac4_64_result [of 0 a 104480 0 0 0 0 0 0]
    by (simp add: mod_mul_y_def mac_shorten_64 mult.commute)
next
  case (10 acc a)
  then show ?case
    using mod_mac4_64_result [of acc a 104480 0 0 0 0 0 0]
    by (simp add: mod_mac_y_def mac_shorten_64 mult.commute)
qed

subsection \<open>The 32-bit header meets the contract\<close>

lemma in_range_32: "a \<le> 0x7FFFFFFE \<longleftrightarrow> unat a < mprime" for a :: u32
  by (auto simp: word_le_nat_alt)

text \<open>
  The reduction step: the low 31 bits plus the rest, then one conditional subtraction.  It is
  exact for every product plus addend the header forms, and the sum of the two halves stays
  below \<open>2\<^sup>3\<^sup>2\<close>.
\<close>

lemma fold_31:
  fixes t :: nat
  assumes "t \<le> 0x7FFFFFFE * 0x7FFFFFFE + 0x7FFFFFFE"
  defines "t2 \<equiv> t mod 2 ^ 31 + t div 2 ^ 31"
  shows "t2 < 2 ^ 32" "(if mprime \<le> t2 then t2 - mprime else t2) = t mod mprime"
proof -
  have hi: "t div 2 ^ 31 \<le> 0x7FFFFFFD"
    using assms(1) by simp
  have lo: "t mod 2 ^ 31 < 2 ^ 31"
    by simp
  show "t2 < 2 ^ 32"
    using hi lo by (simp add: t2_def)
  have "t = t mod 2 ^ 31 + 2 ^ 31 * (t div 2 ^ 31)"
    by simp
  also have "\<dots> = t2 + mprime * (t div 2 ^ 31)"
    by (simp add: t2_def)
  finally have "t mod mprime = t2 mod mprime"
    by (metis mod_mult_self2)
  moreover have "t2 < 2 * mprime"
    using hi lo by (simp add: t2_def)
  ultimately show "(if mprime \<le> t2 then t2 - mprime else t2) = t mod mprime"
    by (simp add: mod_if)
qed

lemma unat_and_low31: "unat (w AND 0x7FFFFFFF :: u64) = unat w mod 2 ^ 31"
proof -
  have "w AND 0x7FFFFFFF = take_bit 31 w"
    by (simp add: take_bit_eq_mask mask_eq_exp_minus_1)
  then show ?thesis
    by (simp add: unat_mod take_bit_eq_mod)
qed

lemma unat_ucast_32_64: "unat (ucast w :: u64) = unat w" for w :: u32
proof -
  have "unat w < 2 ^ 64"
    using unsigned_less [of w, where 'a = nat] by (rule less_trans) simp
  then show ?thesis by (simp add: unsigned_ucast_eq take_bit_nat_eq_self_iff)
qed

lemma unat_ucast_64_32: "unat (ucast w :: u32) = unat w mod 2 ^ 32" for w :: u64
  by (simp add: unsigned_ucast_eq unsigned_take_bit_eq take_bit_eq_mod)

lemma unat_prod_32:
  "unat a < mprime \<Longrightarrow> unat b < mprime \<Longrightarrow>
    unat ((ucast a :: u64) * ucast b) = unat a * unat b" for a b :: u32
  using unat_prod_64 [of "ucast a" "ucast b"] by (simp add: unat_ucast_32_64)

lemma mod_mac_32_result:
  assumes "unat acc < mprime" "unat a < mprime" "unat b < mprime"
  shows "\<exists>r. mod_mac_32 acc a b = Some r \<and> unat r = (unat a * unat b + unat acc) mod mprime"
proof -
  define temp where "temp = (ucast a :: u64) * ucast b + ucast acc"
  define temp2 where "temp2 = (ucast (temp AND 0x7FFFFFFF) :: u32) + ucast (drop_bit 31 temp)"
  define t where "t = unat a * unat b + unat acc"
  have t: "t \<le> 0x7FFFFFFE * 0x7FFFFFFE + 0x7FFFFFFE"
    using prod_bound [OF assms(2,3)] assms(1) by (simp add: t_def)
  have temp: "unat temp = t"
    using t by (simp add: temp_def t_def unat_add_no_wrap unat_prod_32 unat_ucast_32_64 assms)
  have "unat temp2 = t mod 2 ^ 31 + t div 2 ^ 31"
  proof -
    have "unat (ucast (temp AND 0x7FFFFFFF) :: u32) = t mod 2 ^ 31"
      by (simp add: unat_ucast_64_32 unat_and_low31 temp mod_less)
    moreover have "unat (ucast (drop_bit 31 temp) :: u32) = t div 2 ^ 31"
      using t by (simp add: unat_ucast_64_32 drop_bit_eq_div unat_div temp)
    ultimately show ?thesis
      using fold_31(1) [OF t] by (simp add: temp2_def unat_add_no_wrap)
  qed
  moreover have "mprime \<le> unat temp2 \<longleftrightarrow> 0x7FFFFFFF \<le> temp2"
    by (simp add: word_le_nat_alt)
  ultimately have "unat (if 0x7FFFFFFF \<le> temp2 then temp2 - 0x7FFFFFFF else temp2) = t mod mprime"
    using fold_31(2) [OF t] by (simp add: unat_sub split: if_splits)
  then show ?thesis
    using assms unfolding mod_mac_32_def Let_def temp2_def temp_def t_def
    by (simp add: in_range_32)
qed

lemma mod_mul_32_eq_mac: "mod_mul_32 a b = mod_mac_32 0 a b"
  by (simp add: mod_mul_32_def mod_mac_32_def)

lemma mod_add_32_result:
  assumes "unat a < mprime" "unat b < mprime"
  shows "\<exists>r. mod_add_32 a b = Some r \<and> unat r = (unat a + unat b) mod mprime"
proof -
  have s: "unat (a + b) = unat a + unat b"
    using assms by (intro unat_add_no_wrap) simp
  then have "0x7FFFFFFF \<le> a + b \<longleftrightarrow> mprime \<le> unat a + unat b"
    by (simp add: word_le_nat_alt)
  with s assms have "unat (if 0x7FFFFFFF \<le> a + b then a + b - 0x7FFFFFFF else a + b) =
      (unat a + unat b) mod mprime"
    by (simp add: unat_sub mod_if)
  then show ?thesis
    using assms by (simp add: mod_add_32_def in_range_32 Let_def)
qed

text \<open>
  L'Ecuyer's multiplication by a constant: with \<open>m = c q + r\<close> and \<open>a = q k + j\<close>, the product
  \<open>c a\<close> is congruent to \<open>c j - r k\<close>, a signed value of magnitude below \<open>m\<close>.
\<close>

lemma schrage:
  fixes a c q r :: nat
  assumes a: "a < mprime" and m: "c * q + r = mprime" and q: "0 < q" and rq: "r < q" and c: "0 < c"
  defines "k \<equiv> a div q" and "j \<equiv> a mod q"
  shows "c * j < mprime" "r * k < mprime"
    "c * a mod mprime = (if c * j < r * k then c * j + mprime - r * k else c * j - r * k)"
proof -
  have cq: "c * q \<le> mprime" using m by simp
  have j: "j < q" using q by (simp add: j_def)
  then have "c * j < c * q" using c by simp
  from less_le_trans [OF this cq] show cj: "c * j < mprime" .
  have "r * k \<le> q * k" using rq by simp
  also have "\<dots> \<le> a" by (simp add: k_def)
  finally show rk: "r * k < mprime" using a by simp
  have "a = q * k + j" by (simp add: k_def j_def)
  then have "c * a + r * k = c * j + (c * q + r) * k" by (simp add: algebra_simps)
  then have eq: "c * a + r * k = c * j + mprime * k" by (simp only: m)
  show "c * a mod mprime = (if c * j < r * k then c * j + mprime - r * k else c * j - r * k)"
  proof (cases "c * j < r * k")
    case True
    then have "0 < k" by (cases k) auto
    then have "c * a = (c * j + mprime - r * k) + mprime * (k - 1)"
      using eq rk by (cases k) simp_all
    then have "c * a mod mprime = (c * j + mprime - r * k) mod mprime"
      by (metis mod_mult_self2)
    with True show ?thesis by simp
  next
    case False
    then have "c * a = (c * j - r * k) + mprime * k" using eq by simp
    then have "c * a mod mprime = (c * j - r * k) mod mprime"
      by (metis mod_mult_self2)
    with False cj show ?thesis by simp
  qed
qed

lemma unat_schrage:
  fixes a c q r :: u32
  assumes a: "unat a < mprime" and m: "unat c * unat q + unat r = mprime"
    and q: "0 < unat q" and rq: "unat r < unat q" and c: "0 < unat c"
  defines "k \<equiv> a div q"
  defines "d \<equiv> c * (a - k * q) - k * r"
  shows "unat (d + (if d <s 0 then 0x7FFFFFFF else 0)) = unat c * unat a mod mprime"
proof -
  note sch = schrage [OF a m q rq c]
  have k: "unat k = unat a div unat q" by (simp add: k_def unat_div)
  have "k * q = a - a mod q"
    by (simp add: k_def minus_mod_eq_div_mult)
  then have aj: "a - k * q = a mod q" by simp
  have j: "unat (a mod q) = unat a mod unat q" by (simp add: unat_mod)
  have cj: "unat (c * (a mod q)) = unat c * (unat a mod unat q)"
    using sch(1) by (simp add: unat_mult_no_wrap j)
  have kr: "unat (k * r) = unat r * (unat a div unat q)"
    using sch(2) by (simp add: unat_mult_no_wrap k mult.commute)
  define x where "x = unat c * (unat a mod unat q)"
  define y where "y = unat r * (unat a div unat q)"
  have d: "d = of_nat x - of_nat y"
    by (simp add: d_def aj x_def y_def flip: cj kr)
  have xy: "x < mprime" "y < mprime" using sch(1,2) by (simp_all add: x_def y_def)
  have sint_d: "sint d = int x - int y"
  proof -
    have dw: "d = word_of_int (int x - int y)" by (simp add: d)
    show ?thesis
      unfolding dw sint_sbintrunc' using xy by (intro signed_take_bit_int_eq_self) simp_all
  qed
  then have neg: "d <s 0 \<longleftrightarrow> x < y" by (simp add: word_sless_alt)
  show ?thesis
  proof (cases "x < y")
    case True
    have dw: "d + 0x7FFFFFFF = of_nat (x + mprime - y)"
      using xy by (simp add: d of_nat_diff)
    have "unat (d + 0x7FFFFFFF) = x + mprime - y"
      unfolding dw using True xy by (intro unat_of_nat_small) simp
    with True neg sch(3) show ?thesis by (simp add: x_def y_def)
  next
    case False
    then have dw: "d = of_nat (x - y)" by (simp add: d of_nat_diff)
    have "unat d = x - y" unfolding dw using xy by (intro unat_of_nat_small) simp
    with False neg sch(3) show ?thesis by (simp add: x_def y_def)
  qed
qed

lemma mod_mul_xy_32_result:
  assumes "unat a < mprime"
  shows "\<exists>r. mod_mul_x_32 a = Some r \<and> unat r = 107374182 * unat a mod mprime"
    and "\<exists>r. mod_mul_y_32 a = Some r \<and> unat r = 104480 * unat a mod mprime"
proof -
  note x = unat_schrage [OF assms, of 107374182 20 7, simplified]
  obtain mx where mx: "mod_mul_32 a 107374182 = Some mx"
      and ux: "unat mx = 107374182 * unat a mod mprime"
    using mod_mac_32_result [of 0 a 107374182] assms by (auto simp: mod_mul_32_eq_mac mult.commute)
  show "\<exists>r. mod_mul_x_32 a = Some r \<and> unat r = 107374182 * unat a mod mprime"
    using x mx ux by (intro exI [of _ mx]) (simp add: mod_mul_x_32_def Let_def word_unat_eq_iff)
  note y = unat_schrage [OF assms, of 104480 20554 1727, simplified]
  obtain my where my: "mod_mul_32 a 104480 = Some my"
      and uy: "unat my = 104480 * unat a mod mprime"
    using mod_mac_32_result [of 0 a 104480] assms by (auto simp: mod_mul_32_eq_mac mult.commute)
  show "\<exists>r. mod_mul_y_32 a = Some r \<and> unat r = 104480 * unat a mod mprime"
    using y my uy by (intro exI [of _ my]) (simp add: mod_mul_y_32_def Let_def word_unat_eq_iff)
qed

lemma mod_mac2_32_result:
  assumes "unat acc < mprime" "unat a < mprime" "unat b < mprime" "unat c < mprime" "unat d < mprime"
  shows "\<exists>r. mod_mac2_32 acc a b c d = Some r \<and>
    unat r = (unat a * unat b + unat c * unat d + unat acc) mod mprime"
proof -
  obtain s1 where s1: "mod_mac_32 acc a b = Some s1"
      and u1: "unat s1 = (unat a * unat b + unat acc) mod mprime"
    using mod_mac_32_result assms by blast
  moreover have "unat s1 < mprime" by (simp add: u1)
  moreover obtain r where "mod_mac_32 s1 c d = Some r"
      and "unat r = (unat c * unat d + unat s1) mod mprime"
    using mod_mac_32_result calculation(3) assms(4,5) by blast
  ultimately show ?thesis
    using assms by (simp add: mod_mac2_32_def in_range_32 mod_add_right_eq ac_simps)
qed

lemma mod_mac3_32_result:
  assumes "unat acc < mprime" "unat a < mprime" "unat b < mprime" "unat c < mprime" "unat d < mprime"
    "unat e < mprime" "unat f < mprime"
  shows "\<exists>r. mod_mac3_32 acc a b c d e f = Some r \<and>
    unat r = (unat a * unat b + unat c * unat d + unat e * unat f + unat acc) mod mprime"
proof -
  obtain s1 where s1: "mod_mac_32 acc a b = Some s1"
      and u1: "unat s1 = (unat a * unat b + unat acc) mod mprime"
    using mod_mac_32_result assms by blast
  moreover have "unat s1 < mprime" by (simp add: u1)
  moreover obtain r where "mod_mac2_32 s1 c d e f = Some r"
      and "unat r = (unat c * unat d + unat e * unat f + unat s1) mod mprime"
    using mod_mac2_32_result calculation(3) assms(4-7) by blast
  moreover have "unat r = (unat c * unat d + unat e * unat f + (unat a * unat b + unat acc)) mod mprime"
    using calculation by (simp add: mod_add_right_eq)
  ultimately show ?thesis
    using assms by (simp add: mod_mac3_32_def in_range_32 add_ac)
qed

lemma mod_mac4_32_result:
  assumes "unat acc < mprime" "unat a < mprime" "unat b < mprime" "unat c < mprime" "unat d < mprime"
    "unat e < mprime" "unat f < mprime" "unat g < mprime" "unat h < mprime"
  shows "\<exists>r. mod_mac4_32 acc a b c d e f g h = Some r \<and>
    unat r = (unat a * unat b + unat c * unat d + unat e * unat f + unat g * unat h + unat acc)
      mod mprime"
proof -
  obtain s1 where s1: "mod_mac2_32 acc a b c d = Some s1"
      and u1: "unat s1 = (unat a * unat b + unat c * unat d + unat acc) mod mprime"
    using mod_mac2_32_result assms by blast
  moreover have "unat s1 < mprime" by (simp add: u1)
  moreover obtain r where "mod_mac2_32 s1 e f g h = Some r"
      and "unat r = (unat e * unat f + unat g * unat h + unat s1) mod mprime"
    using mod_mac2_32_result calculation(3) assms(6-9) by blast
  moreover have "unat r =
      (unat e * unat f + unat g * unat h + (unat a * unat b + unat c * unat d + unat acc)) mod mprime"
    using calculation by (simp add: mod_add_right_eq)
  ultimately show ?thesis
    using assms by (simp add: mod_mac4_32_def in_range_32 add_ac)
qed

lemma mod_mac_y_32_result:
  assumes "unat acc < mprime" "unat a < mprime"
  shows "\<exists>r. mod_mac_y_32 acc a = Some r \<and> unat r = (104480 * unat a + unat acc) mod mprime"
proof -
  obtain m where m: "mod_mul_y_32 a = Some m" and um: "unat m = 104480 * unat a mod mprime"
    using mod_mul_xy_32_result(2) assms by blast
  moreover have "unat m < mprime" by (simp add: um)
  moreover obtain r where r: "mod_add_32 acc m = Some r" "unat r = (unat acc + unat m) mod mprime"
    using mod_add_32_result calculation(3) assms(1) by blast
  moreover obtain m' where m': "mod_mac_32 acc a 104480 = Some m'"
      "unat m' = (unat a * 104480 + unat acc) mod mprime"
    using mod_mac_32_result [of acc a 104480] assms by auto
  moreover have "r = m'"
    using r(2) m'(2) um by (simp add: word_unat_eq_iff mod_add_right_eq ac_simps)
  ultimately show ?thesis
    by (simp add: mod_mac_y_32_def mult.commute)
qed

interpretation m32: mod_arith unat mod_add_32 mod_mul_32 mod_mac_32 mod_mac2_32 mod_mac3_32
    mod_mac4_32 mod_mul_x_32 mod_mul_y_32 mod_mac_y_32
proof (unfold_locales, goal_cases)
  case (1 a b)
  then show ?case by (rule unsigned_word_eqI)
next
  case (3 a b)
  then show ?case using mod_mac_32_result [of 0 a b] by (simp add: mod_mul_32_eq_mac)
qed (fact mod_add_32_result mod_mac_32_result mod_mac2_32_result mod_mac3_32_result
    mod_mac4_32_result mod_mul_xy_32_result mod_mac_y_32_result)+

lemma same_result:
  fixes m :: "u32 option" and m' :: "u64 option"
  assumes "\<exists>r. m = Some r \<and> unat r = n" "\<exists>r. m' = Some r \<and> unat r = n"
  shows "m \<noteq> None \<and> map_option ucast m = m'"
proof -
  obtain r r' where r: "m = Some r" "m' = Some r'" "unat r = unat r'" using assms by auto
  then have "unat (ucast r :: u64) = unat r'" by (simp only: unat_ucast_32_64)
  then have "ucast r = r'" by (rule m64.val_inj)
  with r show ?thesis by simp
qed

text \<open>
  C40: The 32-bit and the 64-bit header compute the same: on operands below the modulus no
  assertion of either fails and the results are the same number, for all nine operations.
\<close>

theorem mod_headers_agree:
  fixes acc a b c d e f g h :: u32
  assumes "unat acc < mprime" "unat a < mprime" "unat b < mprime" "unat c < mprime"
    "unat d < mprime" "unat e < mprime" "unat f < mprime" "unat g < mprime" "unat h < mprime"
  shows "(mod_add_32 a b \<noteq> None \<and>
      map_option ucast (mod_add_32 a b) = mod_add (ucast a) (ucast b)) \<and>
    (mod_mul_32 a b \<noteq> None \<and>
      map_option ucast (mod_mul_32 a b) = mod_mul (ucast a) (ucast b)) \<and>
    (mod_mac_32 acc a b \<noteq> None \<and>
      map_option ucast (mod_mac_32 acc a b) = mod_mac (ucast acc) (ucast a) (ucast b)) \<and>
    (mod_mac2_32 acc a b c d \<noteq> None \<and>
      map_option ucast (mod_mac2_32 acc a b c d)
        = mod_mac2 (ucast acc) (ucast a) (ucast b) (ucast c) (ucast d)) \<and>
    (mod_mac3_32 acc a b c d e f \<noteq> None \<and>
      map_option ucast (mod_mac3_32 acc a b c d e f)
        = mod_mac3 (ucast acc) (ucast a) (ucast b) (ucast c) (ucast d) (ucast e) (ucast f)) \<and>
    (mod_mac4_32 acc a b c d e f g h \<noteq> None \<and>
      map_option ucast (mod_mac4_32 acc a b c d e f g h)
        = mod_mac4 (ucast acc) (ucast a) (ucast b) (ucast c) (ucast d) (ucast e) (ucast f)
            (ucast g) (ucast h)) \<and>
    (mod_mul_x_32 a \<noteq> None \<and> map_option ucast (mod_mul_x_32 a) = mod_mul_x (ucast a)) \<and>
    (mod_mul_y_32 a \<noteq> None \<and> map_option ucast (mod_mul_y_32 a) = mod_mul_y (ucast a)) \<and>
    (mod_mac_y_32 acc a \<noteq> None \<and>
      map_option ucast (mod_mac_y_32 acc a) = mod_mac_y (ucast acc) (ucast a))"
proof -
  note agree =
    same_result [OF m32.add_result [OF assms(2,3)] m64.add_result [of "ucast a" "ucast b",
      unfolded unat_ucast_32_64, OF assms(2,3)]]
    same_result [OF m32.mul_result [OF assms(2,3)] m64.mul_result [of "ucast a" "ucast b",
      unfolded unat_ucast_32_64, OF assms(2,3)]]
    same_result [OF m32.mac_result [OF assms(1,2,3)] m64.mac_result [of "ucast acc" "ucast a" "ucast b",
      unfolded unat_ucast_32_64, OF assms(1,2,3)]]
    same_result [OF m32.mac2_result [OF assms(1-5)] m64.mac2_result [of "ucast acc" "ucast a" "ucast b" "ucast c" "ucast d",
      unfolded unat_ucast_32_64, OF assms(1-5)]]
    same_result [OF m32.mac3_result [OF assms(1-7)] m64.mac3_result [of "ucast acc" "ucast a" "ucast b" "ucast c" "ucast d" "ucast e" "ucast f",
      unfolded unat_ucast_32_64, OF assms(1-7)]]
    same_result [OF m32.mac4_result [OF assms(1-9)] m64.mac4_result [of "ucast acc" "ucast a" "ucast b" "ucast c" "ucast d" "ucast e" "ucast f" "ucast g" "ucast h",
      unfolded unat_ucast_32_64, OF assms(1-9)]]
    same_result [OF m32.mul_x_result [OF assms(2)] m64.mul_x_result [of "ucast a",
      unfolded unat_ucast_32_64, OF assms(2)]]
    same_result [OF m32.mul_y_result [OF assms(2)] m64.mul_y_result [of "ucast a",
      unfolded unat_ucast_32_64, OF assms(2)]]
    same_result [OF m32.mac_y_result [OF assms(1,2)] m64.mac_y_result [of "ucast acc" "ucast a",
      unfolded unat_ucast_32_64, OF assms(1,2)]]
  from agree show ?thesis by blast
qed

theorem mod_headers_agree_witness:
  "mod_mac4_32 1 2147483646 2147483646 2147483646 2147483646 2147483646 2147483646
     2147483646 2147483646 = Some 5 \<and>
   mod_mac4 1 2147483646 2147483646 2147483646 2147483646 2147483646 2147483646
     2147483646 2147483646 = Some 5"
proof -
  have "(ucast (2147483646 :: u32) :: u64) = 2147483646" "(ucast (1 :: u32) :: u64) = 1"
    "unat (2147483646 :: u32) < mprime" "unat (1 :: u32) < mprime"
    by simp_all
  then have "map_option ucast (mod_mac4_32 1 2147483646 2147483646 2147483646 2147483646 2147483646
      2147483646 2147483646 2147483646) =
    mod_mac4 1 2147483646 2147483646 2147483646 2147483646 2147483646 2147483646
      2147483646 2147483646"
    using mod_headers_agree [of 1 2147483646 2147483646 2147483646 2147483646 2147483646
      2147483646 2147483646 2147483646] by (simp only:)
  moreover have "mod_mac4_32 1 2147483646 2147483646 2147483646 2147483646 2147483646 2147483646
      2147483646 2147483646 = Some 5"
    by code_simp
  ultimately show ?thesis by simp
qed

end
