(* ===== verification/Mrg.thy ===== *)
theory Mrg
  imports ModArith
begin

text \<open>
  The splittable multiple recursive generator of Graph500
  (\<open>workload/graph500/generator/splittable_mrg.c\<close>): the generator step, transition matrices
  and their products and powers, the generator of the skip table, and \<open>mrg_skip\<close>, which
  leaps ahead by a 192-bit number of steps one byte at a time.  The theorems show that a
  transition matrix for \<open>n\<close> steps has exactly the effect of \<open>n\<close> single steps, that products and
  powers of matrices add and multiply the step counts, that the generated table is right, and
  hence that \<open>mrg_skip\<close> equals that many single steps, with no assertion failing.
\<close>

subsection \<open>Data\<close>

record mrg_state =
  z1 :: u64
  z2 :: u64
  z3 :: u64
  z4 :: u64
  z5 :: u64

record mrg_transition_matrix =
  m_s :: u64
  m_t :: u64
  m_u :: u64
  m_v :: u64
  m_w :: u64
  m_a :: u64
  m_b :: u64
  m_c :: u64
  m_d :: u64

subsection \<open>Transition matrices (table generator)\<close>

definition mrg_update_cache :: "mrg_transition_matrix \<Rightarrow> mrg_transition_matrix option" where
  "mrg_update_cache p = do {
     xs \<leftarrow> mod_mul_x (m_s p);
     a \<leftarrow> mod_add xs (m_t p);
     xa \<leftarrow> mod_mul_x a;
     b \<leftarrow> mod_add xa (m_u p);
     xb \<leftarrow> mod_mul_x b;
     c \<leftarrow> mod_add xb (m_v p);
     xc \<leftarrow> mod_mul_x c;
     d \<leftarrow> mod_add xc (m_w p);
     Some (p\<lparr>m_a := a, m_b := b, m_c := c, m_d := d\<rparr>)
   }"

definition mrg_bottom_row :: "u64 \<Rightarrow> u64 \<Rightarrow> u64 \<Rightarrow> u64 \<Rightarrow> u64 \<Rightarrow> mrg_transition_matrix" where
  "mrg_bottom_row s t u v w =
     \<lparr>m_s = s, m_t = t, m_u = u, m_v = v, m_w = w, m_a = 0, m_b = 0, m_c = 0, m_d = 0\<rparr>"

definition mrg_make_identity :: "mrg_transition_matrix option" where
  "mrg_make_identity = mrg_update_cache (mrg_bottom_row 0 0 0 0 1)"

definition mrg_make_A :: "mrg_transition_matrix option" where
  "mrg_make_A = mrg_update_cache (mrg_bottom_row 0 0 0 1 0)"

definition mrg_multiply ::
    "mrg_transition_matrix \<Rightarrow> mrg_transition_matrix \<Rightarrow> mrg_transition_matrix option" where
  "mrg_multiply m n = do {
     rs \<leftarrow> mod_mul (m_s m) (m_d n)
       \<bind> (\<lambda>x. mod_mac x (m_t m) (m_c n))
       \<bind> (\<lambda>x. mod_mac x (m_u m) (m_b n))
       \<bind> (\<lambda>x. mod_mac x (m_v m) (m_a n))
       \<bind> (\<lambda>x. mod_mac x (m_w m) (m_s n));
     rt \<leftarrow> mod_mul (m_s m) (m_s n)
       \<bind> mod_mul_y
       \<bind> (\<lambda>x. mod_mac x (m_t m) (m_w n))
       \<bind> (\<lambda>x. mod_mac x (m_u m) (m_v n))
       \<bind> (\<lambda>x. mod_mac x (m_v m) (m_u n))
       \<bind> (\<lambda>x. mod_mac x (m_w m) (m_t n));
     ru \<leftarrow> mod_mul (m_s m) (m_a n)
       \<bind> (\<lambda>x. mod_mac x (m_t m) (m_s n))
       \<bind> mod_mul_y
       \<bind> (\<lambda>x. mod_mac x (m_u m) (m_w n))
       \<bind> (\<lambda>x. mod_mac x (m_v m) (m_v n))
       \<bind> (\<lambda>x. mod_mac x (m_w m) (m_u n));
     rv \<leftarrow> mod_mul (m_s m) (m_b n)
       \<bind> (\<lambda>x. mod_mac x (m_t m) (m_a n))
       \<bind> (\<lambda>x. mod_mac x (m_u m) (m_s n))
       \<bind> mod_mul_y
       \<bind> (\<lambda>x. mod_mac x (m_v m) (m_w n))
       \<bind> (\<lambda>x. mod_mac x (m_w m) (m_v n));
     rw \<leftarrow> mod_mul (m_s m) (m_c n)
       \<bind> (\<lambda>x. mod_mac x (m_t m) (m_b n))
       \<bind> (\<lambda>x. mod_mac x (m_u m) (m_a n))
       \<bind> (\<lambda>x. mod_mac x (m_v m) (m_s n))
       \<bind> mod_mul_y
       \<bind> (\<lambda>x. mod_mac x (m_w m) (m_w n));
     mrg_update_cache (mrg_bottom_row rs rt ru rv rw)
   }"

fun mrg_power_loop ::
    "mrg_transition_matrix \<Rightarrow> nat \<Rightarrow> mrg_transition_matrix \<Rightarrow> mrg_transition_matrix option" where
  "mrg_power_loop current_power_of_2 expo result =
    (if expo > 0 then do {
       result' \<leftarrow> (if expo mod 2 = 1 then mrg_multiply result current_power_of_2 else Some result);
       current' \<leftarrow> mrg_multiply current_power_of_2 current_power_of_2;
       mrg_power_loop current' (expo div 2) result'
     } else Some result)"

declare mrg_power_loop.simps [simp del]

definition mrg_power :: "mrg_transition_matrix \<Rightarrow> nat \<Rightarrow> mrg_transition_matrix option" where
  "mrg_power m expo = do {
     result \<leftarrow> mrg_make_identity;
     mrg_power_loop m expo result
   }"

subsection \<open>Steps\<close>

definition mrg_apply_transition :: "mrg_transition_matrix \<Rightarrow> mrg_state \<Rightarrow> mrg_state option" where
  "mrg_apply_transition mat st = do {
     p1 \<leftarrow> mod_mul (m_d mat) (z1 st);
     q1 \<leftarrow> mod_mac4 0 (m_s mat) (z2 st) (m_a mat) (z3 st) (m_b mat) (z4 st) (m_c mat) (z5 st);
     o1 \<leftarrow> mod_mac_y p1 q1;
     p2 \<leftarrow> mod_mac2 0 (m_c mat) (z1 st) (m_w mat) (z2 st);
     q2 \<leftarrow> mod_mac3 0 (m_s mat) (z3 st) (m_a mat) (z4 st) (m_b mat) (z5 st);
     o2 \<leftarrow> mod_mac_y p2 q2;
     p3 \<leftarrow> mod_mac3 0 (m_b mat) (z1 st) (m_v mat) (z2 st) (m_w mat) (z3 st);
     q3 \<leftarrow> mod_mac2 0 (m_s mat) (z4 st) (m_a mat) (z5 st);
     o3 \<leftarrow> mod_mac_y p3 q3;
     p4 \<leftarrow> mod_mac4 0 (m_a mat) (z1 st) (m_u mat) (z2 st) (m_v mat) (z3 st) (m_w mat) (z4 st);
     q4 \<leftarrow> mod_mul (m_s mat) (z5 st);
     o4 \<leftarrow> mod_mac_y p4 q4;
     p5 \<leftarrow> mod_mac3 0 (m_s mat) (z1 st) (m_t mat) (z2 st) (m_u mat) (z3 st);
     o5 \<leftarrow> mod_mac2 p5 (m_v mat) (z4 st) (m_w mat) (z5 st);
     Some \<lparr>z1 = o1, z2 = o2, z3 = o3, z4 = o4, z5 = o5\<rparr>
   }"

definition mrg_step :: "mrg_transition_matrix \<Rightarrow> mrg_state \<Rightarrow> mrg_state option" where
  "mrg_step mat state = mrg_apply_transition mat state"

definition mrg_orig_step :: "mrg_state \<Rightarrow> mrg_state option" where
  "mrg_orig_step state = do {
     x \<leftarrow> mod_mul_x (z1 state);
     new_elt \<leftarrow> mod_mac_y x (z5 state);
     Some \<lparr>z1 = new_elt, z2 = z1 state, z3 = z2 state, z4 = z3 state, z5 = z4 state\<rparr>
   }"

definition mrg_get_uint_orig :: "mrg_state \<Rightarrow> (u64 \<times> mrg_state) option" where
  "mrg_get_uint_orig state = do {
     state' \<leftarrow> mrg_orig_step state;
     Some (z1 state', state')
   }"

definition mrg_seed :: "u64 list \<Rightarrow> mrg_state option" where
  "mrg_seed seed = (case seed of
      [s0, s1, s2, s3, s4] \<Rightarrow> Some \<lparr>z1 = s0, z2 = s1, z3 = s2, z4 = s3, z5 = s4\<rparr>
    | _ \<Rightarrow> None)"

subsection \<open>Skipping\<close>

type_synonym skip_table = "mrg_transition_matrix list list"

definition table_entry :: "skip_table \<Rightarrow> nat \<Rightarrow> nat \<Rightarrow> mrg_transition_matrix option" where
  "table_entry tbl i j = (if i < length tbl \<and> j < length (tbl ! i) then Some (tbl ! i ! j) else None)"

function mrg_skip_loop :: "skip_table \<Rightarrow> nat \<Rightarrow> u64 \<Rightarrow> mrg_state \<Rightarrow> mrg_state option" where
  "mrg_skip_loop tbl byte_index expo state =
    (if expo = 0 then Some state else do {
       state' \<leftarrow> (let val = expo AND 0xFF in
          if val \<noteq> 0 then do {
            mat \<leftarrow> table_entry tbl byte_index (unat val);
            mrg_step mat state
          } else Some state);
       mrg_skip_loop tbl (byte_index + 1) (drop_bit 8 expo) state'
     })"
  by pat_completeness auto
termination
proof (relation "measure (\<lambda>(_, _, e, _). unat e)", simp, clarsimp)
  fix e :: u64
  assume "e \<noteq> 0"
  then have "0 < unat e" by (simp add: unat_gt_0)
  then show "unat (drop_bit 8 e) < unat e"
    by (simp add: drop_bit_eq_div unat_div)
qed

declare mrg_skip_loop.simps [simp del]

definition mrg_skip ::
    "skip_table \<Rightarrow> mrg_state \<Rightarrow> u64 \<Rightarrow> u64 \<Rightarrow> u64 \<Rightarrow> mrg_state option" where
  "mrg_skip tbl state exponent_high exponent_middle exponent_low = do {
     st1 \<leftarrow> mrg_skip_loop tbl 0 exponent_low state;
     st2 \<leftarrow> mrg_skip_loop tbl 8 exponent_middle st1;
     mrg_skip_loop tbl 16 exponent_high st2
   }"

subsection \<open>The table generator\<close>

fun mrg_row_entries :: "mrg_transition_matrix \<Rightarrow> nat \<Rightarrow> nat \<Rightarrow> mrg_transition_matrix list option" where
  "mrg_row_entries tr j 0 = Some []"
| "mrg_row_entries tr j (Suc k) = do {
     m \<leftarrow> mrg_power tr j;
     ms \<leftarrow> mrg_row_entries tr (j + 1) k;
     Some (m # ms)
   }"

fun mrg_table_rows :: "mrg_transition_matrix \<Rightarrow> nat \<Rightarrow> nat \<Rightarrow> skip_table option" where
  "mrg_table_rows prev i 0 = Some []"
| "mrg_table_rows prev i (Suc k) = do {
     ident \<leftarrow> mrg_make_identity;
     tr \<leftarrow> (if i = 0 then mrg_make_A else mrg_power prev 256);
     ms \<leftarrow> mrg_row_entries tr 2 254;
     rest \<leftarrow> mrg_table_rows tr (i + 1) k;
     Some ((ident # tr # ms) # rest)
   }"

definition dump_mrg_powers :: "skip_table option" where
  "dump_mrg_powers = do {
     ident \<leftarrow> mrg_make_identity;
     mrg_table_rows ident 0 (192 div 8)
   }"

subsection \<open>Residues\<close>

text \<open>
  The ring of residues is the numeral type with \<open>2\<^sup>3\<^sup>1 - 1\<close> elements; \<open>residue\<close> is the residue a
  machine integer stands for, and \<open>gives m x\<close> says that a computation does not abort and
  returns the reduced representative of \<open>x\<close>.
\<close>

type_synonym residue_ring = 2147483647

definition residue :: "u64 \<Rightarrow> residue_ring" where
  "residue a = of_nat (unat a)"

definition coef_x :: residue_ring where
  "coef_x = 107374182"

definition coef_y :: residue_ring where
  "coef_y = 104480"

definition reduced :: "u64 \<Rightarrow> bool" where
  "reduced a \<longleftrightarrow> unat a < mprime"

definition gives :: "u64 option \<Rightarrow> residue_ring \<Rightarrow> bool" where
  "gives m x \<longleftrightarrow> (\<exists>r. m = Some r \<and> reduced r \<and> residue r = x)"

lemma of_nat_mprime [simp]: "(of_nat mprime :: residue_ring) = 0"
  using of_nat_CHAR [where 'a = residue_ring] by simp

lemma of_nat_mod_mprime [simp]: "(of_nat (n mod mprime) :: residue_ring) = of_nat n"
proof -
  have "(of_nat n :: residue_ring) = of_nat (mprime * (n div mprime) + n mod mprime)"
    by (simp only: mult_div_mod_eq)
  also have "\<dots> = of_nat (n mod mprime)"
    by (simp only: of_nat_add of_nat_mult of_nat_mprime) simp
  finally show ?thesis by simp
qed

lemma of_nat_residue_inj:
  assumes "m \<le> n" "n < mprime" "(of_nat m :: residue_ring) = of_nat n"
  shows "m = n"
proof -
  have "(of_nat (n - m) :: residue_ring) = 0"
    using assms by (simp add: of_nat_diff)
  then have "mprime dvd n - m"
    by (simp add: of_nat_eq_0_iff_char_dvd)
  with assms(1,2) show ?thesis
    by (auto dest: dvd_imp_le)
qed

lemma residue_inj:
  assumes "reduced a" "reduced b" "residue a = residue b"
  shows "a = b"
proof -
  have "unat a = unat b"
    using assms of_nat_residue_inj [of "unat a" "unat b"] of_nat_residue_inj [of "unat b" "unat a"]
    by (cases "unat a \<le> unat b") (simp_all add: residue_def reduced_def)
  then show ?thesis by (rule unsigned_word_eqI)
qed

lemma givesI:
  assumes "\<exists>r. m = Some r \<and> unat r = n mod mprime" "of_nat n = x"
  shows "gives m x"
proof -
  obtain r where r: "m = Some r" "unat r = n mod mprime" using assms(1) by blast
  then have "residue r = x"
    unfolding residue_def r(2) using assms(2) by (simp only: of_nat_mod_mprime)
  with r show ?thesis by (simp add: gives_def reduced_def)
qed

lemma bind_ok:
  assumes "gives m x" "\<And>r. reduced r \<Longrightarrow> residue r = x \<Longrightarrow> \<exists>y. k r = Some y \<and> P y"
  shows "\<exists>y. (m \<bind> k) = Some y \<and> P y"
  using assms by (auto simp: gives_def)

lemma residue_simps [simp]: "residue 0 = 0" "residue 1 = 1" "reduced 0" "reduced 1"
  by (simp_all add: residue_def reduced_def)

lemma mod_add_gives: "reduced a \<Longrightarrow> reduced b \<Longrightarrow> gives (mod_add a b) (residue a + residue b)"
  unfolding reduced_def by (rule givesI, erule (1) m64.add_result) (simp add: residue_def)

lemma mod_mul_gives: "reduced a \<Longrightarrow> reduced b \<Longrightarrow> gives (mod_mul a b) (residue a * residue b)"
  unfolding reduced_def by (rule givesI, erule (1) m64.mul_result) (simp add: residue_def)

lemma mod_mac_gives:
  "reduced s \<Longrightarrow> reduced a \<Longrightarrow> reduced b \<Longrightarrow>
    gives (mod_mac s a b) (residue a * residue b + residue s)"
  unfolding reduced_def by (rule givesI, erule (2) m64.mac_result) (simp add: residue_def)

lemma mod_mac2_gives:
  "reduced s \<Longrightarrow> reduced a \<Longrightarrow> reduced b \<Longrightarrow> reduced c \<Longrightarrow> reduced d \<Longrightarrow>
    gives (mod_mac2 s a b c d) (residue a * residue b + residue c * residue d + residue s)"
  unfolding reduced_def by (rule givesI, erule (4) m64.mac2_result) (simp add: residue_def)

lemma mod_mac3_gives:
  "reduced s \<Longrightarrow> reduced a \<Longrightarrow> reduced b \<Longrightarrow> reduced c \<Longrightarrow> reduced d \<Longrightarrow> reduced e \<Longrightarrow> reduced f \<Longrightarrow>
    gives (mod_mac3 s a b c d e f)
      (residue a * residue b + residue c * residue d + residue e * residue f + residue s)"
  unfolding reduced_def by (rule givesI, erule (6) m64.mac3_result) (simp add: residue_def)

lemma mod_mac4_gives:
  "reduced s \<Longrightarrow> reduced a \<Longrightarrow> reduced b \<Longrightarrow> reduced c \<Longrightarrow> reduced d \<Longrightarrow> reduced e \<Longrightarrow> reduced f \<Longrightarrow>
    reduced g \<Longrightarrow> reduced h \<Longrightarrow>
    gives (mod_mac4 s a b c d e f g h)
      (residue a * residue b + residue c * residue d + residue e * residue f
        + residue g * residue h + residue s)"
  unfolding reduced_def by (rule givesI, erule (8) m64.mac4_result) (simp add: residue_def)

lemma mod_mul_x_gives: "reduced a \<Longrightarrow> gives (mod_mul_x a) (coef_x * residue a)"
  unfolding reduced_def by (rule givesI, erule m64.mul_x_result) (simp add: residue_def coef_x_def)

lemma mod_mul_y_gives: "reduced a \<Longrightarrow> gives (mod_mul_y a) (coef_y * residue a)"
  unfolding reduced_def by (rule givesI, erule m64.mul_y_result) (simp add: residue_def coef_y_def)

lemma mod_mac_y_gives:
  "reduced s \<Longrightarrow> reduced a \<Longrightarrow> gives (mod_mac_y s a) (coef_y * residue a + residue s)"
  unfolding reduced_def by (rule givesI, erule (1) m64.mac_y_result) (simp add: residue_def coef_y_def)

lemma gives_then_mac:
  "gives m x \<Longrightarrow> reduced a \<Longrightarrow> reduced b \<Longrightarrow>
    gives (m \<bind> (\<lambda>s. mod_mac s a b)) (residue a * residue b + x)"
  using mod_mac_gives by (auto simp: gives_def)

lemma gives_then_mul_y: "gives m x \<Longrightarrow> gives (m \<bind> mod_mul_y) (coef_y * x)"
  using mod_mul_y_gives by (auto simp: gives_def)

lemmas arith_gives = mod_add_gives mod_mul_gives mod_mac_gives mod_mac2_gives mod_mac3_gives
  mod_mac4_gives mod_mul_x_gives mod_mul_y_gives mod_mac_y_gives

subsection \<open>One step and one matrix, on residues\<close>

type_synonym residues = "residue_ring \<times> residue_ring \<times> residue_ring \<times> residue_ring \<times> residue_ring"

definition st_ok :: "mrg_state \<Rightarrow> bool" where
  "st_ok st \<longleftrightarrow> reduced (z1 st) \<and> reduced (z2 st) \<and> reduced (z3 st) \<and> reduced (z4 st) \<and> reduced (z5 st)"

definition st_res :: "mrg_state \<Rightarrow> residues" where
  "st_res st = (residue (z1 st), residue (z2 st), residue (z3 st), residue (z4 st), residue (z5 st))"

fun rstep :: "residues \<Rightarrow> residues" where
  "rstep (a, b, c, d, e) = (coef_x * a + coef_y * e, a, b, c, d)"

definition mat_ok :: "mrg_transition_matrix \<Rightarrow> bool" where
  "mat_ok m \<longleftrightarrow> reduced (m_s m) \<and> reduced (m_t m) \<and> reduced (m_u m) \<and> reduced (m_v m) \<and> reduced (m_w m) \<and>
     reduced (m_a m) \<and> reduced (m_b m) \<and> reduced (m_c m) \<and> reduced (m_d m) \<and>
     residue (m_a m) = coef_x * residue (m_s m) + residue (m_t m) \<and>
     residue (m_b m) = coef_x * residue (m_a m) + residue (m_u m) \<and>
     residue (m_c m) = coef_x * residue (m_b m) + residue (m_v m) \<and>
     residue (m_d m) = coef_x * residue (m_c m) + residue (m_w m)"

text \<open>The product of the matrix \<open>A\<^sup>n\<close>, as its bottom row and cache describe it, with a state.\<close>

fun mat_apply :: "mrg_transition_matrix \<Rightarrow> residues \<Rightarrow> residues" where
  "mat_apply m (p, q, r, x, y) =
    (let s = residue (m_s m); t = residue (m_t m); u = residue (m_u m); v = residue (m_v m);
         w = residue (m_w m); a = residue (m_a m); b = residue (m_b m); c = residue (m_c m);
         d = residue (m_d m) in
     (d * p + coef_y * (s * q + a * r + b * x + c * y),
      c * p + w * q + coef_y * (s * r + a * x + b * y),
      b * p + v * q + w * r + coef_y * (s * x + a * y),
      a * p + u * q + v * r + w * x + coef_y * (s * y),
      s * p + t * q + u * r + v * x + w * y))"

definition represents :: "mrg_transition_matrix \<Rightarrow> nat \<Rightarrow> bool" where
  "represents m n \<longleftrightarrow> mat_ok m \<and> (\<forall>z. mat_apply m z = (rstep ^^ n) z)"

declare mat_apply.simps [simp del]

lemma st_okD:
  assumes "st_ok st"
  shows "reduced (z1 st)" "reduced (z2 st)" "reduced (z3 st)" "reduced (z4 st)" "reduced (z5 st)"
  using assms by (simp_all add: st_ok_def)

lemma mat_okD:
  assumes "mat_ok m"
  shows "reduced (m_s m)" "reduced (m_t m)" "reduced (m_u m)" "reduced (m_v m)" "reduced (m_w m)"
    "reduced (m_a m)" "reduced (m_b m)" "reduced (m_c m)" "reduced (m_d m)"
  using assms by (simp_all add: mat_ok_def)

lemma st_res_inj: "st_ok a \<Longrightarrow> st_ok b \<Longrightarrow> st_res a = st_res b \<Longrightarrow> a = b"
  by (cases a; cases b) (auto simp: st_ok_def st_res_def intro: residue_inj)

lemma mrg_orig_step_ok:
  assumes "st_ok st"
  shows "\<exists>st'. mrg_orig_step st = Some st' \<and> st_ok st' \<and> st_res st' = rstep (st_res st)"
  unfolding mrg_orig_step_def
  by (rule bind_ok, rule arith_gives, (assumption | rule st_okD [OF assms])+)+
     (simp add: st_ok_def st_res_def st_okD [OF assms])

lemma mrg_apply_transition_ok:
  assumes "st_ok st" "mat_ok m"
  shows "\<exists>st'. mrg_apply_transition m st = Some st' \<and> st_ok st' \<and> st_res st' = mat_apply m (st_res st)"
  unfolding mrg_apply_transition_def
  by (rule bind_ok, rule arith_gives,
      (assumption | rule st_okD [OF assms(1)] mat_okD [OF assms(2)] residue_simps)+)+
     (simp add: st_ok_def st_res_def mat_apply.simps Let_def add_ac)

lemma mrg_update_cache_ok:
  assumes "reduced (m_s p)" "reduced (m_t p)" "reduced (m_u p)" "reduced (m_v p)" "reduced (m_w p)"
  shows "\<exists>m. mrg_update_cache p = Some m \<and> mat_ok m \<and>
    m_s m = m_s p \<and> m_t m = m_t p \<and> m_u m = m_u p \<and> m_v m = m_v p \<and> m_w m = m_w p"
  unfolding mrg_update_cache_def
  by (rule bind_ok, rule arith_gives, (assumption | rule assms)+)+ (simp add: mat_ok_def assms)

lemma mrg_bottom_row_simps [simp]:
  "m_s (mrg_bottom_row s t u v w) = s" "m_t (mrg_bottom_row s t u v w) = t"
  "m_u (mrg_bottom_row s t u v w) = u" "m_v (mrg_bottom_row s t u v w) = v"
  "m_w (mrg_bottom_row s t u v w) = w"
  by (simp_all add: mrg_bottom_row_def)

lemma mrg_make_identity_ok: "\<exists>m. mrg_make_identity = Some m \<and> represents m 0"
proof -
  obtain m where m: "mrg_make_identity = Some m" "mat_ok m"
      "m_s m = 0" "m_t m = 0" "m_u m = 0" "m_v m = 0" "m_w m = 1"
    using mrg_update_cache_ok [of "mrg_bottom_row 0 0 0 0 1"] by (auto simp: mrg_make_identity_def)
  moreover have "mat_apply m z = z" for z
    using m by (cases z) (simp add: mat_ok_def mat_apply.simps Let_def)
  ultimately show ?thesis by (auto simp: represents_def simp del: split_paired_All)
qed

lemma mrg_make_A_ok: "\<exists>m. mrg_make_A = Some m \<and> represents m 1"
proof -
  obtain m where m: "mrg_make_A = Some m" "mat_ok m"
      "m_s m = 0" "m_t m = 0" "m_u m = 0" "m_v m = 1" "m_w m = 0"
    using mrg_update_cache_ok [of "mrg_bottom_row 0 0 0 1 0"] by (auto simp: mrg_make_A_def)
  moreover have "mat_apply m z = rstep z" for z
    using m by (cases z) (simp add: mat_ok_def mat_apply.simps Let_def)
  ultimately show ?thesis by (auto simp: represents_def)
qed

text \<open>
  A matrix in cached form commutes with the step, so its whole effect is determined by its
  bottom row.
\<close>

lemma mat_apply_rstep: "mat_ok m \<Longrightarrow> mat_apply m (rstep z) = rstep (mat_apply m z)"
  by (cases z) (simp add: mat_ok_def mat_apply.simps Let_def algebra_simps)

definition last5 :: "residues \<Rightarrow> residue_ring" where
  "last5 z = snd (snd (snd (snd z)))"

lemma rstep_unwind:
  assumes "\<And>k. last5 ((rstep ^^ k) y) = last5 ((rstep ^^ k) z)"
  shows "y = z"
  using assms [of 0] assms [of 1] assms [of 2] assms [of 3] assms [of 4]
  by (cases y; cases z) (simp add: last5_def eval_nat_numeral)

lemma mat_apply_determined:
  assumes m: "mat_ok m" and l: "\<And>z. last5 (mat_apply m z) = last5 ((rstep ^^ n) z)"
  shows "mat_apply m z = (rstep ^^ n) z"
proof -
  have commute: "mat_apply m ((rstep ^^ k) z) = (rstep ^^ k) (mat_apply m z)" for k
    by (induction k) (simp_all add: mat_apply_rstep [OF m])
  have swap: "(rstep ^^ n) ((rstep ^^ k) z) = (rstep ^^ k) ((rstep ^^ n) z)" for k
    using arg_cong [OF add.commute [of n k], of "\<lambda>i. (rstep ^^ i) z"] by (simp only: funpow_add comp_apply)
  have "last5 ((rstep ^^ k) (mat_apply m z)) = last5 ((rstep ^^ k) ((rstep ^^ n) z))" for k
    using l [of "(rstep ^^ k) z"] unfolding commute [of k] swap [of k] .
  then show ?thesis by (rule rstep_unwind)
qed

lemma mrg_multiply_ok:
  assumes "represents m i" "represents n j"
  shows "\<exists>r. mrg_multiply m n = Some r \<and> represents r (i + j)"
proof -
  have ok: "mat_ok m" "mat_ok n"
    and eff: "\<And>z. mat_apply m z = (rstep ^^ i) z" "\<And>z. mat_apply n z = (rstep ^^ j) z"
    using assms by (simp_all add: represents_def del: split_paired_All)
  note red = mat_okD [OF ok(1)] mat_okD [OF ok(2)]
  have "\<exists>r. mrg_multiply m n = Some r \<and> mat_ok r \<and>
      (\<forall>z. last5 (mat_apply r z) = last5 (mat_apply m (mat_apply n z)))"
    unfolding mrg_multiply_def
    apply (rule bind_ok, (rule gives_then_mac gives_then_mul_y mod_mul_gives red)+)+
    subgoal for rs rt ru rv rw
      using mrg_update_cache_ok [of "mrg_bottom_row rs rt ru rv rw"]
      by (auto simp: last5_def mat_apply.simps Let_def algebra_simps)
    done
  then obtain r where r: "mrg_multiply m n = Some r" "mat_ok r"
      "\<And>z. last5 (mat_apply r z) = last5 (mat_apply m (mat_apply n z))" by blast
  then have "\<And>z. last5 (mat_apply r z) = last5 ((rstep ^^ (i + j)) z)"
    by (simp add: eff funpow_add)
  from mat_apply_determined [OF r(2) this] r show ?thesis
    by (auto simp: represents_def simp del: split_paired_All)
qed

lemma mrg_power_loop_ok:
  assumes "represents cur n" "represents res k"
  shows "\<exists>r. mrg_power_loop cur expo res = Some r \<and> represents r (k + n * expo)"
  using assms
proof (induction expo arbitrary: cur n res k rule: less_induct)
  case (less expo)
  show ?case
  proof (cases "expo = 0")
    case True
    with less.prems show ?thesis by (simp add: mrg_power_loop.simps)
  next
    case False
    obtain cur' where cur': "mrg_multiply cur cur = Some cur'" "represents cur' (n + n)"
      using mrg_multiply_ok less.prems(1) by blast
    define res_m where "res_m = (if expo mod 2 = 1 then mrg_multiply res cur else Some res)"
    obtain res' where res': "res_m = Some res'" "represents res' (k + n * (expo mod 2))"
      using mrg_multiply_ok [OF less.prems(2,1)] less.prems(2) unfolding res_m_def
      by (cases "expo mod 2 = 1") (auto simp: not_mod_2_eq_1_eq_0)
    obtain r where r: "mrg_power_loop cur' (expo div 2) res' = Some r"
        "represents r (k + n * (expo mod 2) + (n + n) * (expo div 2))"
      using less.IH [OF _ cur'(2) res'(2), of "expo div 2"] False by auto
    have run: "mrg_power_loop cur expo res = Some r"
      using cur'(1) res'(1) r(1) False unfolding res_m_def
      by (subst mrg_power_loop.simps) simp
    have "k + n * (expo mod 2) + (n + n) * (expo div 2) = k + n * (2 * (expo div 2) + expo mod 2)"
      by (simp only: distrib_left) (simp add: algebra_simps)
    then have "k + n * (expo mod 2) + (n + n) * (expo div 2) = k + n * expo"
      by (simp only: mult_div_mod_eq)
    with r(2) have "represents r (k + n * expo)" by (simp only:)
    with run show ?thesis by blast
  qed
qed

lemma mrg_power_ok:
  assumes "represents m n"
  shows "\<exists>r. mrg_power m expo = Some r \<and> represents r (n * expo)"
proof -
  obtain ident where ident: "mrg_make_identity = Some ident" "represents ident 0"
    using mrg_make_identity_ok by blast
  show ?thesis
    using mrg_power_loop_ok [OF assms ident(2), of expo] by (simp add: mrg_power_def ident(1))
qed

subsection \<open>The skip table\<close>

lemma mrg_row_entries_ok:
  assumes "represents tr n"
  shows "\<exists>ms. mrg_row_entries tr j k = Some ms \<and> length ms = k \<and>
    (\<forall>i<k. represents (ms ! i) (n * (j + i)))"
proof (induction k arbitrary: j)
  case 0
  show ?case by simp
next
  case (Suc k)
  obtain m where m: "mrg_power tr j = Some m" "represents m (n * j)"
    using mrg_power_ok [OF assms] by blast
  obtain ms where ms: "mrg_row_entries tr (j + 1) k = Some ms" "length ms = k"
      "\<forall>i<k. represents (ms ! i) (n * (j + 1 + i))"
    using Suc.IH [of "j + 1"] by blast
  have "represents ((m # ms) ! i) (n * (j + i))" if "i < Suc k" for i
    using that m(2) ms(3) by (cases i) auto
  with m(1) ms(1,2) show ?case by simp
qed

definition row_ok :: "mrg_transition_matrix list \<Rightarrow> nat \<Rightarrow> bool" where
  "row_ok row n \<longleftrightarrow> length row = 256 \<and> (\<forall>j<256. represents (row ! j) (n * j))"

lemma mrg_table_rows_ok:
  assumes "0 < i \<Longrightarrow> represents prev (256 ^ (i - 1))"
  shows "\<exists>tbl. mrg_table_rows prev i k = Some tbl \<and> length tbl = k \<and>
    (\<forall>l<k. row_ok (tbl ! l) (256 ^ (i + l)))"
  using assms
proof (induction k arbitrary: prev i)
  case 0
  show ?case by simp
next
  case (Suc k)
  obtain ident where ident: "mrg_make_identity = Some ident" "represents ident 0"
    using mrg_make_identity_ok by blast
  obtain tr where tr: "(if i = 0 then mrg_make_A else mrg_power prev 256) = Some tr"
      "represents tr (256 ^ i)"
    using mrg_make_A_ok mrg_power_ok [of prev "256 ^ (i - 1)" 256] Suc.prems
    by (cases i) (auto simp: mult.commute)
  obtain ms where ms: "mrg_row_entries tr 2 254 = Some ms" "length ms = 254"
      "\<forall>i'<254. represents (ms ! i') (256 ^ i * (2 + i'))"
    using mrg_row_entries_ok [OF tr(2)] by blast
  obtain rest where rest: "mrg_table_rows tr (i + 1) k = Some rest" "length rest = k"
      "\<forall>l<k. row_ok (rest ! l) (256 ^ (i + 1 + l))"
    using Suc.IH [of "i + 1" tr] tr(2) by auto
  have "represents ((ident # tr # ms) ! j) (256 ^ i * j)" if "j < 256" for j
  proof (cases j)
    case (Suc j')
    with that ident(2) tr(2) ms(2,3) show ?thesis by (cases j') auto
  qed (simp add: ident(2))
  then have row: "row_ok (ident # tr # ms) (256 ^ i)"
    using ms(2) by (simp add: row_ok_def)
  have "row_ok (((ident # tr # ms) # rest) ! l) (256 ^ (i + l))" if "l < Suc k" for l
    using that row rest(3) by (cases l) auto
  then show ?case using tr(1) ms(1) rest(1,2) by (simp add: ident(1))
qed

definition table_ok :: "skip_table \<Rightarrow> bool" where
  "table_ok tbl \<longleftrightarrow> length tbl = 24 \<and> (\<forall>i<24. row_ok (tbl ! i) (256 ^ i))"

lemma dump_mrg_powers_ok: "\<exists>tbl. dump_mrg_powers = Some tbl \<and> table_ok tbl"
proof -
  obtain ident where ident: "mrg_make_identity = Some ident"
    using mrg_make_identity_ok by blast
  show ?thesis
    using mrg_table_rows_ok [of 0 ident 24] by (simp add: dump_mrg_powers_def table_ok_def ident)
qed

subsection \<open>Skipping equals stepping\<close>

text \<open>The specification of a skip: that many single generator steps, one after the other.\<close>

fun mrg_orig_steps :: "nat \<Rightarrow> mrg_state \<Rightarrow> mrg_state option" where
  "mrg_orig_steps 0 st = Some st"
| "mrg_orig_steps (Suc n) st = mrg_orig_step st \<bind> mrg_orig_steps n"

lemma mrg_orig_steps_ok:
  assumes "st_ok st"
  shows "\<exists>st'. mrg_orig_steps n st = Some st' \<and> st_ok st' \<and> st_res st' = (rstep ^^ n) (st_res st)"
  using assms
proof (induction n arbitrary: st)
  case 0
  then show ?case by simp
next
  case (Suc n)
  obtain st1 where st1: "mrg_orig_step st = Some st1" "st_ok st1" "st_res st1 = rstep (st_res st)"
    using mrg_orig_step_ok Suc.prems by blast
  with Suc.IH [OF st1(2)] show ?case by (auto simp: funpow_swap1)
qed

lemma mrg_orig_steps_eqI:
  assumes "st_ok st" "st_ok st'" "st_res st' = (rstep ^^ n) (st_res st)"
  shows "mrg_orig_steps n st = Some st'"
  using mrg_orig_steps_ok [OF assms(1), of n] st_res_inj assms by auto

lemma mrg_step_ok:
  assumes "st_ok st" "represents m n"
  shows "\<exists>st'. mrg_step m st = Some st' \<and> st_ok st' \<and> st_res st' = (rstep ^^ n) (st_res st)"
  using mrg_apply_transition_ok [OF assms(1), of m] assms(2)
  by (auto simp: mrg_step_def represents_def simp del: split_paired_All)

text \<open>An exponent of \<open>b\<close> bytes, consumed from its lowest byte with weight \<open>256\<^sup>i\<close>.\<close>

lemma mrg_skip_loop_ok:
  assumes tbl: "table_ok tbl"
  shows "st_ok st \<Longrightarrow> unat e < 256 ^ b \<Longrightarrow> i + b \<le> 24 \<Longrightarrow>
    \<exists>st'. mrg_skip_loop tbl i e st = Some st' \<and> st_ok st' \<and>
      st_res st' = (rstep ^^ (unat e * 256 ^ i)) (st_res st)"
proof (induction b arbitrary: i e st)
  case 0
  then show ?case by (simp add: mrg_skip_loop.simps unat_eq_0)
next
  case (Suc b)
  define v where "v = e AND 0xFF"
  have uv: "unat v = unat e mod 256"
  proof -
    have "v = take_bit 8 e" by (simp add: v_def take_bit_eq_mask mask_eq_exp_minus_1)
    then show ?thesis by (simp add: unat_mod take_bit_eq_mod)
  qed
  have ue: "unat (drop_bit 8 e) = unat e div 256"
    by (simp add: drop_bit_eq_div unat_div)
  define step where "step = (if v \<noteq> 0 then table_entry tbl i (unat v) \<bind> (\<lambda>mat. mrg_step mat st) else Some st)"
  have "\<exists>st1. step = Some st1 \<and> st_ok st1 \<and> st_res st1 = (rstep ^^ (unat v * 256 ^ i)) (st_res st)"
  proof (cases "v = 0")
    case True
    with Suc.prems(1) show ?thesis by (simp add: step_def)
  next
    case False
    have "unat v < 256" by (simp add: uv)
    then have "represents (tbl ! i ! unat v) (256 ^ i * unat v)"
      "table_entry tbl i (unat v) = Some (tbl ! i ! unat v)"
      using tbl Suc.prems(3) by (auto simp: table_ok_def row_ok_def table_entry_def)
    with mrg_step_ok [OF Suc.prems(1)] False show ?thesis by (auto simp: step_def mult.commute)
  qed
  then obtain st1 where st1: "step = Some st1" "st_ok st1"
      "st_res st1 = (rstep ^^ (unat v * 256 ^ i)) (st_res st)" by blast
  have "unat (drop_bit 8 e) < 256 ^ b"
    using Suc.prems(2) by (simp add: ue less_mult_imp_div_less mult.commute)
  from Suc.IH [OF st1(2) this, of "i + 1"] Suc.prems(3) obtain st2 where
    st2: "mrg_skip_loop tbl (i + 1) (drop_bit 8 e) st1 = Some st2" "st_ok st2"
      "st_res st2 = (rstep ^^ (unat (drop_bit 8 e) * 256 ^ (i + 1))) (st_res st1)" by auto
  have "st_res st2 = (rstep ^^ (unat e * 256 ^ i)) (st_res st)"
  proof -
    have "unat (drop_bit 8 e) * 256 ^ (i + 1) + unat v * 256 ^ i
        = (256 * (unat e div 256) + unat e mod 256) * 256 ^ i"
      unfolding ue uv distrib_right by simp
    also have "\<dots> = unat e * 256 ^ i" by (simp only: mult_div_mod_eq)
    finally show ?thesis unfolding st2(3) st1(3) by (metis comp_apply funpow_add)
  qed
  moreover have "mrg_skip_loop tbl i e st = (if e = 0 then Some st else Some st2)"
    using st1(1) st2(1) unfolding step_def v_def by (subst mrg_skip_loop.simps) (simp add: Let_def)
  ultimately show ?case using st2(2) Suc.prems(1) by auto
qed

lemma mrg_skip_table_ok:
  assumes "table_ok tbl" "st_ok st"
  shows "mrg_skip tbl st hi mid lo =
    mrg_orig_steps (unat hi * 2 ^ 128 + unat mid * 2 ^ 64 + unat lo) st"
proof -
  have b: "unat e < 256 ^ 8" for e :: u64
    using unsigned_less [of e, where 'a = nat] by simp
  obtain st1 where st1: "mrg_skip_loop tbl 0 lo st = Some st1" "st_ok st1"
      "st_res st1 = (rstep ^^ unat lo) (st_res st)"
    using mrg_skip_loop_ok [OF assms b, of 0 lo] by auto
  obtain st2 where st2: "mrg_skip_loop tbl 8 mid st1 = Some st2" "st_ok st2"
      "st_res st2 = (rstep ^^ (unat mid * 2 ^ 64)) (st_res st1)"
    using mrg_skip_loop_ok [OF assms(1) st1(2) b, of 8 mid] by auto
  obtain st3 where st3: "mrg_skip_loop tbl 16 hi st2 = Some st3" "st_ok st3"
      "st_res st3 = (rstep ^^ (unat hi * 2 ^ 128)) (st_res st2)"
    using mrg_skip_loop_ok [OF assms(1) st2(2) b, of 16 hi] by auto
  have "st_res st3 = (rstep ^^ (unat hi * 2 ^ 128 + unat mid * 2 ^ 64 + unat lo)) (st_res st)"
    by (simp only: st3(3) st2(3) st1(3) funpow_add comp_apply)
  then show ?thesis
    using mrg_orig_steps_eqI [OF assms(2) st3(2)] st1(1) st2(1) st3(1) by (simp add: mrg_skip_def)
qed

text \<open>
  C39: The table generator succeeds, and skipping with the table it produces is exactly
  that many single generator steps, for every valid state and every 192-bit step count: both
  computations run without a failing assertion and end in the same state.
\<close>

theorem mrg_skip_equals_steps:
  assumes "st_ok st"
  shows "\<exists>tbl st'. dump_mrg_powers = Some tbl \<and> mrg_skip tbl st hi mid lo = Some st' \<and>
    mrg_orig_steps (unat hi * 2 ^ 128 + unat mid * 2 ^ 64 + unat lo) st = Some st'"
proof -
  obtain tbl where tbl: "dump_mrg_powers = Some tbl" "table_ok tbl"
    using dump_mrg_powers_ok by blast
  obtain st' where
      "mrg_orig_steps (unat hi * 2 ^ 128 + unat mid * 2 ^ 64 + unat lo) st = Some st'"
    using mrg_orig_steps_ok [OF assms] by blast
  with mrg_skip_table_ok [OF tbl(2) assms, of hi mid lo] tbl(1) show ?thesis by auto
qed

theorem mrg_skip_equals_steps_witness:
  "\<exists>tbl. dump_mrg_powers = Some tbl \<and>
    mrg_skip tbl \<lparr>z1 = 1, z2 = 2, z3 = 3, z4 = 4, z5 = 5\<rparr> 0 0 2
      = Some \<lparr>z1 = 177402481, z2 = 107896582, z3 = 1, z4 = 2, z5 = 3\<rparr>"
proof -
  have ok: "st_ok \<lparr>z1 = 1, z2 = 2, z3 = 3, z4 = 4, z5 = 5\<rparr>"
    by (simp add: st_ok_def reduced_def)
  have count: "unat (0 :: u64) * 2 ^ 128 + unat (0 :: u64) * 2 ^ 64 + unat (2 :: u64) = 2"
    by simp
  have steps: "mrg_orig_steps 2
      \<lparr>z1 = 1, z2 = 2, z3 = 3, z4 = 4, z5 = 5\<rparr>
      = Some \<lparr>z1 = 177402481, z2 = 107896582, z3 = 1, z4 = 2, z5 = 3\<rparr>"
    by code_simp
  show ?thesis using mrg_skip_equals_steps [OF ok, of 0 0 2] unfolding count steps by blast
qed

end
