(* ===== verification/Driver.thy ===== *)
theory Driver
  imports Complex_Main Backend Mrg
begin

text \<open>
  The benchmark around the search (\<open>graph500.c\<close>): reading of input files, the choice of the search
  roots, and \<open>run_bfs\<close>, which builds the graph, searches it from every root and validates the
  results.  Construction and search are arguments, as the implementation is chosen when the program
  is linked.  An exit is \<open>Inl\<close> with its status; an abort, a failing assertion, an access out of
  bounds and an endless loop are \<^const>\<open>None\<close>.
\<close>

subsection \<open>Definitions\<close>

text \<open>
  \<open>read\<close> is the system call: the number of bytes, or a negative error, and the file afterwards.
\<close>

definition read_all :: "('f \<Rightarrow> int \<Rightarrow> int \<times> 'f) \<Rightarrow> int \<Rightarrow> 'f \<Rightarrow> (int \<times> 'f) option" where
  "read_all read count f = do {
     (got, r, f) \<leftarrow> while_opt (\<lambda>(got, r, f). Some (0 \<le> r \<and> got < count))
       (\<lambda>(got, r, f).
          let (r, f) = read f (count - got) in
          Some (if r < 0 then got else got + r, r, f)) (0, 0, f);
     Some (if r < 0 then r else got, f)
   }"

text \<open>
  Random numbers in the unit interval, without the rounding of \<open>double\<close>.
\<close>

definition mrg_get_double_orig :: "mrg_state \<Rightarrow> (rat \<times> mrg_state) option" where
  "mrg_get_double_orig st = do {
     (a, st) \<leftarrow> mrg_get_uint_orig st;
     (b, st) \<leftarrow> mrg_get_uint_orig st;
     Some (of_nat (unat a) * (465661287524579692 / 10 ^ 27) + of_nat (unat b) * (2168404346990492787 / 10 ^ 37), st)
   }"

definition NBFS_max :: int where
  "NBFS_max = 64"

record bench =
  nvtx_scale :: int
  NBFS :: int
  bfs_root :: "int list"
  bfs_nedge :: "int list"
  prng_state :: mrg_state

definition mark_edge :: "packed_edge \<Rightarrow> int list \<Rightarrow> int list option" where
  "mark_edge e has_adj =
    (let i = get_v0_from_edge e; j = get_v1_from_edge e in
     if i \<noteq> j then wr has_adj j 1 \<bind> (\<lambda>h. wr h i 1) else Some has_adj)"

definition find_adj :: "allocator \<Rightarrow> int \<Rightarrow> packed_edge list \<Rightarrow> int list option" where
  "find_adj alloc n IJ = do {
     has_adj \<leftarrow> alloc (nat n);
     has_adj \<leftarrow> for_up 0 n (\<lambda>k h. wr h k 0) has_adj;
     for_each mark_edge IJ has_adj
   }"

definition count_adj :: "int \<Rightarrow> int list \<Rightarrow> int option" where
  "count_adj n has_adj = for_up 0 n (\<lambda>k c. do {
     h \<leftarrow> rd has_adj k;
     Some (if h \<noteq> 0 then c + 1 else c)
   }) 0"

text \<open>The loop that samples the roots, with \<open>k\<close>, \<open>m\<close> and \<open>t\<close> as in the source.\<close>

definition sample_roots ::
    "int list \<Rightarrow> int \<Rightarrow> bench \<Rightarrow> (int \<times> int \<times> int \<times> bench) option" where
  "sample_roots has_adj nvtx_connected b = while_opt
     (\<lambda>(k, m, t, b). Some (k < nvtx_scale b \<and> m < NBFS b \<and> t < nvtx_connected))
     (\<lambda>(k, m, t, b). do {
        h \<leftarrow> rd has_adj k;
        if h \<noteq> 0 then do {
          (R, st) \<leftarrow> mrg_get_double_orig (prng_state b);
          if of_int (nvtx_connected - t) * R > of_int (NBFS b - m)
          then Some (k + 1, m, t + 1, b\<lparr>prng_state := st\<rparr>)
          else do {
            roots \<leftarrow> wr (bfs_root b) m t;
            Some (k + 1, m + 1, t + 1, b\<lparr>prng_state := st, bfs_root := roots\<rparr>)
          }
        } else Some (k + 1, m, t, b)
      }) (0, 0, 0, b)"

definition EXIT_FAILURE :: int where
  "EXIT_FAILURE = 1"

text \<open>
  \<open>rootfile\<close> is \<^const>\<open>None\<close> without the option for a file of roots, and otherwise what is read
  from the file, if it can be read.
\<close>

definition choose_roots ::
    "allocator \<Rightarrow> int list option option \<Rightarrow> packed_edge list \<Rightarrow> bench \<Rightarrow> (int + bench) option" where
  "choose_roots alloc rootfile IJ b = (case rootfile of
      None \<Rightarrow> do {
        has_adj \<leftarrow> find_adj alloc (nvtx_scale b) IJ;
        nvtx_connected \<leftarrow> count_adj (nvtx_scale b) has_adj;
        (k, m, t, b) \<leftarrow> sample_roots has_adj nvtx_connected b;
        if t \<ge> nvtx_connected \<and> m < NBFS b then
          if m > 0 then Some (Inr (b\<lparr>NBFS := m\<rparr>)) else Some (Inl EXIT_FAILURE)
        else Some (Inr b)
      }
    | Some None \<Rightarrow> Some (Inl EXIT_FAILURE)
    | Some (Some roots) \<Rightarrow>
        if length roots \<le> length (bfs_root b)
        then Some (Inr (b\<lparr>bfs_root := roots @ drop (length roots) (bfs_root b)\<rparr>)) else None)"

definition run_search ::
    "(allocator \<Rightarrow> 'g \<Rightarrow> int list \<Rightarrow> int \<Rightarrow> (int \<times> int \<times> int list) option) \<Rightarrow>
     allocator \<Rightarrow> bool \<Rightarrow> packed_edge list \<Rightarrow> 'g \<Rightarrow> int \<Rightarrow> bench \<Rightarrow> bench option" where
  "run_search make_bfs_tree alloc skip_validation IJ g m b = do {
     bfs_tree \<leftarrow> alloc (nat (nvtx_scale b));
     root \<leftarrow> rd (bfs_root b) m;
     assert_opt (root < nvtx_scale b);
     (err, max_bfsvtx, bfs_tree) \<leftarrow> make_bfs_tree alloc g bfs_tree root;
     assert_opt (err = 0);
     if skip_validation then Some b
     else do {
       n \<leftarrow> verify_bfs_tree alloc bfs_tree max_bfsvtx root IJ;
       ns \<leftarrow> wr (bfs_nedge b) m n;
       assert_opt (\<not> n < 0);
       Some (b\<lparr>bfs_nedge := ns\<rparr>)
     }
   }"

definition run_bfs ::
    "(allocator \<Rightarrow> packed_edge list \<Rightarrow> (int + 'g) option) \<Rightarrow>
     (allocator \<Rightarrow> 'g \<Rightarrow> int list \<Rightarrow> int \<Rightarrow> (int \<times> int \<times> int list) option) \<Rightarrow>
     allocator \<Rightarrow> int list option option \<Rightarrow> bool \<Rightarrow> packed_edge list \<Rightarrow> bench \<Rightarrow> (int + bench) option" where
  "run_bfs create_graph_from_edgelist make_bfs_tree alloc rootfile skip_validation IJ b = do {
     r \<leftarrow> create_graph_from_edgelist alloc IJ;
     case r of
       Inl err \<Rightarrow> Some (Inl EXIT_FAILURE)
     | Inr g \<Rightarrow> do {
         r \<leftarrow> choose_roots alloc rootfile IJ b;
         case r of
           Inl code \<Rightarrow> Some (Inl code)
         | Inr b \<Rightarrow> map_option Inr (for_up 0 (NBFS b) (run_search make_bfs_tree alloc skip_validation IJ g) b)
       }
   }"

subsection \<open>Vertices with neighbours\<close>

definition touched :: "packed_edge list \<Rightarrow> int \<Rightarrow> bool" where
  "touched IJ v \<longleftrightarrow> list_ex (\<lambda>e. get_v0_from_edge e \<noteq> get_v1_from_edge e \<and>
     (get_v0_from_edge e = v \<or> get_v1_from_edge e = v)) IJ"

definition edges_within :: "int \<Rightarrow> packed_edge list \<Rightarrow> bool" where
  "edges_within n = list_all (\<lambda>e. 0 \<le> get_v0_from_edge e \<and> get_v0_from_edge e < n \<and>
     0 \<le> get_v1_from_edge e \<and> get_v1_from_edge e < n)"

lemma find_adj_result:
  assumes "alloc_law alloc" "alloc (nat n) = Some a" "0 \<le> n" "edges_within n IJ"
  shows "\<exists>h. find_adj alloc n IJ = Some h \<and> int (length h) = n \<and>
    (\<forall>v. 0 \<le> v \<and> v < n \<longrightarrow> (h ! nat v \<noteq> 0 \<longleftrightarrow> touched IJ v))"
proof -
  have len: "int (length a) = n" using alloc_lawD [OF assms(1,2)] assms(3) by simp
  then obtain h0 where h0: "for_up 0 n (\<lambda>k h. wr h k 0) a = Some h0" "int (length h0) = n"
      "\<And>v. 0 \<le> v \<Longrightarrow> v < n \<Longrightarrow> h0 ! nat v = 0"
    using fill_range [of 0 n a 0] assms(3) by auto
  have "\<exists>h. for_each mark_edge IJ h0 = Some h \<and> (int (length h) = n \<and>
      (\<forall>v. 0 \<le> v \<and> v < n \<longrightarrow> (h ! nat v \<noteq> 0 \<longleftrightarrow> touched IJ v)))"
  proof (rule for_each_inv [where I = "\<lambda>es h. int (length h) = n \<and>
      (\<forall>v. 0 \<le> v \<and> v < n \<longrightarrow> (h ! nat v \<noteq> 0 \<longleftrightarrow> touched es v))"])
    show "int (length h0) = n \<and> (\<forall>v. 0 \<le> v \<and> v < n \<longrightarrow> (h0 ! nat v \<noteq> 0 \<longleftrightarrow> touched [] v))"
      using h0 by (simp add: touched_def)
    fix ys e zs and h :: "int list"
    assume IJ: "IJ = ys @ e # zs" and I: "int (length h) = n \<and>
      (\<forall>v. 0 \<le> v \<and> v < n \<longrightarrow> (h ! nat v \<noteq> 0 \<longleftrightarrow> touched ys v))"
    have "0 \<le> get_v0_from_edge e" "get_v0_from_edge e < n" "0 \<le> get_v1_from_edge e" "get_v1_from_edge e < n"
      using assms(4) IJ by (auto simp: edges_within_def)
    then show "\<exists>h'. mark_edge e h = Some h' \<and> int (length h') = n \<and>
        (\<forall>v. 0 \<le> v \<and> v < n \<longrightarrow> (h' ! nat v \<noteq> 0 \<longleftrightarrow> touched (ys @ [e]) v))"
      using I by (auto simp: mark_edge_def Let_def touched_def nth_list_update_int)
  qed
  then show ?thesis using assms(2) h0(1) by (auto simp: find_adj_def)
qed

text \<open>The number of vertices with neighbours below a bound.\<close>

definition rank_adj :: "packed_edge list \<Rightarrow> int \<Rightarrow> int" where
  "rank_adj IJ k = int (card {v. 0 \<le> v \<and> v < k \<and> touched IJ v})"

lemma rank_adj_0 [simp]: "rank_adj IJ 0 = 0"
proof -
  have "{v :: int. 0 \<le> v \<and> v < 0 \<and> touched IJ v} = {}" by auto
  then show ?thesis unfolding rank_adj_def by (simp only: card.empty of_nat_0)
qed

lemma rank_adj_Suc: "0 \<le> k \<Longrightarrow> rank_adj IJ (k + 1) = rank_adj IJ k + of_bool (touched IJ k)"
proof -
  assume k: "0 \<le> k"
  have "{v. 0 \<le> v \<and> v < k + 1 \<and> touched IJ v} =
      (if touched IJ k then insert k {v. 0 \<le> v \<and> v < k \<and> touched IJ v} else {v. 0 \<le> v \<and> v < k \<and> touched IJ v})"
    using k by (auto simp: order_le_less)
  moreover have "finite {v. 0 \<le> v \<and> v < k \<and> touched IJ v}" by (rule finite_subset [of _ "{0..<k}"]) auto
  ultimately show ?thesis by (simp add: rank_adj_def)
qed

lemma rank_adj_mono: "j \<le> k \<Longrightarrow> rank_adj IJ j \<le> rank_adj IJ k"
proof -
  assume "j \<le> k"
  moreover have "finite {v. 0 \<le> v \<and> v < k \<and> touched IJ v}" by (rule finite_subset [of _ "{0..<k}"]) auto
  ultimately show ?thesis unfolding rank_adj_def by (simp add: card_mono Collect_mono_iff)
qed

lemma rank_adj_max_vertex: "rank_adj IJ n \<le> max_vertex IJ + 1"
proof -
  have "{v. 0 \<le> v \<and> v < n \<and> touched IJ v} \<subseteq> {0..<max_vertex IJ + 1}"
    using max_vertex_bound [of IJ] by (auto simp: touched_def list_all_iff list_ex_iff)
  then have "card {v. 0 \<le> v \<and> v < n \<and> touched IJ v} \<le> card {0..<max_vertex IJ + 1}" by (intro card_mono) auto
  then show ?thesis using max_vertex_ge [of IJ] by (simp add: rank_adj_def)
qed

lemma count_adj_result:
  assumes "int (length h) = n" "\<forall>v. 0 \<le> v \<and> v < n \<longrightarrow> (h ! nat v \<noteq> 0 \<longleftrightarrow> touched IJ v)" "0 \<le> n"
  shows "count_adj n h = Some (rank_adj IJ n)"
proof -
  have "\<exists>c. count_adj n h = Some c \<and> c = rank_adj IJ n"
    unfolding count_adj_def
    by (rule for_up_inv [where I = "\<lambda>k c. c = rank_adj IJ k"]) (use assms in \<open>auto simp: rank_adj_Suc\<close>)
  then show ?thesis by simp
qed

subsection \<open>Sampling\<close>

lemma mrg_get_double_ok:
  assumes "st_ok st"
  shows "\<exists>R st'. mrg_get_double_orig st = Some (R, st') \<and> st_ok st' \<and> 0 \<le> R \<and> R < 1"
proof -
  obtain s1 where s1: "mrg_orig_step st = Some s1" "st_ok s1" using mrg_orig_step_ok [OF assms] by blast
  obtain s2 where s2: "mrg_orig_step s1 = Some s2" "st_ok s2" using mrg_orig_step_ok [OF s1(2)] by blast
  define a b :: rat where "a = of_nat (unat (z1 s1))" and "b = of_nat (unat (z1 s2))"
  have "unat (z1 s1) \<le> 2147483646" "unat (z1 s2) \<le> 2147483646"
    using s1(2) s2(2) by (auto simp: st_ok_def reduced_def)
  then have "a \<le> of_nat 2147483646" "b \<le> of_nat 2147483646" unfolding a_def b_def of_nat_le_iff by auto
  then have "a * (465661287524579692 / 10 ^ 27) \<le> 2147483646 * (465661287524579692 / 10 ^ 27)"
    "b * (2168404346990492787 / 10 ^ 37) \<le> 2147483646 * (2168404346990492787 / 10 ^ 37)"
    by (auto intro!: mult_right_mono)
  moreover have "2147483646 * (465661287524579692 / 10 ^ 27) + 2147483646 * (2168404346990492787 / 10 ^ 37) < (1 :: rat)"
    by simp
  ultimately have "a * (465661287524579692 / 10 ^ 27) + b * (2168404346990492787 / 10 ^ 37) < 1" by linarith
  moreover have "0 \<le> a * (465661287524579692 / 10 ^ 27) + b * (2168404346990492787 / 10 ^ 37)"
    unfolding a_def b_def by (intro add_nonneg_nonneg mult_nonneg_nonneg of_nat_0_le_iff) simp_all
  moreover have "mrg_get_double_orig st = Some (a * (465661287524579692 / 10 ^ 27) + b * (2168404346990492787 / 10 ^ 37), s2)"
    using s1 s2 by (simp add: mrg_get_double_orig_def mrg_get_uint_orig_def a_def b_def)
  ultimately show ?thesis using s2 by blast
qed

definition sampled :: "packed_edge list \<Rightarrow> bench \<Rightarrow> int \<times> int \<times> int \<times> bench \<Rightarrow> bool" where
  "sampled IJ b = (\<lambda>(k, m, t, b'). 0 \<le> k \<and> k \<le> nvtx_scale b \<and> 0 \<le> m \<and> m \<le> NBFS b \<and> m \<le> t \<and>
     t = rank_adj IJ k \<and>
     min (NBFS b) (rank_adj IJ (nvtx_scale b)) - m \<le> rank_adj IJ (nvtx_scale b) - t \<and>
     b' = b\<lparr>prng_state := prng_state b', bfs_root := bfs_root b'\<rparr> \<and> st_ok (prng_state b') \<and>
     length (bfs_root b') = length (bfs_root b) \<and>
     (\<forall>i. 0 \<le> i \<and> i < m \<longrightarrow> i \<le> bfs_root b' ! nat i \<and> bfs_root b' ! nat i < t) \<and>
     (\<forall>i j. 0 \<le> i \<and> i < j \<and> j < m \<longrightarrow> bfs_root b' ! nat i < bfs_root b' ! nat j))"

lemma sample_step:
  assumes I: "sampled IJ b (k, m, t, b')" and go: "k < nvtx_scale b" "m < NBFS b" "t < rank_adj IJ (nvtx_scale b)"
    and R: "mrg_get_double_orig (prng_state b') = Some (R, st)" "R \<le> 1" "st_ok st" and touched: "touched IJ k"
    and len: "NBFS b \<le> int (length (bfs_root b))"
  shows "of_int (rank_adj IJ (nvtx_scale b) - t) * R > of_int (NBFS b - m) \<Longrightarrow>
      sampled IJ b (k + 1, m, t + 1, b'\<lparr>prng_state := st\<rparr>)"
    and "\<not> of_int (rank_adj IJ (nvtx_scale b) - t) * R > of_int (NBFS b - m) \<Longrightarrow>
      wr (bfs_root b') m t = Some ((bfs_root b')[nat m := t]) \<and>
      sampled IJ b (k + 1, m + 1, t + 1, b'\<lparr>prng_state := st, bfs_root := (bfs_root b')[nat m := t]\<rparr>)"
proof -
  let ?c = "rank_adj IJ (nvtx_scale b)"
  have t1: "rank_adj IJ (k + 1) = t + 1" using I touched by (simp add: sampled_def rank_adj_Suc)
  have le: "of_int (?c - t) * R \<le> of_int (?c - t)" using R(2) go(3) by (intro mult_left_le) auto
  show "sampled IJ b (k + 1, m, t + 1, b'\<lparr>prng_state := st\<rparr>)" if "of_int (?c - t) * R > of_int (NBFS b - m)"
  proof -
    have "(of_int (NBFS b - m) :: rat) < of_int (?c - t)" using that le by (rule less_le_trans)
    then have "NBFS b - m < ?c - t" unfolding of_int_less_iff .
    then have "min (NBFS b) ?c - m \<le> ?c - (t + 1)" by simp
    moreover have "b'\<lparr>prng_state := st\<rparr> = b\<lparr>prng_state := st, bfs_root := bfs_root b'\<rparr>"
      using I by (cases b; cases b') (auto simp: sampled_def)
    ultimately show ?thesis using I go t1 R(3) by (fastforce simp: sampled_def)
  qed
  show "wr (bfs_root b') m t = Some ((bfs_root b')[nat m := t]) \<and>
      sampled IJ b (k + 1, m + 1, t + 1, b'\<lparr>prng_state := st, bfs_root := (bfs_root b')[nat m := t]\<rparr>)"
  proof -
    have m: "0 \<le> m" "m < int (length (bfs_root b'))" "m \<le> t" using I len go by (auto simp: sampled_def)
    have roots: "i \<le> (bfs_root b')[nat m := t] ! nat i \<and> (bfs_root b')[nat m := t] ! nat i < t + 1" if "0 \<le> i" "i < m + 1" for i
      using I that m by (cases "i = m") (auto simp: sampled_def nth_list_update_int)
    have incr: "(bfs_root b')[nat m := t] ! nat i < (bfs_root b')[nat m := t] ! nat j" if "0 \<le> i" "i < j" "j < m + 1" for i j
      using I that m by (cases "j = m") (auto simp: sampled_def nth_list_update_int)
    have "b'\<lparr>prng_state := st, bfs_root := (bfs_root b')[nat m := t]\<rparr> =
        b\<lparr>prng_state := st, bfs_root := (bfs_root b')[nat m := t]\<rparr>"
      using I by (cases b; cases b') (auto simp: sampled_def)
    then show ?thesis using I go t1 R(3) m roots incr by (auto simp: sampled_def)
  qed
qed

lemma sample_skip:
  assumes "sampled IJ b (k, m, t, b')" "k < nvtx_scale b" "\<not> touched IJ k"
  shows "sampled IJ b (k + 1, m, t, b')"
  using assms rank_adj_Suc [of k IJ] by (auto simp: sampled_def)

lemma sample_roots_result:
  assumes h: "int (length h) = nvtx_scale b" "\<forall>v. 0 \<le> v \<and> v < nvtx_scale b \<longrightarrow> (h ! nat v \<noteq> 0 \<longleftrightarrow> touched IJ v)"
    and b: "0 \<le> nvtx_scale b" "0 \<le> NBFS b" "NBFS b \<le> int (length (bfs_root b))" "st_ok (prng_state b)"
  shows "\<exists>k m t b'. sample_roots h (rank_adj IJ (nvtx_scale b)) b = Some (k, m, t, b') \<and> sampled IJ b (k, m, t, b') \<and>
    m = min (NBFS b) (rank_adj IJ (nvtx_scale b)) \<and> (m < NBFS b \<longrightarrow> t = rank_adj IJ (nvtx_scale b))"
proof -
  let ?c = "rank_adj IJ (nvtx_scale b)"
  let ?b = "\<lambda>(k, m, t, b'). Some (k < nvtx_scale b' \<and> m < NBFS b' \<and> t < ?c)"
  have "\<exists>s. sample_roots h ?c b = Some s \<and> sampled IJ b s \<and> ?b s = Some False"
    unfolding sample_roots_def
  proof (rule while_opt_inv [where I = "sampled IJ b" and m = "\<lambda>(k, m, t, b'). nat (nvtx_scale b - k)"])
    have "0 \<le> ?c" by (simp add: rank_adj_def)
    then show "sampled IJ b (0, 0, 0, b)" using b by (simp add: sampled_def)
    show "\<exists>go. ?b s = Some go" if "sampled IJ b s" for s by (cases s) auto
    show "\<exists>s'. (case s of (k, m, t, b) \<Rightarrow> do {
        h \<leftarrow> rd h k;
        if h \<noteq> 0 then do {
          (R, st) \<leftarrow> mrg_get_double_orig (prng_state b);
          if of_int (?c - t) * R > of_int (NBFS b - m)
          then Some (k + 1, m, t + 1, b\<lparr>prng_state := st\<rparr>)
          else do {
            roots \<leftarrow> wr (bfs_root b) m t;
            Some (k + 1, m + 1, t + 1, b\<lparr>prng_state := st, bfs_root := roots\<rparr>)
          }
        } else Some (k + 1, m, t, b)
      }) = Some s' \<and> sampled IJ b s' \<and>
      (case s' of (k, m, t, b') \<Rightarrow> nat (nvtx_scale b - k)) < (case s of (k, m, t, b') \<Rightarrow> nat (nvtx_scale b - k))"
      if I: "sampled IJ b s" and go: "?b s = Some True" for s
    proof -
      obtain k m t b' where s: "s = (k, m, t, b')" by (cases s)
      have eq: "nvtx_scale b' = nvtx_scale b" "NBFS b' = NBFS b"
        using I by (cases b; cases b'; auto simp: s sampled_def)+
      then have go': "k < nvtx_scale b" "m < NBFS b" "t < ?c" using go s by auto
      have k: "0 \<le> k" and st: "st_ok (prng_state b')" using I by (auto simp: s sampled_def)
      have rdk: "rd h k = Some (h ! nat k)" "h ! nat k \<noteq> 0 \<longleftrightarrow> touched IJ k" using h k go' by auto
      obtain R st' where R: "mrg_get_double_orig (prng_state b') = Some (R, st')" "st_ok st'" "R \<le> 1"
        using mrg_get_double_ok [OF st] by (meson less_imp_le)
      show ?thesis
      proof (cases "touched IJ k")
        case False
        then show ?thesis using sample_skip [of IJ b k m t b'] I go' rdk k by (simp add: s)
      next
        case True
        show ?thesis
        proof (cases "of_int (?c - t) * R > of_int (NBFS b - m)")
          case gt: True
          then show ?thesis
            using sample_step(1) [OF I [unfolded s] go' R(1,3,2) True b(3)] True rdk R go' eq k by (simp add: s)
        next
          case le: False
          then show ?thesis
            using sample_step(2) [OF I [unfolded s] go' R(1,3,2) True b(3)] True rdk R go' eq k by (simp add: s)
        qed
      qed
    qed
  qed
  then obtain k m t b' where r: "sample_roots h ?c b = Some (k, m, t, b')" "sampled IJ b (k, m, t, b')"
      "?b (k, m, t, b') = Some False"
    unfolding split_paired_Ex by (elim exE conjE) (rule that)
  have eq: "nvtx_scale b' = nvtx_scale b" "NBFS b' = NBFS b"
    using r(2) by (cases b; cases b'; auto simp: sampled_def)+
  have t: "t \<le> ?c" "k = nvtx_scale b \<Longrightarrow> t = ?c" using r(2) rank_adj_mono by (auto simp: sampled_def)
  have "m \<le> ?c" using r(2) t by (auto simp: sampled_def)
  moreover have "k = nvtx_scale b \<or> m = NBFS b \<or> t = ?c" using r(2,3) eq t by (auto simp: sampled_def)
  ultimately have "m = min (NBFS b) ?c \<and> (m < NBFS b \<longrightarrow> t = ?c)" using r(2) t by (auto simp: sampled_def)
  then show ?thesis using r by blast
qed

subsection \<open>The roots\<close>

definition roots_ok :: "packed_edge list \<Rightarrow> bench \<Rightarrow> bench \<Rightarrow> bool" where
  "roots_ok IJ b b' \<longleftrightarrow> nvtx_scale b' = nvtx_scale b \<and> bfs_nedge b' = bfs_nedge b \<and>
     NBFS b' = min (NBFS b) (rank_adj IJ (nvtx_scale b)) \<and> length (bfs_root b') = length (bfs_root b) \<and>
     (\<forall>i. 0 \<le> i \<and> i < NBFS b' \<longrightarrow> 0 \<le> bfs_root b' ! nat i \<and> bfs_root b' ! nat i < rank_adj IJ (nvtx_scale b)) \<and>
     (\<forall>i j. 0 \<le> i \<and> i < j \<and> j < NBFS b' \<longrightarrow> bfs_root b' ! nat i < bfs_root b' ! nat j)"

definition bench_ok :: "bench \<Rightarrow> bool" where
  "bench_ok b \<longleftrightarrow> 0 \<le> nvtx_scale b \<and> 0 < NBFS b \<and> NBFS b \<le> NBFS_max \<and>
     int (length (bfs_root b)) = NBFS_max \<and> int (length (bfs_nedge b)) = NBFS_max \<and> st_ok (prng_state b)"

lemma choose_roots_result:
  assumes "alloc_law alloc" "alloc (nat (nvtx_scale b)) = Some a" "bench_ok b" "edges_within (nvtx_scale b) IJ"
  shows "(rank_adj IJ (nvtx_scale b) = 0 \<and> choose_roots alloc None IJ b = Some (Inl EXIT_FAILURE)) \<or>
    (0 < rank_adj IJ (nvtx_scale b) \<and> (\<exists>b'. choose_roots alloc None IJ b = Some (Inr b') \<and> roots_ok IJ b b'))"
proof -
  let ?c = "rank_adj IJ (nvtx_scale b)"
  have b: "0 \<le> nvtx_scale b" "0 < NBFS b" "NBFS b \<le> int (length (bfs_root b))" "st_ok (prng_state b)"
    using assms(3) by (auto simp: bench_ok_def)
  obtain h where h: "find_adj alloc (nvtx_scale b) IJ = Some h" "int (length h) = nvtx_scale b"
      "\<forall>v. 0 \<le> v \<and> v < nvtx_scale b \<longrightarrow> (h ! nat v \<noteq> 0 \<longleftrightarrow> touched IJ v)"
    using find_adj_result [OF assms(1,2) b(1) assms(4)] by blast
  obtain k m t b' where s: "sample_roots h ?c b = Some (k, m, t, b')" "sampled IJ b (k, m, t, b')"
      "m = min (NBFS b) ?c" "m < NBFS b \<longrightarrow> t = ?c"
    using sample_roots_result [OF h(2,3) b(1) less_imp_le [OF b(2)] b(3,4)] by (elim exE conjE) (rule that)
  have eq: "nvtx_scale b' = nvtx_scale b" "NBFS b' = NBFS b" "bfs_nedge b' = bfs_nedge b"
    using s(2) by (cases b; cases b'; auto simp: sampled_def)+
  have t: "t \<le> ?c" using s(2) rank_adj_mono by (auto simp: sampled_def)
  have run: "choose_roots alloc None IJ b = (if t \<ge> ?c \<and> m < NBFS b then
          if m > 0 then Some (Inr (b'\<lparr>NBFS := m\<rparr>)) else Some (Inl EXIT_FAILURE) else Some (Inr b'))"
    using h(1) count_adj_result [OF h(2,3) b(1)] s(1) eq by (simp add: choose_roots_def)
  have c0: "0 \<le> ?c" by (simp add: rank_adj_def)
  show ?thesis
  proof (cases "?c = 0")
    case True
    then show ?thesis using run s(3,4) b(2) by simp
  next
    case False
    let ?b = "if m < NBFS b then b'\<lparr>NBFS := m\<rparr> else b'"
    have "choose_roots alloc None IJ b = Some (Inr ?b)" using run s(3,4) b(2) c0 False by auto
    moreover have "roots_ok IJ b ?b"
      using s(2,3) eq t by (auto simp: roots_ok_def sampled_def split: if_splits)
    ultimately show ?thesis using c0 False by auto
  qed
qed

subsection \<open>The benchmark\<close>

context bfs_backend
begin

lemma run_search_result:
  assumes al: "alloc_law alloc" "\<forall>n. alloc n \<noteq> None" and IJ: "admits IJ" "create alloc IJ = Some (Inr g)"
    and b: "max_vertex IJ < nvtx_scale b" "0 \<le> m" "m < int (length (bfs_root b))" "m < int (length (bfs_nedge b))"
    and root: "0 \<le> bfs_root b ! nat m" "bfs_root b ! nat m \<le> max_vertex IJ"
  shows "run_search make alloc False IJ g m b =
    Some (b\<lparr>bfs_nedge := (bfs_nedge b)[nat m := component_edges IJ (bfs_root b ! nat m)]\<rparr>)"
proof -
  obtain out where out: "alloc (nat (nvtx_scale b)) = Some out" using al(2) by blast
  then have "int (length out) = nvtx_scale b" using alloc_lawD [OF al(1)] b(1) root by force
  then obtain tree where "make alloc g out (bfs_root b ! nat m) = Some (0, max_vertex IJ, tree)"
      "verify_bfs_tree alloc tree (max_vertex IJ) (bfs_root b ! nat m) IJ =
        Some (component_edges IJ (bfs_root b ! nat m))"
    using search_validates [OF al IJ root, of out] b(1) by auto
  moreover have "\<not> component_edges IJ (bfs_root b ! nat m) < 0" by (simp add: component_edges_def)
  ultimately show ?thesis using out b root by (simp add: run_search_def)
qed

lemma searches_result:
  assumes al: "alloc_law alloc" "\<forall>n. alloc n \<noteq> None" and IJ: "admits IJ" "create alloc IJ = Some (Inr g)"
    and b: "max_vertex IJ < nvtx_scale b" "0 \<le> NBFS b" "NBFS b \<le> int (length (bfs_root b))" "NBFS b \<le> int (length (bfs_nedge b))"
    and root: "\<And>m. 0 \<le> m \<Longrightarrow> m < NBFS b \<Longrightarrow> 0 \<le> bfs_root b ! nat m \<and> bfs_root b ! nat m \<le> max_vertex IJ"
  shows "\<exists>ns. for_up 0 (NBFS b) (run_search make alloc False IJ g) b = Some (b\<lparr>bfs_nedge := ns\<rparr>) \<and>
    length ns = length (bfs_nedge b) \<and>
    (\<forall>m. 0 \<le> m \<and> m < NBFS b \<longrightarrow> ns ! nat m = component_edges IJ (bfs_root b ! nat m))"
proof -
  let ?I = "\<lambda>k b'. \<exists>ns. b' = b\<lparr>bfs_nedge := ns\<rparr> \<and> length ns = length (bfs_nedge b) \<and>
    (\<forall>m. 0 \<le> m \<and> m < k \<longrightarrow> ns ! nat m = component_edges IJ (bfs_root b ! nat m))"
  have "\<exists>b'. for_up 0 (NBFS b) (run_search make alloc False IJ g) b = Some b' \<and> ?I (NBFS b) b'"
  proof (rule for_up_inv [where I = ?I])
    show "?I 0 b" by (rule exI [of _ "bfs_nedge b"]) simp
    fix k b'
    assume k: "0 \<le> k" "k < NBFS b" and "?I k b'"
    then obtain ns where ns: "b' = b\<lparr>bfs_nedge := ns\<rparr>" "length ns = length (bfs_nedge b)"
      "\<And>m. 0 \<le> m \<Longrightarrow> m < k \<Longrightarrow> ns ! nat m = component_edges IJ (bfs_root b ! nat m)" by blast
    let ?ns = "ns[nat k := component_edges IJ (bfs_root b ! nat k)]"
    have "run_search make alloc False IJ g k b' = Some (b\<lparr>bfs_nedge := ?ns\<rparr>)"
      using run_search_result [OF al IJ, of b' k] root [OF k] k b ns(1,2) by simp
    moreover have "?ns ! nat m = component_edges IJ (bfs_root b ! nat m)" if "0 \<le> m" "m < k + 1" for m
      using ns(2,3) that k b by (cases "m = k") (auto simp: nth_list_update_int)
    ultimately show "\<exists>t'. run_search make alloc False IJ g k b' = Some t' \<and> ?I (k + 1) t'"
      using ns(2) by auto
  qed (use b in simp)
  then show ?thesis by blast
qed

lemma run_bfs_result:
  assumes al: "alloc_law alloc" "\<forall>n. alloc n \<noteq> None" and IJ: "admits IJ" "edges_within (nvtx_scale b) IJ" and b: "bench_ok b"
  shows "(rank_adj IJ (nvtx_scale b) = 0 \<and> run_bfs create make alloc None False IJ b = Some (Inl EXIT_FAILURE)) \<or>
    (\<exists>b' ns. run_bfs create make alloc None False IJ b = Some (Inr (b'\<lparr>bfs_nedge := ns\<rparr>)) \<and> roots_ok IJ b b' \<and>
      0 < NBFS b' \<and> length ns = length (bfs_nedge b) \<and>
      (\<forall>m. 0 \<le> m \<and> m < NBFS b' \<longrightarrow> ns ! nat m = component_edges IJ (bfs_root b' ! nat m)))"
proof -
  obtain g where g: "create alloc IJ = Some (Inr g)" using create_total [OF al IJ(1)] by blast
  obtain a where a: "alloc (nat (nvtx_scale b)) = Some a" using al(2) by blast
  from choose_roots_result [OF al(1) a b IJ(2)] show ?thesis
  proof (elim disjE conjE exE)
    assume "rank_adj IJ (nvtx_scale b) = 0" "choose_roots alloc None IJ b = Some (Inl EXIT_FAILURE)"
    then show ?thesis using g by (simp add: run_bfs_def)
  next
    fix b'
    assume c: "0 < rank_adj IJ (nvtx_scale b)" and r: "choose_roots alloc None IJ b = Some (Inr b')" "roots_ok IJ b b'"
    have "max_vertex IJ \<le> nvtx_scale b - 1"
      using IJ(2) b by (intro max_vertex_least) (auto simp: edges_within_def list_all_iff bench_ok_def)
    then have mv: "max_vertex IJ < nvtx_scale b'" using r(2) by (simp add: roots_ok_def)
    have nb: "0 < NBFS b'" "NBFS b' \<le> int (length (bfs_root b'))" "NBFS b' \<le> int (length (bfs_nedge b'))"
      using r(2) b c by (auto simp: roots_ok_def bench_ok_def)
    have root: "0 \<le> bfs_root b' ! nat m \<and> bfs_root b' ! nat m \<le> max_vertex IJ" if "0 \<le> m" "m < NBFS b'" for m
      using r(2) that rank_adj_max_vertex [of IJ "nvtx_scale b"] by (auto simp: roots_ok_def)
    obtain ns where "for_up 0 (NBFS b') (run_search make alloc False IJ g) b' = Some (b'\<lparr>bfs_nedge := ns\<rparr>)"
        "length ns = length (bfs_nedge b')" "\<forall>m. 0 \<le> m \<and> m < NBFS b' \<longrightarrow> ns ! nat m = component_edges IJ (bfs_root b' ! nat m)"
      using searches_result [OF al IJ(1) g mv _ nb(2,3) root] nb(1) by auto
    then have "run_bfs create make alloc None False IJ b = Some (Inr (b'\<lparr>bfs_nedge := ns\<rparr>)) \<and> roots_ok IJ b b' \<and>
      0 < NBFS b' \<and> length ns = length (bfs_nedge b) \<and>
      (\<forall>m. 0 \<le> m \<and> m < NBFS b' \<longrightarrow> ns ! nat m = component_edges IJ (bfs_root b' ! nat m))"
      using g r nb(1) by (simp add: run_bfs_def roots_ok_def)
    then show ?thesis by blast
  qed
qed

end

text \<open>
  C21: The sampling of search roots succeeds whenever some edge joins two different vertices.  It
  chooses as many roots as asked for, or as there are vertices with neighbours if there are fewer;
  the roots are pairwise distinct and lie below the number of vertices with neighbours, so that they
  are vertices of the graph.  Without such an edge the program exits.
\<close>

theorem roots_sampled:
  assumes "alloc_law alloc" "alloc (nat (nvtx_scale b)) = Some a" "bench_ok b" "edges_within (nvtx_scale b) IJ"
  shows "if rank_adj IJ (nvtx_scale b) = 0 then choose_roots alloc None IJ b = Some (Inl EXIT_FAILURE)
    else (\<exists>b'. choose_roots alloc None IJ b = Some (Inr b') \<and>
      NBFS b' = min (NBFS b) (rank_adj IJ (nvtx_scale b)) \<and>
      (\<forall>i. 0 \<le> i \<and> i < NBFS b' \<longrightarrow> 0 \<le> bfs_root b' ! nat i \<and> bfs_root b' ! nat i < rank_adj IJ (nvtx_scale b) \<and>
        bfs_root b' ! nat i \<le> max_vertex IJ) \<and>
      (\<forall>i j. 0 \<le> i \<and> i < j \<and> j < NBFS b' \<longrightarrow> bfs_root b' ! nat i \<noteq> bfs_root b' ! nat j))"
proof -
  have max: "x \<le> max_vertex IJ" if "x < rank_adj IJ (nvtx_scale b)" for x
    using that rank_adj_max_vertex [of IJ "nvtx_scale b"] by simp
  show ?thesis using choose_roots_result [OF assms]
  proof (elim disjE conjE exE)
    fix b'
    assume "0 < rank_adj IJ (nvtx_scale b)" "choose_roots alloc None IJ b = Some (Inr b')" "roots_ok IJ b b'"
    then show ?thesis by (auto simp: roots_ok_def intro!: max) force
  qed simp
qed

definition bench_init :: "int \<Rightarrow> int \<Rightarrow> mrg_state \<Rightarrow> bench" where
  "bench_init n nbfs st = \<lparr>nvtx_scale = n, NBFS = nbfs, bfs_root = replicate 64 0, bfs_nedge = replicate 64 0, prng_state = st\<rparr>"

lemma rank_adj_example: "rank_adj [write_edge 2 3] 4 = 2"
proof -
  have "{v. 0 \<le> v \<and> v < 4 \<and> touched [write_edge 2 3] v} = {2, 3}" by (auto simp: touched_def)
  then show ?thesis by (simp add: rank_adj_def)
qed

lemma bench_init_ok: "bench_ok (bench_init 4 64 \<lparr>z1 = 1, z2 = 1, z3 = 1, z4 = 1, z5 = 1\<rparr>)"
  by (simp add: bench_ok_def bench_init_def NBFS_max_def st_ok_def)

theorem roots_sampled_witness:
  "\<exists>b'. choose_roots (\<lambda>n. Some (replicate n 0)) None [write_edge 2 3]
      (bench_init 4 64 \<lparr>z1 = 1, z2 = 1, z3 = 1, z4 = 1, z5 = 1\<rparr>) = Some (Inr b') \<and> NBFS b' = 2"
proof -
  let ?b = "bench_init 4 64 \<lparr>z1 = 1, z2 = 1, z3 = 1, z4 = 1, z5 = 1\<rparr>"
  have "nvtx_scale ?b = 4" "NBFS ?b = 64" by (simp_all add: bench_init_def)
  then show ?thesis
    using roots_sampled [of "\<lambda>n. Some (replicate n 0)" ?b "replicate 4 0" "[write_edge 2 3]"] bench_init_ok rank_adj_example
    by (auto simp: alloc_law_def edges_within_def)
qed

text \<open>
  The roots are ranks among the vertices with neighbours, not those vertices: a vertex without
  neighbours can be chosen, against the comment in the source.
\<close>

lemma isolated_root_chosen:
  "\<exists>b'. choose_roots (\<lambda>n. Some (replicate n 0)) None [write_edge 2 3]
      (bench_init 4 64 \<lparr>z1 = 1, z2 = 1, z3 = 1, z4 = 1, z5 = 1\<rparr>) = Some (Inr b') \<and>
    0 < NBFS b' \<and> bfs_root b' ! 0 = 0 \<and> \<not> touched [write_edge 2 3] 0"
proof -
  let ?b = "bench_init 4 64 \<lparr>z1 = 1, z2 = 1, z3 = 1, z4 = 1, z5 = 1\<rparr>"
  have b: "nvtx_scale ?b = 4" "NBFS ?b = 64" by (simp_all add: bench_init_def)
  obtain b' where r: "choose_roots (\<lambda>n. Some (replicate n 0)) None [write_edge 2 3] ?b = Some (Inr b')"
      "roots_ok [write_edge 2 3] ?b b'"
    using choose_roots_result [of "\<lambda>n. Some (replicate n 0)" ?b "replicate 4 0" "[write_edge 2 3]"] bench_init_ok rank_adj_example b
    by (auto simp: alloc_law_def edges_within_def)
  have n: "NBFS b' = 2" using r(2) b by (simp add: roots_ok_def rank_adj_example)
  have bounds: "\<forall>i. 0 \<le> i \<and> i < 2 \<longrightarrow> 0 \<le> bfs_root b' ! nat i \<and> bfs_root b' ! nat i < 2"
    and incr: "\<forall>i j. 0 \<le> i \<and> i < j \<and> j < 2 \<longrightarrow> bfs_root b' ! nat i < bfs_root b' ! nat j"
    using r(2) unfolding roots_ok_def n b rank_adj_example by blast+
  have "bfs_root b' ! 0 = 0" using bounds [rule_format, of 0] bounds [rule_format, of 1] incr [rule_format, of 0 1] by simp
  then show ?thesis using r(1) n by (auto simp: touched_def)
qed

subsection \<open>Reading a file\<close>

lemma read_all_reads:
  fixes read :: "'f \<Rightarrow> int \<Rightarrow> int \<times> 'f"
  assumes "0 \<le> count" "\<And>f n. 0 < n \<Longrightarrow> 0 < fst (read f n) \<and> fst (read f n) \<le> n"
  shows "\<exists>f'. read_all read count f = Some (count, f')"
proof -
  let ?b = "\<lambda>(got :: int, r :: int, f :: 'f). Some (0 \<le> r \<and> got < count)"
  let ?I = "\<lambda>(got :: int, r :: int, f :: 'f). 0 \<le> r \<and> got \<le> count"
  have "\<exists>s. while_opt ?b (\<lambda>(got, r, f).
          let (r, f) = read f (count - got) in
          Some (if r < 0 then got else got + r, r, f)) (0, 0, f) = Some s \<and> ?I s \<and> ?b s = Some False"
  proof (rule while_opt_inv [where I = ?I and m = "\<lambda>(got, r, f). nat (count - got)"])
    fix s :: "int \<times> int \<times> 'f"
    assume I: "?I s" and b: "?b s = Some True"
    obtain c r f where s: "s = (c, r, f)" by (cases s)
    show "\<exists>s'. (case s of (got, r, f) \<Rightarrow> let (r, f) = read f (count - got) in
          Some (if r < 0 then got else got + r, r, f)) = Some s' \<and> ?I s' \<and>
        (case s' of (got, r, f) \<Rightarrow> nat (count - got)) < (case s of (got, r, f) \<Rightarrow> nat (count - got))"
      using b s assms(2) [of "count - c" f] by (simp add: split_beta Let_def)
  qed (use assms(1) in auto)
  then obtain c r f' where "while_opt ?b (\<lambda>(got, r, f).
          let (r, f) = read f (count - got) in
          Some (if r < 0 then got else got + r, r, f)) (0, 0, f) = Some (c, r, f')"
      "0 \<le> r" "c = count"
    by auto
  then show ?thesis by (simp add: read_all_def)
qed

text \<open>At the end of a file that is too short, the system call returns 0 and the loop does not end.\<close>

lemma read_all_short_file:
  assumes "0 < count"
  shows "read_all (\<lambda>f n. (0, f)) count f = None"
proof -
  have "while_opt (\<lambda>(got, r, f). Some (0 \<le> r \<and> got < count))
      (\<lambda>(got, r, f). let (r, f) = (0, f) in Some (if r < 0 then got else got + r, r, f)) (0, 0, f) = None"
    by (rule while_opt_diverges [of "\<lambda>(got, r, f). got = 0 \<and> r = 0"]) (use assms in auto)
  then show ?thesis by (simp add: read_all_def)
qed

end
