(* ===== verification/SeqList.thy ===== *)
theory SeqList
  imports Driver
begin

text \<open>
  The sequential linked-list implementation of Graph500 (\<open>seq-list/seq-list.c\<close>).  The ends of all
  edges are numbered, \<open>2 * k\<close> and \<open>2 * k + 1\<close> for edge \<open>k\<close>; \<open>head\<close> and \<open>next\<close> link the ends into one
  list per vertex.  The three arrays are parts of one allocation.
\<close>

subsection \<open>Definitions\<close>

record edge_lists =
  maxvtx :: int
  maxdeg :: int
  nIJ :: int
  IJ_in :: "packed_edge list"
  head :: "int list"
  degs :: "int list"
  nxt :: "int list"

text \<open>Put the end \<open>t\<close> in front of the list of a vertex.\<close>

definition push_end :: "int \<Rightarrow> int \<Rightarrow> edge_lists \<Rightarrow> edge_lists option" where
  "push_end v t g = do {
     t_head \<leftarrow> rd (head g) v;
     hd \<leftarrow> wr (head g) v t;
     assert_opt (t_head < 2 * nIJ g);
     nx \<leftarrow> wr (nxt g) t t_head;
     dg \<leftarrow> incr v (degs g);
     Some (g\<lparr>head := hd, nxt := nx, degs := dg\<rparr>)
   }"

definition link_edge :: "int \<Rightarrow> edge_lists \<Rightarrow> edge_lists option" where
  "link_edge k g = do {
     e \<leftarrow> rd (IJ_in g) k;
     let i = get_v0_from_edge e;
     let j = get_v1_from_edge e;
     if i \<ge> 0 \<and> j \<ge> 0 \<and> i \<noteq> j then do {
       nx \<leftarrow> wr (nxt g) (2 * k) (-1);
       nx \<leftarrow> wr nx (1 + 2 * k) (-1);
       g \<leftarrow> push_end i (2 * k + 1) (g\<lparr>nxt := nx\<rparr>);
       push_end j (2 * k + 1 - 1) g
     } else Some g
   }"

definition clear_lists :: "int \<Rightarrow> int list \<times> int list \<Rightarrow> (int list \<times> int list) option" where
  "clear_lists m = for_up 0 (m + 1) (\<lambda>k (hd, dg). do {
     hd \<leftarrow> wr hd k (-1);
     dg \<leftarrow> wr dg k 0;
     Some (hd, dg)
   })"

definition find_maxdeg :: "edge_lists \<Rightarrow> int option" where
  "find_maxdeg g = for_up 0 (maxvtx g + 1) (\<lambda>k md. do {
     d \<leftarrow> rd (degs g) k;
     Some (if d > md then d else md)
   }) (-1)"

definition create_graph_from_edgelist :: "allocator \<Rightarrow> packed_edge list \<Rightarrow> (int + edge_lists) option" where
  "create_graph_from_edgelist alloc IJ =
    (let m = fold max_vtx IJ (-1); n = int (length IJ) in
     case alloc (nat (2 * (m + 1) + 2 * n)) of
       None \<Rightarrow> Some (Inl (-1))
     | Some a \<Rightarrow> do {
         let v = nat (m + 1);
         (hd, dg) \<leftarrow> clear_lists m (take v a, take v (drop v a));
         g \<leftarrow> for_up 0 n link_edge \<lparr>maxvtx = m, maxdeg = -1, nIJ = n, IJ_in = IJ, head = hd, degs = dg,
           nxt = drop (2 * v) a\<rparr>;
         md \<leftarrow> find_maxdeg g;
         Some (Inr (g\<lparr>maxdeg := md\<rparr>))
       })"

definition far_end :: "packed_edge \<Rightarrow> int \<Rightarrow> int" where
  "far_end e p = (if p mod 2 \<noteq> 0 then get_v1_from_edge e else get_v0_from_edge e)"

definition discover_unset :: "int \<Rightarrow> int \<Rightarrow> vqueue \<Rightarrow> vqueue option" where
  "discover_unset parent newv = (\<lambda>(bfs_tree, vlist, newk2). do {
     t \<leftarrow> rd bfs_tree newv;
     if t < 0 then do {
       bfs_tree \<leftarrow> wr bfs_tree newv parent;
       vlist \<leftarrow> wr vlist newk2 newv;
       Some (bfs_tree, vlist, newk2 + 1)
     } else Some (bfs_tree, vlist, newk2)
   })"

definition scan_list :: "edge_lists \<Rightarrow> int \<Rightarrow> int \<times> vqueue \<Rightarrow> (int \<times> vqueue) option" where
  "scan_list g parent = while_opt (\<lambda>(p, s). Some (p \<ge> 0))
     (\<lambda>(p, s). do {
        e \<leftarrow> rd (IJ_in g) (p div 2);
        s \<leftarrow> discover_unset parent (far_end e p) s;
        p \<leftarrow> rd (nxt g) p;
        Some (p, s)
      })"

text \<open>The inner loop, whose bound \<open>k2\<close> its body moves; the state is \<open>k\<close>, \<open>k1\<close>, \<open>k2\<close> and the rest.\<close>

definition scan_queue :: "edge_lists \<Rightarrow> int \<times> int \<times> int \<times> vqueue \<Rightarrow> (int \<times> int \<times> int \<times> vqueue) option" where
  "scan_queue g = while_opt (\<lambda>(k, k1, k2, s). Some (k < k2))
     (\<lambda>(k, k1, k2, bfs_tree, vlist, newk2). do {
        parent \<leftarrow> rd vlist k;
        p \<leftarrow> rd (head g) parent;
        (p, bfs_tree, vlist, newk2) \<leftarrow> scan_list g parent (p, bfs_tree, vlist, newk2);
        Some (k + 1, k2, newk2, bfs_tree, vlist, newk2)
      })"

definition search_loop :: "edge_lists \<Rightarrow> int \<times> int \<times> int list \<times> int list \<Rightarrow> (int \<times> int \<times> int list \<times> int list) option" where
  "search_loop g = while_opt (\<lambda>(k1, k2, s). Some (k1 \<noteq> k2))
     (\<lambda>(k1, k2, bfs_tree, vlist). do {
        (k, k1, k2, bfs_tree, vlist, newk2) \<leftarrow> scan_queue g (k1, k1, k2, bfs_tree, vlist, k2);
        Some (k1, k2, bfs_tree, vlist)
      })"

definition make_bfs_tree ::
    "allocator \<Rightarrow> edge_lists \<Rightarrow> int list \<Rightarrow> int \<Rightarrow> (int \<times> int \<times> int list) option" where
  "make_bfs_tree alloc g bfs_tree_out srcvtx = do {
     let nv = maxvtx g + 1;
     bfs_tree \<leftarrow> wr bfs_tree_out srcvtx srcvtx;
     case alloc (nat nv) of
       None \<Rightarrow> Some (-1, maxvtx g, bfs_tree)
     | Some vlist \<Rightarrow> do {
         bfs_tree \<leftarrow> wr bfs_tree srcvtx srcvtx;
         vlist \<leftarrow> wr vlist 0 srcvtx;
         bfs_tree \<leftarrow> for_up 0 srcvtx (\<lambda>k t. wr t k (-1)) bfs_tree;
         bfs_tree \<leftarrow> for_up (srcvtx + 1) nv (\<lambda>k t. wr t k (-1)) bfs_tree;
         (_, _, bfs_tree, _) \<leftarrow> search_loop g (0, 1, bfs_tree, vlist);
         Some (0, maxvtx g, bfs_tree)
       }
   }"

subsection \<open>The lists of ends\<close>

fun chain :: "int list \<Rightarrow> int \<Rightarrow> int list \<Rightarrow> bool" where
  "chain nx p [] \<longleftrightarrow> p = -1"
| "chain nx p (q # qs) \<longleftrightarrow> p = q \<and> 0 \<le> q \<and> q < int (length nx) \<and> chain nx (nx ! nat q) qs"

lemma chain_update: "t \<notin> set ps \<Longrightarrow> 0 \<le> t \<Longrightarrow> chain (nx[nat t := x]) p ps \<longleftrightarrow> chain nx p ps"
proof (induction ps arbitrary: p)
  case (Cons q qs)
  have "0 \<le> q \<Longrightarrow> nx[nat t := x] ! nat q = nx ! nat q" using Cons.prems by (simp add: eq_nat_nat_iff)
  then show ?case using Cons.IH Cons.prems by (simp cong: conj_cong)
qed simp

definition linked :: "edge_lists \<Rightarrow> nat \<Rightarrow> int \<Rightarrow> int list \<Rightarrow> bool" where
  "linked g k v ps \<longleftrightarrow> chain (nxt g) (head g ! nat v) ps \<and> set ps \<subseteq> {0..<2 * int k} \<and>
     (\<lambda>p. far_end (IJ_in g ! nat (p div 2)) p) ` set ps = edge_nbrs (take k (IJ_in g)) v \<and>
     degs g ! nat v = int (length ps)"

definition lists_ok :: "nat \<Rightarrow> edge_lists \<Rightarrow> bool" where
  "lists_ok k g \<longleftrightarrow> maxvtx g = max_vertex (IJ_in g) \<and> nIJ g = int (length (IJ_in g)) \<and>
     int (length (head g)) = maxvtx g + 1 \<and> int (length (degs g)) = maxvtx g + 1 \<and>
     int (length (nxt g)) = 2 * nIJ g \<and>
     (\<forall>v. 0 \<le> v \<and> v \<le> maxvtx g \<longrightarrow> (\<exists>ps. linked g k v ps))"

lemma linked_head:
  assumes "linked g k v ps"
  shows "head g ! nat v = -1 \<or> head g ! nat v < 2 * int k"
  using assms by (cases ps) (auto simp: linked_def)

lemma link_edge_skip:
  assumes "lists_ok k g" "k < length (IJ_in g)"
    "\<not> (get_v0_from_edge (IJ_in g ! k) \<ge> 0 \<and> get_v1_from_edge (IJ_in g ! k) \<ge> 0 \<and>
        get_v0_from_edge (IJ_in g ! k) \<noteq> get_v1_from_edge (IJ_in g ! k))"
  shows "link_edge (int k) g = Some g" "lists_ok (Suc k) g"
proof -
  show "link_edge (int k) g = Some g" using assms(2,3) by (auto simp: link_edge_def)
  let ?e = "IJ_in g ! k"
  have none: "\<not> (v \<noteq> w \<and> 0 \<le> v \<and> 0 \<le> w \<and> (get_v0_from_edge ?e = v \<and> get_v1_from_edge ?e = w \<or>
      get_v0_from_edge ?e = w \<and> get_v1_from_edge ?e = v))" for v w using assms(3) by metis
  have "edge_nbrs (take (Suc k) (IJ_in g)) v = edge_nbrs (take k (IJ_in g)) v" for v
    unfolding take_Suc_conv_app_nth [OF assms(2)] edge_nbrs_snoc using none by blast
  then have "linked g k v ps \<Longrightarrow> linked g (Suc k) v ps" for v ps unfolding linked_def by fastforce
  then show "lists_ok (Suc k) g" using assms(1) unfolding lists_ok_def by blast
qed

text \<open>Linking one end to the list of its vertex.\<close>

definition add_end :: "int \<Rightarrow> int \<Rightarrow> edge_lists \<Rightarrow> edge_lists" where
  "add_end v t g = g\<lparr>head := (head g)[nat v := t], nxt := (nxt g)[nat t := head g ! nat v],
     degs := (degs g)[nat v := degs g ! nat v + 1]\<rparr>"

lemma push_end_eq:
  assumes "0 \<le> v" "v < int (length (head g))" "v < int (length (degs g))" "0 \<le> t" "t < int (length (nxt g))"
    "head g ! nat v < 2 * nIJ g"
  shows "push_end v t g = Some (add_end v t g)"
  using assms by (simp add: push_end_def add_end_def incr_result)

lemma add_end_chain:
  assumes "chain (nxt g) (head g ! nat u) ps" "t \<notin> set ps" "0 \<le> t" "t < int (length (nxt g))"
    "0 \<le> u" "0 \<le> v" "v < int (length (head g))"
  shows "chain (nxt (add_end v t g)) (head (add_end v t g) ! nat u) (if u = v then t # ps else ps)"
  using assms chain_update [OF assms(2,3)] by (auto simp: add_end_def nth_list_update_int)

lemma link_edge_eq:
  assumes ok: "lists_ok k g" and k: "k < length (IJ_in g)"
    and e: "i = get_v0_from_edge (IJ_in g ! k)" "j = get_v1_from_edge (IJ_in g ! k)" "i \<ge> 0" "j \<ge> 0" "i \<noteq> j"
  defines "g0 \<equiv> g\<lparr>nxt := (nxt g)[nat (2 * int k) := -1, nat (1 + 2 * int k) := -1]\<rparr>"
  shows "link_edge (int k) g = Some (add_end j (2 * int k) (add_end i (2 * int k + 1) g0))" "i \<le> maxvtx g" "j \<le> maxvtx g"
proof -
  have "IJ_in g ! k \<in> set (IJ_in g)" using k by simp
  then show b: "i \<le> maxvtx g" "j \<le> maxvtx g"
    using max_vertex_bound [of "IJ_in g"] ok e(1,2) by (auto simp: lists_ok_def list_all_iff)
  have L: "int (length (head g)) = maxvtx g + 1" "int (length (degs g)) = maxvtx g + 1"
      "int (length (nxt g)) = 2 * nIJ g" "nIJ g = int (length (IJ_in g))" using ok by (auto simp: lists_ok_def)
  have hd: "head g ! nat v < 2 * nIJ g" if "0 \<le> v" "v \<le> maxvtx g" for v
  proof -
    have "\<exists>ps. linked g k v ps" using ok that unfolding lists_ok_def by blast
    then obtain ps where "linked g k v ps" by blast
    from linked_head [OF this] k L(4) show ?thesis by linarith
  qed
  have "push_end i (2 * int k + 1) g0 = Some (add_end i (2 * int k + 1) g0)"
    using hd [OF e(3) b(1)] L b e k by (intro push_end_eq) (auto simp: g0_def)
  moreover have "push_end j (2 * int k) (add_end i (2 * int k + 1) g0) =
      Some (add_end j (2 * int k) (add_end i (2 * int k + 1) g0))"
    using hd [OF e(4) b(2)] L b e(3-5) k
    by (intro push_end_eq) (auto simp: g0_def add_end_def nth_list_update_int)
  ultimately show "link_edge (int k) g = Some (add_end j (2 * int k) (add_end i (2 * int k + 1) g0))"
    using k e L by (simp add: link_edge_def g0_def)
qed

lemma link_edge_linked:
  fixes g :: edge_lists and k :: nat
  defines "i \<equiv> get_v0_from_edge (IJ_in g ! k)" and "j \<equiv> get_v1_from_edge (IJ_in g ! k)"
  defines "g0 \<equiv> g\<lparr>nxt := (nxt g)[nat (2 * int k) := -1, nat (1 + 2 * int k) := -1]\<rparr>"
  defines "g' \<equiv> add_end j (2 * int k) (add_end i (2 * int k + 1) g0)"
  assumes ok: "lists_ok k g" and k: "k < length (IJ_in g)" and e: "i \<ge> 0" "j \<ge> 0" "i \<noteq> j" "i \<le> maxvtx g" "j \<le> maxvtx g"
    and v: "0 \<le> v" "v \<le> maxvtx g" and ps: "linked g k v ps"
  shows "linked g' (Suc k) v (if v = j then 2 * int k # ps else if v = i then (2 * int k + 1) # ps else ps)"
proof -
  have L: "int (length (head g)) = maxvtx g + 1" "int (length (degs g)) = maxvtx g + 1"
      "int (length (nxt g)) = 2 * int (length (IJ_in g))" using ok by (auto simp: lists_ok_def)
  have fresh: "2 * int k \<notin> set ps" "2 * int k + 1 \<notin> set ps" using ps by (auto simp: linked_def)
  then have f: "1 + 2 * int k \<notin> set ps" by (simp add: add.commute)
  have c0: "chain (nxt g0) (head g0 ! nat v) ps"
    using ps chain_update [OF f] chain_update [OF fresh(1)] by (simp add: g0_def linked_def)
  have len: "int (length (nxt g0)) = 2 * int (length (IJ_in g))" "int (length (head g0)) = maxvtx g + 1"
    using L by (simp_all add: g0_def)
  let ?ps1 = "if v = i then (2 * int k + 1) # ps else ps"
  have c1: "chain (nxt (add_end i (2 * int k + 1) g0)) (head (add_end i (2 * int k + 1) g0) ! nat v) ?ps1"
    using fresh(2) k len v(1) e by (intro add_end_chain [OF c0]) auto
  have c2: "chain (nxt g') (head g' ! nat v) (if v = j then 2 * int k # ?ps1 else ?ps1)"
    unfolding g'_def using fresh k len v(1) e by (intro add_end_chain [OF c1]) (auto simp: add_end_def)
  have deg: "degs g' ! nat v = degs g ! nat v + of_bool (v = i) + of_bool (v = j)"
    using L v e by (auto simp: g'_def add_end_def g0_def nth_list_update_int)
  have "edge_nbrs (take (Suc k) (IJ_in g)) v = edge_nbrs (take k (IJ_in g)) v \<union>
      (if v = j then {i} else if v = i then {j} else {})"
    unfolding take_Suc_conv_app_nth [OF k] edge_nbrs_snoc i_def [symmetric] j_def [symmetric] using e v by auto
  moreover have "far_end (IJ_in g ! nat (2 * int k div 2)) (2 * int k) = i"
      "far_end (IJ_in g ! nat ((2 * int k + 1) div 2)) (2 * int k + 1) = j"
    by (simp_all add: far_end_def i_def j_def)
  moreover have "IJ_in g' = IJ_in g" by (simp add: g'_def add_end_def g0_def)
  ultimately show ?thesis using ps c2 deg e(3) unfolding linked_def by (auto split: if_splits)
qed

lemma link_edge_result:
  assumes ok: "lists_ok k g" and k: "k < length (IJ_in g)"
  shows "\<exists>g'. link_edge (int k) g = Some g' \<and> lists_ok (Suc k) g' \<and> IJ_in g' = IJ_in g"
proof -
  define i j where "i = get_v0_from_edge (IJ_in g ! k)" and "j = get_v1_from_edge (IJ_in g ! k)"
  show ?thesis
  proof (cases "i \<ge> 0 \<and> j \<ge> 0 \<and> i \<noteq> j")
    case False
    then show ?thesis using link_edge_skip [OF ok k] by (simp add: i_def j_def)
  next
    case True
    then have e: "i \<ge> 0" "j \<ge> 0" "i \<noteq> j" by auto
    note eq = link_edge_eq [OF ok k i_def j_def e]
    define g0 where "g0 = g\<lparr>nxt := (nxt g)[nat (2 * int k) := -1, nat (1 + 2 * int k) := -1]\<rparr>"
    define g' where "g' = add_end j (2 * int k) (add_end i (2 * int k + 1) g0)"
    have same: "IJ_in g' = IJ_in g" "maxvtx g' = maxvtx g" "nIJ g' = nIJ g" "length (head g') = length (head g)"
        "length (degs g') = length (degs g)" "length (nxt g') = length (nxt g)"
      by (simp_all add: g'_def g0_def add_end_def)
    have "\<exists>ps. linked g' (Suc k) v ps" if v: "0 \<le> v" "v \<le> maxvtx g" for v
    proof -
      obtain ps where "linked g k v ps" using ok v unfolding lists_ok_def by blast
      from link_edge_linked [OF ok k, folded i_def j_def, OF e eq(2,3) v this] show ?thesis
        unfolding g'_def g0_def by blast
    qed
    then have "lists_ok (Suc k) g'" using ok same unfolding lists_ok_def by simp
    moreover have "link_edge (int k) g = Some g'" using eq(1) by (simp add: g'_def g0_def)
    ultimately show ?thesis using same(1) by blast
  qed
qed

lemma link_edges_result:
  assumes "lists_ok 0 g"
  shows "\<exists>g'. for_up 0 (nIJ g) link_edge g = Some g' \<and> lists_ok (length (IJ_in g)) g' \<and> IJ_in g' = IJ_in g"
proof -
  have n: "nIJ g = int (length (IJ_in g))" using assms by (simp add: lists_ok_def)
  have "\<exists>g'. for_up 0 (nIJ g) link_edge g = Some g' \<and> (lists_ok (nat (nIJ g)) g' \<and> IJ_in g' = IJ_in g)"
  proof (rule for_up_inv [where I = "\<lambda>k g'. lists_ok (nat k) g' \<and> IJ_in g' = IJ_in g"])
    fix k g'
    assume k: "0 \<le> k" "k < nIJ g" and I: "lists_ok (nat k) g' \<and> IJ_in g' = IJ_in g"
    have "nat (k + 1) = Suc (nat k)" using k by (simp add: nat_add_distrib)
    with link_edge_result [of "nat k" g'] I k n
    show "\<exists>g''. link_edge k g' = Some g'' \<and> lists_ok (nat (k + 1)) g'' \<and> IJ_in g'' = IJ_in g" by auto
  qed (use assms n in auto)
  then show ?thesis using n by simp
qed

lemma clear_lists_result:
  assumes "int (length hs) = m + 1" "int (length dg) = m + 1" "0 \<le> m + 1"
  shows "\<exists>hs' dg'. clear_lists m (hs, dg) = Some (hs', dg') \<and> int (length hs') = m + 1 \<and> int (length dg') = m + 1 \<and>
    (\<forall>v. 0 \<le> v \<and> v \<le> m \<longrightarrow> hs' ! nat v = -1 \<and> dg' ! nat v = 0)"
proof -
  let ?I = "\<lambda>k (hs', dg'). int (length hs') = m + 1 \<and> int (length dg') = m + 1 \<and>
    (\<forall>v. 0 \<le> v \<and> v < k \<longrightarrow> hs' ! nat v = (-1 :: int) \<and> dg' ! nat v = (0 :: int))"
  have "\<exists>s. clear_lists m (hs, dg) = Some s \<and> ?I (m + 1) s"
    unfolding clear_lists_def
    by (rule for_up_inv [where I = ?I]) (use assms in \<open>auto simp: nth_list_update_int\<close>)
  then show ?thesis by auto
qed

lemma find_maxdeg_returns:
  assumes "lists_ok k g"
  shows "\<exists>md. find_maxdeg g = Some md"
proof -
  have "\<exists>md. find_maxdeg g = Some md \<and> True"
    unfolding find_maxdeg_def
    by (rule for_up_inv) (use assms max_vertex_ge [of "IJ_in g"] in \<open>auto simp: lists_ok_def\<close>)
  then show ?thesis by simp
qed

lemma create_lists_result:
  assumes "alloc_law alloc"
  shows "(create_graph_from_edgelist alloc IJ = Some (Inl (-1)) \<and> (\<exists>k. alloc k = None)) \<or>
    (\<exists>g. create_graph_from_edgelist alloc IJ = Some (Inr g) \<and> lists_ok (length IJ) g \<and> IJ_in g = IJ)"
proof -
  let ?m = "max_vertex IJ" and ?n = "int (length IJ)"
  have m: "fold max_vtx IJ (-1) = ?m" "0 \<le> ?m + 1" using fold_max_vtx [of "-1" IJ] max_vertex_ge [of IJ] by auto
  show ?thesis
  proof (cases "alloc (nat (2 * (?m + 1) + 2 * ?n))")
    case None
    then show ?thesis by (auto simp: create_graph_from_edgelist_def m(1))
  next
    case (Some a)
    let ?v = "nat (?m + 1)"
    have len: "int (length a) = 2 * (?m + 1) + 2 * ?n" using alloc_lawD [OF assms Some] m(2) by simp
    have l2: "int (length (take ?v a)) = ?m + 1" "int (length (take ?v (drop ?v a))) = ?m + 1"
      using len m(2) by (simp_all add: of_nat_diff)
    obtain hd dg where
      c: "clear_lists ?m (take ?v a, take ?v (drop ?v a)) = Some (hd, dg)"
        "int (length hd) = ?m + 1" "int (length dg) = ?m + 1"
        "\<And>u. 0 \<le> u \<Longrightarrow> u \<le> ?m \<Longrightarrow> hd ! nat u = -1 \<and> dg ! nat u = 0"
      using clear_lists_result [OF l2 m(2)] by blast
    define g0 where "g0 = \<lparr>maxvtx = ?m, maxdeg = -1, nIJ = ?n, IJ_in = IJ, head = hd, degs = dg, nxt = drop (2 * ?v) a\<rparr>"
    have "linked g0 0 u []" if "0 \<le> u" "u \<le> ?m" for u using c(4) [OF that] by (simp add: g0_def linked_def)
    moreover have "int (length (drop (2 * ?v) a)) = 2 * ?n" using len m(2) by (simp add: of_nat_diff)
    ultimately have "lists_ok 0 g0" using c(2,3) unfolding lists_ok_def g0_def by (auto simp: g0_def)
    from link_edges_result [OF this] obtain g where g: "for_up 0 ?n link_edge g0 = Some g" "lists_ok (length IJ) g" "IJ_in g = IJ"
      by (auto simp: g0_def)
    obtain md where md: "find_maxdeg g = Some md" using find_maxdeg_returns [OF g(2)] by blast
    have "linked (g\<lparr>maxdeg := md\<rparr>) k v ps \<longleftrightarrow> linked g k v ps" for k v ps by (simp add: linked_def)
    then have "lists_ok (length IJ) (g\<lparr>maxdeg := md\<rparr>)" using g(2) by (simp add: lists_ok_def)
    moreover have "create_graph_from_edgelist alloc IJ = Some (Inr (g\<lparr>maxdeg := md\<rparr>))"
      using Some c(1) g(1) md by (simp add: create_graph_from_edgelist_def m(1) g0_def Let_def)
    ultimately show ?thesis using g(3) by (auto intro!: exI [of _ "g\<lparr>maxdeg := md\<rparr>"])
  qed
qed

subsection \<open>The search\<close>

lemma scan_list_eq:
  assumes "chain (nxt g) p ps" "\<forall>q \<in> set ps. q div 2 < int (length (IJ_in g))"
  shows "scan_list g parent (p, s) =
    map_option (Pair (-1)) (for_each (discover_unset parent) (map (\<lambda>q. far_end (IJ_in g ! nat (q div 2)) q) ps) s)"
  using assms
proof (induction ps arbitrary: p s)
  case Nil
  then show ?case unfolding scan_list_def by (simp add: while_opt_unfold(2))
next
  case (Cons q qs)
  let ?f = "\<lambda>q. far_end (IJ_in g ! nat (q div 2)) q"
  have q: "p = q" "0 \<le> q" "q < int (length (nxt g))" "chain (nxt g) (nxt g ! nat q) qs" "q div 2 < int (length (IJ_in g))"
    using Cons.prems by auto
  have "scan_list g parent (p, s) = discover_unset parent (?f q) s \<bind> (\<lambda>s. scan_list g parent (nxt g ! nat q, s))"
    unfolding scan_list_def
    by (subst while_opt_unfold(1)) (use q in \<open>auto simp: pos_imp_zdiv_nonneg_iff split: bind_split\<close>)
  then show ?case using Cons.IH [OF q(4)] Cons.prems(2) by (auto split: bind_split)
qed

lemma discover_unset_eq:
  assumes "\<forall>i. 0 \<le> i \<and> i < n \<longrightarrow> -1 \<le> tree ! nat i" "0 \<le> parent" "\<forall>j \<in> set js. 0 \<le> j \<and> j < n" "n \<le> int (length tree)"
  shows "for_each (discover_unset parent) js (tree, vl, k) = for_each (discover parent) js (tree, vl, k)"
  using assms
proof (induction js arbitrary: tree vl k)
  case (Cons j js)
  have j: "0 \<le> j" "j < n" "-1 \<le> tree ! nat j" "j < int (length tree)" using Cons.prems by auto
  have up: "\<forall>i. 0 \<le> i \<and> i < n \<longrightarrow> -1 \<le> tree[nat j := parent] ! nat i"
    using Cons.prems(1,2) j by (auto simp: nth_list_update_int)
  show ?case
  proof (cases "tree ! nat j = -1")
    case True
    then show ?thesis using Cons.IH [OF up] Cons.prems j
      by (auto simp: discover_unset_def discover_def split: bind_split)
  next
    case False
    then show ?thesis using Cons.IH [OF Cons.prems(1)] Cons.prems j
      by (auto simp: discover_unset_def discover_def split: bind_split)
  qed
qed simp

lemma bfs_inv_entries:
  assumes "bfs_inv E r n tree q k" "0 \<le> i" "i < n"
  shows "-1 \<le> tree ! nat i"
proof (cases "i \<in> set q")
  case True
  have "queue_ok n tree q" using assms(1) by (simp add: bfs_inv_def)
  then have pos: "j \<in> set q \<Longrightarrow> 0 \<le> j" for j using queue_range by blast
  have "tree ! nat i \<in> set q" using assms(1) True by (cases "i = r") (auto simp: bfs_inv_def)
  from pos [OF this] show ?thesis by simp
next
  case False
  then show ?thesis using assms by (auto simp: bfs_inv_def queue_ok_def)
qed

text \<open>One vertex of the queue.\<close>

lemma scan_ends_result:
  assumes g: "lists_ok (length IJ) g" "IJ_in g = IJ" and k: "k < length q"
    and inv: "bfs_inv (edge_nbrs IJ) r (maxvtx g + 1) tree q k" and arr: "in_array (maxvtx g + 1) q vlist"
  shows "\<exists>p tree' q' vlist'. rd vlist (int k) = Some (q ! k) \<and> rd (head g) (q ! k) = Some p \<and>
    scan_list g (q ! k) (p, tree, vlist, int (length q)) = Some (-1, tree', vlist', int (length q')) \<and>
    length tree' = length tree \<and> bfs_inv (edge_nbrs IJ) r (maxvtx g + 1) tree' q' (Suc k) \<and>
    in_array (maxvtx g + 1) q' vlist' \<and> length q \<le> length q'"
proof -
  let ?n = "maxvtx g + 1" and ?f = "\<lambda>p. far_end (IJ ! nat (p div 2)) p"
  have qo: "queue_ok ?n tree q" using inv by (simp add: bfs_inv_def)
  have v: "0 \<le> q ! k" "q ! k < ?n" using queue_range [OF qo nth_mem [OF k]] by auto
  have "\<exists>ps. linked g (length IJ) (q ! k) ps" using g(1) v unfolding lists_ok_def by auto
  then obtain ps where ps: "chain (nxt g) (head g ! nat (q ! k)) ps" "set ps \<subseteq> {0..<2 * int (length IJ)}"
      "?f ` set ps = edge_nbrs IJ (q ! k)" by (auto simp: linked_def g(2))
  have E: "\<And>u. edge_nbrs IJ u \<subseteq> {0..<?n}"
    using edge_nbrs_below [of "maxvtx g + 1" IJ] max_vertex_bound [of IJ] g by (fastforce simp: lists_ok_def list_all_iff)
  have js: "set (map ?f ps) = edge_nbrs IJ (q ! k)" using ps(3) by simp
  obtain tree' q' vlist' where step: "for_each (discover (q ! k)) (map ?f ps) (tree, vlist, int (length q)) =
        Some (tree', vlist', int (length q'))" "length tree' = length tree" "bfs_inv (edge_nbrs IJ) r ?n tree' q' (Suc k)"
      "in_array ?n q' vlist'" "\<exists>new. q' = q @ new"
    using bfs_array_step [OF inv arr k js E] by blast
  have range: "\<forall>j \<in> set (map ?f ps). 0 \<le> j \<and> j < ?n" using E [of "q ! k"] unfolding js by auto
  have "\<forall>i. 0 \<le> i \<and> i < ?n \<longrightarrow> -1 \<le> tree ! nat i" using bfs_inv_entries [OF inv] by blast
  from discover_unset_eq [OF this v(1) range] step(1) qo
  have "for_each (discover_unset (q ! k)) (map ?f ps) (tree, vlist, int (length q)) = Some (tree', vlist', int (length q'))"
    by (simp add: queue_ok_def)
  moreover have "\<forall>q \<in> set ps. q div 2 < int (length (IJ_in g))" using ps(2) g(2) by fastforce
  ultimately have "scan_list g (q ! k) (head g ! nat (q ! k), tree, vlist, int (length q)) = Some (-1, tree', vlist', int (length q'))"
    using scan_list_eq [OF ps(1)] g(2) by simp
  moreover have "rd (head g) (q ! k) = Some (head g ! nat (q ! k))" using v g(1) by (simp add: lists_ok_def)
  moreover have "rd vlist (int k) = Some (q ! k)" using arr k in_array_nth [OF arr k] by (simp add: in_array_def)
  ultimately show ?thesis using step by auto
qed

definition scan_inv :: "packed_edge list \<Rightarrow> edge_lists \<Rightarrow> int \<Rightarrow> nat \<Rightarrow> int \<times> int \<times> int \<times> vqueue \<Rightarrow> bool" where
  "scan_inv IJ g r len = (\<lambda>(k, k1, k2, tree, vlist, newk2). newk2 = k2 \<and> length tree = len \<and> 0 \<le> k \<and> k \<le> k2 \<and>
     (k < k2 \<or> k1 = k2) \<and> (\<exists>q. k2 = int (length q) \<and> in_array (maxvtx g + 1) q vlist \<and>
       bfs_inv (edge_nbrs IJ) r (maxvtx g + 1) tree q (nat k)))"

lemma scan_queue_result:
  assumes g: "lists_ok (length IJ) g" "IJ_in g = IJ" and I: "scan_inv IJ g r len s"
  shows "\<exists>k tree vlist. scan_queue g s = Some (k, k, k, tree, vlist, k) \<and> scan_inv IJ g r len (k, k, k, tree, vlist, k)"
proof -
  let ?b = "\<lambda>(k, k1, k2, s). Some (k < k2)"
  have "\<exists>s'. scan_queue g s = Some s' \<and> scan_inv IJ g r len s' \<and> ?b s' = Some False"
    unfolding scan_queue_def
  proof (rule while_opt_inv [where I = "scan_inv IJ g r len" and m = "\<lambda>(k, k1, k2, s). nat (maxvtx g + 1 - k)"])
    fix s
    assume I: "scan_inv IJ g r len s" and b: "?b s = Some True"
    obtain k k1 tree vlist q where s: "s = (k, k1, int (length q), tree, vlist, int (length q))" "length tree = len" "0 \<le> k"
        "in_array (maxvtx g + 1) q vlist" "bfs_inv (edge_nbrs IJ) r (maxvtx g + 1) tree q (nat k)"
      using I by (cases s) (auto simp: scan_inv_def)
    have k: "nat k < length q" "int (nat k) = k" "k < int (length q)" using b s(1,3) by auto
    obtain p tree' q' vlist' where st: "rd vlist k = Some (q ! nat k)" "rd (head g) (q ! nat k) = Some p"
        "scan_list g (q ! nat k) (p, tree, vlist, int (length q)) = Some (-1, tree', vlist', int (length q'))"
        "length tree' = length tree" "bfs_inv (edge_nbrs IJ) r (maxvtx g + 1) tree' q' (Suc (nat k))"
        "in_array (maxvtx g + 1) q' vlist'" "length q \<le> length q'"
      using scan_ends_result [OF g k(1) s(5,4)] unfolding k(2) by blast
    let ?s = "(k + 1, int (length q), int (length q'), tree', vlist', int (length q'))"
    have "scan_inv IJ g r len ?s" using st(4-7) s(2,3) k(1,3) by (auto simp: scan_inv_def nat_add_distrib intro!: exI [of _ q'])
    moreover have "int (length q) \<le> maxvtx g + 1" using s(4) by (auto simp: in_array_def)
    ultimately show "\<exists>s'. (case s of (k, k1, k2, bfs_tree, vlist, newk2) \<Rightarrow> do {
        parent \<leftarrow> rd vlist k;
        p \<leftarrow> rd (head g) parent;
        (p, bfs_tree, vlist, newk2) \<leftarrow> scan_list g parent (p, bfs_tree, vlist, newk2);
        Some (k + 1, k2, newk2, bfs_tree, vlist, newk2)
      }) = Some s' \<and> scan_inv IJ g r len s' \<and>
        (case s' of (k, k1, k2, s) \<Rightarrow> nat (maxvtx g + 1 - k)) < (case s of (k, k1, k2, s) \<Rightarrow> nat (maxvtx g + 1 - k))"
      using st(1-3) s(1) k(3) by (intro exI [of _ ?s]) simp
  qed (use I in auto)
  then obtain k k1 k2 tree vlist k3 where r: "scan_queue g s = Some (k, k1, k2, tree, vlist, k3)"
      "scan_inv IJ g r len (k, k1, k2, tree, vlist, k3)" "?b (k, k1, k2, tree, vlist, k3) = Some False"
    unfolding split_paired_Ex by (elim exE conjE) (rule that)
  then have "k1 = k \<and> k2 = k \<and> k3 = k" by (auto simp: scan_inv_def)
  then show ?thesis using r by auto
qed

lemma search_loop_result:
  assumes g: "lists_ok (length IJ) g" "IJ_in g = IJ" and I: "scan_inv IJ g r len (0, 0, 1, tree, vlist, 1)"
  shows "\<exists>k tree' vlist'. search_loop g (0, 1, tree, vlist) = Some (k, k, tree', vlist') \<and>
    scan_inv IJ g r len (k, k, k, tree', vlist', k)"
proof -
  obtain k t v where s: "scan_queue g (0, 0, 1, tree, vlist, 1) = Some (k, k, k, t, v, k)" "scan_inv IJ g r len (k, k, k, t, v, k)"
    using scan_queue_result [OF g I] by blast
  have "search_loop g (0, 1, tree, vlist) = search_loop g (k, k, t, v)"
    unfolding search_loop_def by (subst while_opt_unfold(1)) (simp_all add: s(1))
  also have "\<dots> = Some (k, k, t, v)" unfolding search_loop_def by (subst while_opt_unfold(2)) simp_all
  finally show ?thesis using s(2) by blast
qed

lemma make_tree_result:
  assumes al: "alloc_law alloc" and g: "lists_ok (length IJ) g" "IJ_in g = IJ"
    and src: "0 \<le> src" "src \<le> max_vertex IJ" "max_vertex IJ < int (length out)"
  shows "(alloc (nat (max_vertex IJ + 1)) = None \<and> (\<exists>t. make_bfs_tree alloc g out src = Some (-1, max_vertex IJ, t))) \<or>
    (\<exists>tree. make_bfs_tree alloc g out src = Some (0, max_vertex IJ, tree) \<and> length tree = length out \<and>
      bfs_tree_of (edge_nbrs IJ) src (max_vertex IJ + 1) tree)"
proof (cases "alloc (nat (max_vertex IJ + 1))")
  case None
  then show ?thesis using g src by (simp add: make_bfs_tree_def lists_ok_def)
next
  case (Some vlist)
  let ?n = "max_vertex IJ + 1"
  have m: "maxvtx g = max_vertex IJ" using g by (simp add: lists_ok_def)
  have vl: "int (length vlist) = ?n" using alloc_lawD [OF al Some] src by simp
  define t0 where "t0 = out[nat src := src]"
  have t0: "length t0 = length out" "t0 ! nat src = src" using src by (simp_all add: t0_def)
  obtain t1 where t1: "for_up 0 src (\<lambda>k t. wr t k (-1)) t0 = Some t1" "length t1 = length t0"
      "\<forall>i. 0 \<le> i \<and> i < int (length t0) \<longrightarrow> t1 ! nat i = (if 0 \<le> i \<and> i < src then -1 else t0 ! nat i)"
    using fill_range [of 0 src t0 "-1"] src t0(1) by auto
  obtain t2 where t2: "for_up (src + 1) ?n (\<lambda>k t. wr t k (-1)) t1 = Some t2" "length t2 = length t1"
      "\<forall>i. 0 \<le> i \<and> i < int (length t1) \<longrightarrow> t2 ! nat i = (if src + 1 \<le> i \<and> i < ?n then -1 else t1 ! nat i)"
    using fill_range [of "src + 1" ?n t1 "-1"] src t0(1) t1(2) by auto
  have fill: "t2 ! nat i = (if i = src then src else -1)" if "0 \<le> i" "i < ?n" for i
    using that t1(2,3) t2(3) t0 src by auto
  have "bfs_inv (edge_nbrs IJ) src ?n t2 [src] 0"
    using fill src t0 t1(2) t2(2) by (intro bfs_inv_init) auto
  moreover have "in_array ?n [src] (vlist[0 := src])" using vl src by (cases vlist) (auto simp: in_array_def)
  ultimately have "scan_inv IJ g src (length out) (0, 0, 1, t2, vlist[0 := src], 1)"
    using t0 t1(2) t2(2) m by (auto simp: scan_inv_def intro!: exI [of _ "[src]"])
  from search_loop_result [OF g this] obtain k tree vl' where
    r: "search_loop g (0, 1, t2, vlist[0 := src]) = Some (k, k, tree, vl')" "scan_inv IJ g src (length out) (k, k, k, tree, vl', k)" by blast
  have "\<And>u. edge_nbrs IJ u \<subseteq> {0..<?n}"
    using edge_nbrs_below [of ?n IJ] max_vertex_bound [of IJ] by (fastforce simp: list_all_iff)
  then have "length tree = length out \<and> bfs_tree_of (edge_nbrs IJ) src ?n tree"
    using r(2) bfs_inv_done [of "edge_nbrs IJ" src ?n tree] m by (auto simp: scan_inv_def)
  moreover have "make_bfs_tree alloc g out src = Some (0, max_vertex IJ, tree)"
    using Some t1(1) t2(1) r(1) src vl m t0 by (simp add: make_bfs_tree_def t0_def)
  ultimately show ?thesis by blast
qed

interpretation lst: bfs_backend "\<lambda>_. True" create_graph_from_edgelist make_bfs_tree
proof
  fix alloc IJ
  assume al: "alloc_law alloc"
  show "(\<exists>g. create_graph_from_edgelist alloc IJ = Some (Inr g)) \<or>
      (\<exists>e n. create_graph_from_edgelist alloc IJ = Some (Inl e) \<and> e \<noteq> 0 \<and> alloc n = None)"
    using create_lists_result [OF al, of IJ] by (elim disjE conjE exE) (simp_all, blast)
  fix g src and out :: "int list"
  assume c: "create_graph_from_edgelist alloc IJ = Some (Inr g)"
    and b: "0 \<le> src" "src \<le> max_vertex IJ" "max_vertex IJ < int (length out)"
  have g: "lists_ok (length IJ) g" "IJ_in g = IJ"
    using create_lists_result [OF al, of IJ] c by (elim disjE conjE exE; simp)+
  show "(\<exists>tree. make_bfs_tree alloc g out src = Some (0, max_vertex IJ, tree) \<and> length tree = length out \<and>
         bfs_tree_of (edge_nbrs IJ) src (max_vertex IJ + 1) tree) \<or>
      (\<exists>e m t n. make_bfs_tree alloc g out src = Some (e, m, t) \<and> e \<noteq> 0 \<and> alloc n = None)"
    using make_tree_result [OF al g b] by (elim disjE conjE exE) (simp, blast, simp)
qed

text \<open>
  C22: With the linked-list implementation, every search on the graph of any edge list ends within
  its arrays, and its result passes the validation with the number of input edges in the component
  of the source.
\<close>

theorem seq_list_search_validates:
  assumes "alloc_law alloc" "\<forall>n. alloc n \<noteq> None" "0 \<le> src" "src \<le> max_vertex IJ" "max_vertex IJ < int (length out)"
  shows "\<exists>g tree. create_graph_from_edgelist alloc IJ = Some (Inr g) \<and>
    make_bfs_tree alloc g out src = Some (0, max_vertex IJ, tree) \<and>
    verify_bfs_tree alloc tree (max_vertex IJ) src IJ = Some (component_edges IJ src)"
proof -
  obtain g where g: "create_graph_from_edgelist alloc IJ = Some (Inr g)"
    using lst.create_total [OF assms(1,2) TrueI] by blast
  from lst.search_validates [OF assms(1,2) TrueI g assms(3-5)] g show ?thesis by blast
qed

theorem seq_list_search_validates_witness:
  "\<exists>g tree. create_graph_from_edgelist (\<lambda>n. Some (replicate n 0)) [write_edge 0 1, write_edge 2 1] = Some (Inr g) \<and>
    make_bfs_tree (\<lambda>n. Some (replicate n 0)) g [5, 5, 5] 2 = Some (0, 2, tree) \<and>
    verify_bfs_tree (\<lambda>n. Some (replicate n 0)) tree 2 2 [write_edge 0 1, write_edge 2 1] =
      Some (component_edges [write_edge 0 1, write_edge 2 1] 2)"
  using seq_list_search_validates [of "\<lambda>n. Some (replicate n 0)" 2 "[write_edge 0 1, write_edge 2 1]" "[5, 5, 5]"]
  by (simp add: alloc_law_def)

end
