(* ===== verification/SeqCsr.thy ===== *)
theory SeqCsr
  imports Driver
begin

text \<open>
  The sequential compressed-row implementation of Graph500 (\<open>seq-csr/seq-csr.c\<close>): construction
  of the adjacency structure from an edge list and the breadth-first search on it.  The static
  variables of the file are the record \<open>csr\<close>; \<open>alloc\<close> stands for the allocator, which returns an
  array of the requested length with any contents, or fails.
\<close>

subsection \<open>State\<close>

record csr =
  maxvtx :: int
  nv :: int
  xoff :: "int list"
  xadjstore :: "int list"

definition MINVECT_SIZE :: int where
  "MINVECT_SIZE = 2"

text \<open>\<open>xadj\<close> points \<open>MINVECT_SIZE\<close> elements into \<open>xadjstore\<close>.\<close>

definition rd_xadj :: "int list \<Rightarrow> int \<Rightarrow> int option" where
  "rd_xadj store k = rd store (MINVECT_SIZE + k)"

definition wr_xadj :: "int list \<Rightarrow> int \<Rightarrow> int \<Rightarrow> int list option" where
  "wr_xadj store k x = wr store (MINVECT_SIZE + k) x"

subsection \<open>Construction\<close>

definition find_nv :: "packed_edge list \<Rightarrow> int \<times> int" where
  "find_nv IJ = (let m = fold max_vtx IJ (-1) in (m, 1 + m))"

definition alloc_graph :: "allocator \<Rightarrow> int \<Rightarrow> int list option" where
  "alloc_graph alloc n = alloc (nat (2 * n + 2))"

definition count_degrees :: "packed_edge list \<Rightarrow> int list \<Rightarrow> int list option" where
  "count_degrees = for_each (\<lambda>e xo.
     let i = get_v0_from_edge e; j = get_v1_from_edge e in
     if i \<noteq> j then do {
       xo \<leftarrow> (if i \<ge> 0 then incr (2 * i) xo else Some xo);
       (if j \<ge> 0 then incr (2 * j) xo else Some xo)
     } else Some xo)"

definition accum_offsets :: "int \<Rightarrow> int list \<Rightarrow> (int \<times> int list) option" where
  "accum_offsets n xo = for_up 0 n (\<lambda>k (accum, xo). do {
     tmp \<leftarrow> rd xo (2 * k);
     let tmp = (if tmp < MINVECT_SIZE then MINVECT_SIZE else tmp);
     xo \<leftarrow> wr xo (2 * k) accum;
     Some (accum + tmp, xo)
   }) (0, xo)"

definition copy_offsets :: "int \<Rightarrow> int list \<Rightarrow> int list option" where
  "copy_offsets n = for_up 0 n (\<lambda>k xo. do {
     x \<leftarrow> rd xo (2 * k);
     wr xo (1 + 2 * k) x
   })"

text \<open>The result \<open>Inl\<close> is the error code of a failed allocation.\<close>

definition setup_deg_off ::
    "allocator \<Rightarrow> packed_edge list \<Rightarrow> int \<Rightarrow> int list \<Rightarrow> (int + int list \<times> int list) option" where
  "setup_deg_off alloc IJ n xo = do {
     xo \<leftarrow> for_up 0 (2 * n + 2) (\<lambda>k xo. wr xo k 0) xo;
     xo \<leftarrow> count_degrees IJ xo;
     (accum, xo) \<leftarrow> accum_offsets n xo;
     xo \<leftarrow> wr xo (2 * n) accum;
     xo \<leftarrow> copy_offsets n xo;
     case alloc (nat (accum + MINVECT_SIZE)) of
       None \<Rightarrow> Some (Inl (-1))
     | Some store \<Rightarrow> do {
         store \<leftarrow> for_up 0 (accum + MINVECT_SIZE) (\<lambda>k s. wr s k (-1)) store;
         Some (Inr (xo, store))
       }
   }"

definition scatter_edge :: "int \<Rightarrow> int \<Rightarrow> csr \<Rightarrow> csr option" where
  "scatter_edge i j g = do {
     w \<leftarrow> rd (xoff g) (1 + 2 * i);
     xo \<leftarrow> wr (xoff g) (1 + 2 * i) (w + 1);
     store \<leftarrow> wr_xadj (xadjstore g) w j;
     Some (g\<lparr>xoff := xo, xadjstore := store\<rparr>)
   }"

definition i64cmp :: "int \<Rightarrow> int \<Rightarrow> int" where
  "i64cmp ia ib = (if ia < ib then -1 else if ia > ib then 1 else 0)"

text \<open>The C library's \<open>qsort\<close> with a comparison function, on a part of an array.\<close>

fun insert_by :: "('a \<Rightarrow> 'a \<Rightarrow> int) \<Rightarrow> 'a \<Rightarrow> 'a list \<Rightarrow> 'a list" where
  "insert_by cmp x [] = [x]"
| "insert_by cmp x (y # ys) = (if cmp x y \<le> 0 then x # y # ys else y # insert_by cmp x ys)"

definition qsort :: "('a \<Rightarrow> 'a \<Rightarrow> int) \<Rightarrow> 'a list \<Rightarrow> 'a list" where
  "qsort cmp xs = foldr (insert_by cmp) xs []"

definition qsort_range :: "('a \<Rightarrow> 'a \<Rightarrow> int) \<Rightarrow> 'a list \<Rightarrow> int \<Rightarrow> int \<Rightarrow> 'a list option" where
  "qsort_range cmp xs lo n =
    (if 0 \<le> lo \<and> 0 \<le> n \<and> lo + n \<le> int (length xs)
     then Some (take (nat lo) xs @ qsort cmp (take (nat n) (drop (nat lo) xs)) @ drop (nat (lo + n)) xs)
     else None)"

definition dedup_edges :: "int \<Rightarrow> int \<Rightarrow> int list \<Rightarrow> (int list \<times> int) option" where
  "dedup_edges lo hi store = for_up (lo + 1) hi (\<lambda>k (store, kcur). do {
     a \<leftarrow> rd_xadj store k;
     b \<leftarrow> rd_xadj store kcur;
     if a \<noteq> b then do {
       store \<leftarrow> wr_xadj store (kcur + 1) a;
       Some (store, kcur + 1)
     } else Some (store, kcur)
   }) (store, lo)"

definition pack_vtx_edges :: "int \<Rightarrow> csr \<Rightarrow> csr option" where
  "pack_vtx_edges i g = do {
     lo \<leftarrow> rd (xoff g) (2 * i);
     hi \<leftarrow> rd (xoff g) (1 + 2 * i);
     if lo + 1 \<ge> hi then Some g
     else do {
       store \<leftarrow> qsort_range i64cmp (xadjstore g) (MINVECT_SIZE + lo) (hi - lo);
       (store, kcur) \<leftarrow> dedup_edges lo hi store;
       let kcur = kcur + 1;
       store \<leftarrow> for_up kcur hi (\<lambda>k s. wr_xadj s k (-1)) store;
       xo \<leftarrow> wr (xoff g) (1 + 2 * i) kcur;
       Some (g\<lparr>xoff := xo, xadjstore := store\<rparr>)
     }
   }"

definition pack_edges :: "csr \<Rightarrow> csr option" where
  "pack_edges g = for_up 0 (nv g) pack_vtx_edges g"

definition gather_edge :: "packed_edge \<Rightarrow> csr \<Rightarrow> csr option" where
  "gather_edge e g =
    (let i = get_v0_from_edge e; j = get_v1_from_edge e in
     if i \<ge> 0 \<and> j \<ge> 0 \<and> i \<noteq> j then scatter_edge i j g \<bind> scatter_edge j i
     else Some g)"

definition gather_edges :: "packed_edge list \<Rightarrow> csr \<Rightarrow> csr option" where
  "gather_edges IJ g = for_each gather_edge IJ g \<bind> pack_edges"

definition create_graph_from_edgelist :: "allocator \<Rightarrow> packed_edge list \<Rightarrow> (int + csr) option" where
  "create_graph_from_edgelist alloc IJ =
    (let (m, n) = find_nv IJ in
     case alloc_graph alloc n of
       None \<Rightarrow> Some (Inl (-1))
     | Some xo \<Rightarrow> do {
         r \<leftarrow> setup_deg_off alloc IJ n xo;
         case r of
           Inl err \<Rightarrow> Some (Inl (-1))
         | Inr (xo, store) \<Rightarrow>
             map_option Inr (gather_edges IJ \<lparr>maxvtx = m, nv = n, xoff = xo, xadjstore = store\<rparr>)
       })"

subsection \<open>Search\<close>

definition scan_vertex :: "csr \<Rightarrow> int \<Rightarrow> vqueue \<Rightarrow> vqueue option" where
  "scan_vertex g k = (\<lambda>(bfs_tree, vlist, k2). do {
     v \<leftarrow> rd vlist k;
     veo \<leftarrow> rd (xoff g) (1 + 2 * v);
     vo \<leftarrow> rd (xoff g) (2 * v);
     for_up vo veo (\<lambda>vo s. rd_xadj (xadjstore g) vo \<bind> (\<lambda>j. discover v j s)) (bfs_tree, vlist, k2)
   })"

definition bfs_levels :: "csr \<Rightarrow> int \<times> vqueue \<Rightarrow> (int \<times> vqueue) option" where
  "bfs_levels g = while_opt (\<lambda>(k1, bfs_tree, vlist, k2). Some (k1 \<noteq> k2))
     (\<lambda>(k1, bfs_tree, vlist, k2). do {
        let oldk2 = k2;
        s \<leftarrow> for_up k1 oldk2 (scan_vertex g) (bfs_tree, vlist, k2);
        Some (oldk2, s)
      })"

text \<open>The result is the error code, \<open>*max_vtx_out\<close> and the array \<open>bfs_tree_out\<close>.\<close>

definition make_bfs_tree ::
    "allocator \<Rightarrow> csr \<Rightarrow> int list \<Rightarrow> int \<Rightarrow> (int \<times> int \<times> int list) option" where
  "make_bfs_tree alloc g bfs_tree_out srcvtx =
    (case alloc (nat (nv g)) of
       None \<Rightarrow> Some (-1, maxvtx g, bfs_tree_out)
     | Some vlist \<Rightarrow> do {
         bfs_tree \<leftarrow> for_up 0 (nv g) (\<lambda>k t. wr t k (-1)) bfs_tree_out;
         vlist \<leftarrow> wr vlist 0 srcvtx;
         bfs_tree \<leftarrow> wr bfs_tree srcvtx srcvtx;
         (_, bfs_tree, _, _) \<leftarrow> bfs_levels g (0, bfs_tree, vlist, 1);
         Some (0, maxvtx g, bfs_tree)
       })"

subsection \<open>The number of vertices\<close>

lemma find_nv_eq: "find_nv IJ = (max_vertex IJ, 1 + max_vertex IJ)"
  using fold_max_vtx [of "-1" IJ] max_vertex_ge [of IJ] by (simp add: find_nv_def Let_def)

lemma find_nv_ge: "-1 \<le> fst (find_nv IJ)" and find_nv_snd: "snd (find_nv IJ) = 1 + fst (find_nv IJ)"
  using max_vertex_ge [of IJ] by (simp_all add: find_nv_eq)

lemma find_nv_bound:
  assumes "e \<in> set IJ"
  shows "get_v0_from_edge e \<le> fst (find_nv IJ)" "get_v1_from_edge e \<le> fst (find_nv IJ)"
  using max_vertex_bound [of IJ] assms by (auto simp: find_nv_eq list_all_iff)

lemma edge_nbrs_range: "edge_nbrs IJ u \<subseteq> {0..<snd (find_nv IJ)}"
  unfolding edge_nbrs_def find_nv_snd using find_nv_bound [of _ IJ] by fastforce

subsection \<open>Degrees and offsets\<close>

definition edge_deg :: "int \<Rightarrow> packed_edge \<Rightarrow> int" where
  "edge_deg v e = (if get_v0_from_edge e = get_v1_from_edge e then 0
     else of_bool (get_v0_from_edge e = v) + of_bool (get_v1_from_edge e = v))"

definition deg :: "packed_edge list \<Rightarrow> int \<Rightarrow> int" where
  "deg IJ v = (\<Sum>e \<leftarrow> IJ. edge_deg v e)"

definition capacity :: "packed_edge list \<Rightarrow> int \<Rightarrow> int" where
  "capacity IJ v = max MINVECT_SIZE (deg IJ v)"

definition off :: "(int \<Rightarrow> int) \<Rightarrow> int \<Rightarrow> int" where
  "off c k = (\<Sum>u \<in> {0..<k}. c u)"

lemma off_0 [simp]: "off c 0 = 0"
  by (simp add: off_def)

lemma off_Suc: "0 \<le> k \<Longrightarrow> off c (k + 1) = off c k + c k"
proof -
  assume "0 \<le> k"
  then have "{0..<k + 1} = insert k {0..<k}" by auto
  then show ?thesis by (simp add: off_def)
qed

lemma off_mono: "(\<And>u. 0 \<le> c u) \<Longrightarrow> j \<le> k \<Longrightarrow> off c j \<le> off c k"
  unfolding off_def by (rule sum_mono2) auto

lemma off_nonneg: "(\<And>u. 0 \<le> c u) \<Longrightarrow> 0 \<le> off c k"
  unfolding off_def by (rule sum_nonneg) simp

lemma count_degrees_result:
  assumes len: "int (length xo) = 2 * n + 2" and zero: "\<And>v. 0 \<le> v \<Longrightarrow> v < n \<Longrightarrow> xo ! nat (2 * v) = 0"
    and range: "\<And>e. e \<in> set IJ \<Longrightarrow> get_v0_from_edge e < n \<and> get_v1_from_edge e < n"
  shows "\<exists>xo'. count_degrees IJ xo = Some xo' \<and> int (length xo') = 2 * n + 2 \<and>
    (\<forall>v. 0 \<le> v \<and> v < n \<longrightarrow> xo' ! nat (2 * v) = deg IJ v)"
  unfolding count_degrees_def
proof (rule for_each_inv [where I = "\<lambda>ys xo. int (length xo) = 2 * n + 2 \<and>
    (\<forall>v. 0 \<le> v \<and> v < n \<longrightarrow> xo ! nat (2 * v) = deg ys v)"])
  show "int (length xo) = 2 * n + 2 \<and> (\<forall>v. 0 \<le> v \<and> v < n \<longrightarrow> xo ! nat (2 * v) = deg [] v)"
    using len zero by (simp add: deg_def)
next
  fix ys e zs xo
  assume "IJ = ys @ e # zs" and inv: "int (length xo) = 2 * n + 2 \<and>
    (\<forall>v. 0 \<le> v \<and> v < n \<longrightarrow> xo ! nat (2 * v) = deg ys v)"
  then have b: "get_v0_from_edge e < n" "get_v1_from_edge e < n" using range [of e] by auto
  have app: "deg (ys @ [e]) v = deg ys v + edge_deg v e" for v by (simp add: deg_def)
  show "\<exists>t'. (let i = get_v0_from_edge e; j = get_v1_from_edge e in
       if i \<noteq> j then do {
         xo \<leftarrow> (if i \<ge> 0 then incr (2 * i) xo else Some xo);
         (if j \<ge> 0 then incr (2 * j) xo else Some xo)
       } else Some xo) = Some t' \<and> int (length t') = 2 * n + 2 \<and>
      (\<forall>v. 0 \<le> v \<and> v < n \<longrightarrow> t' ! nat (2 * v) = deg (ys @ [e]) v)"
    using inv b
    by (auto simp: Let_def app edge_deg_def incr_result nth_list_update_int)
qed

lemma accum_offsets_result:
  assumes "int (length xo) = 2 * n + 2" "0 \<le> n"
    "\<And>v. 0 \<le> v \<Longrightarrow> v < n \<Longrightarrow> xo ! nat (2 * v) = deg IJ v"
  shows "\<exists>accum xo'. accum_offsets n xo = Some (accum, xo') \<and> accum = off (capacity IJ) n \<and>
    int (length xo') = 2 * n + 2 \<and>
    (\<forall>v. 0 \<le> v \<and> v < n \<longrightarrow> xo' ! nat (2 * v) = off (capacity IJ) v)"
proof -
  let ?I = "\<lambda>k (accum, xo'). accum = off (capacity IJ) k \<and> int (length xo') = 2 * n + 2 \<and>
    (\<forall>v. 0 \<le> v \<and> v < n \<longrightarrow> xo' ! nat (2 * v) = (if v < k then off (capacity IJ) v else deg IJ v))"
  have "\<exists>s. accum_offsets n xo = Some s \<and> ?I n s"
    unfolding accum_offsets_def
  proof (rule for_up_inv [where I = ?I])
    fix k s
    assume k: "0 \<le> k" "k < n" and inv: "?I k s"
    obtain accum xo where s: "s = (accum, xo)" by fastforce
    have "max MINVECT_SIZE (deg IJ k) = (if deg IJ k < MINVECT_SIZE then MINVECT_SIZE else deg IJ k)" by simp
    then show "\<exists>s'. (case s of (accum, xo) \<Rightarrow> do {
         tmp \<leftarrow> rd xo (2 * k);
         let tmp = (if tmp < MINVECT_SIZE then MINVECT_SIZE else tmp);
         xo \<leftarrow> wr xo (2 * k) accum;
         Some (accum + tmp, xo)
       }) = Some s' \<and> ?I (k + 1) s'"
      using k inv by (auto simp: s off_Suc capacity_def Let_def nth_list_update_int)
  qed (use assms in auto)
  then show ?thesis by auto
qed

lemma copy_offsets_result:
  assumes "int (length xo) = 2 * n + 2" "0 \<le> n"
  shows "\<exists>xo'. copy_offsets n xo = Some xo' \<and> int (length xo') = 2 * n + 2 \<and>
    (\<forall>v. 0 \<le> v \<and> v \<le> n \<longrightarrow> xo' ! nat (2 * v) = xo ! nat (2 * v)) \<and>
    (\<forall>v. 0 \<le> v \<and> v < n \<longrightarrow> xo' ! nat (1 + 2 * v) = xo ! nat (2 * v))"
  unfolding copy_offsets_def
proof (rule for_up_inv [where I = "\<lambda>k xo'. int (length xo') = 2 * n + 2 \<and>
    (\<forall>v. 0 \<le> v \<and> v \<le> n \<longrightarrow> xo' ! nat (2 * v) = xo ! nat (2 * v)) \<and>
    (\<forall>v. 0 \<le> v \<and> v < k \<longrightarrow> xo' ! nat (1 + 2 * v) = xo ! nat (2 * v))"])
  fix k xo'
  assume "0 \<le> k" "k < n" "int (length xo') = 2 * n + 2 \<and>
    (\<forall>v. 0 \<le> v \<and> v \<le> n \<longrightarrow> xo' ! nat (2 * v) = xo ! nat (2 * v)) \<and>
    (\<forall>v. 0 \<le> v \<and> v < k \<longrightarrow> xo' ! nat (1 + 2 * v) = xo ! nat (2 * v))"
  then show "\<exists>t'. do {
       x \<leftarrow> rd xo' (2 * k);
       wr xo' (1 + 2 * k) x
     } = Some t' \<and> int (length t') = 2 * n + 2 \<and>
    (\<forall>v. 0 \<le> v \<and> v \<le> n \<longrightarrow> t' ! nat (2 * v) = xo ! nat (2 * v)) \<and>
    (\<forall>v. 0 \<le> v \<and> v < k + 1 \<longrightarrow> t' ! nat (1 + 2 * v) = xo ! nat (2 * v))"
    by (auto simp: nth_list_update_int) presburger
qed (use assms in auto)

subsection \<open>Adjacency segments\<close>

text \<open>
  The vertex \<open>v\<close> owns the part of \<open>xadj\<close> from \<open>off v\<close> to \<open>off (v + 1)\<close>; \<open>seg\<close> is what is stored
  there up to its current end.
\<close>

definition csr_ok :: "(int \<Rightarrow> int) \<Rightarrow> csr \<Rightarrow> bool" where
  "csr_ok c g \<longleftrightarrow> 0 \<le> nv g \<and> (\<forall>v. 0 \<le> c v) \<and> int (length (xoff g)) = 2 * nv g + 2 \<and>
     (\<forall>v. 0 \<le> v \<and> v \<le> nv g \<longrightarrow> xoff g ! nat (2 * v) = off c v) \<and>
     (\<forall>v. 0 \<le> v \<and> v < nv g \<longrightarrow>
        off c v \<le> xoff g ! nat (1 + 2 * v) \<and> xoff g ! nat (1 + 2 * v) \<le> off c (v + 1)) \<and>
     int (length (xadjstore g)) = off c (nv g) + MINVECT_SIZE"

definition adj_part :: "int list \<Rightarrow> int \<Rightarrow> int \<Rightarrow> int list" where
  "adj_part store lo hi = map (\<lambda>k. store ! nat (MINVECT_SIZE + k)) [lo..hi - 1]"

lemma adj_part_snoc: "lo \<le> hi \<Longrightarrow> adj_part store lo (hi + 1) = adj_part store lo hi @ [store ! nat (MINVECT_SIZE + hi)]"
  using upto_rec2 [of lo hi] by (simp add: adj_part_def)

lemma adj_part_cong:
  "(\<And>k. lo \<le> k \<Longrightarrow> k < hi \<Longrightarrow> s ! nat (MINVECT_SIZE + k) = t ! nat (MINVECT_SIZE + k)) \<Longrightarrow> adj_part s lo hi = adj_part t lo hi"
  by (simp add: adj_part_def)

definition seg :: "csr \<Rightarrow> int \<Rightarrow> int list" where
  "seg g v = adj_part (xadjstore g) (xoff g ! nat (2 * v)) (xoff g ! nat (1 + 2 * v))"

lemma csr_okD:
  assumes "csr_ok c g"
  shows "0 \<le> nv g" "0 \<le> c u" "int (length (xoff g)) = 2 * nv g + 2"
    "0 \<le> v \<Longrightarrow> v \<le> nv g \<Longrightarrow> xoff g ! nat (2 * v) = off c v"
    "0 \<le> v \<Longrightarrow> v < nv g \<Longrightarrow> off c v \<le> xoff g ! nat (1 + 2 * v)"
    "0 \<le> v \<Longrightarrow> v < nv g \<Longrightarrow> xoff g ! nat (1 + 2 * v) \<le> off c (v + 1)"
    "int (length (xadjstore g)) = off c (nv g) + MINVECT_SIZE"
  using assms by (auto simp: csr_ok_def)

text \<open>Where the segment of a vertex lies.\<close>

lemma off_bounds:
  assumes "csr_ok c g" "0 \<le> v" "v < nv g"
  shows "0 \<le> off c v" "off c (v + 1) \<le> off c (nv g)" "off c v \<le> off c (v + 1)"
  using off_nonneg [of c v] off_mono [of c "v + 1" "nv g"] off_mono [of c v "v + 1"] csr_okD(2) [OF assms(1)] assms
  by auto

lemma segs_disjoint:
  assumes "csr_ok c g" "0 \<le> v" "v < nv g" "0 \<le> w" "w < nv g" "v \<noteq> w"
    "off c v \<le> k" "k < off c (v + 1)" "off c w \<le> l" "l < off c (w + 1)"
  shows "k \<noteq> l"
proof (cases "v < w")
  case True
  then have "off c (v + 1) \<le> off c w" using csr_okD(2) [OF assms(1)] by (intro off_mono) auto
  with assms show ?thesis by simp
next
  case False
  then have "off c (w + 1) \<le> off c v" using csr_okD(2) [OF assms(1)] assms(6) by (intro off_mono) auto
  with assms show ?thesis by simp
qed

lemma seg_length: "csr_ok c g \<Longrightarrow> 0 \<le> v \<Longrightarrow> v < nv g \<Longrightarrow>
    int (length (seg g v)) = xoff g ! nat (1 + 2 * v) - off c v"
  by (simp add: seg_def adj_part_def csr_okD)

lemma scatter_result:
  assumes ok: "csr_ok c g" and i: "0 \<le> i" "i < nv g" and room: "int (length (seg g i)) < c i"
  shows "\<exists>g'. scatter_edge i j g = Some g' \<and> csr_ok c g' \<and> nv g' = nv g \<and> maxvtx g' = maxvtx g \<and>
    (\<forall>v. 0 \<le> v \<and> v < nv g \<longrightarrow> seg g' v = (if v = i then seg g i @ [j] else seg g v))"
proof -
  let ?w = "xoff g ! nat (1 + 2 * i)"
  have w: "off c i \<le> ?w" "?w < off c (i + 1)"
    using csr_okD [OF ok] room i seg_length [OF ok i] off_Suc [OF i(1), of c] by auto
  have bounds: "0 \<le> MINVECT_SIZE + ?w" "MINVECT_SIZE + ?w < int (length (xadjstore g))"
    using w off_bounds [OF ok i] csr_okD(7) [OF ok] by (auto simp: MINVECT_SIZE_def)
  define g' where "g' = g\<lparr>xoff := (xoff g)[nat (1 + 2 * i) := ?w + 1],
      xadjstore := (xadjstore g)[nat (MINVECT_SIZE + ?w) := j]\<rparr>"
  have run: "scatter_edge i j g = Some g'"
    using bounds csr_okD(3) [OF ok] i by (simp add: scatter_edge_def wr_xadj_def g'_def)
  have lo: "xoff g' ! nat (2 * v) = xoff g ! nat (2 * v)" if "0 \<le> v" for v
    using that i csr_okD(3) [OF ok] by (auto simp: g'_def nth_list_update_int) presburger
  have hi: "xoff g' ! nat (1 + 2 * v) = (if v = i then ?w + 1 else xoff g ! nat (1 + 2 * v))" if "0 \<le> v" for v
    using that i csr_okD(3) [OF ok] by (auto simp: g'_def nth_list_update_int)
  have st: "xadjstore g' ! nat (MINVECT_SIZE + k) = (if k = ?w then j else xadjstore g ! nat (MINVECT_SIZE + k))" if "0 \<le> k" for k
    using that bounds by (auto simp: g'_def nth_list_update_int MINVECT_SIZE_def)
  have len: "nv g' = nv g" "maxvtx g' = maxvtx g" "length (xoff g') = length (xoff g)"
    "length (xadjstore g') = length (xadjstore g)" by (simp_all add: g'_def)
  have ok': "csr_ok c g'"
    unfolding csr_ok_def len using ok w csr_okD [OF ok] by (auto simp: lo hi)
  have segs: "seg g' v = (if v = i then seg g i @ [j] else seg g v)" if v: "0 \<le> v" "v < nv g" for v
  proof (cases "v = i")
    case True
    have "[off c i..?w] = [off c i..?w - 1] @ [?w]" using w(1) upto_rec2 [of "off c i" ?w] by simp
    then show ?thesis
      using True i lo hi st w(1) off_bounds(1) [OF ok i] csr_okD(4) [OF ok i(1)]
      by (simp add: seg_def adj_part_def)
  next
    case False
    have "k \<noteq> ?w" if "off c v \<le> k" "k < xoff g ! nat (1 + 2 * v)" for k
      using segs_disjoint [OF ok v i False that(1) _ w] that(2) csr_okD(6) [OF ok v] by linarith
    then show ?thesis
      using False v lo hi st off_bounds(1) [OF ok v] csr_okD(4) [OF ok v(1)]
      by (auto simp: seg_def adj_part_def)
  qed
  show ?thesis using run ok' len segs by blast
qed

subsection \<open>Gathering edges\<close>

definition edge_ends :: "int \<Rightarrow> packed_edge \<Rightarrow> int list" where
  "edge_ends v e =
    (let i = get_v0_from_edge e; j = get_v1_from_edge e in
     if i \<ge> 0 \<and> j \<ge> 0 \<and> i \<noteq> j then (if v = i then [j] else []) @ (if v = j then [i] else []) else [])"

definition nbr_list :: "packed_edge list \<Rightarrow> int \<Rightarrow> int list" where
  "nbr_list IJ v = concat (map (edge_ends v) IJ)"

lemma set_nbr_list: "set (nbr_list IJ v) = edge_nbrs IJ v"
  by (auto simp: nbr_list_def edge_ends_def edge_nbrs_def Let_def)

lemma edge_deg_nonneg: "0 \<le> edge_deg v e"
  by (simp add: edge_deg_def)

lemma edge_ends_deg: "int (length (edge_ends v e)) \<le> edge_deg v e"
  by (simp add: edge_ends_def edge_deg_def Let_def)

lemma nbr_list_deg: "int (length (nbr_list IJ v)) \<le> deg IJ v"
  unfolding nbr_list_def deg_def
proof (induction IJ)
  case (Cons e IJ)
  with edge_ends_deg [of v e] show ?case by simp
qed simp

lemma deg_append: "deg (ys @ zs) v = deg ys v + deg zs v"
  by (simp add: deg_def)

lemma deg_nonneg: "0 \<le> deg IJ v"
  unfolding deg_def by (rule sum_list_nonneg) (auto simp: edge_deg_nonneg)

lemma gather_loop_result:
  assumes ok: "csr_ok (capacity IJ) g" and empty: "\<And>v. 0 \<le> v \<Longrightarrow> v < nv g \<Longrightarrow> seg g v = []"
    and range: "\<And>e. e \<in> set IJ \<Longrightarrow> get_v0_from_edge e < nv g \<and> get_v1_from_edge e < nv g"
  shows "\<exists>g'. for_each gather_edge IJ g = Some g' \<and>
    (csr_ok (capacity IJ) g' \<and> nv g' = nv g \<and> maxvtx g' = maxvtx g \<and>
    (\<forall>v. 0 \<le> v \<and> v < nv g \<longrightarrow> seg g' v = nbr_list IJ v))"
proof (rule for_each_inv [where I = "\<lambda>ys g'. csr_ok (capacity IJ) g' \<and> nv g' = nv g \<and> maxvtx g' = maxvtx g \<and>
    (\<forall>v. 0 \<le> v \<and> v < nv g \<longrightarrow> seg g' v = nbr_list ys v)"])
  show "csr_ok (capacity IJ) g \<and> nv g = nv g \<and> maxvtx g = maxvtx g \<and>
    (\<forall>v. 0 \<le> v \<and> v < nv g \<longrightarrow> seg g v = nbr_list [] v)"
    using ok empty by (simp add: nbr_list_def)
next
  fix ys e zs h
  assume IJ: "IJ = ys @ e # zs" and inv: "csr_ok (capacity IJ) h \<and> nv h = nv g \<and> maxvtx h = maxvtx g \<and>
    (\<forall>v. 0 \<le> v \<and> v < nv g \<longrightarrow> seg h v = nbr_list ys v)"
  let ?i = "get_v0_from_edge e" and ?j = "get_v1_from_edge e"
  have app: "nbr_list (ys @ [e]) v = nbr_list ys v @ edge_ends v e" for v by (simp add: nbr_list_def)
  have room: "int (length (nbr_list ys v)) < capacity IJ v" if "v = ?i \<or> v = ?j" "?i \<noteq> ?j" for v
  proof -
    have "0 < edge_deg v e" using that by (auto simp: edge_deg_def)
    then show ?thesis
      using nbr_list_deg [of ys v] deg_nonneg [of zs v]
      unfolding IJ capacity_def deg_append by (simp add: deg_def)
  qed
  show "\<exists>t'. gather_edge e h = Some t' \<and>
    csr_ok (capacity IJ) t' \<and> nv t' = nv g \<and> maxvtx t' = maxvtx g \<and>
    (\<forall>v. 0 \<le> v \<and> v < nv g \<longrightarrow> seg t' v = nbr_list (ys @ [e]) v)"
  proof (cases "?i \<ge> 0 \<and> ?j \<ge> 0 \<and> ?i \<noteq> ?j")
    case False
    then show ?thesis using inv by (auto simp: app edge_ends_def gather_edge_def)
  next
    case True
    have b: "?i < nv h" "?j < nv h" using range [of e] IJ inv by auto
    obtain h1 where h1: "scatter_edge ?i ?j h = Some h1" "csr_ok (capacity IJ) h1" "nv h1 = nv h" "maxvtx h1 = maxvtx h"
      "\<forall>v. 0 \<le> v \<and> v < nv h \<longrightarrow> seg h1 v = (if v = ?i then seg h ?i @ [?j] else seg h v)"
      using scatter_result [of "capacity IJ" h ?i ?j] inv True b room [of ?i] by auto
    obtain h2 where h2: "scatter_edge ?j ?i h1 = Some h2" "csr_ok (capacity IJ) h2" "nv h2 = nv h1" "maxvtx h2 = maxvtx h1"
      "\<forall>v. 0 \<le> v \<and> v < nv h1 \<longrightarrow> seg h2 v = (if v = ?j then seg h1 ?j @ [?i] else seg h1 v)"
      using scatter_result [of "capacity IJ" h1 ?j ?i] inv True b room [of ?j] h1 by auto
    show ?thesis
      using True inv h1 h2 b by (auto simp: app edge_ends_def gather_edge_def)
  qed
qed

subsection \<open>Sorting and removing duplicates\<close>

lemma insert_by_i64cmp: "insert_by i64cmp = insort"
proof (intro ext)
  show "insert_by i64cmp x xs = insort x xs" for x xs
    by (induction xs) (auto simp: i64cmp_def)
qed

lemma qsort_i64cmp: "qsort i64cmp xs = sort xs"
  by (simp add: qsort_def sort_key_def insert_by_i64cmp)

lemma remdups_adj_snoc:
  "xs \<noteq> [] \<Longrightarrow> remdups_adj (xs @ [x]) = (if last xs = x then remdups_adj xs else remdups_adj xs @ [x])"
  by (induction xs rule: remdups_adj.induct) auto

lemma last_remdups_adj: "xs \<noteq> [] \<Longrightarrow> last (remdups_adj xs) = last xs"
  by (induction xs rule: remdups_adj.induct) auto

lemma dedup_result:
  assumes lo: "0 \<le> lo" "lo < hi" and len: "hi + MINVECT_SIZE \<le> int (length store)"
  shows "\<exists>store' kcur. dedup_edges lo hi store = Some (store', kcur) \<and> length store' = length store \<and>
    lo \<le> kcur \<and> kcur < hi \<and> adj_part store' lo (kcur + 1) = remdups_adj (adj_part store lo hi) \<and>
    (\<forall>k. -2 \<le> k \<and> (k < lo \<or> hi \<le> k) \<longrightarrow> store' ! nat (MINVECT_SIZE + k) = store ! nat (MINVECT_SIZE + k))"
proof -
  let ?I = "\<lambda>k (t, kcur). length t = length store \<and> lo \<le> kcur \<and> kcur < k \<and>
    adj_part t lo (kcur + 1) = remdups_adj (adj_part store lo k) \<and>
    (\<forall>i. -2 \<le> i \<and> (i < lo \<or> k \<le> i) \<longrightarrow> t ! nat (MINVECT_SIZE + i) = store ! nat (MINVECT_SIZE + i))"
  have "\<exists>s. dedup_edges lo hi store = Some s \<and> ?I hi s"
    unfolding dedup_edges_def
  proof (rule for_up_inv [where I = ?I])
    show "?I (lo + 1) (store, lo)" using adj_part_snoc [of lo lo store] by (simp add: adj_part_def)
    fix k s
    assume k: "lo + 1 \<le> k" "k < hi" and inv: "?I k s"
    obtain t kcur where s: "s = (t, kcur)" by fastforce
    have t: "length t = length store" "lo \<le> kcur" "kcur < k"
      "adj_part t lo (kcur + 1) = remdups_adj (adj_part store lo k)"
      "\<And>i. -2 \<le> i \<Longrightarrow> i < lo \<or> k \<le> i \<Longrightarrow> t ! nat (MINVECT_SIZE + i) = store ! nat (MINVECT_SIZE + i)"
      using inv by (auto simp: s)
    have ne: "adj_part store lo k \<noteq> []" using k lo by (simp add: adj_part_def)
    have last: "t ! nat (MINVECT_SIZE + kcur) = last (adj_part store lo k)"
      using arg_cong [OF t(4), of last] adj_part_snoc [OF t(2), of t] last_remdups_adj [OF ne] by simp
    have app: "remdups_adj (adj_part store lo (k + 1)) =
        (if last (adj_part store lo k) = store ! nat (MINVECT_SIZE + k) then remdups_adj (adj_part store lo k)
         else remdups_adj (adj_part store lo k) @ [store ! nat (MINVECT_SIZE + k)])"
      using remdups_adj_snoc [OF ne] adj_part_snoc [of lo k store] k by simp
    have kv: "t ! nat (MINVECT_SIZE + k) = store ! nat (MINVECT_SIZE + k)" using t(5) [of k] k lo by simp
    have rd1: "rd_xadj t k = Some (store ! nat (MINVECT_SIZE + k))" "rd_xadj t kcur = Some (last (adj_part store lo k))"
      using k lo len t kv last by (simp_all add: rd_xadj_def MINVECT_SIZE_def)
    show "\<exists>s'. (case s of (store, kcur) \<Rightarrow> do {
         a \<leftarrow> rd_xadj store k;
         b \<leftarrow> rd_xadj store kcur;
         if a \<noteq> b then do {
           store \<leftarrow> wr_xadj store (kcur + 1) a;
           Some (store, kcur + 1)
         } else Some (store, kcur)
       }) = Some s' \<and> ?I (k + 1) s'"
    proof (cases "last (adj_part store lo k) = store ! nat (MINVECT_SIZE + k)")
      case True
      then show ?thesis using t app rd1 by (auto simp: s)
    next
      case False
      let ?t = "t[nat (MINVECT_SIZE + (kcur + 1)) := store ! nat (MINVECT_SIZE + k)]"
      have w: "wr_xadj t (kcur + 1) x = Some (t[nat (MINVECT_SIZE + (kcur + 1)) := x])" for x
        using k lo len t unfolding wr_xadj_def by (intro wr_in) (simp_all add: MINVECT_SIZE_def)
      have upd: "?t ! nat (MINVECT_SIZE + i) = (if i = kcur + 1 then store ! nat (MINVECT_SIZE + k) else t ! nat (MINVECT_SIZE + i))"
        if "-2 \<le> i" for i
        using that k lo len t(1-3) by (auto simp: MINVECT_SIZE_def nth_list_update_int)
      have "adj_part ?t lo (kcur + 1 + 1) = adj_part t lo (kcur + 1) @ [store ! nat (MINVECT_SIZE + k)]"
        using adj_part_snoc [of lo "kcur + 1" ?t] t(2) lo upd
        by (simp add: adj_part_cong [of lo "kcur + 1" ?t t])
      then show ?thesis
        using False t app rd1 w upd k by (auto simp: s)
    qed
  qed (use lo in simp)
  then show ?thesis by auto
qed

lemma nth_middle_outside:
  assumes "length ys = n" "i < a \<or> a + n \<le> i" "b = a + n" "b \<le> length xs"
  shows "(take a xs @ ys @ drop b xs) ! i = xs ! i"
proof (cases "i < a")
  case False
  then have "i - a - n + b = i" "\<not> i < a" "\<not> i - a < n" using assms by auto
  then show ?thesis using assms by (simp add: nth_append add.commute)
qed (use assms in \<open>simp add: nth_append\<close>)

lemma qsort_range_result:
  assumes "0 \<le> lo" "lo \<le> hi" "hi + MINVECT_SIZE \<le> int (length store)"
  shows "\<exists>store'. qsort_range i64cmp store (MINVECT_SIZE + lo) (hi - lo) = Some store' \<and>
    length store' = length store \<and> adj_part store' lo hi = sort (adj_part store lo hi) \<and>
    (\<forall>k. -2 \<le> k \<and> (k < lo \<or> hi \<le> k) \<longrightarrow> store' ! nat (MINVECT_SIZE + k) = store ! nat (MINVECT_SIZE + k))"
proof -
  have part: "adj_part s lo hi = take (nat (hi - lo)) (drop (nat (MINVECT_SIZE + lo)) s)"
    if "length s = length store" for s
  proof (rule nth_equalityI)
    show "length (adj_part s lo hi) = length (take (nat (hi - lo)) (drop (nat (MINVECT_SIZE + lo)) s))"
      using assms that by (simp add: adj_part_def MINVECT_SIZE_def min_def) linarith
    fix i assume "i < length (adj_part s lo hi)"
    then show "adj_part s lo hi ! i = take (nat (hi - lo)) (drop (nat (MINVECT_SIZE + lo)) s) ! i"
      using assms that by (simp add: adj_part_def MINVECT_SIZE_def nat_add_distrib algebra_simps)
  qed
  let ?m = "take (nat (hi - lo)) (drop (nat (MINVECT_SIZE + lo)) store)"
  define store' where "store' = take (nat (MINVECT_SIZE + lo)) store @ sort ?m @ drop (nat (MINVECT_SIZE + lo + (hi - lo))) store"
  have run: "qsort_range i64cmp store (MINVECT_SIZE + lo) (hi - lo) = Some store'"
    using assms by (simp add: qsort_range_def qsort_i64cmp store'_def MINVECT_SIZE_def)
  have lm: "length ?m = nat (hi - lo)" using assms by (simp add: MINVECT_SIZE_def)
  have len: "length store' = length store"
    using assms lm by (simp add: store'_def MINVECT_SIZE_def)
  have "adj_part store' lo hi = sort (adj_part store lo hi)"
    unfolding part [OF len] part [OF refl] using lm assms
    by (simp add: store'_def MINVECT_SIZE_def)
  moreover have "store' ! nat (MINVECT_SIZE + k) = store ! nat (MINVECT_SIZE + k)"
    if "-2 \<le> k" "k < lo \<or> hi \<le> k" for k
    unfolding store'_def using that assms lm
    by (intro nth_middle_outside [of _ "nat (hi - lo)"]) (auto simp: MINVECT_SIZE_def)
  ultimately show ?thesis using run len by blast
qed

lemma wr_xadj_fill:
  assumes "0 \<le> lo" "lo \<le> hi" "hi + MINVECT_SIZE \<le> int (length store)"
  shows "\<exists>store'. for_up lo hi (\<lambda>k s. wr_xadj s k c) store = Some store' \<and> length store' = length store \<and>
    (\<forall>k. -2 \<le> k \<and> (k < lo \<or> hi \<le> k) \<longrightarrow> store' ! nat (MINVECT_SIZE + k) = store ! nat (MINVECT_SIZE + k))"
proof -
  have "\<exists>t. for_up lo hi (\<lambda>k s. wr_xadj s k c) store = Some t \<and> (length t = length store \<and>
    (\<forall>k. -2 \<le> k \<and> (k < lo \<or> hi \<le> k) \<longrightarrow> t ! nat (MINVECT_SIZE + k) = store ! nat (MINVECT_SIZE + k)))"
    by (rule for_up_inv)
       (use assms in \<open>auto simp: wr_xadj_def MINVECT_SIZE_def nth_list_update_int\<close>)
  then show ?thesis by simp
qed

lemma pack_vtx_result:
  assumes ok: "csr_ok c g" and i: "0 \<le> i" "i < nv g"
  shows "\<exists>g'. pack_vtx_edges i g = Some g' \<and> csr_ok c g' \<and> nv g' = nv g \<and> maxvtx g' = maxvtx g \<and>
    (\<forall>v. 0 \<le> v \<and> v < nv g \<longrightarrow> seg g' v = (if v = i then remdups_adj (sort (seg g i)) else seg g v))"
proof -
  let ?lo = "off c i" and ?hi = "xoff g ! nat (1 + 2 * i)"
  have lo: "xoff g ! nat (2 * i) = ?lo" using csr_okD(4) [OF ok] i by simp
  have b: "0 \<le> ?lo" "?lo \<le> ?hi" "?hi \<le> off c (i + 1)" "?hi + MINVECT_SIZE \<le> int (length (xadjstore g))"
    using csr_okD(5,6) [OF ok i] csr_okD(7) [OF ok] off_bounds [OF ok i] by simp_all
  have rds: "rd (xoff g) (2 * i) = Some ?lo" "rd (xoff g) (1 + 2 * i) = Some ?hi"
    using csr_okD(3) [OF ok] i lo by simp_all
  show ?thesis
  proof (cases "?lo + 1 \<ge> ?hi")
    case True
    then have "length (seg g i) \<le> 1" using seg_length [OF ok i] by linarith
    then have "remdups_adj (sort (seg g i)) = seg g i" by (cases "seg g i") auto
    then show ?thesis using True rds ok by (simp add: pack_vtx_edges_def)
  next
    case False
    obtain s1 where s1: "qsort_range i64cmp (xadjstore g) (MINVECT_SIZE + ?lo) (?hi - ?lo) = Some s1"
        "length s1 = length (xadjstore g)" "adj_part s1 ?lo ?hi = sort (adj_part (xadjstore g) ?lo ?hi)"
        "\<And>k. -2 \<le> k \<Longrightarrow> k < ?lo \<or> ?hi \<le> k \<Longrightarrow> s1 ! nat (MINVECT_SIZE + k) = xadjstore g ! nat (MINVECT_SIZE + k)"
      using qsort_range_result [OF b(1,2,4)] by blast
    obtain s2 kcur where s2: "dedup_edges ?lo ?hi s1 = Some (s2, kcur)" "length s2 = length s1" "?lo \<le> kcur" "kcur < ?hi"
        "adj_part s2 ?lo (kcur + 1) = remdups_adj (adj_part s1 ?lo ?hi)"
        "\<And>k. -2 \<le> k \<Longrightarrow> k < ?lo \<or> ?hi \<le> k \<Longrightarrow> s2 ! nat (MINVECT_SIZE + k) = s1 ! nat (MINVECT_SIZE + k)"
      using dedup_result [of ?lo ?hi s1] False b s1(2) by auto
    obtain s3 where s3: "for_up (kcur + 1) ?hi (\<lambda>k s. wr_xadj s k (-1)) s2 = Some s3" "length s3 = length s2"
        "\<And>k. -2 \<le> k \<Longrightarrow> k < kcur + 1 \<or> ?hi \<le> k \<Longrightarrow> s3 ! nat (MINVECT_SIZE + k) = s2 ! nat (MINVECT_SIZE + k)"
      using wr_xadj_fill [of "kcur + 1" ?hi s2 "-1"] b s1(2) s2(2-4) by auto
    define g' where "g' = g\<lparr>xoff := (xoff g)[nat (1 + 2 * i) := kcur + 1], xadjstore := s3\<rparr>"
    have run: "pack_vtx_edges i g = Some g'"
      using False rds s1(1) s2(1) s3(1) csr_okD(3) [OF ok] i by (simp add: pack_vtx_edges_def g'_def)
    have xo: "xoff g' ! nat (2 * v) = xoff g ! nat (2 * v)"
      "xoff g' ! nat (1 + 2 * v) = (if v = i then kcur + 1 else xoff g ! nat (1 + 2 * v))" if "0 \<le> v" for v
      using that i csr_okD(3) [OF ok] by (auto simp: g'_def nth_list_update_int) presburger
    have st: "xadjstore g' ! nat (MINVECT_SIZE + k) = xadjstore g ! nat (MINVECT_SIZE + k)"
      if "-2 \<le> k" "k < ?lo \<or> ?hi \<le> k" for k
      using s1(4) [OF that] s2(6) [OF that] s3(3) [OF that(1)] that(2) s2(3) by (simp add: g'_def) linarith
    have len: "nv g' = nv g" "maxvtx g' = maxvtx g" "length (xoff g') = length (xoff g)"
      "length (xadjstore g') = length (xadjstore g)" using s1(2) s2(2) s3(2) by (simp_all add: g'_def)
    have ok': "csr_ok c g'"
      unfolding csr_ok_def len
    proof (intro conjI allI impI)
      fix v
      assume v: "0 \<le> v \<and> v < nv g"
      then show "off c v \<le> xoff g' ! nat (1 + 2 * v)" "xoff g' ! nat (1 + 2 * v) \<le> off c (v + 1)"
        using csr_okD(5,6) [OF ok, of v] s2(3,4) b(3) by (simp_all add: xo)
    qed (use csr_okD [OF ok] in \<open>simp_all add: xo\<close>)
    have segi: "seg g' i = remdups_adj (sort (seg g i))"
    proof -
      have "adj_part s3 ?lo (kcur + 1) = adj_part s2 ?lo (kcur + 1)"
        using s3(3) b(1) by (intro adj_part_cong) auto
      then show ?thesis using s2(5) s1(3) i xo lo by (simp add: seg_def g'_def)
    qed
    have segv: "seg g' v = seg g v" if v: "0 \<le> v" "v < nv g" "v \<noteq> i" for v
    proof -
      have "k < ?lo \<or> ?hi \<le> k" if "off c v \<le> k" "k < off c (v + 1)" for k
      proof (rule ccontr)
        assume "\<not> (k < ?lo \<or> ?hi \<le> k)"
        then have "?lo \<le> k" "k < off c (i + 1)" using b(3) by simp_all
        from segs_disjoint [OF ok v(1,2) i v(3) that this] show False by simp
      qed
      then have "adj_part (xadjstore g') (off c v) (xoff g ! nat (1 + 2 * v)) =
          adj_part (xadjstore g) (off c v) (xoff g ! nat (1 + 2 * v))"
        using csr_okD(6) [OF ok v(1,2)] off_bounds(1) [OF ok v(1,2)] by (intro adj_part_cong st) simp_all
      then show ?thesis using v xo csr_okD(4) [OF ok] by (simp add: seg_def)
    qed
    have "seg g' v = (if v = i then remdups_adj (sort (seg g i)) else seg g v)" if "0 \<le> v" "v < nv g" for v
      using that segi segv by (cases "v = i") simp_all
    then show ?thesis using run ok' len(1,2) by (intro exI [of _ g'] conjI allI impI) simp_all
  qed
qed

lemma pack_edges_result:
  assumes ok: "csr_ok c g"
  shows "\<exists>g'. pack_edges g = Some g' \<and> csr_ok c g' \<and> nv g' = nv g \<and> maxvtx g' = maxvtx g \<and>
    (\<forall>v. 0 \<le> v \<and> v < nv g \<longrightarrow> seg g' v = remdups_adj (sort (seg g v)))"
proof -
  have "\<exists>g'. pack_edges g = Some g' \<and> (csr_ok c g' \<and> nv g' = nv g \<and> maxvtx g' = maxvtx g \<and>
    (\<forall>v. 0 \<le> v \<and> v < nv g \<longrightarrow> seg g' v = (if v < nv g then remdups_adj (sort (seg g v)) else seg g v)))"
    unfolding pack_edges_def
  proof (rule for_up_inv [where I = "\<lambda>k g'. csr_ok c g' \<and> nv g' = nv g \<and> maxvtx g' = maxvtx g \<and>
      (\<forall>v. 0 \<le> v \<and> v < nv g \<longrightarrow> seg g' v = (if v < k then remdups_adj (sort (seg g v)) else seg g v))"])
    fix k h
    assume k: "0 \<le> k" "k < nv g" and inv: "csr_ok c h \<and> nv h = nv g \<and> maxvtx h = maxvtx g \<and>
      (\<forall>v. 0 \<le> v \<and> v < nv g \<longrightarrow> seg h v = (if v < k then remdups_adj (sort (seg g v)) else seg g v))"
    have h: "csr_ok c h" "nv h = nv g" "maxvtx h = maxvtx g"
        "\<And>v. 0 \<le> v \<Longrightarrow> v < nv g \<Longrightarrow> seg h v = (if v < k then remdups_adj (sort (seg g v)) else seg g v)"
      using inv by blast+
    have "k < nv h" using k h(2) by simp
    from pack_vtx_result [OF h(1) k(1) this] obtain h' where
      h': "pack_vtx_edges k h = Some h'" "csr_ok c h'" "nv h' = nv h" "maxvtx h' = maxvtx h"
        "\<forall>v. 0 \<le> v \<and> v < nv h \<longrightarrow> seg h' v = (if v = k then remdups_adj (sort (seg h k)) else seg h v)"
      by blast
    have "seg h' v = (if v < k + 1 then remdups_adj (sort (seg g v)) else seg g v)" if "0 \<le> v" "v < nv g" for v
    proof -
      have "seg h' v = (if v = k then remdups_adj (sort (seg h k)) else seg h v)"
        using h'(5) h(2) that by simp
      then show ?thesis using h(4) [OF that] h(4) [OF k] by simp
    qed
    then show "\<exists>h'. pack_vtx_edges k h = Some h' \<and> csr_ok c h' \<and> nv h' = nv g \<and> maxvtx h' = maxvtx g \<and>
      (\<forall>v. 0 \<le> v \<and> v < nv g \<longrightarrow> seg h' v = (if v < k + 1 then remdups_adj (sort (seg g v)) else seg g v))"
      using h'(1,2) h'(3) [unfolded h(2)] h'(4) [unfolded h(3)] by (intro exI [of _ h'] conjI allI impI) simp_all
  qed (use ok csr_okD(1) [OF ok] in simp_all)
  then show ?thesis by simp
qed

subsection \<open>The graph is built correctly\<close>

definition graph_ok :: "packed_edge list \<Rightarrow> csr \<Rightarrow> bool" where
  "graph_ok IJ g \<longleftrightarrow> maxvtx g = fst (find_nv IJ) \<and> nv g = snd (find_nv IJ) \<and> csr_ok (capacity IJ) g \<and>
     (\<forall>v. 0 \<le> v \<and> v < nv g \<longrightarrow> sorted (seg g v) \<and> distinct (seg g v) \<and> set (seg g v) = edge_nbrs IJ v)"

lemma setup_result:
  assumes law: "alloc_law alloc" and xo: "int (length xo) = 2 * n + 2" and n: "n = snd (find_nv IJ)"
  shows "(setup_deg_off alloc IJ n xo = Some (Inl (-1)) \<and> (\<exists>k. alloc k = None)) \<or>
    (\<exists>xo' store. setup_deg_off alloc IJ n xo = Some (Inr (xo', store)) \<and>
      csr_ok (capacity IJ) \<lparr>maxvtx = m, nv = n, xoff = xo', xadjstore = store\<rparr> \<and>
      (\<forall>v. 0 \<le> v \<and> v < n \<longrightarrow> seg \<lparr>maxvtx = m, nv = n, xoff = xo', xadjstore = store\<rparr> v = []))"
proof -
  let ?c = "capacity IJ"
  have n0: "0 \<le> n" using find_nv_ge [of IJ] find_nv_snd [of IJ] n by simp
  have c0: "0 \<le> ?c u" for u by (simp add: capacity_def MINVECT_SIZE_def)
  obtain x1 where x1: "for_up 0 (2 * n + 2) (\<lambda>k xo. wr xo k 0) xo = Some x1" "length x1 = length xo"
      "\<And>i. 0 \<le> i \<Longrightarrow> i < 2 * n + 2 \<Longrightarrow> x1 ! nat i = 0"
    using fill_range [of 0 "2 * n + 2" xo 0] xo n0 by auto
  obtain x2 where x2: "count_degrees IJ x1 = Some x2" "int (length x2) = 2 * n + 2"
      "\<And>v. 0 \<le> v \<Longrightarrow> v < n \<Longrightarrow> x2 ! nat (2 * v) = deg IJ v"
    using count_degrees_result [of x1 n IJ] x1 xo find_nv_bound [of _ IJ] find_nv_snd [of IJ] n by fastforce
  obtain x3 where x3: "accum_offsets n x2 = Some (off ?c n, x3)" "int (length x3) = 2 * n + 2"
      "\<And>v. 0 \<le> v \<Longrightarrow> v < n \<Longrightarrow> x3 ! nat (2 * v) = off ?c v"
    using accum_offsets_result [OF x2(2) n0 x2(3)] by blast
  define x4 where "x4 = x3[nat (2 * n) := off ?c n]"
  have x4: "wr x3 (2 * n) (off ?c n) = Some x4" "int (length x4) = 2 * n + 2"
      "\<And>v. 0 \<le> v \<Longrightarrow> v \<le> n \<Longrightarrow> x4 ! nat (2 * v) = off ?c v"
    using x3 n0 by (auto simp: x4_def nth_list_update_int)
  obtain x5 where x5: "copy_offsets n x4 = Some x5" "int (length x5) = 2 * n + 2"
      "\<And>v. 0 \<le> v \<Longrightarrow> v \<le> n \<Longrightarrow> x5 ! nat (2 * v) = off ?c v"
      "\<And>v. 0 \<le> v \<Longrightarrow> v < n \<Longrightarrow> x5 ! nat (1 + 2 * v) = off ?c v"
    using copy_offsets_result [OF x4(2) n0] x4(3) by auto
  show ?thesis
  proof (cases "alloc (nat (off ?c n + MINVECT_SIZE))")
    case None
    then show ?thesis using x1(1) x2(1) x3(1) x4(1) x5(1) by (auto simp: setup_deg_off_def)
  next
    case (Some s)
    have o0: "0 \<le> off ?c n" by (rule off_nonneg [OF c0])
    then have ls: "int (length s) = off ?c n + MINVECT_SIZE"
      using alloc_lawD [OF law Some] by (simp add: MINVECT_SIZE_def)
    obtain store where st: "for_up 0 (off ?c n + MINVECT_SIZE) (\<lambda>k s. wr s k (-1)) s = Some store" "length store = length s"
      using fill_range [of 0 "off ?c n + MINVECT_SIZE" s "-1"] ls by (auto simp: o0)
    have "setup_deg_off alloc IJ n xo = Some (Inr (x5, store))"
      using x1(1) x2(1) x3(1) x4(1) x5(1) Some st(1) by (simp add: setup_deg_off_def)
    moreover have "csr_ok ?c \<lparr>maxvtx = m, nv = n, xoff = x5, xadjstore = store\<rparr>"
      using n0 c0 x5 st(2) ls off_Suc [of _ ?c] by (auto simp: csr_ok_def)
    moreover have "seg \<lparr>maxvtx = m, nv = n, xoff = x5, xadjstore = store\<rparr> v = []" if "0 \<le> v" "v < n" for v
      using that x5(3,4) by (simp add: seg_def adj_part_def)
    ultimately show ?thesis by blast
  qed
qed

lemma distinct_remdups_adj_sorted: "sorted xs \<Longrightarrow> distinct (remdups_adj xs)" for xs :: "int list"
  by (induction xs rule: remdups_adj.induct) auto

lemma gather_result:
  assumes "csr_ok (capacity IJ) g" "\<And>v. 0 \<le> v \<Longrightarrow> v < nv g \<Longrightarrow> seg g v = []"
    "nv g = snd (find_nv IJ)" "maxvtx g = fst (find_nv IJ)"
  shows "\<exists>g'. gather_edges IJ g = Some g' \<and> graph_ok IJ g'"
proof -
  have range: "get_v0_from_edge e < nv g \<and> get_v1_from_edge e < nv g" if "e \<in> set IJ" for e
    using find_nv_bound [OF that] find_nv_snd [of IJ] assms(3) by simp
  obtain g1 where g1: "for_each gather_edge IJ g = Some g1" "csr_ok (capacity IJ) g1" "nv g1 = nv g" "maxvtx g1 = maxvtx g"
       "\<forall>v. 0 \<le> v \<and> v < nv g \<longrightarrow> seg g1 v = nbr_list IJ v"
    using gather_loop_result [OF assms(1,2) range] by blast
  obtain g2 where g2: "pack_edges g1 = Some g2" "csr_ok (capacity IJ) g2" "nv g2 = nv g1" "maxvtx g2 = maxvtx g1"
      "\<forall>v. 0 \<le> v \<and> v < nv g1 \<longrightarrow> seg g2 v = remdups_adj (sort (seg g1 v))"
    using pack_edges_result [OF g1(2)] by blast
  have "gather_edges IJ g = Some g2" using g1(1) g2(1) by (simp add: gather_edges_def)
  moreover have "graph_ok IJ g2"
    using g1 g2 assms(3,4) by (auto simp: graph_ok_def sorted_remdups_adj distinct_remdups_adj_sorted set_nbr_list)
  ultimately show ?thesis by blast
qed

lemma create_result:
  assumes "alloc_law alloc"
  shows "(create_graph_from_edgelist alloc IJ = Some (Inl (-1)) \<and> (\<exists>k. alloc k = None)) \<or>
    (\<exists>g. create_graph_from_edgelist alloc IJ = Some (Inr g) \<and> graph_ok IJ g)"
proof -
  obtain m n where mn: "find_nv IJ = (m, n)" by fastforce
  have n: "n = snd (find_nv IJ)" "0 \<le> 2 * n + 2" using mn find_nv_ge [of IJ] find_nv_snd [of IJ] by auto
  show ?thesis
  proof (cases "alloc_graph alloc n")
    case None
    then show ?thesis by (auto simp: create_graph_from_edgelist_def alloc_graph_def mn)
  next
    case (Some xo)
    then have "int (length xo) = 2 * n + 2"
      using alloc_lawD [OF assms, of "nat (2 * n + 2)" xo] n(2) by (simp add: alloc_graph_def)
    note su = setup_result [OF assms this n(1), of m]
    show ?thesis
    proof (cases "setup_deg_off alloc IJ n xo = Some (Inl (- 1)) \<and> (\<exists>k. alloc k = None)")
      case True
      then show ?thesis using Some by (simp add: create_graph_from_edgelist_def mn)
    next
      case False
      obtain xo' store where r: "setup_deg_off alloc IJ n xo = Some (Inr (xo', store))"
        "csr_ok (capacity IJ) \<lparr>maxvtx = m, nv = n, xoff = xo', xadjstore = store\<rparr>"
        "\<forall>v. 0 \<le> v \<and> v < n \<longrightarrow> seg \<lparr>maxvtx = m, nv = n, xoff = xo', xadjstore = store\<rparr> v = []"
        using su False by (elim disjE exE conjE) (blast, rule that)
      obtain g where "gather_edges IJ \<lparr>maxvtx = m, nv = n, xoff = xo', xadjstore = store\<rparr> = Some g" "graph_ok IJ g"
        using gather_result [OF r(2)] r(3) mn by auto
      then show ?thesis using r(1) Some by (simp add: create_graph_from_edgelist_def mn)
    qed
  qed
qed

subsection \<open>The search\<close>

lemma scan_vertex_result:
  assumes g: "graph_ok IJ g" and inv: "bfs_inv (edge_nbrs IJ) r (nv g) tree q k"
    and arr: "in_array (nv g) q vlist" and k: "k < length q"
  shows "\<exists>tree' q' vlist'. scan_vertex g (int k) (tree, vlist, int (length q)) =
      Some (tree', vlist', int (length q')) \<and> length tree' = length tree \<and>
      bfs_inv (edge_nbrs IJ) r (nv g) tree' q' (Suc k) \<and> in_array (nv g) q' vlist' \<and> (\<exists>new. q' = q @ new)"
proof -
  let ?v = "q ! k"
  have ok: "csr_ok (capacity IJ) g" and nvg: "nv g = snd (find_nv IJ)" using g by (simp_all add: graph_ok_def)
  have v: "0 \<le> ?v" "?v < nv g"
    using inv queue_range [of "nv g" tree q ?v] nth_mem [OF k] by (auto simp: bfs_inv_def)
  have "k < length vlist" "vlist ! k = ?v" using arr k in_array_nth [OF arr k] by (auto simp: in_array_def)
  then have rv: "rd vlist (int k) = Some ?v" by simp
  have rx: "rd (xoff g) (1 + 2 * ?v) = Some (xoff g ! nat (1 + 2 * ?v))"
    "rd (xoff g) (2 * ?v) = Some (off (capacity IJ) ?v)"
    using csr_okD(3,4) [OF ok] v by simp_all
  have reads: "rd_xadj (xadjstore g) l = Some (xadjstore g ! nat (MINVECT_SIZE + l))"
    if "off (capacity IJ) ?v \<le> l" "l < xoff g ! nat (1 + 2 * ?v)" for l
    using that off_bounds [OF ok v] csr_okD(6) [OF ok v] csr_okD(7) [OF ok]
    unfolding rd_xadj_def by (intro rd_in) (auto simp: MINVECT_SIZE_def)
  have "scan_vertex g (int k) (tree, vlist, int (length q)) = for_each (discover ?v) (seg g ?v) (tree, vlist, int (length q))"
    using rv rx for_up_reads [OF reads, where f = "discover ?v"] csr_okD(4) [OF ok] v
    by (simp add: scan_vertex_def seg_def adj_part_def)
  moreover have "set (seg g ?v) = edge_nbrs IJ ?v" using g v by (simp add: graph_ok_def)
  ultimately show ?thesis
    using bfs_array_step [OF inv arr k, of "seg g ?v"] edge_nbrs_range [of IJ] nvg by simp
qed

definition search_inv :: "packed_edge list \<Rightarrow> csr \<Rightarrow> int \<Rightarrow> nat \<Rightarrow> int \<Rightarrow> vqueue \<Rightarrow> bool" where
  "search_inv IJ g r len k = (\<lambda>(tree, vlist, k2). length tree = len \<and> 0 \<le> k \<and> k \<le> k2 \<and> (\<exists>q. k2 = int (length q) \<and>
     in_array (nv g) q vlist \<and> bfs_inv (edge_nbrs IJ) r (nv g) tree q (nat k)))"

lemma level_result:
  assumes g: "graph_ok IJ g" and inv: "search_inv IJ g r len k1 (tree, vlist, k2)"
  shows "\<exists>s. for_up k1 k2 (scan_vertex g) (tree, vlist, k2) = Some s \<and> search_inv IJ g r len k2 s"
proof -
  have b: "0 \<le> k1" "k1 \<le> k2" using inv by (auto simp: search_inv_def)
  have "\<exists>s. for_up k1 k2 (scan_vertex g) (tree, vlist, k2) = Some s \<and>
    (search_inv IJ g r len k2 s \<and> k2 \<le> snd (snd s))"
  proof (rule for_up_inv [where I = "\<lambda>k s. search_inv IJ g r len k s \<and> k2 \<le> snd (snd s)", OF b(2)])
    fix k s
    assume k: "k1 \<le> k" "k < k2" and I: "search_inv IJ g r len k s \<and> k2 \<le> snd (snd s)"
    obtain t vl q where s: "s = (t, vl, int (length q))" "length t = len" "in_array (nv g) q vl"
        "bfs_inv (edge_nbrs IJ) r (nv g) t q (nat k)"
      using I by (cases s) (auto simp: search_inv_def)
    have "nat k < length q" "int (nat k) = k" using I k b(1) by (auto simp: s(1))
    then obtain t' q' vl' new where run: "scan_vertex g k (t, vl, int (length q)) = Some (t', vl', int (length q'))"
        "length t' = length t" "bfs_inv (edge_nbrs IJ) r (nv g) t' q' (Suc (nat k))" "in_array (nv g) q' vl'" "q' = q @ new"
      using scan_vertex_result [OF g s(4,3)] by metis
    then have "search_inv IJ g r len (k + 1) (t', vl', int (length q'))"
      using I k b(1) s(1,2) by (auto simp: search_inv_def nat_add_distrib intro!: exI [of _ q'])
    then show "\<exists>s'. scan_vertex g k s = Some s' \<and> search_inv IJ g r len (k + 1) s' \<and> k2 \<le> snd (snd s')"
      using run(1,5) I by (simp add: s(1))
  qed (use inv in \<open>simp add: search_inv_def\<close>)
  then show ?thesis by blast
qed

lemma bfs_levels_result:
  assumes g: "graph_ok IJ g" and inv: "search_inv IJ g r len k1 (tree, vlist, k2)"
  shows "\<exists>k tree' vlist'. bfs_levels g (k1, tree, vlist, k2) = Some (k, tree', vlist', k) \<and>
    search_inv IJ g r len k (tree', vlist', k)"
proof -
  let ?I = "\<lambda>(k1, s). search_inv IJ g r len k1 s"
  have "\<exists>s. bfs_levels g (k1, tree, vlist, k2) = Some s \<and> ?I s \<and>
    (\<lambda>(k1, bfs_tree, vlist, k2). Some (k1 \<noteq> k2)) s = Some False"
    unfolding bfs_levels_def
  proof (rule while_opt_inv [where I = ?I and m = "\<lambda>(k1, s). nat (nv g - k1)"])
    fix s
    assume I: "?I s" and go: "(\<lambda>(k1, bfs_tree, vlist, k2). Some (k1 \<noteq> k2)) s = Some True"
    obtain k1 t vl k2 where s: "s = (k1, t, vl, k2)" by (cases s) auto
    obtain s' where s': "for_up k1 k2 (scan_vertex g) (t, vl, k2) = Some s'" "search_inv IJ g r len k2 s'"
      using level_result [OF g, of r len k1 t vl k2] I unfolding s by blast
    have "k1 < k2" "k2 \<le> nv g" using I go by (auto simp: s search_inv_def in_array_def)
    with s' show "\<exists>t'. (case s of (k1, bfs_tree, vlist, k2) \<Rightarrow> do {
        let oldk2 = k2;
        s \<leftarrow> for_up k1 oldk2 (scan_vertex g) (bfs_tree, vlist, k2);
        Some (oldk2, s)
      }) = Some t' \<and> ?I t' \<and> (\<lambda>(k1, s). nat (nv g - k1)) t' < (\<lambda>(k1, s). nat (nv g - k1)) s"
      by (auto simp: s)
  qed (use inv in auto)
  then show ?thesis by auto
qed

lemma make_bfs_tree_result:
  assumes "alloc_law alloc" "create_graph_from_edgelist alloc IJ = Some (Inr g)"
    "0 \<le> src" "src < nv g" "nv g \<le> int (length out)"
  shows "(alloc (nat (nv g)) = None \<and> make_bfs_tree alloc g out src = Some (-1, maxvtx g, out)) \<or>
    (\<exists>tree. make_bfs_tree alloc g out src = Some (0, maxvtx g, tree) \<and> length tree = length out \<and>
      bfs_tree_of (edge_nbrs IJ) src (nv g) tree)"
proof (cases "alloc (nat (nv g))")
  case None
  then show ?thesis by (simp add: make_bfs_tree_def)
next
  case (Some vlist)
  have g: "graph_ok IJ g" using create_result [OF assms(1), of IJ] assms(2) by auto
  then have E: "\<And>u. edge_nbrs IJ u \<subseteq> {0..<nv g}" using edge_nbrs_range [of IJ] by (simp add: graph_ok_def)
  have vlist: "int (length vlist) = nv g" using alloc_lawD [OF assms(1) Some] assms(3,4) by simp
  obtain t where t: "for_up 0 (nv g) (\<lambda>k t. wr t k (-1)) out = Some t" "length t = length out"
      "\<And>i. 0 \<le> i \<Longrightarrow> i < nv g \<Longrightarrow> t ! nat i = -1"
    using fill_range [of 0 "nv g" out "-1"] assms(3-5) by auto
  let ?t = "t[nat src := src]" and ?vl = "vlist[0 := src]"
  have "bfs_inv (edge_nbrs IJ) src (nv g) ?t [src] 0"
    using t assms(3-5) by (intro bfs_inv_init) (auto simp: nth_list_update_int)
  moreover have "in_array (nv g) [src] ?vl" using vlist assms(3,4) by (cases vlist) (auto simp: in_array_def)
  ultimately have "search_inv IJ g src (length out) 0 (?t, ?vl, 1)"
    using t(2) by (auto simp: search_inv_def intro!: exI [of _ "[src]"])
  from bfs_levels_result [OF g this] obtain k tree vl where
    run: "bfs_levels g (0, ?t, ?vl, 1) = Some (k, tree, vl, k)" "search_inv IJ g src (length out) k (tree, vl, k)" by blast
  then have "length tree = length out" "bfs_tree_of (edge_nbrs IJ) src (nv g) tree"
    using bfs_inv_done [OF _ E] by (auto simp: search_inv_def)
  moreover have "make_bfs_tree alloc g out src = Some (0, maxvtx g, tree)"
    using Some t(1) run(1) assms(3-5) vlist t(2) by (simp add: make_bfs_tree_def)
  ultimately show ?thesis by blast
qed

text \<open>
  C12: On the graph built from an edge list, the search returns for every source vertex of the
  graph, with all accesses in bounds, and leaves a breadth-first tree of the graph in the output
  array, which is not changed beyond the vertices; the only other outcome is the error code of a
  failed allocation.
\<close>

theorem seq_csr_bfs_correct:
  assumes "alloc_law alloc" "create_graph_from_edgelist alloc IJ = Some (Inr g)"
    "0 \<le> src" "src < nv g" "nv g \<le> int (length out)"
  shows "(alloc (nat (nv g)) = None \<and> make_bfs_tree alloc g out src = Some (-1, maxvtx g, out)) \<or>
    (\<exists>tree. make_bfs_tree alloc g out src = Some (0, maxvtx g, tree) \<and> length tree = length out \<and>
      bfs_tree_of (edge_nbrs IJ) src (nv g) tree)"
  using assms by (rule make_bfs_tree_result)

theorem seq_csr_bfs_correct_witness:
  "(\<exists>g. create_graph_from_edgelist (\<lambda>n. Some (replicate n 0)) [write_edge 0 1, write_edge 2 1] = Some (Inr g) \<and>
    nv g = 3 \<and> (\<exists>tree. make_bfs_tree (\<lambda>n. Some (replicate n 0)) g [0, 0, 0] 2 = Some (0, 2, tree) \<and>
      bfs_tree_of (edge_nbrs [write_edge 0 1, write_edge 2 1]) 2 3 tree))"
proof -
  let ?al = "\<lambda>n. Some (replicate n (0 :: int))" and ?IJ = "[write_edge 0 1, write_edge 2 1]"
  define g where "g = \<lparr>maxvtx = 2, nv = 3, xoff = [0, 1, 2, 4, 4, 5, 6, 0], xadjstore = [-1, -1, 1, -1, 0, 2, 1, -1]\<rparr>"
  have "create_graph_from_edgelist ?al ?IJ = Some (Inr g)" unfolding g_def by code_simp
  moreover have "alloc_law ?al" by (simp add: alloc_law_def)
  ultimately show ?thesis using seq_csr_bfs_correct [of ?al ?IJ g 2 "[0, 0, 0]"] by (auto simp: g_def)
qed

subsection \<open>The benchmark with this implementation\<close>

interpretation seq: bfs_backend "\<lambda>_. True" create_graph_from_edgelist make_bfs_tree
proof
  fix alloc IJ
  assume al: "alloc_law alloc"
  show "(\<exists>g. create_graph_from_edgelist alloc IJ = Some (Inr g)) \<or>
      (\<exists>e n. create_graph_from_edgelist alloc IJ = Some (Inl e) \<and> e \<noteq> 0 \<and> alloc n = None)"
    using create_result [OF al, of IJ] by (elim disjE conjE exE) (simp_all, blast)
  fix g src and out :: "int list"
  assume c: "create_graph_from_edgelist alloc IJ = Some (Inr g)"
    and b: "0 \<le> src" "src \<le> max_vertex IJ" "max_vertex IJ < int (length out)"
  have "graph_ok IJ g" using create_result [OF al, of IJ] c by (elim disjE conjE exE) simp_all
  then have g: "maxvtx g = max_vertex IJ" "nv g = max_vertex IJ + 1" by (simp_all add: graph_ok_def find_nv_eq)
  have b': "src < max_vertex IJ + 1" "max_vertex IJ + 1 \<le> int (length out)" using b by auto
  show "(\<exists>tree. make_bfs_tree alloc g out src = Some (0, max_vertex IJ, tree) \<and> length tree = length out \<and>
         bfs_tree_of (edge_nbrs IJ) src (max_vertex IJ + 1) tree) \<or>
      (\<exists>e m t n. make_bfs_tree alloc g out src = Some (e, m, t) \<and> e \<noteq> 0 \<and> alloc n = None)"
    using make_bfs_tree_result [OF al c, of src out, unfolded g, OF b(1) b'] by (elim disjE conjE exE) (simp, blast, simp)
qed

text \<open>
  C20: With the sequential compressed-row implementation and an allocator that does not fail, the
  benchmark on any edge list within the vertex range samples its roots, completes every search and
  validates every result without a failing assertion: the edge count recorded for each root is the
  number of input edges in the component of the root.  It exits only when no edge joins two different
  vertices.
\<close>

theorem seq_csr_benchmark:
  assumes "alloc_law alloc" "\<forall>n. alloc n \<noteq> None" "edges_within (nvtx_scale b) IJ" "bench_ok b"
  shows "(rank_adj IJ (nvtx_scale b) = 0 \<and>
      run_bfs create_graph_from_edgelist make_bfs_tree alloc None False IJ b = Some (Inl EXIT_FAILURE)) \<or>
    (\<exists>b' ns. run_bfs create_graph_from_edgelist make_bfs_tree alloc None False IJ b =
        Some (Inr (b'\<lparr>bfs_nedge := ns\<rparr>)) \<and> roots_ok IJ b b' \<and> 0 < NBFS b' \<and> length ns = length (bfs_nedge b) \<and>
      (\<forall>m. 0 \<le> m \<and> m < NBFS b' \<longrightarrow> ns ! nat m = component_edges IJ (bfs_root b' ! nat m)))"
  using seq.run_bfs_result [OF assms(1,2) TrueI assms(3,4)] .

theorem seq_csr_benchmark_witness:
  "\<exists>b' ns. run_bfs create_graph_from_edgelist make_bfs_tree (\<lambda>n. Some (replicate n 0)) None False [write_edge 2 3]
      (bench_init 4 64 \<lparr>z1 = 1, z2 = 1, z3 = 1, z4 = 1, z5 = 1\<rparr>) = Some (Inr (b'\<lparr>bfs_nedge := ns\<rparr>)) \<and> 0 < NBFS b'"
proof -
  let ?b = "bench_init 4 64 \<lparr>z1 = 1, z2 = 1, z3 = 1, z4 = 1, z5 = 1\<rparr>"
  have "nvtx_scale ?b = 4" by (simp add: bench_init_def)
  then show ?thesis
    using seq_csr_benchmark [of "\<lambda>n. Some (replicate n 0)" ?b "[write_edge 2 3]"] bench_init_ok rank_adj_example
    by (auto simp: alloc_law_def edges_within_def)
qed

end
