(* ===== verification/XmtCsr.thy ===== *)
theory XmtCsr
  imports SeqCsr
begin

text \<open>
  The implementations of Graph500 for the Cray XMT (\<open>xmt-csr/xmt-csr.c\<close> and
  \<open>xmt-csr-local/xmt-csr-local.c\<close>), as sequential programs: the same structure as the sequential
  compressed rows, with atomic additions and full/empty memory cells, and in the second case with a
  small buffer of discovered vertices per visited vertex.  Both searches are compared with the
  sequential one.
\<close>

subsection \<open>Full and empty memory cells\<close>

text \<open>
  A cell is a value with its full bit.  Reading a full cell and leaving it empty, and writing an
  empty cell and leaving it full; waiting for the other state never ends in a sequential program.
\<close>

definition readfe :: "(int \<times> bool) list \<Rightarrow> int \<Rightarrow> (int \<times> (int \<times> bool) list) option" where
  "readfe m i = do {
     (x, full) \<leftarrow> rd m i;
     assert_opt full;
     m \<leftarrow> wr m i (x, False);
     Some (x, m)
   }"

definition writeef :: "(int \<times> bool) list \<Rightarrow> int \<Rightarrow> int \<Rightarrow> (int \<times> bool) list option" where
  "writeef m i x = do {
     (_, full) \<leftarrow> rd m i;
     assert_opt (\<not> full);
     wr m i (x, True)
   }"

definition filled :: "int list \<Rightarrow> (int \<times> bool) list" where
  "filled = map (\<lambda>x. (x, True))"

definition int_fetch_add :: "int list \<Rightarrow> int \<Rightarrow> int \<Rightarrow> (int \<times> int list) option" where
  "int_fetch_add xs k n = do {
     x \<leftarrow> rd xs k;
     xs \<leftarrow> wr xs k (x + n);
     Some (x, xs)
   }"

subsection \<open>Construction\<close>

definition find_nv_xmt :: "packed_edge list \<Rightarrow> (int \<times> int) option" where
  "find_nv_xmt IJ = do {
     let tmaxvtx = fold max_vtx IJ (-1);
     let cell = filled [-1];
     (k, cell) \<leftarrow> readfe cell 0;
     let k = (if tmaxvtx > k then tmaxvtx else k);
     cell \<leftarrow> writeef cell 0 k;
     (m, _) \<leftarrow> rd cell 0;
     Some (m, 1 + m)
   }"

definition count_edge_xmt :: "packed_edge \<Rightarrow> int list \<Rightarrow> int list option" where
  "count_edge_xmt e xo =
    (let i = get_v0_from_edge e; j = get_v1_from_edge e in
     if i \<noteq> j then do {
       (_, xo) \<leftarrow> int_fetch_add xo (2 * i) 1;
       (_, xo) \<leftarrow> int_fetch_add xo (2 * j) 1;
       Some xo
     } else Some xo)"

definition setup_deg_off_xmt ::
    "allocator \<Rightarrow> packed_edge list \<Rightarrow> int \<Rightarrow> int list \<Rightarrow> (int + int list \<times> int list) option" where
  "setup_deg_off_xmt alloc IJ n xo = do {
     xo \<leftarrow> for_up 0 (2 * n + 2) (\<lambda>k xo. wr xo k 0) xo;
     xo \<leftarrow> for_each count_edge_xmt IJ xo;
     (accum, xo) \<leftarrow> accum_offsets n xo;
     xo \<leftarrow> wr xo (2 * n) accum;
     xo \<leftarrow> copy_offsets n xo;
     case alloc (nat (accum + MINVECT_SIZE)) of
       None \<Rightarrow> Some (Inl (-1))
     | Some store \<Rightarrow> do {
         store \<leftarrow> for_up 0 (accum + MINVECT_SIZE) (\<lambda>k s. wr s k (-1)) store;
         Some (Inr (xo, store))
       }
   }"

definition scatter_edge_xmt :: "int \<Rightarrow> int \<Rightarrow> csr \<Rightarrow> csr option" where
  "scatter_edge_xmt i j g = do {
     (w, xo) \<leftarrow> int_fetch_add (xoff g) (1 + 2 * i) 1;
     store \<leftarrow> wr_xadj (xadjstore g) w j;
     Some (g\<lparr>xoff := xo, xadjstore := store\<rparr>)
   }"

definition pack_vertex_xmt :: "int \<Rightarrow> csr \<Rightarrow> csr option" where
  "pack_vertex_xmt v g = do {
     lo \<leftarrow> rd (xoff g) (2 * v);
     hi \<leftarrow> rd (xoff g) (1 + 2 * v);
     if lo + 1 < hi then do {
       store \<leftarrow> qsort_range i64cmp (xadjstore g) (MINVECT_SIZE + lo) (hi - lo);
       (store, kcur) \<leftarrow> for_up (lo + 1) hi (\<lambda>k (store, kcur). do {
         a \<leftarrow> rd_xadj store k;
         b \<leftarrow> rd_xadj store kcur;
         if a \<noteq> b then do {
           store \<leftarrow> wr_xadj store (1 + kcur) a;
           Some (store, kcur + 1)
         } else Some (store, kcur)
       }) (store, lo);
       let kcur = kcur + 1;
       store \<leftarrow> for_up kcur hi (\<lambda>k s. wr_xadj s k (-1)) store;
       xo \<leftarrow> wr (xoff g) (1 + 2 * v) kcur;
       Some (g\<lparr>xoff := xo, xadjstore := store\<rparr>)
     } else Some g
   }"

definition gather_edge_xmt :: "packed_edge \<Rightarrow> csr \<Rightarrow> csr option" where
  "gather_edge_xmt e g =
    (let i = get_v0_from_edge e; j = get_v1_from_edge e in
     if i \<noteq> j then scatter_edge_xmt i j g \<bind> scatter_edge_xmt j i
     else Some g)"

definition gather_edges_xmt :: "packed_edge list \<Rightarrow> csr \<Rightarrow> csr option" where
  "gather_edges_xmt IJ g = for_each gather_edge_xmt IJ g \<bind> (\<lambda>g. for_up 0 (nv g) pack_vertex_xmt g)"

definition create_graph_xmt :: "allocator \<Rightarrow> packed_edge list \<Rightarrow> (int + csr) option" where
  "create_graph_xmt alloc IJ = do {
     (m, n) \<leftarrow> find_nv_xmt IJ;
     case alloc (nat (2 * n + 2)) of
       None \<Rightarrow> Some (Inl (-1))
     | Some xo \<Rightarrow> do {
         r \<leftarrow> setup_deg_off_xmt alloc IJ n xo;
         case r of
           Inl err \<Rightarrow> Some (Inl (-1))
         | Inr (xo, store) \<Rightarrow>
             map_option Inr (gather_edges_xmt IJ \<lparr>maxvtx = m, nv = n, xoff = xo, xadjstore = store\<rparr>)
       }
   }"

subsection \<open>Search\<close>

type_synonym fe_queue = "(int \<times> bool) list \<times> int list \<times> int"

definition discover_xmt :: "int \<Rightarrow> int \<Rightarrow> fe_queue \<Rightarrow> fe_queue option" where
  "discover_xmt v j = (\<lambda>(bfs_tree, vlist, k2). do {
     (t, _) \<leftarrow> rd bfs_tree j;
     if t = -1 then do {
       (t, bfs_tree) \<leftarrow> readfe bfs_tree j;
       (t, vlist, k2) \<leftarrow> (if t = -1 then do { vlist \<leftarrow> wr vlist k2 j; Some (v, vlist, k2 + 1) }
         else Some (t, vlist, k2));
       bfs_tree \<leftarrow> writeef bfs_tree j t;
       Some (bfs_tree, vlist, k2)
     } else Some (bfs_tree, vlist, k2)
   })"

definition scan_vertex_xmt :: "csr \<Rightarrow> int \<Rightarrow> fe_queue \<Rightarrow> fe_queue option" where
  "scan_vertex_xmt g k = (\<lambda>(bfs_tree, vlist, k2). do {
     v \<leftarrow> rd vlist k;
     veo \<leftarrow> rd (xoff g) (1 + 2 * v);
     vo \<leftarrow> rd (xoff g) (2 * v);
     for_up vo veo (\<lambda>vo s. rd_xadj (xadjstore g) vo \<bind> (\<lambda>j. discover_xmt v j s)) (bfs_tree, vlist, k2)
   })"

text \<open>The loop over the levels, for either way to scan a vertex.\<close>

definition levels_xmt :: "(int \<Rightarrow> fe_queue \<Rightarrow> fe_queue option) \<Rightarrow> int \<times> fe_queue \<Rightarrow> (int \<times> fe_queue) option" where
  "levels_xmt scan = while_opt (\<lambda>(k1, bfs_tree, vlist, k2). Some (k1 \<noteq> k2))
     (\<lambda>(k1, bfs_tree, vlist, k2). do {
        let oldk2 = k2;
        s \<leftarrow> for_up k1 oldk2 scan (bfs_tree, vlist, k2);
        Some (oldk2, s)
      })"

definition make_bfs_tree_with ::
    "(int \<Rightarrow> fe_queue \<Rightarrow> fe_queue option) \<Rightarrow> allocator \<Rightarrow> csr \<Rightarrow> int list \<Rightarrow> int \<Rightarrow> (int \<times> int \<times> int list) option" where
  "make_bfs_tree_with scan alloc g bfs_tree_out srcvtx =
    (case alloc (nat (nv g)) of
       None \<Rightarrow> Some (-1, maxvtx g, bfs_tree_out)
     | Some vlist \<Rightarrow> do {
         bfs_tree \<leftarrow> for_up 0 (nv g) (\<lambda>k t. wr t k (-1, True)) (filled bfs_tree_out);
         vlist \<leftarrow> wr vlist 0 srcvtx;
         bfs_tree \<leftarrow> wr bfs_tree srcvtx (srcvtx, True);
         (_, bfs_tree, _, _) \<leftarrow> levels_xmt scan (0, bfs_tree, vlist, 1);
         Some (0, maxvtx g, map fst bfs_tree)
       })"

definition make_bfs_tree_xmt ::
    "allocator \<Rightarrow> csr \<Rightarrow> int list \<Rightarrow> int \<Rightarrow> (int \<times> int \<times> int list) option" where
  "make_bfs_tree_xmt alloc g = make_bfs_tree_with (scan_vertex_xmt g) alloc g"

text \<open>
  \<open>xmt-csr-local.c\<close>: discovered vertices go through a buffer of \<open>NPACK\<close> elements, whose used part
  is the list \<open>vpack\<close>.
\<close>

definition NPACK :: int where
  "NPACK = 64"

type_synonym pack_queue = "(int \<times> bool) list \<times> int list \<times> int \<times> int list"

definition flush_pack :: "int list \<Rightarrow> int list \<times> int \<Rightarrow> (int list \<times> int) option" where
  "flush_pack vpack = (\<lambda>(vlist, k2). do {
     let dstk = k2;
     vlist \<leftarrow> copy_block (int (length vpack)) vpack dstk vlist;
     Some (vlist, k2 + int (length vpack))
   })"

definition pack_push :: "int \<Rightarrow> int list \<times> int \<times> int list \<Rightarrow> (int list \<times> int \<times> int list) option" where
  "pack_push j = (\<lambda>(vlist, k2, vpack). do {
     assert_opt (int (length vpack) < NPACK);
     let vpack = vpack @ [j];
     if int (length vpack) = NPACK then do {
       (vlist, k2) \<leftarrow> flush_pack vpack (vlist, k2);
       Some (vlist, k2, [])
     } else Some (vlist, k2, vpack)
   })"

definition discover_local :: "int \<Rightarrow> int \<Rightarrow> pack_queue \<Rightarrow> pack_queue option" where
  "discover_local v j = (\<lambda>(bfs_tree, vlist, k2, vpack). do {
     (t, _) \<leftarrow> rd bfs_tree j;
     if t = -1 then do {
       (t, bfs_tree) \<leftarrow> readfe bfs_tree j;
       (t, vlist, k2, vpack) \<leftarrow> (if t = -1 then do { r \<leftarrow> pack_push j (vlist, k2, vpack); Some (v, r) }
         else Some (t, vlist, k2, vpack));
       bfs_tree \<leftarrow> writeef bfs_tree j t;
       Some (bfs_tree, vlist, k2, vpack)
     } else Some (bfs_tree, vlist, k2, vpack)
   })"

definition scan_vertex_local :: "csr \<Rightarrow> int \<Rightarrow> fe_queue \<Rightarrow> fe_queue option" where
  "scan_vertex_local g k = (\<lambda>(bfs_tree, vlist, k2). do {
     v \<leftarrow> rd vlist k;
     veo \<leftarrow> rd (xoff g) (1 + 2 * v);
     vo \<leftarrow> rd (xoff g) (2 * v);
     (bfs_tree, vlist, k2, vpack) \<leftarrow> for_up vo veo
       (\<lambda>vo s. rd_xadj (xadjstore g) vo \<bind> (\<lambda>j. discover_local v j s)) (bfs_tree, vlist, k2, []);
     (vlist, k2) \<leftarrow> (if vpack \<noteq> [] then flush_pack vpack (vlist, k2) else Some (vlist, k2));
     Some (bfs_tree, vlist, k2)
   })"

definition make_bfs_tree_local ::
    "allocator \<Rightarrow> csr \<Rightarrow> int list \<Rightarrow> int \<Rightarrow> (int \<times> int \<times> int list) option" where
  "make_bfs_tree_local alloc g = make_bfs_tree_with (scan_vertex_local g) alloc g"

subsection \<open>The construction is the sequential one\<close>

lemma find_nv_xmt_eq: "find_nv_xmt IJ = Some (find_nv IJ)"
  using max_vertex_ge [of IJ] fold_max_vtx [of "-1" IJ]
  by (simp add: find_nv_xmt_def find_nv_def Let_def readfe_def writeef_def filled_def)

definition nonneg_edges :: "packed_edge list \<Rightarrow> bool" where
  "nonneg_edges = list_all (\<lambda>e. 0 \<le> get_v0_from_edge e \<and> 0 \<le> get_v1_from_edge e)"

lemma setup_deg_off_xmt_eq:
  assumes "nonneg_edges IJ"
  shows "setup_deg_off_xmt alloc IJ n xo = setup_deg_off alloc IJ n xo"
proof -
  have "for_each count_edge_xmt IJ xo = count_degrees IJ xo" for xo
    unfolding count_degrees_def
    by (rule for_each_cong)
      (use assms in \<open>auto simp: nonneg_edges_def list_all_iff count_edge_xmt_def int_fetch_add_def incr_def Let_def split: bind_split\<close>)
  then show ?thesis by (simp add: setup_deg_off_xmt_def setup_deg_off_def)
qed

lemma scatter_edge_xmt_eq: "scatter_edge_xmt = scatter_edge"
  by (intro ext) (simp add: scatter_edge_xmt_def scatter_edge_def int_fetch_add_def split: bind_split)

lemma pack_vertex_xmt_eq: "pack_vertex_xmt = pack_vtx_edges"
proof (intro ext)
  fix v g
  have flip: "(if a < b then x else y) = (if b \<le> a then y else x)" for a b :: int and x y :: "csr option" by auto
  show "pack_vertex_xmt v g = pack_vtx_edges v g"
    by (simp add: pack_vertex_xmt_def pack_vtx_edges_def dedup_edges_def flip add.commute cong del: if_weak_cong)
qed

lemma gather_edges_xmt_eq:
  assumes "nonneg_edges IJ"
  shows "gather_edges_xmt IJ g = gather_edges IJ g"
proof -
  have "for_each gather_edge_xmt IJ g = for_each gather_edge IJ g"
    by (rule for_each_cong)
      (use assms in \<open>auto simp: nonneg_edges_def list_all_iff gather_edge_xmt_def gather_edge_def Let_def scatter_edge_xmt_eq\<close>)
  then show ?thesis by (simp add: gather_edges_xmt_def gather_edges_def pack_edges_def [abs_def] pack_vertex_xmt_eq)
qed

lemma create_graph_xmt_eq:
  assumes "nonneg_edges IJ"
  shows "create_graph_xmt alloc IJ = create_graph_from_edgelist alloc IJ"
  by (simp add: create_graph_xmt_def create_graph_from_edgelist_def find_nv_xmt_eq alloc_graph_def split_beta
      setup_deg_off_xmt_eq [OF assms] gather_edges_xmt_eq [OF assms] split: option.split sum.split)

subsection \<open>The search is the sequential one\<close>

definition fill_tree :: "vqueue \<Rightarrow> fe_queue" where
  "fill_tree = (\<lambda>(tree, vlist, k2). (filled tree, vlist, k2))"

lemma filled_simps [simp]: "length (filled xs) = length xs" "map fst (filled xs) = xs"
  by (simp_all add: filled_def comp_def)

lemma rd_filled: "rd (filled xs) i = map_option (\<lambda>x. (x, True)) (rd xs i)"
  by (auto simp: rd_def filled_def)

lemma wr_filled: "wr (filled xs) i (x, True) = map_option filled (wr xs i x)"
  by (auto simp: wr_def filled_def map_update)

lemma readfe_filled: "readfe (filled xs) i = do { x \<leftarrow> rd xs i; Some (x, (filled xs)[nat i := (x, False)]) }"
  by (cases "0 \<le> i \<and> i < int (length xs)") (auto simp: readfe_def rd_def filled_def)

lemma writeef_taken:
  "0 \<le> i \<Longrightarrow> i < int (length xs) \<Longrightarrow>
    writeef ((filled xs)[nat i := (y, False)]) i x = Some (filled (xs[nat i := x]))"
  by (simp add: writeef_def filled_def map_update)

lemma discover_xmt_sim: "discover_xmt v j (fill_tree s) = map_option fill_tree (discover v j s)"
proof -
  obtain tree vlist k2 where s: "s = (tree, vlist, k2)" by (cases s)
  show ?thesis
  proof (cases "0 \<le> j \<and> j < int (length tree)")
    case True
    then show ?thesis
      by (cases "wr vlist k2 j") (simp_all add: s discover_xmt_def discover_def fill_tree_def rd_filled readfe_filled writeef_taken)
  next
    case False
    then have "rd tree j = None" by (auto simp: rd_def)
    then show ?thesis by (simp add: s discover_xmt_def discover_def fill_tree_def rd_filled)
  qed
qed

lemma scan_vertex_xmt_sim: "scan_vertex_xmt g k (fill_tree s) = map_option fill_tree (scan_vertex g k s)"
proof -
  obtain tree vlist k2 where s: "s = (tree, vlist, k2)" by (cases s)
  have "for_up lo hi (\<lambda>vo s. rd_xadj (xadjstore g) vo \<bind> (\<lambda>j. discover_xmt v j s)) (fill_tree s) =
      map_option fill_tree (for_up lo hi (\<lambda>vo s. rd_xadj (xadjstore g) vo \<bind> (\<lambda>j. discover v j s)) s)" for lo hi v s
    by (rule for_up_sim) (auto simp: discover_xmt_sim split: bind_split)
  from this [of _ _ _ s] show ?thesis
    unfolding scan_vertex_xmt_def scan_vertex_def s by (simp add: fill_tree_def split: bind_split)
qed

lemma levels_xmt_sim:
  "levels_xmt (scan_vertex_xmt g) (k1, fill_tree s) = map_option (\<lambda>(k1, s). (k1, fill_tree s)) (bfs_levels g (k1, s))"
proof -
  let ?h = "\<lambda>(k1, s). (k1, fill_tree s)"
  have "levels_xmt (scan_vertex_xmt g) (?h (k1, s)) = map_option ?h (bfs_levels g (k1, s))"
    unfolding levels_xmt_def bfs_levels_def
  proof (rule while_opt_sim)
    fix u :: "int \<times> vqueue"
    obtain k1 tree vlist k2 where u: "u = (k1, tree, vlist, k2)" by (cases u)
    show "(case ?h u of (k1, bfs_tree, vlist, k2) \<Rightarrow> Some (k1 \<noteq> k2)) = (case u of (k1, bfs_tree, vlist, k2) \<Rightarrow> Some (k1 \<noteq> k2))"
      by (simp add: u fill_tree_def)
    have "for_up lo hi (scan_vertex_xmt g) (fill_tree s) = map_option fill_tree (for_up lo hi (scan_vertex g) s)" for lo hi s
      by (rule for_up_sim) (rule scan_vertex_xmt_sim)
    from this [of k1 k2 "(tree, vlist, k2)"]
    show "(case ?h u of (k1, bfs_tree, vlist, k2) \<Rightarrow> do {
        let oldk2 = k2;
        s \<leftarrow> for_up k1 oldk2 (scan_vertex_xmt g) (bfs_tree, vlist, k2);
        Some (oldk2, s)
      }) = map_option ?h (case u of (k1, bfs_tree, vlist, k2) \<Rightarrow> do {
        let oldk2 = k2;
        s \<leftarrow> for_up k1 oldk2 (scan_vertex g) (bfs_tree, vlist, k2);
        Some (oldk2, s)
      })"
      by (simp add: u fill_tree_def split: bind_split)
  qed
  then show ?thesis by simp
qed

lemma make_bfs_tree_xmt_eq: "make_bfs_tree_xmt alloc g out src = make_bfs_tree alloc g out src"
proof (cases "alloc (nat (nv g))")
  case (Some vlist)
  have "for_up 0 (nv g) (\<lambda>k t. wr t k (-1, True)) (filled out) = map_option filled (for_up 0 (nv g) (\<lambda>k t. wr t k (-1)) out)"
    by (rule for_up_sim) (simp add: wr_filled)
  moreover have "levels_xmt (scan_vertex_xmt g) (0, filled t, vl, k) =
      map_option (\<lambda>(k1, t, vl, k). (k1, filled t, vl, k)) (bfs_levels g (0, t, vl, k))" for t vl k
    using levels_xmt_sim [of g 0 "(t, vl, k)"] by (simp add: fill_tree_def split_beta')
  ultimately show ?thesis
    by (auto simp: make_bfs_tree_xmt_def make_bfs_tree_with_def make_bfs_tree_def Some wr_filled split: bind_split)
qed (simp add: make_bfs_tree_xmt_def make_bfs_tree_with_def make_bfs_tree_def)

subsection \<open>The buffered search\<close>

definition packed_rel :: "fe_queue \<Rightarrow> pack_queue \<Rightarrow> bool" where
  "packed_rel = (\<lambda>(tree, vlist, k2) (tree', vlist', k2', vpack). tree' = tree \<and> k2 = k2' + int (length vpack) \<and>
     int (length vpack) < NPACK \<and> vlist = put vlist' (nat k2') vpack \<and>
     (vpack \<noteq> [] \<longrightarrow> 0 \<le> k2' \<and> k2 \<le> int (length vlist')))"

lemma flush_pack_eq:
  assumes "0 \<le> k2" "k2 + int (length vpack) \<le> int (length vlist)"
  shows "flush_pack vpack (vlist, k2) = Some (put vlist (nat k2) vpack, k2 + int (length vpack))"
  using copy_block_eq [OF assms] by (simp add: flush_pack_def)

lemma pack_push_rel:
  assumes R: "packed_rel (tree, vlist, k2) (tree, vlist', k2', vpack)" and w: "wr vlist k2 j = Some vlist2"
  shows "\<exists>vlist2' k2'' vpack'. pack_push j (vlist', k2', vpack) = Some (vlist2', k2'', vpack') \<and>
    packed_rel (tree2, vlist2, k2 + 1) (tree2, vlist2', k2'', vpack')"
proof -
  have k: "k2 = k2' + int (length vpack)" "int (length vpack) < NPACK" "vlist = put vlist' (nat k2') vpack"
    using R by (auto simp: packed_rel_def)
  have b: "0 \<le> k2" "k2 < int (length vlist)" "vlist2 = vlist[nat k2 := j]" using w by (auto simp: wr_eq_Some)
  have k0: "0 \<le> k2'" using R b by (cases "vpack = []") (auto simp: packed_rel_def)
  have len: "length vlist = length vlist'" "k2 < int (length vlist')"
    using R b k by (cases "vpack = []"; auto simp: packed_rel_def)+
  have n: "nat k2 = nat k2' + length vpack" using k(1) k0 by simp
  have "nat k2' + length vpack < length vlist'" using len(2) n b(1) by simp
  then have v2: "vlist2 = put vlist' (nat k2') (vpack @ [j])"
    unfolding b(3) n unfolding k(3) by (rule put_snoc)
  show ?thesis
  proof (cases "int (length (vpack @ [j])) = NPACK")
    case True
    then have "pack_push j (vlist', k2', vpack) = Some (vlist2, k2 + 1, [])"
      using flush_pack_eq [of k2' "vpack @ [j]" vlist'] k k0 len v2 by (simp add: pack_push_def)
    then show ?thesis by (simp add: packed_rel_def NPACK_def)
  next
    case False
    then have "pack_push j (vlist', k2', vpack) = Some (vlist', k2', vpack @ [j])"
      using k(2) by (simp add: pack_push_def)
    then show ?thesis using k k0 len v2 False by (auto simp: packed_rel_def)
  qed
qed

lemma discover_local_rel:
  assumes run: "discover_xmt v j s = Some s2" and R: "packed_rel s s'"
  shows "\<exists>s2'. discover_local v j s' = Some s2' \<and> packed_rel s2 s2'"
proof -
  obtain tree vlist k2 where s: "s = (tree, vlist, k2)" by (cases s)
  obtain vlist' k2' vpack where s': "s' = (tree, vlist', k2', vpack)" using R by (cases s') (auto simp: packed_rel_def s)
  obtain x full where x: "rd tree j = Some (x, full)" using run by (auto simp: s discover_xmt_def bind_eq_Some)
  show ?thesis
  proof (cases "x = -1")
    case False
    then show ?thesis using run R x by (simp add: s s' discover_xmt_def discover_local_def)
  next
    case True
    obtain tree1 where t1: "readfe tree j = Some (-1, tree1)"
      using run x True by (auto simp: s discover_xmt_def readfe_def bind_eq_Some)
    obtain vlist2 tree2 where r: "wr vlist k2 j = Some vlist2" "writeef tree1 j v = Some tree2" "s2 = (tree2, vlist2, k2 + 1)"
      using run x True t1 by (auto simp: s discover_xmt_def bind_eq_Some)
    from pack_push_rel [OF R [unfolded s s'] r(1)] obtain vl k vp where
      p: "pack_push j (vlist', k2', vpack) = Some (vl, k, vp)" "packed_rel s2 (tree2, vl, k, vp)" unfolding r(3) by blast
    then show ?thesis using x True t1 r(2) by (simp add: s' discover_local_def)
  qed
qed

lemma scan_vertex_local_eq:
  assumes "scan_vertex_xmt g k s = Some s2"
  shows "scan_vertex_local g k s = Some s2"
proof -
  obtain tree vlist k2 where s: "s = (tree, vlist, k2)" by (cases s)
  obtain v veo vo where r: "rd vlist k = Some v" "rd (xoff g) (1 + 2 * v) = Some veo" "rd (xoff g) (2 * v) = Some vo"
      "for_up vo veo (\<lambda>vo s. rd_xadj (xadjstore g) vo \<bind> (\<lambda>j. discover_xmt v j s)) (tree, vlist, k2) = Some s2"
    using assms by (auto simp: s scan_vertex_xmt_def bind_eq_Some)
  have "packed_rel (tree, vlist, k2) (tree, vlist, k2, [])" by (simp add: packed_rel_def NPACK_def)
  have "\<exists>s2'. for_up vo veo (\<lambda>vo s. rd_xadj (xadjstore g) vo \<bind> (\<lambda>j. discover_local v j s)) (tree, vlist, k2, []) = Some s2' \<and>
      packed_rel s2 s2'"
  proof (rule for_up_rel [where R = packed_rel, OF r(4) \<open>packed_rel _ _\<close>])
    fix x u w u'
    assume run: "rd_xadj (xadjstore g) x \<bind> (\<lambda>j. discover_xmt v j u) = Some w" and R: "packed_rel u u'"
    obtain j where j: "rd_xadj (xadjstore g) x = Some j" "discover_xmt v j u = Some w"
      using run by (cases "rd_xadj (xadjstore g) x") simp_all
    from discover_local_rel [OF j(2) R] j(1)
    show "\<exists>w'. rd_xadj (xadjstore g) x \<bind> (\<lambda>j. discover_local v j u') = Some w' \<and> packed_rel w w'" by simp
  qed
  then obtain s2' where l: "for_up vo veo (\<lambda>vo s. rd_xadj (xadjstore g) vo \<bind> (\<lambda>j. discover_local v j s)) (tree, vlist, k2, []) = Some s2'"
      "packed_rel s2 s2'" by (elim exE conjE) (rule that)
  obtain t vl k' vp where s2': "s2' = (t, vl, k', vp)" by (cases s2')
  have "(if vp \<noteq> [] then flush_pack vp (vl, k') else Some (vl, k')) = Some (put vl (nat k') vp, k' + int (length vp))"
    using l(2) flush_pack_eq [of k' vp vl] by (cases s2) (auto simp: s2' packed_rel_def)
  moreover have "s2 = (t, put vl (nat k') vp, k' + int (length vp))" using l(2) by (cases s2) (auto simp: s2' packed_rel_def)
  ultimately show ?thesis using r(1-3) l(1) by (simp add: s s2' scan_vertex_local_def)
qed

lemma levels_local_eq:
  assumes "levels_xmt (scan_vertex_xmt g) s = Some t"
  shows "levels_xmt (scan_vertex_local g) s = Some t"
  using assms unfolding levels_xmt_def
proof (rule while_opt_mono)
  fix u v :: "int \<times> fe_queue"
  assume run: "(case u of (k1, bfs_tree, vlist, k2) \<Rightarrow> do {
      let oldk2 = k2;
      s \<leftarrow> for_up k1 oldk2 (scan_vertex_xmt g) (bfs_tree, vlist, k2);
      Some (oldk2, s)
    }) = Some v"
  obtain k1 tree vlist k2 where u: "u = (k1, tree, vlist, k2)" by (cases u)
  obtain s where s: "for_up k1 k2 (scan_vertex_xmt g) (tree, vlist, k2) = Some s" "v = (k2, s)"
    using run by (cases "for_up k1 k2 (scan_vertex_xmt g) (tree, vlist, k2)") (simp_all add: u)
  from for_up_mono [OF s(1) scan_vertex_local_eq]
  show "(case u of (k1, bfs_tree, vlist, k2) \<Rightarrow> do {
      let oldk2 = k2;
      s \<leftarrow> for_up k1 oldk2 (scan_vertex_local g) (bfs_tree, vlist, k2);
      Some (oldk2, s)
    }) = Some v"
    using s(2) by (simp add: u)
qed

lemma make_bfs_tree_local_eq:
  assumes "make_bfs_tree_xmt alloc g out src = Some r"
  shows "make_bfs_tree_local alloc g out src = Some r"
  using assms levels_local_eq [of g]
  by (fastforce simp: make_bfs_tree_xmt_def make_bfs_tree_local_def make_bfs_tree_with_def bind_eq_Some split: option.splits)

subsection \<open>The benchmark with these implementations\<close>

lemma xmt_backend_laws:
  assumes "alloc_law alloc" "nonneg_edges IJ"
  shows "(\<exists>g. create_graph_xmt alloc IJ = Some (Inr g)) \<or>
      (\<exists>e n. create_graph_xmt alloc IJ = Some (Inl e) \<and> e \<noteq> 0 \<and> alloc n = None)"
    and "create_graph_xmt alloc IJ = Some (Inr g) \<Longrightarrow> 0 \<le> src \<Longrightarrow> src \<le> max_vertex IJ \<Longrightarrow>
      max_vertex IJ < int (length out) \<Longrightarrow>
      (\<exists>tree. make_bfs_tree_xmt alloc g out src = Some (0, max_vertex IJ, tree) \<and> length tree = length out \<and>
         bfs_tree_of (edge_nbrs IJ) src (max_vertex IJ + 1) tree) \<or>
      (\<exists>e m t n. make_bfs_tree_xmt alloc g out src = Some (e, m, t) \<and> e \<noteq> 0 \<and> alloc n = None)"
  using seq.create_returns [OF assms(1) TrueI, of IJ] seq.make_returns [OF assms(1) TrueI, of IJ g src out]
  unfolding create_graph_xmt_eq [OF assms(2)] make_bfs_tree_xmt_eq by blast+

interpretation xmt: bfs_backend nonneg_edges create_graph_xmt make_bfs_tree_xmt
  by unfold_locales (erule (1) xmt_backend_laws | erule (5) xmt_backend_laws(2))+

interpretation xmt_local: bfs_backend nonneg_edges create_graph_xmt make_bfs_tree_local
proof
  fix alloc IJ
  assume al: "alloc_law alloc" "nonneg_edges IJ"
  show "(\<exists>g. create_graph_xmt alloc IJ = Some (Inr g)) \<or>
      (\<exists>e n. create_graph_xmt alloc IJ = Some (Inl e) \<and> e \<noteq> 0 \<and> alloc n = None)"
    by (rule xmt_backend_laws(1) [OF al])
  fix g src and out :: "int list"
  assume b: "create_graph_xmt alloc IJ = Some (Inr g)" "0 \<le> src" "src \<le> max_vertex IJ" "max_vertex IJ < int (length out)"
  show "(\<exists>tree. make_bfs_tree_local alloc g out src = Some (0, max_vertex IJ, tree) \<and> length tree = length out \<and>
         bfs_tree_of (edge_nbrs IJ) src (max_vertex IJ + 1) tree) \<or>
      (\<exists>e m t n. make_bfs_tree_local alloc g out src = Some (e, m, t) \<and> e \<noteq> 0 \<and> alloc n = None)"
    using xmt_backend_laws(2) [OF al b] make_bfs_tree_local_eq [of alloc g out src] by blast
qed



text \<open>A negative end point, which the other implementations skip, is an access out of bounds.\<close>

lemma xmt_negative_vertex:
  "create_graph_xmt (\<lambda>n. Some (replicate n 0)) [write_edge (-1) 0] = None"
  by code_simp

end
