(* ===== verification/Rmat.thy ===== *)
theory Rmat
  imports Driver "HOL-Library.Multiset"
begin

text \<open>
  The R-MAT generator of Graph500 (\<open>rmat.c\<close>) as it is compiled without OpenMP: the edges drawn by
  recursive division of the adjacency matrix, the random relabelling of the vertices and the random
  reordering of the edge list.  Doubles are exact rationals; the array \<open>Rlocal\<close> has the \<open>NRAND(1)\<close>
  elements it is allocated with, so that reading past them is \<^const>\<open>None\<close>.
\<close>

subsection \<open>Definitions\<close>

text \<open>The quadrant of one step: the new row and column.\<close>

definition rmat_quadrant :: "rat \<Rightarrow> rat \<Rightarrow> rat \<Rightarrow> rat \<Rightarrow> int \<Rightarrow> int \<times> int \<Rightarrow> int \<times> int" where
  "rmat_quadrant r A B C bt = (\<lambda>(i, j).
     if r > A then
       if r \<le> A + B then (i, j OR bt)
       else if r \<le> A + B + C then (i OR bt, j)
       else (i OR bt, j OR bt)
     else (i, j))"

record rmat_state =
  rni :: int
  ri :: int
  rj :: int
  rbit :: int
  rA :: rat
  rB :: rat
  rC :: rat
  rD :: rat
  rdone :: bool

definition rmat_noise :: "rat list \<Rightarrow> rmat_state \<Rightarrow> rmat_state option" where
  "rmat_noise rn s = do {
     a \<leftarrow> rd rn (rni s);
     b \<leftarrow> rd rn (rni s + 1);
     c \<leftarrow> rd rn (rni s + 2);
     d \<leftarrow> rd rn (rni s + 3);
     let A = rA s * (95 / 100 + a / 10);
     let B = rB s * (95 / 100 + b / 10);
     let C = rC s * (95 / 100 + c / 10);
     let D = rD s * (95 / 100 + d / 10);
     let norm = 1 / (A + B + C + D);
     let A = A * norm;
     let B = B * norm;
     let C = C * norm;
     Some (s\<lparr>rni := rni s + 4, rA := A, rB := B, rC := C, rD := 1 - (A + B + C)\<rparr>)
   }"

definition rmat_step :: "rat list \<Rightarrow> rmat_state \<Rightarrow> rmat_state option" where
  "rmat_step rn s = do {
     r \<leftarrow> rd rn (rni s);
     let (i, j) = rmat_quadrant r (rA s) (rB s) (rC s) (rbit s) (ri s, rj s);
     let s = s\<lparr>rni := rni s + 1, ri := i, rj := j\<rparr>;
     if 1 = rbit s then Some (s\<lparr>rdone := True\<rparr>)
     else do {
       s \<leftarrow> rmat_noise rn s;
       Some (s\<lparr>rbit := drop_bit 1 (rbit s)\<rparr>)
     }
   }"

definition rmat_edge :: "int \<Rightarrow> rat \<Rightarrow> rat \<Rightarrow> rat \<Rightarrow> rat \<Rightarrow> rat list \<Rightarrow> packed_edge option" where
  "rmat_edge SCALE A B C D rn = do {
     assert_opt (0 \<le> SCALE - 1 \<and> SCALE - 1 < 63);
     s \<leftarrow> while_opt (\<lambda>s. Some (\<not> rdone s)) (rmat_step rn)
       \<lparr>rni = 0, ri = 0, rj = 0, rbit = push_bit (nat (SCALE - 1)) 1,
        rA = A, rB = B, rC = C, rD = D, rdone = False\<rparr>;
     Some (write_edge (ri s) (rj s))
   }"

text \<open>The random permutation of an array, for vertex numbers and for edges.\<close>

definition randpermute :: "int \<Rightarrow> 'a list \<times> mrg_state \<Rightarrow> ('a list \<times> mrg_state) option" where
  "randpermute nelem = for_up 0 nelem (\<lambda>k (A, st). do {
     (R, st) \<leftarrow> mrg_get_double_orig st;
     let place = k + \<lfloor>R * of_int (nelem - k)\<rfloor>;
     if k \<noteq> place then do {
       t \<leftarrow> rd A place;
       x \<leftarrow> rd A k;
       A \<leftarrow> wr A place x;
       A \<leftarrow> wr A k t;
       Some (A, st)
     } else Some (A, st)
   })"

definition relabel_edge :: "int list \<Rightarrow> packed_edge \<Rightarrow> packed_edge option" where
  "relabel_edge newlabel e = do {
     i \<leftarrow> rd newlabel (get_v0_from_edge e);
     j \<leftarrow> rd newlabel (get_v1_from_edge e);
     Some (write_edge i j)
   }"

definition permute_vertex_labels ::
    "int \<Rightarrow> packed_edge list \<Rightarrow> mrg_state \<Rightarrow> int list \<Rightarrow> (packed_edge list \<times> mrg_state) option" where
  "permute_vertex_labels max_nvtx IJ st newlabel = do {
     newlabel \<leftarrow> for_up 0 max_nvtx (\<lambda>k l. wr l k k) newlabel;
     (newlabel, st) \<leftarrow> randpermute max_nvtx (newlabel, st);
     IJ \<leftarrow> for_up 0 (int (length IJ)) (\<lambda>k IJ. do {
       e \<leftarrow> rd IJ k;
       e \<leftarrow> relabel_edge newlabel e;
       wr IJ k e
     }) IJ;
     Some (IJ, st)
   }"

definition permute_edgelist :: "packed_edge list \<Rightarrow> mrg_state \<Rightarrow> (packed_edge list \<times> mrg_state) option" where
  "permute_edgelist IJ st = randpermute (int (length IJ)) (IJ, st)"

definition NRAND :: "int \<Rightarrow> int \<Rightarrow> int" where
  "NRAND SCALE ne = 5 * SCALE * ne"

fun draw_doubles :: "nat \<Rightarrow> mrg_state \<Rightarrow> (rat list \<times> mrg_state) option" where
  "draw_doubles 0 st = Some ([], st)"
| "draw_doubles (Suc n) st = do {
     (R, st) \<leftarrow> mrg_get_double_orig st;
     (Rs, st) \<leftarrow> draw_doubles n st;
     Some (R # Rs, st)
   }"

definition rmat_fill ::
    "skip_table \<Rightarrow> int \<Rightarrow> rat \<Rightarrow> rat \<Rightarrow> rat \<Rightarrow> packed_edge list \<Rightarrow> mrg_state \<Rightarrow> (packed_edge list \<times> mrg_state) option" where
  "rmat_fill tbl SCALE A B C IJ new_st = for_up 0 (int (length IJ)) (\<lambda>k (IJ, new_st). do {
     new_st \<leftarrow> mrg_skip tbl new_st 1 (word_of_int (NRAND SCALE 1)) 0;
     (Rlocal, new_st) \<leftarrow> draw_doubles (nat (NRAND SCALE 1)) new_st;
     e \<leftarrow> rmat_edge SCALE A B C (1 - (A + B + C)) Rlocal;
     IJ \<leftarrow> wr IJ k e;
     Some (IJ, new_st)
   }) (IJ, new_st)"

definition rmat_edgelist ::
    "skip_table \<Rightarrow> allocator \<Rightarrow> int \<Rightarrow> rat \<Rightarrow> rat \<Rightarrow> rat \<Rightarrow> packed_edge list \<Rightarrow> mrg_state \<Rightarrow>
     (packed_edge list \<times> mrg_state) option" where
  "rmat_edgelist tbl alloc SCALE A B C IJ prng = do {
     iwork \<leftarrow> alloc (nat (2 ^ nat SCALE));
     let nedge = int (length IJ);
     (IJ, _) \<leftarrow> rmat_fill tbl SCALE A B C IJ prng;
     prng \<leftarrow> mrg_skip tbl prng 1 (word_of_int (NRAND SCALE nedge)) 0;
     (IJ, _) \<leftarrow> permute_vertex_labels (2 ^ nat SCALE) IJ prng iwork;
     prng \<leftarrow> mrg_skip tbl prng 1 (word_of_int (2 ^ nat SCALE)) 0;
     (IJ, _) \<leftarrow> permute_edgelist IJ prng;
     prng \<leftarrow> mrg_skip tbl prng 1 (word_of_int nedge) 0;
     Some (IJ, prng)
   }"

subsection \<open>One edge\<close>

lemma or_bound:
  fixes i b :: int
  assumes "0 \<le> i" "i < 2 ^ n" "0 \<le> b" "b < 2 ^ n"
  shows "0 \<le> i OR b \<and> i OR b < 2 ^ n"
  using assms OR_upper [of i n b] by simp

lemma rmat_quadrant_bound:
  assumes "0 \<le> i" "i < 2 ^ n" "0 \<le> j" "j < 2 ^ n" "0 \<le> b" "b < 2 ^ n" "rmat_quadrant r A B C b (i, j) = (i', j')"
  shows "0 \<le> i' \<and> i' < 2 ^ n \<and> 0 \<le> j' \<and> j' < 2 ^ n"
  using assms(1-6) or_bound [OF assms(1,2,5,6)] or_bound [OF assms(3,4,5,6)] assms(7)
  by (auto simp: rmat_quadrant_def split: if_splits)

text \<open>After the step for bit \<open>k\<close>, all the random numbers of the higher bits have been used.\<close>

definition rmat_inv :: "nat \<Rightarrow> rmat_state \<Rightarrow> bool" where
  "rmat_inv n s \<longleftrightarrow> 0 \<le> ri s \<and> ri s < 2 ^ n \<and> 0 \<le> rj s \<and> rj s < 2 ^ n \<and>
     (rdone s \<or> (\<exists>k < n. rbit s = 2 ^ k \<and> rni s = 5 * (int n - 1 - int k)))"

lemma rmat_step_ok:
  assumes inv: "rmat_inv n s" "\<not> rdone s" and rn: "5 * int n \<le> int (length rn)"
  shows "\<exists>s'. rmat_step rn s = Some s' \<and> rmat_inv n s' \<and> (rdone s' \<or> (\<exists>k. rbit s = 2 ^ Suc k \<and> rbit s' = 2 ^ k))"
proof -
  obtain k where k: "k < n" "rbit s = 2 ^ k" "rni s = 5 * (int n - 1 - int k)" using inv by (auto simp: rmat_inv_def)
  obtain i j where q: "rmat_quadrant (rn ! nat (rni s)) (rA s) (rB s) (rC s) (rbit s) (ri s, rj s) = (i, j)"
    by (metis surj_pair)
  have b: "(0 :: int) \<le> 2 ^ k" "(2 :: int) ^ k < 2 ^ n" using k(1) by simp_all
  have ij: "0 \<le> i \<and> i < 2 ^ n \<and> 0 \<le> j \<and> j < 2 ^ n"
    by (rule rmat_quadrant_bound [OF _ _ _ _ b q [unfolded k(2)]]) (use inv in \<open>auto simp: rmat_inv_def\<close>)
  have r: "rd rn (rni s) = Some (rn ! nat (rni s))" using k(1,3) rn by (intro rd_in) auto
  show ?thesis
  proof (cases k)
    case 0
    then show ?thesis using r q ij k by (simp add: rmat_step_def rmat_inv_def)
  next
    case (Suc k')
    have "even (2 ^ k :: int)" using Suc by simp
    then have "(1 :: int) \<noteq> 2 ^ k" by (metis odd_one)
    moreover have "rd rn (rni s + x) = Some (rn ! nat (rni s + x))" if "0 \<le> x" "x \<le> 4" for x
      using k(1,3) rn that by (intro rd_in) auto
    from this [of 1] this [of 2] this [of 3] this [of 4]
    have "rmat_noise rn (s\<lparr>rni := rni s + 1, ri := i, rj := j\<rparr>) \<noteq> None"
      by (simp add: rmat_noise_def Let_def add.assoc)
    then obtain t where t: "rmat_noise rn (s\<lparr>rni := rni s + 1, ri := i, rj := j\<rparr>) = Some t" by blast
    then have "rni t = rni s + 5" "ri t = i" "rj t = j" "rbit t = rbit s" "\<not> rdone t"
      using inv(2) by (auto simp: rmat_noise_def Let_def bind_eq_Some)
    moreover have "drop_bit 1 (2 ^ k :: int) = 2 ^ k'" using Suc by (simp add: drop_bit_eq_div)
    ultimately show ?thesis using r q ij k t Suc
      by (simp add: rmat_step_def rmat_inv_def)
  qed
qed

lemma rmat_edge_ok:
  assumes "1 \<le> SCALE" "SCALE \<le> 63" "5 * SCALE \<le> int (length rn)"
  shows "\<exists>i j. rmat_edge SCALE A B C D rn = Some (write_edge i j) \<and>
    0 \<le> i \<and> i < 2 ^ nat SCALE \<and> 0 \<le> j \<and> j < 2 ^ nat SCALE"
proof -
  define n where "n = nat SCALE"
  let ?s = "\<lparr>rni = 0, ri = 0, rj = 0, rbit = push_bit (nat (SCALE - 1)) 1, rA = A, rB = B, rC = C, rD = D, rdone = False\<rparr>"
  have n: "int n = SCALE" "nat (SCALE - 1) = n - 1" "n - 1 < n" using assms(1) by (simp_all add: n_def)
  have init: "rmat_inv n ?s" unfolding rmat_inv_def
    by (intro conjI disjI2 exI [of _ "n - 1"]) (use n assms(1) in \<open>auto simp: push_bit_eq_mult\<close>)
  have "\<exists>s. while_opt (\<lambda>s. Some (\<not> rdone s)) (rmat_step rn) ?s = Some s \<and> rmat_inv n s \<and> Some (\<not> rdone s) = Some False"
  proof (rule while_opt_inv [where m = "\<lambda>s. if rdone s then 0 else Suc (nat (rbit s))"])
    fix t
    assume t: "rmat_inv n t" "Some (\<not> rdone t) = Some True"
    then obtain t' where t': "rmat_step rn t = Some t'" "rmat_inv n t'" "rdone t' \<or> (\<exists>k. rbit t = 2 ^ Suc k \<and> rbit t' = 2 ^ k)"
      using rmat_step_ok [of n t rn] assms(3) n(1) by auto
    from t'(3) have "(if rdone t' then 0 else Suc (nat (rbit t'))) < (if rdone t then 0 else Suc (nat (rbit t)))"
      using t(2) by auto
    with t'(1,2) show "\<exists>t'. rmat_step rn t = Some t' \<and> rmat_inv n t' \<and>
        (if rdone t' then 0 else Suc (nat (rbit t'))) < (if rdone t then 0 else Suc (nat (rbit t)))"
      by blast
  qed (use init in simp_all)
  then obtain s where "while_opt (\<lambda>s. Some (\<not> rdone s)) (rmat_step rn) ?s = Some s" "rmat_inv n s" by blast
  then show ?thesis using assms(1,2) by (intro exI [of _ "ri s"] exI [of _ "rj s"]) (simp add: rmat_edge_def rmat_inv_def n_def)
qed

subsection \<open>Random permutations\<close>

lemma random_place:
  fixes R :: rat and n :: int
  assumes "0 \<le> R" "R < 1" "0 < n"
  shows "0 \<le> \<lfloor>R * of_int n\<rfloor> \<and> \<lfloor>R * of_int n\<rfloor> < n"
proof -
  have "R * of_int n < 1 * of_int n" using assms by (intro mult_strict_right_mono) simp_all
  then show ?thesis using assms by (simp add: floor_less_iff)
qed

lemma randpermute_result:
  assumes "st_ok st" "int (length A) = nelem"
  shows "\<exists>A' st'. randpermute nelem (A, st) = Some (A', st') \<and> mset A' = mset A \<and> st_ok st'"
proof -
  have "\<exists>t. randpermute nelem (A, st) = Some t \<and> (mset (fst t) = mset A \<and> st_ok (snd t))"
    unfolding randpermute_def
  proof (rule for_up_inv [where I = "\<lambda>_ t. mset (fst t) = mset A \<and> st_ok (snd t)"])
    fix k and t :: "'a list \<times> mrg_state"
    assume k: "0 \<le> k" "k < nelem" and t: "mset (fst t) = mset A \<and> st_ok (snd t)"
    obtain xs s where tt: "t = (xs, s)" by (cases t)
    have l: "int (length xs) = nelem" using mset_eq_length [of xs A] t tt assms(2) by simp
    obtain R s' where R: "mrg_get_double_orig s = Some (R, s')" "st_ok s'" "0 \<le> R" "R < 1"
      using mrg_get_double_ok [of s] t tt by auto
    define p where "p = k + \<lfloor>R * of_int (nelem - k)\<rfloor>"
    have p: "k \<le> p" "p < nelem" using random_place [of R "nelem - k"] R(3,4) k unfolding p_def by auto
    have "mset (xs[nat p := xs ! nat k, nat k := xs ! nat p]) = mset xs"
      by (rule mset_swap) (use p k l in auto)
    then show "\<exists>t'. (case t of (A, st) \<Rightarrow> do {
        (R, st) \<leftarrow> mrg_get_double_orig st;
        let place = k + \<lfloor>R * of_int (nelem - k)\<rfloor>;
        if k \<noteq> place then do {
          t \<leftarrow> rd A place; x \<leftarrow> rd A k; A \<leftarrow> wr A place x; A \<leftarrow> wr A k t; Some (A, st)
        } else Some (A, st)
      }) = Some t' \<and> mset (fst t') = mset A \<and> st_ok (snd t')"
      using p k l t R(2) unfolding tt prod.case R(1) Option.bind.bind_lunit Let_def p_def [symmetric] by simp
  qed (use assms in auto)
  then show ?thesis unfolding split_paired_Ex by simp
qed

lemma map_in_place:
  assumes "\<And>x. x \<in> set xs \<Longrightarrow> f x = Some (g x)"
  shows "for_up 0 (int (length xs)) (\<lambda>k ys. do { x \<leftarrow> rd ys k; y \<leftarrow> f x; wr ys k y }) xs = Some (map g xs)"
proof -
  have "\<exists>ys. for_up 0 (int (length xs)) (\<lambda>k ys. do { x \<leftarrow> rd ys k; y \<leftarrow> f x; wr ys k y }) xs = Some ys \<and>
      ys = map g (take (nat (int (length xs))) xs) @ drop (nat (int (length xs))) xs"
  proof (rule for_up_inv [where I = "\<lambda>k ys. ys = map g (take (nat k) xs) @ drop (nat k) xs"])
    fix k ys
    assume k: "0 \<le> k" "k < int (length xs)" and ys: "ys = map g (take (nat k) xs) @ drop (nat k) xs"
    define n where "n = nat k"
    have n: "k = int n" "n < length xs" using k by (auto simp: n_def)
    have d: "drop n xs = xs ! n # drop (Suc n) xs" using n(2) by (simp add: Cons_nth_drop_Suc)
    have "rd ys k = Some (xs ! n)" "wr ys k (g (xs ! n)) = Some (map g (take (Suc n) xs) @ drop (Suc n) xs)"
      using n unfolding ys by (simp_all add: d nth_append list_update_append take_Suc_conv_app_nth)
    moreover have "f (xs ! n) = Some (g (xs ! n))" using n(2) by (intro assms) simp
    moreover have "nat (k + 1) = Suc n" using n by simp
    ultimately show "\<exists>zs. do { x \<leftarrow> rd ys k; y \<leftarrow> f x; wr ys k y } = Some zs \<and> zs = map g (take (nat (k + 1)) xs) @ drop (nat (k + 1)) xs"
      by simp
  qed simp_all
  then show ?thesis by simp
qed

lemma fill_identity:
  assumes "int (length l) = n"
  shows "for_up 0 n (\<lambda>k l. wr l k k) l = Some [0..n - 1]"
proof -
  have "\<exists>l'. for_up 0 n (\<lambda>k l. wr l k k) l = Some l' \<and> (int (length l') = n \<and> (\<forall>i. 0 \<le> i \<and> i < n \<longrightarrow> l' ! nat i = i))"
    by (rule for_up_inv [where I = "\<lambda>k l'. int (length l') = n \<and> (\<forall>i. 0 \<le> i \<and> i < k \<longrightarrow> l' ! nat i = i)"])
      (use assms in \<open>auto simp: nth_list_update_int\<close>)
  then obtain l' where l': "for_up 0 n (\<lambda>k l. wr l k k) l = Some l'" "int (length l') = n" "\<forall>i. 0 \<le> i \<and> i < n \<longrightarrow> l' ! nat i = i"
    by (elim exE conjE) (rule that)
  have "l' = [0..n - 1]"
  proof (rule nth_equalityI)
    show "length l' = length [0..n - 1]" using l'(2) by simp
    fix i assume "i < length l'"
    then show "l' ! i = [0..n - 1] ! i" using l'(2,3) by (auto dest: spec [of _ "int i"])
  qed
  with l'(1) show ?thesis by simp
qed

definition relabelled :: "(int \<Rightarrow> int) \<Rightarrow> packed_edge \<Rightarrow> packed_edge" where
  "relabelled f e = write_edge (f (get_v0_from_edge e)) (f (get_v1_from_edge e))"

lemma relabelled_within:
  assumes "bij_betw f {0..<n} {0..<n}" "edges_within n IJ"
  shows "edges_within n (map (relabelled f) IJ)"
  using assms(2) bij_betwE [OF assms(1)] by (auto simp: edges_within_def list_all_iff relabelled_def)

lemma permute_vertex_labels_result:
  assumes "st_ok st" "int (length l) = n" "edges_within n IJ"
  shows "\<exists>f st'. permute_vertex_labels n IJ st l = Some (map (relabelled f) IJ, st') \<and> bij_betw f {0..<n} {0..<n} \<and> st_ok st'"
proof -
  have "int (length [0..n - 1]) = n" using assms(2) by simp
  from randpermute_result [OF assms(1) this]
  obtain l' st' where l': "randpermute n ([0..n - 1], st) = Some (l', st')" "mset l' = mset [0..n - 1]" "st_ok st'"
    by (elim exE conjE) (rule that)
  define f where "f v = l' ! nat v" for v
  have len: "int (length l') = n" using mset_eq_length [OF l'(2)] assms(2) by simp
  have iv: "{0..n - 1} = {0..<n}" by (auto simp: set_eq_iff)
  have set: "set l' = {0..<n}" using mset_eq_setD [OF l'(2)] unfolding set_upto iv .
  have dist: "distinct l'" using mset_eq_imp_distinct_iff [OF l'(2)] by simp
  have m: "map f [0..n - 1] = l'" by (rule nth_equalityI) (use len in \<open>simp_all add: f_def\<close>)
  have "f ` {0..<n} = {0..<n}" using arg_cong [OF m, of set] unfolding set_map set_upto iv set .
  moreover have "inj_on f {0..<n}" using dist unfolding m [symmetric] distinct_map set_upto iv by simp
  ultimately have bij: "bij_betw f {0..<n} {0..<n}" by (simp add: bij_betw_def)
  have "relabel_edge l' e = Some (relabelled f e)" if e: "e \<in> set IJ" for e
  proof -
    have "0 \<le> get_v0_from_edge e" "get_v0_from_edge e < n" "0 \<le> get_v1_from_edge e" "get_v1_from_edge e < n"
      using assms(3) e by (simp_all add: edges_within_def list_all_iff)
    then show ?thesis using len by (simp add: relabel_edge_def relabelled_def f_def)
  qed
  then have "for_up 0 (int (length IJ)) (\<lambda>k IJ. do { e \<leftarrow> rd IJ k; e \<leftarrow> relabel_edge l' e; wr IJ k e }) IJ = Some (map (relabelled f) IJ)"
    by (rule map_in_place)
  then have "permute_vertex_labels n IJ st l = Some (map (relabelled f) IJ, st')"
    unfolding permute_vertex_labels_def using fill_identity [OF assms(2)] l'(1) by simp
  then show ?thesis using l'(3) bij by blast
qed

subsection \<open>The edge list\<close>

lemma draw_doubles_ok:
  "st_ok st \<Longrightarrow> \<exists>Rs st'. draw_doubles n st = Some (Rs, st') \<and> length Rs = n \<and> st_ok st'"
proof (induction n arbitrary: st)
  case (Suc n)
  obtain R s where "mrg_get_double_orig st = Some (R, s)" "st_ok s" using mrg_get_double_ok [OF Suc.prems] by blast
  with Suc.IH [of s] show ?case by auto
qed simp

lemma mrg_skip_st_ok:
  assumes "table_ok tbl" "st_ok st"
  shows "\<exists>st'. mrg_skip tbl st hi mid lo = Some st' \<and> st_ok st'"
  using mrg_skip_table_ok [OF assms] mrg_orig_steps_ok [OF assms(2)] by metis

lemma rmat_fill_result:
  assumes "table_ok tbl" "st_ok st" "1 \<le> SCALE" "SCALE \<le> 63"
  shows "\<exists>IJ' st'. rmat_fill tbl SCALE A B C IJ st = Some (IJ', st') \<and> length IJ' = length IJ \<and>
    edges_within (2 ^ nat SCALE) IJ'"
proof -
  let ?n = "2 ^ nat SCALE :: int"
  let ?in = "\<lambda>e. 0 \<le> get_v0_from_edge e \<and> get_v0_from_edge e < ?n \<and> 0 \<le> get_v1_from_edge e \<and> get_v1_from_edge e < ?n"
  have "\<exists>t. rmat_fill tbl SCALE A B C IJ st = Some t \<and> (length (fst t) = length IJ \<and> st_ok (snd t) \<and>
      (\<forall>i. 0 \<le> i \<and> i < int (length IJ) \<longrightarrow> ?in (fst t ! nat i)))"
    unfolding rmat_fill_def
  proof (rule for_up_inv [where I = "\<lambda>k t. length (fst t) = length IJ \<and> st_ok (snd t) \<and>
      (\<forall>i. 0 \<le> i \<and> i < k \<longrightarrow> ?in (fst t ! nat i))"])
    fix k and t :: "packed_edge list \<times> mrg_state"
    assume k: "0 \<le> k" "k < int (length IJ)" and t: "length (fst t) = length IJ \<and> st_ok (snd t) \<and>
      (\<forall>i. 0 \<le> i \<and> i < k \<longrightarrow> ?in (fst t ! nat i))"
    obtain es s where tt: "t = (es, s)" by (cases t)
    have "st_ok s" using t tt by simp
    then obtain s1 where s1: "mrg_skip tbl s 1 (word_of_int (NRAND SCALE 1)) 0 = Some s1" "st_ok s1"
      using mrg_skip_st_ok [OF assms(1)] by blast
    obtain Rs s2 where s2: "draw_doubles (nat (NRAND SCALE 1)) s1 = Some (Rs, s2)" "length Rs = nat (NRAND SCALE 1)" "st_ok s2"
      using draw_doubles_ok [OF s1(2)] by blast
    obtain i j where e: "rmat_edge SCALE A B C (1 - (A + B + C)) Rs = Some (write_edge i j)"
        "0 \<le> i" "i < ?n" "0 \<le> j" "j < ?n"
      using rmat_edge_ok [OF assms(3,4), where rn = Rs and A = A and B = B and C = C and D = "1 - (A + B + C)"] s2(2) assms(3)
      by (auto simp: NRAND_def)
    have "?in (es[nat k := write_edge i j] ! nat x)" if "0 \<le> x" "x < k + 1" for x
      using that e k t tt by (cases "x = k") (auto simp: nth_list_update_int)
    then show "\<exists>t'. (case t of (IJ, new_st) \<Rightarrow> do {
        new_st \<leftarrow> mrg_skip tbl new_st 1 (word_of_int (NRAND SCALE 1)) 0;
        (Rlocal, new_st) \<leftarrow> draw_doubles (nat (NRAND SCALE 1)) new_st;
        e \<leftarrow> rmat_edge SCALE A B C (1 - (A + B + C)) Rlocal;
        IJ \<leftarrow> wr IJ k e;
        Some (IJ, new_st)
      }) = Some t' \<and> length (fst t') = length IJ \<and> st_ok (snd t') \<and> (\<forall>i. 0 \<le> i \<and> i < k + 1 \<longrightarrow> ?in (fst t' ! nat i))"
      using tt s1(1) s2 e(1) k t by simp
  qed (use assms in auto)
  then obtain IJ' st' where r: "rmat_fill tbl SCALE A B C IJ st = Some (IJ', st')" "length IJ' = length IJ"
      and i: "\<forall>i. 0 \<le> i \<and> i < int (length IJ) \<longrightarrow> ?in (IJ' ! nat i)"
    unfolding split_paired_Ex fst_conv snd_conv by (elim exE conjE) (rule that)
  have "edges_within ?n IJ'"
    unfolding edges_within_def list_all_length
  proof (intro allI impI)
    fix n assume "n < length IJ'"
    then show "?in (IJ' ! n)" using spec [OF i, of "int n"] r(2) by simp
  qed
  with r show ?thesis by blast
qed

lemma rmat_edgelist_result:
  assumes "table_ok tbl" "st_ok st" "1 \<le> SCALE" "SCALE \<le> 62" "alloc_law alloc" "alloc (nat (2 ^ nat SCALE)) = Some iwork"
  shows "\<exists>drawn s f IJ' st'. rmat_fill tbl SCALE A B C IJ st = Some (drawn, s) \<and>
    rmat_edgelist tbl alloc SCALE A B C IJ st = Some (IJ', st') \<and> st_ok st' \<and>
    length drawn = length IJ \<and> edges_within (2 ^ nat SCALE) drawn \<and>
    bij_betw f {0..<2 ^ nat SCALE} {0..<2 ^ nat SCALE} \<and> mset IJ' = mset (map (relabelled f) drawn)"
proof -
  let ?n = "2 ^ nat SCALE :: int"
  have w: "int (length iwork) = ?n" using alloc_lawD [OF assms(5,6)] by simp
  obtain d s where d: "rmat_fill tbl SCALE A B C IJ st = Some (d, s)" "length d = length IJ" "edges_within ?n d"
    using rmat_fill_result [OF assms(1-3)] assms(4) by force
  obtain s1 where s1: "mrg_skip tbl st 1 (word_of_int (NRAND SCALE (int (length IJ)))) 0 = Some s1" "st_ok s1"
    using mrg_skip_st_ok [OF assms(1,2)] by blast
  obtain f s2 where f: "permute_vertex_labels ?n d s1 iwork = Some (map (relabelled f) d, s2)" "bij_betw f {0..<?n} {0..<?n}"
    using permute_vertex_labels_result [OF s1(2) w d(3)] by blast
  obtain s3 where s3: "mrg_skip tbl s1 1 (word_of_int ?n) 0 = Some s3" "st_ok s3"
    using mrg_skip_st_ok [OF assms(1) s1(2)] by blast
  obtain p s4 where p: "permute_edgelist (map (relabelled f) d) s3 = Some (p, s4)" "mset p = mset (map (relabelled f) d)"
    using randpermute_result [OF s3(2), of "map (relabelled f) d"] by (auto simp: permute_edgelist_def)
  obtain s5 where s5: "mrg_skip tbl s3 1 (word_of_int (int (length IJ))) 0 = Some s5" "st_ok s5"
    using mrg_skip_st_ok [OF assms(1) s3(2)] by blast
  have "rmat_edgelist tbl alloc SCALE A B C IJ st = Some (p, s5)"
    using assms(6) d(1) s1(1) f(1) s3(1) p(1) s5(1) by (simp add: rmat_edgelist_def Let_def)
  then show ?thesis using d f(2) p(2) s5(2) by blast
qed



end
