(* ===== verification/ParPermute.thy ===== *)
theory ParPermute
  imports Rmat
begin

text \<open>
  The random permutation of \<open>rmat.c\<close> as it is compiled with OpenMP: the iterations of the loop are
  shared out among threads, and an element is taken out of the array, leaving a mark, while a thread
  works on it.  One step is one atomic action of one thread.  The kind of element, how a taken
  element is recognised and the mark are arguments, as in the macro of the source.
\<close>

subsection \<open>Definitions\<close>

datatype 'r outcome = Blocked | Abort | Next 'r

record 'a elt_ops =
  is_taken :: "'a \<Rightarrow> bool"
  is_mark :: "'a \<Rightarrow> bool"
  mark :: 'a

definition i64_ops :: "int elt_ops" where
  "i64_ops = \<lparr>is_taken = (\<lambda>v. \<not> 0 \<le> v), is_mark = (\<lambda>v. v = -1), mark = -1\<rparr>"

definition pe_ops :: "packed_edge elt_ops" where
  "pe_ops = \<lparr>is_taken = (\<lambda>e. get_v0_from_edge e < 0), is_mark = (\<lambda>e. get_v0_from_edge e = -1), mark = write_edge (-1) (-1)\<rparr>"

text \<open>One try of the loop of \<open>take\<close>, and \<open>release\<close> with its assertion.\<close>

definition take_elt :: "'a elt_ops \<Rightarrow> 'a list \<Rightarrow> int \<Rightarrow> ('a \<times> 'a list) outcome" where
  "take_elt ops A p = (case rd A p of
      None \<Rightarrow> Abort
    | Some oldval \<Rightarrow> if is_taken ops oldval then Blocked else Next (oldval, A[nat p := mark ops]))"

definition release_elt :: "'a elt_ops \<Rightarrow> 'a list \<Rightarrow> int \<Rightarrow> 'a \<Rightarrow> 'a list outcome" where
  "release_elt ops A p val = (case rd A p of
      None \<Rightarrow> Abort
    | Some cur \<Rightarrow> if is_mark ops cur then Next (A[nat p := val]) else Abort)"

text \<open>The position of a thread in the body of the loop, with its local variables.\<close>

datatype 'a pc =
    Idle
  | Drawing int 'a
  | WantPlace int 'a int
  | Swapping int 'a int 'a
  | ReleasePlace int 'a int 'a
  | ReleaseK int 'a

record 'a thread =
  pc :: "'a pc"
  rng :: mrg_state
  todo :: "int list"

definition draw_place :: "skip_table \<Rightarrow> int \<Rightarrow> int \<Rightarrow> mrg_state \<Rightarrow> (int \<times> mrg_state) option" where
  "draw_place tbl nelem k st = do {
     st \<leftarrow> mrg_skip tbl st 1 (word_of_int k) 0;
     (R, st) \<leftarrow> mrg_get_double_orig st;
     Some (k + \<lfloor>R * of_int (nelem - k)\<rfloor>, st)
   }"

fun thread_step :: "'a elt_ops \<Rightarrow> skip_table \<Rightarrow> int \<Rightarrow> 'a list \<Rightarrow> 'a thread \<Rightarrow> ('a list \<times> 'a thread) outcome" where
  "thread_step ops tbl nelem A \<lparr>pc = Idle, rng = st, todo = []\<rparr> = Blocked"
| "thread_step ops tbl nelem A \<lparr>pc = Idle, rng = st, todo = k # ks\<rparr> =
    (case take_elt ops A k of
       Blocked \<Rightarrow> Blocked
     | Abort \<Rightarrow> Abort
     | Next (Ak, A) \<Rightarrow> Next (A, \<lparr>pc = Drawing k Ak, rng = st, todo = ks\<rparr>))"
| "thread_step ops tbl nelem A \<lparr>pc = Drawing k Ak, rng = st, todo = ks\<rparr> =
    (case draw_place tbl nelem k st of
       None \<Rightarrow> Abort
     | Some (place, st) \<Rightarrow>
         if k \<noteq> place then
           if place > k \<and> place < nelem then Next (A, \<lparr>pc = WantPlace k Ak place, rng = st, todo = ks\<rparr>) else Abort
         else Next (A, \<lparr>pc = ReleaseK k Ak, rng = st, todo = ks\<rparr>))"
| "thread_step ops tbl nelem A \<lparr>pc = WantPlace k Ak place, rng = st, todo = ks\<rparr> =
    (case take_elt ops A place of
       Blocked \<Rightarrow> Blocked
     | Abort \<Rightarrow> Abort
     | Next (Aplace, A) \<Rightarrow> Next (A, \<lparr>pc = Swapping k Ak place Aplace, rng = st, todo = ks\<rparr>))"
| "thread_step ops tbl nelem A \<lparr>pc = Swapping k Ak place Aplace, rng = st, todo = ks\<rparr> =
    (case (rd A place, rd A k) of
       (Some t, Some x) \<Rightarrow> Next (A[nat place := x, nat k := t], \<lparr>pc = ReleasePlace k Aplace place Ak, rng = st, todo = ks\<rparr>)
     | _ \<Rightarrow> Abort)"
| "thread_step ops tbl nelem A \<lparr>pc = ReleasePlace k Ak place Aplace, rng = st, todo = ks\<rparr> =
    (case release_elt ops A place Aplace of
       Blocked \<Rightarrow> Blocked
     | Abort \<Rightarrow> Abort
     | Next A \<Rightarrow> Next (A, \<lparr>pc = ReleaseK k Ak, rng = st, todo = ks\<rparr>))"
| "thread_step ops tbl nelem A \<lparr>pc = ReleaseK k Ak, rng = st, todo = ks\<rparr> =
    (case release_elt ops A k Ak of
       Blocked \<Rightarrow> Blocked
     | Abort \<Rightarrow> Abort
     | Next A \<Rightarrow> Next (A, \<lparr>pc = Idle, rng = st, todo = ks\<rparr>))"

text \<open>Any thread may take the next step.\<close>

inductive par_step :: "'a elt_ops \<Rightarrow> skip_table \<Rightarrow> int \<Rightarrow> 'a list \<times> 'a thread list \<Rightarrow> 'a list \<times> 'a thread list \<Rightarrow> bool"
  for ops tbl nelem where
  step: "i < length ths \<Longrightarrow> thread_step ops tbl nelem A (ths ! i) = Next (A', th) \<Longrightarrow>
    par_step ops tbl nelem (A, ths) (A', ths[i := th])"

inductive_cases par_stepE: "par_step ops tbl nelem (A, ths) s"

definition par_init :: "mrg_state list \<Rightarrow> int list list \<Rightarrow> 'a thread list" where
  "par_init sts iters = map2 (\<lambda>st ks. \<lparr>pc = Idle, rng = st, todo = ks\<rparr>) sts iters"

subsection \<open>The elements the threads hold\<close>

fun holds :: "'a thread \<Rightarrow> (int \<times> 'a) list" where
  "holds \<lparr>pc = Idle, rng = st, todo = ks\<rparr> = []"
| "holds \<lparr>pc = Drawing k Ak, rng = st, todo = ks\<rparr> = [(k, Ak)]"
| "holds \<lparr>pc = WantPlace k Ak place, rng = st, todo = ks\<rparr> = [(k, Ak)]"
| "holds \<lparr>pc = Swapping k Ak place Aplace, rng = st, todo = ks\<rparr> = [(k, Ak), (place, Aplace)]"
| "holds \<lparr>pc = ReleasePlace k Ak place Aplace, rng = st, todo = ks\<rparr> = [(k, Ak), (place, Aplace)]"
| "holds \<lparr>pc = ReleaseK k Ak, rng = st, todo = ks\<rparr> = [(k, Ak)]"

definition held :: "'a thread list \<Rightarrow> (int \<times> 'a) list" where
  "held ths = concat (map holds ths)"

text \<open>The array with the held elements put back.\<close>

definition cell :: "'a list \<Rightarrow> (int \<times> 'a) list \<Rightarrow> nat \<Rightarrow> 'a" where
  "cell A hs c = (case map_of hs (int c) of Some v \<Rightarrow> v | None \<Rightarrow> A ! c)"

definition put_back :: "'a list \<Rightarrow> (int \<times> 'a) list \<Rightarrow> 'a list" where
  "put_back A hs = map (cell A hs) [0..<length A]"

fun place_ok :: "int \<Rightarrow> 'a thread \<Rightarrow> bool" where
  "place_ok nelem \<lparr>pc = WantPlace k Ak place, rng = st, todo = ks\<rparr> = (k < place \<and> place < nelem)"
| "place_ok nelem \<lparr>pc = _, rng = st, todo = ks\<rparr> = True"

definition ops_ok :: "'a elt_ops \<Rightarrow> bool" where
  "ops_ok ops \<longleftrightarrow> is_taken ops (mark ops) \<and> is_mark ops (mark ops)"

definition array_inv :: "'a elt_ops \<Rightarrow> int \<Rightarrow> 'a multiset \<Rightarrow> 'a list \<Rightarrow> (int \<times> 'a) list \<Rightarrow> bool" where
  "array_inv ops nelem M A hs \<longleftrightarrow>
     int (length A) = nelem \<and> distinct (map fst hs) \<and>
     (\<forall>c \<in> fst ` set hs. 0 \<le> c \<and> c < nelem \<and> A ! nat c = mark ops) \<and>
     (\<forall>c. 0 \<le> c \<and> c < nelem \<and> c \<notin> fst ` set hs \<longrightarrow> \<not> is_taken ops (A ! nat c)) \<and>
     (\<forall>h \<in> set hs. \<not> is_taken ops (snd h)) \<and>
     mset (put_back A hs) = M"

definition thread_ok :: "int \<Rightarrow> 'a thread \<Rightarrow> bool" where
  "thread_ok nelem th \<longleftrightarrow> st_ok (rng th) \<and> place_ok nelem th \<and> (\<forall>k \<in> set (todo th). 0 \<le> k \<and> k < nelem)"

definition par_inv :: "'a elt_ops \<Rightarrow> int \<Rightarrow> 'a multiset \<Rightarrow> 'a list \<times> 'a thread list \<Rightarrow> bool" where
  "par_inv ops nelem M = (\<lambda>(A, ths). array_inv ops nelem M A (held ths) \<and> list_all (thread_ok nelem) ths)"

lemma array_inv_perm:
  assumes "array_inv ops nelem M A hs" "mset hs = mset hs'"
  shows "array_inv ops nelem M A hs'"
proof -
  have s: "set hs' = set hs" using mset_eq_setD [OF assms(2)] by simp
  have "mset (map fst hs') = mset (map fst hs)" using assms(2) by simp
  then have d: "distinct (map fst hs')" using assms(1) mset_eq_imp_distinct_iff unfolding array_inv_def by blast
  then have "map_of hs' = map_of hs" using s assms(1) unfolding array_inv_def by (simp add: map_of_inject_set)
  then have "put_back A hs' = put_back A hs" by (simp add: put_back_def cell_def)
  then show ?thesis using assms(1) d s by (simp add: array_inv_def)
qed

lemma put_back_eqI:
  "length A = length B \<Longrightarrow> (\<And>c. c < length A \<Longrightarrow> cell A hs c = cell B hs' c) \<Longrightarrow> put_back A hs = put_back B hs'"
  by (simp add: put_back_def)

lemma array_inv_take:
  assumes inv: "array_inv ops nelem M A hs" and c: "0 \<le> c" "c < nelem" "\<not> is_taken ops (A ! nat c)" and ops: "ops_ok ops"
  shows "array_inv ops nelem M (A[nat c := mark ops]) ((c, A ! nat c) # hs)"
proof -
  have l: "int (length A) = nelem" using inv by (simp add: array_inv_def)
  have free: "c \<notin> fst ` set hs" using inv c ops by (auto simp: array_inv_def ops_ok_def)
  have "put_back (A[nat c := mark ops]) ((c, A ! nat c) # hs) = put_back A hs"
  proof (rule put_back_eqI)
    fix i
    have "map_of hs c = None" using free by (simp add: map_of_eq_None_iff)
    then show "cell (A[nat c := mark ops]) ((c, A ! nat c) # hs) i = cell A hs i"
      using c(1) nth_list_update_neq [of "nat c" i A] by (cases "int i = c") (auto simp: cell_def split: option.split)
  qed simp
  moreover have "\<forall>x \<in> fst ` set hs. A[nat c := mark ops] ! nat x = mark ops"
    using inv c l free by (auto simp: array_inv_def nth_list_update_int)
  ultimately show ?thesis
    using inv c l free by (auto simp: array_inv_def nth_list_update_int)
qed

lemma array_inv_release:
  assumes inv: "array_inv ops nelem M A ((c, v) # hs)"
  shows "array_inv ops nelem M (A[nat c := v]) hs"
proof -
  have l: "int (length A) = nelem" and c: "0 \<le> c" "c < nelem" "c \<notin> fst ` set hs"
    using inv by (auto simp: array_inv_def)
  have "put_back (A[nat c := v]) hs = put_back A ((c, v) # hs)"
  proof (rule put_back_eqI)
    fix i
    assume i: "i < length (A[nat c := v])"
    have "map_of hs c = None" using c(3) by (simp add: map_of_eq_None_iff)
    then show "cell (A[nat c := v]) hs i = cell A ((c, v) # hs) i"
      using c(1) i nth_list_update_neq [of "nat c" i A] by (cases "int i = c") (auto simp: cell_def split: option.split)
  qed simp
  then show ?thesis using inv c l by (auto simp: array_inv_def nth_list_update_int)
qed

lemma array_inv_swap:
  assumes inv: "array_inv ops nelem M A ((k, x) # (p, y) # hs)"
  shows "array_inv ops nelem M A ((k, y) # (p, x) # hs)"
proof -
  let ?L = "put_back A ((k, x) # (p, y) # hs)"
  have k: "0 \<le> k" "0 \<le> p" "k \<noteq> p" "nat k < length A" "nat p < length A" using inv by (auto simp: array_inv_def)
  have kp: "?L ! nat k = x" "?L ! nat p = y" using k by (auto simp: put_back_def cell_def)
  have "put_back A ((k, y) # (p, x) # hs) = ?L[nat k := ?L ! nat p, nat p := ?L ! nat k]"
    unfolding kp by (rule nth_equalityI) (use k in \<open>auto simp: put_back_def cell_def nth_list_update\<close>)
  moreover have "mset (?L[nat k := ?L ! nat p, nat p := ?L ! nat k]) = mset ?L"
    by (rule mset_swap) (use k in \<open>auto simp: put_back_def\<close>)
  ultimately show ?thesis using inv by (auto simp: array_inv_def)
qed

subsection \<open>Steps\<close>

lemma draw_place_ok:
  assumes "table_ok tbl" "st_ok st" "0 \<le> k" "k < nelem"
  shows "\<exists>p st'. draw_place tbl nelem k st = Some (p, st') \<and> k \<le> p \<and> p < nelem \<and> st_ok st'"
proof -
  obtain s where s: "mrg_skip tbl st 1 (word_of_int k) 0 = Some s" "st_ok s" using mrg_skip_st_ok [OF assms(1,2)] by blast
  obtain R s' where "mrg_get_double_orig s = Some (R, s')" "st_ok s'" "0 \<le> R" "R < 1" using mrg_get_double_ok [OF s(2)] by blast
  then show ?thesis using s random_place [of R "nelem - k"] assms(4) by (auto simp: draw_place_def)
qed

lemma array_inv_head:
  assumes "array_inv ops nelem M A ((c, v) # hs)"
  shows "0 \<le> c" "c < nelem" "int (length A) = nelem" "A ! nat c = mark ops"
  using assms by (auto simp: array_inv_def)

lemma take_elt_ok:
  assumes "array_inv ops nelem M A hs" "0 \<le> c" "c < nelem" "ops_ok ops"
  shows "case take_elt ops A c of
      Abort \<Rightarrow> False
    | Blocked \<Rightarrow> is_taken ops (A ! nat c)
    | Next (v, A') \<Rightarrow> array_inv ops nelem M A' ((c, v) # hs)"
proof -
  have "int (length A) = nelem" using assms(1) by (simp add: array_inv_def)
  then show ?thesis using array_inv_take [OF assms(1-3) _ assms(4)] assms(2,3) by (simp add: take_elt_def)
qed

lemma release_elt_ok:
  assumes "array_inv ops nelem M A ((c, v) # hs)" "ops_ok ops"
  shows "\<exists>A'. release_elt ops A c v = Next A' \<and> array_inv ops nelem M A' hs"
  using array_inv_head [OF assms(1)] array_inv_release [OF assms(1)] assms(2) by (simp add: release_elt_def ops_ok_def)

text \<open>What a thread waits for.\<close>

fun awaits :: "'a thread \<Rightarrow> int option" where
  "awaits \<lparr>pc = Idle, rng = st, todo = k # ks\<rparr> = Some k"
| "awaits \<lparr>pc = WantPlace k Ak place, rng = st, todo = ks\<rparr> = Some place"
| "awaits \<lparr>pc = _, rng = st, todo = ks\<rparr> = None"

definition finished :: "'a thread \<Rightarrow> bool" where
  "finished th \<longleftrightarrow> pc th = Idle \<and> todo th = []"

fun pc_rank :: "'a pc \<Rightarrow> nat" where
  "pc_rank Idle = 0"
| "pc_rank (ReleaseK _ _) = 1"
| "pc_rank (ReleasePlace _ _ _ _) = 2"
| "pc_rank (Swapping _ _ _ _) = 3"
| "pc_rank (WantPlace _ _ _) = 4"
| "pc_rank (Drawing _ _) = 5"

definition work :: "'a thread \<Rightarrow> nat" where
  "work th = 6 * length (todo th) + pc_rank (pc th)"

definition step_ok :: "'a elt_ops \<Rightarrow> int \<Rightarrow> 'a multiset \<Rightarrow> 'a list \<Rightarrow> 'a thread \<Rightarrow> (int \<times> 'a) list \<Rightarrow> ('a list \<times> 'a thread) outcome \<Rightarrow> bool" where
  "step_ok ops nelem M A th hs r = (case r of
      Abort \<Rightarrow> False
    | Blocked \<Rightarrow> finished th \<or> (\<exists>c. awaits th = Some c \<and> 0 \<le> c \<and> c < nelem \<and> is_taken ops (A ! nat c))
    | Next (A', th') \<Rightarrow> array_inv ops nelem M A' (holds th' @ hs) \<and> thread_ok nelem th' \<and> work th' < work th)"

lemma thread_step_ok:
  assumes inv: "array_inv ops nelem M A (holds th @ hs)" and th: "thread_ok nelem th"
    and ops: "ops_ok ops" and tbl: "table_ok tbl"
  shows "step_ok ops nelem M A th hs (thread_step ops tbl nelem A th)"
proof -
  obtain p st ks where t: "th = \<lparr>pc = p, rng = st, todo = ks\<rparr>" by (cases th)
  show ?thesis
  proof (cases p)
    case Idle
    show ?thesis
    proof (cases ks)
      case Nil
      then show ?thesis using t Idle by (simp add: step_ok_def finished_def)
    next
      case (Cons k ks')
      then have "array_inv ops nelem M A hs" "0 \<le> k" "k < nelem" using inv th t Idle by (auto simp: thread_ok_def)
      from take_elt_ok [OF this ops] show ?thesis using th t Idle Cons \<open>0 \<le> k\<close> \<open>k < nelem\<close>
        by (auto simp: step_ok_def thread_ok_def work_def split: outcome.splits)
    qed
  next
    case (Drawing k Ak)
    then have i: "array_inv ops nelem M A ((k, Ak) # hs)" and s: "st_ok st" using inv th t by (auto simp: thread_ok_def)
    obtain q st' where "draw_place tbl nelem k st = Some (q, st')" "k \<le> q" "q < nelem" "st_ok st'"
      using draw_place_ok [OF tbl s array_inv_head(1,2) [OF i]] by blast
    then show ?thesis using i th t Drawing by (auto simp: step_ok_def thread_ok_def work_def)
  next
    case (WantPlace k Ak q)
    then have i: "array_inv ops nelem M A ((k, Ak) # hs)" and q: "k < q" "q < nelem" using inv th t by (auto simp: thread_ok_def)
    have "0 \<le> q" using q array_inv_head(1) [OF i] by simp
    have r: "array_inv ops nelem M A' ((k, Ak) # (q, Aq) # hs)" if "array_inv ops nelem M A' ((q, Aq) # (k, Ak) # hs)" for A' Aq
      using that by (rule array_inv_perm) simp
    from take_elt_ok [OF i \<open>0 \<le> q\<close> q(2) ops] show ?thesis using th t WantPlace q \<open>0 \<le> q\<close> r
      by (auto simp: step_ok_def thread_ok_def work_def split: outcome.splits)
  next
    case (Swapping k Ak q Aq)
    then have i: "array_inv ops nelem M A ((k, Ak) # (q, Aq) # hs)" using inv th t by auto
    have q: "0 \<le> q" "q < nelem" "A ! nat q = mark ops" using i by (auto simp: array_inv_def)
    note k = array_inv_head [OF i]
    have "A[nat q := A ! nat k, nat k := A ! nat q] = A" using k(4) q(3) by (metis list_update_id)
    then show ?thesis using array_inv_swap [OF i] th t Swapping k q by (simp add: step_ok_def thread_ok_def work_def)
  next
    case (ReleasePlace k Ak q Aq)
    then have i: "array_inv ops nelem M A ((k, Ak) # (q, Aq) # hs)" using inv th t by auto
    have "array_inv ops nelem M A ((q, Aq) # (k, Ak) # hs)" using i by (rule array_inv_perm) simp
    from release_elt_ok [OF this ops] show ?thesis using th t ReleasePlace by (auto simp: step_ok_def thread_ok_def work_def)
  next
    case (ReleaseK k Ak)
    then have i: "array_inv ops nelem M A ((k, Ak) # hs)" using inv th t by auto
    from release_elt_ok [OF this ops] show ?thesis using th t ReleaseK by (auto simp: step_ok_def thread_ok_def work_def)
  qed
qed

subsection \<open>Runs\<close>

lemma held_split:
  assumes "i < length ths"
  shows "mset (held (ths[i := th])) = mset (holds th @ held (take i ths) @ held (drop (Suc i) ths))"
  using assms by (simp add: held_def upd_conv_take_nth_drop)

lemma held_split_nth:
  assumes "i < length ths"
  shows "mset (held ths) = mset (holds (ths ! i) @ held (take i ths) @ held (drop (Suc i) ths))"
  using held_split [OF assms, of "ths ! i"] by simp

lemma par_inv_thread:
  assumes "par_inv ops nelem M (A, ths)" "i < length ths" "ops_ok ops" "table_ok tbl"
  shows "step_ok ops nelem M A (ths ! i) (held (take i ths) @ held (drop (Suc i) ths)) (thread_step ops tbl nelem A (ths ! i))"
proof (rule thread_step_ok)
  show "array_inv ops nelem M A (holds (ths ! i) @ held (take i ths) @ held (drop (Suc i) ths))"
    using assms(1) by (intro array_inv_perm [OF _ held_split_nth [OF assms(2)]]) (simp add: par_inv_def)
  show "thread_ok nelem (ths ! i)" using assms(1,2) by (simp add: par_inv_def list_all_length)
qed (rule assms)+

definition total_work :: "'a list \<times> 'a thread list \<Rightarrow> nat" where
  "total_work s = sum_list (map work (snd s))"

lemma par_step_inv:
  assumes "par_step ops tbl nelem s s'" "par_inv ops nelem M s" "ops_ok ops" "table_ok tbl"
  shows "par_inv ops nelem M s' \<and> total_work s' < total_work s"
  using assms(1)
proof cases
  case (step i ths A A' th)
  let ?rest = "held (take i ths) @ held (drop (Suc i) ths)"
  have "step_ok ops nelem M A (ths ! i) ?rest (Next (A', th))"
    using par_inv_thread [OF _ step(3) assms(3,4)] assms(2) step by metis
  then have ok: "array_inv ops nelem M A' (holds th @ ?rest)" "thread_ok nelem th" "work th < work (ths ! i)"
    by (auto simp: step_ok_def)
  have "array_inv ops nelem M A' (held (ths[i := th]))"
    by (rule array_inv_perm [OF ok(1)]) (simp only: held_split [OF step(3)])
  moreover have "list_all (thread_ok nelem) (ths[i := th])"
    using assms(2) step(1) ok(2) set_update_subset_insert [of ths i th] by (auto simp: par_inv_def list_all_iff)
  moreover have "sum_list (map work (ths[i := th])) + work (ths ! i) = sum_list (map work ths) + work th"
    using step(3) elem_le_sum_list [of i "map work ths"] by (simp add: map_update sum_list_update)
  ultimately show ?thesis using step(1,2) ok(3) by (simp add: par_inv_def total_work_def)
qed

lemma par_run_inv:
  assumes "(par_step ops tbl nelem ^^ n) s s'" "par_inv ops nelem M s" "ops_ok ops" "table_ok tbl"
  shows "par_inv ops nelem M s' \<and> total_work s' + n \<le> total_work s"
  using assms(1)
proof (induction n arbitrary: s')
  case 0
  then show ?case using assms(2) by simp
next
  case (Suc n)
  then obtain t where t: "(par_step ops tbl nelem ^^ n) s t" "par_step ops tbl nelem t s'" by auto
  with Suc.IH [OF t(1)] par_step_inv [OF t(2) _ assms(3,4)] show ?case by fastforce
qed

lemma awaits_WantPlace:
  assumes "(c, v) \<in> set (holds th)" "awaits th \<noteq> None"
  shows "\<exists>q st ks. th = \<lparr>pc = WantPlace c v q, rng = st, todo = ks\<rparr>"
  using assms by (cases th rule: holds.cases) auto

text \<open>A thread that holds an element only waits for one behind it, so that not all threads can wait.\<close>

lemma no_deadlock:
  assumes inv: "par_inv ops nelem M (A, ths)" and ops: "ops_ok ops" "table_ok tbl"
    and stuck: "\<And>i. i < length ths \<Longrightarrow> thread_step ops tbl nelem A (ths ! i) = Blocked"
  shows "list_all finished ths"
proof (rule ccontr)
  have waits: "finished th \<or> (\<exists>c. awaits th = Some c \<and> 0 \<le> c \<and> c < nelem \<and> is_taken ops (A ! nat c))" if "th \<in> set ths" for th
    using that par_inv_thread [OF inv _ ops] stuck by (auto simp: in_set_conv_nth step_ok_def)
  have owner: "\<exists>th \<in> set ths. \<exists>v q st ks. th = \<lparr>pc = WantPlace c v q, rng = st, todo = ks\<rparr>"
    if "0 \<le> c" "c < nelem" "is_taken ops (A ! nat c)" for c
  proof -
    have "c \<in> fst ` set (held ths)" using inv that unfolding par_inv_def array_inv_def by auto
    then obtain th v where th: "th \<in> set ths" "(c, v) \<in> set (holds th)" by (auto simp: held_def)
    then have "\<not> finished th" by (cases th rule: holds.cases) (auto simp: finished_def)
    with waits [OF th(1)] have "awaits th \<noteq> None" by blast
    from awaits_WantPlace [OF th(2) this] th(1) show ?thesis by blast
  qed
  have later: "\<exists>c' > c. 0 \<le> c' \<and> c' < nelem \<and> is_taken ops (A ! nat c')"
    if c: "0 \<le> c" "c < nelem" "is_taken ops (A ! nat c)" for c
  proof -
    obtain v q st ks where th: "\<lparr>pc = WantPlace c v q, rng = st, todo = ks\<rparr> \<in> set ths" using owner [OF c] by blast
    then have "c < q" using inv by (auto simp: par_inv_def list_all_iff thread_ok_def)
    with waits [OF th] show ?thesis by (auto simp: finished_def)
  qed
  assume "\<not> list_all finished ths"
  then obtain th where "th \<in> set ths" "\<not> finished th" by (auto simp: list_all_iff)
  with waits obtain c where c: "0 \<le> c" "c < nelem" "is_taken ops (A ! nat c)" by blast
  have "\<exists>c. int n \<le> c \<and> c < nelem \<and> is_taken ops (A ! nat c)" for n
  proof (induction n)
    case (Suc n)
    then obtain c where "int n \<le> c" "c < nelem" "is_taken ops (A ! nat c)" by blast
    with later [of c] obtain c' where "c < c'" "c' < nelem" "is_taken ops (A ! nat c')" by auto
    then show ?case using \<open>int n \<le> c\<close> by (intro exI [of _ c']) auto
  qed (use c in auto)
  from this [of "nat nelem"] c show False by auto
qed

lemma par_init_inv:
  assumes "int (length A) = nelem" "list_all (\<lambda>x. \<not> is_taken ops x) A" "list_all st_ok sts"
    "list_all (list_all (\<lambda>k. 0 \<le> k \<and> k < nelem)) iters" "length sts = length iters"
  shows "par_inv ops nelem (mset A) (A, par_init sts iters)"
proof -
  have h: "held (par_init sts iters) = []" using assms(5)
    by (induction sts iters rule: list_induct2) (simp_all add: held_def par_init_def)
  have "put_back A [] = A" by (rule nth_equalityI) (simp_all add: put_back_def cell_def)
  then have "array_inv ops nelem (mset A) A []" using assms(1,2) by (auto simp: array_inv_def list_all_length)
  moreover have "list_all (thread_ok nelem) (par_init sts iters)"
    using assms(5,3,4) by (induction sts iters rule: list_induct2) (simp_all add: par_init_def thread_ok_def list_all_iff)
  ultimately show ?thesis by (simp add: par_inv_def h)
qed

lemma all_finished:
  assumes "par_inv ops nelem M (A, ths)" "list_all finished ths"
  shows "mset A = M"
proof -
  have "holds th = []" if "finished th" for th :: "'a thread" using that by (cases th) (simp add: finished_def)
  then have "held ths = []" using assms(2) by (auto simp: held_def list_all_iff)
  moreover have "put_back A [] = A" by (rule nth_equalityI) (simp_all add: put_back_def cell_def)
  ultimately show ?thesis using assms(1) by (simp add: par_inv_def array_inv_def)
qed

lemma init_work: "length sts = length iters \<Longrightarrow> total_work (A, par_init sts iters) = 6 * length (concat iters)"
  by (induction sts iters rule: list_induct2) (simp_all add: total_work_def par_init_def work_def)


lemma element_ops_ok: "ops_ok i64_ops" "ops_ok pe_ops"
  by (simp_all add: ops_ok_def i64_ops_def pe_ops_def)


end
