(* ===== verification/Xalloc.thy ===== *)
theory Xalloc
  imports CLoops "HOL-Library.Multiset"
begin

text \<open>
  The table of large allocations of Graph500 (\<open>xalloc.c\<close>, compiled with \<open>USE_MMAP_LARGE\<close> and
  \<open>USE_MMAP_LARGE_EXT\<close>).  The state has the static variables of the file and what the operating
  system keeps for them: the mappings and the open descriptors.  A null pointer is 0.  What the
  system calls return is an argument.  A call either returns a pointer or aborts, which runs the
  handler if it has been installed; \<^const>\<open>None\<close> is an access out of bounds.
\<close>

subsection \<open>Definitions\<close>

definition MAX_LARGE :: int where
  "MAX_LARGE = 32"

record large =
  lp :: nat
  lsz :: int
  lfd :: int

record xstate =
  n_large_alloc :: int
  large_alloc :: "large list"
  installed_handler :: bool
  mapped :: "(nat \<times> int) list"
  open_fds :: "int list"
  freed :: "nat list"

definition munmap :: "nat \<Rightarrow> int \<Rightarrow> xstate \<Rightarrow> xstate" where
  "munmap p sz s = s\<lparr>mapped := remove1 (p, sz) (mapped s)\<rparr>"

definition close_fd :: "int \<Rightarrow> xstate \<Rightarrow> xstate" where
  "close_fd fd s = s\<lparr>open_fds := remove1 fd (open_fds s)\<rparr>"

definition exit_handler :: "xstate \<Rightarrow> xstate option" where
  "exit_handler s = for_up 0 (n_large_alloc s) (\<lambda>k s. do {
     e \<leftarrow> rd (large_alloc s) k;
     let s = (if lp e \<noteq> 0 then munmap (lp e) (lsz e) s else s);
     let s = (if lfd e \<ge> 0 then close_fd (lfd e) s else s);
     t \<leftarrow> wr (large_alloc s) k (e\<lparr>lp := 0, lfd := -1\<rparr>);
     Some (s\<lparr>large_alloc := t\<rparr>)
   }) s"

text \<open>\<open>abort\<close> raises the signal whose handler \<open>xmalloc_large_ext\<close> installs.\<close>

definition abort_handler :: "xstate \<Rightarrow> (nat option \<times> xstate) option" where
  "abort_handler s = map_option (Pair None) (if installed_handler s then exit_handler s else Some s)"

definition clear_entry :: "int \<Rightarrow> xstate \<Rightarrow> xstate option" where
  "clear_entry which s = do {
     e \<leftarrow> rd (large_alloc s) which;
     t \<leftarrow> wr (large_alloc s) which (e\<lparr>lp := 0, lfd := -1\<rparr>);
     Some (s\<lparr>large_alloc := t\<rparr>)
   }"

definition xmalloc_large :: "nat option \<Rightarrow> int \<Rightarrow> xstate \<Rightarrow> (nat option \<times> xstate) option" where
  "xmalloc_large mmap_out sz s = do {
     let which = n_large_alloc s;
     let s = s\<lparr>n_large_alloc := n_large_alloc s + 1\<rparr>;
     if n_large_alloc s > MAX_LARGE then abort_handler (s\<lparr>n_large_alloc := n_large_alloc s - 1\<rparr>)
     else do {
       s \<leftarrow> clear_entry which s;
       case mmap_out of
         None \<Rightarrow> abort_handler s
       | Some out \<Rightarrow>
           if out = 0 then abort_handler s
           else do {
             let s = s\<lparr>mapped := (out, sz) # mapped s\<rparr>;
             e \<leftarrow> rd (large_alloc s) which;
             t \<leftarrow> wr (large_alloc s) which (e\<lparr>lp := out, lsz := sz\<rparr>);
             Some (Some out, s\<lparr>large_alloc := t\<rparr>)
           }
     }
   }"

definition shift_down :: "int \<Rightarrow> int \<Rightarrow> large list \<Rightarrow> large list option" where
  "shift_down k n = for_up k n (\<lambda>k t. do {
     e \<leftarrow> rd t (k + 1);
     wr t k e
   })"

definition xfree_large :: "nat \<Rightarrow> xstate \<Rightarrow> xstate option" where
  "xfree_large p s = do {
     assert_opt (n_large_alloc s \<le> int (length (large_alloc s)));
     case find (\<lambda>k. lp (large_alloc s ! nat k) = p) [0..n_large_alloc s - 1] of
       None \<Rightarrow> Some (s\<lparr>freed := p # freed s\<rparr>)
     | Some k \<Rightarrow> do {
         let e = large_alloc s ! nat k;
         let s = munmap p (lsz e) s;
         let s = (if lfd e \<ge> 0 then close_fd (lfd e) s else s);
         t \<leftarrow> wr (large_alloc s) k (if lfd e \<ge> 0 then e\<lparr>lp := 0, lfd := -1\<rparr> else e\<lparr>lp := 0\<rparr>);
         let n = n_large_alloc s - 1;
         t \<leftarrow> shift_down k n t;
         Some (s\<lparr>n_large_alloc := n, large_alloc := t\<rparr>)
       }
   }"

record ext_calls =
  mkstemp_fd :: int
  unlink_ok :: bool
  resize_ok :: bool
  ext_out :: "nat option"
  atexit_ok :: bool
  signal_ok :: bool

definition errout :: "int \<Rightarrow> xstate \<Rightarrow> (nat option \<times> xstate) option" where
  "errout fd s = abort_handler (if fd \<ge> 0 then close_fd fd s else s)"

definition xmalloc_large_ext :: "ext_calls \<Rightarrow> int \<Rightarrow> xstate \<Rightarrow> (nat option \<times> xstate) option" where
  "xmalloc_large_ext c sz s = do {
     let which = n_large_alloc s;
     let s = s\<lparr>n_large_alloc := n_large_alloc s + 1\<rparr>;
     if n_large_alloc s > MAX_LARGE then abort_handler s
     else do {
       s \<leftarrow> clear_entry which s;
       let fd = mkstemp_fd c;
       if fd < 0 then abort_handler s
       else do {
         let s = s\<lparr>open_fds := fd # open_fds s\<rparr>;
         if \<not> unlink_ok c then errout fd s
         else if \<not> resize_ok c then errout fd s
         else (case ext_out c of
             None \<Rightarrow> errout fd s
           | Some out \<Rightarrow>
               if out = 0 then errout fd s
               else do {
                 let s = s\<lparr>mapped := (out, sz) # mapped s\<rparr>;
                 let first = \<not> installed_handler s;
                 let s = s\<lparr>installed_handler := installed_handler s \<or> (first \<and> atexit_ok c \<and> signal_ok c)\<rparr>;
                 if first \<and> \<not> (atexit_ok c \<and> signal_ok c) then errout fd s
                 else do {
                   e \<leftarrow> rd (large_alloc s) which;
                   t \<leftarrow> wr (large_alloc s) which (e\<lparr>lp := out, lsz := sz, lfd := fd\<rparr>);
                   Some (Some out, s\<lparr>large_alloc := t\<rparr>)
                 }
               })
       }
     }
   }"

subsection \<open>The table and the operating system\<close>

definition entries :: "xstate \<Rightarrow> large list" where
  "entries s = take (nat (n_large_alloc s)) (large_alloc s)"

definition table_maps :: "large list \<Rightarrow> (nat \<times> int) list" where
  "table_maps es = map (\<lambda>e. (lp e, lsz e)) (filter (\<lambda>e. lp e \<noteq> 0) es)"

definition table_fds :: "large list \<Rightarrow> int list" where
  "table_fds es = map lfd (filter (\<lambda>e. lfd e \<ge> 0) es)"

definition table_inv :: "xstate \<Rightarrow> bool" where
  "table_inv s \<longleftrightarrow> 0 \<le> n_large_alloc s \<and> n_large_alloc s \<le> MAX_LARGE \<and> int (length (large_alloc s)) = MAX_LARGE \<and>
     mset (mapped s) = mset (table_maps (entries s)) \<and> mset (open_fds s) = mset (table_fds (entries s))"

lemma entries_extend:
  assumes "0 \<le> n" "nat n < length t"
  shows "take (nat (n + 1)) (t[nat n := e]) = take (nat n) t @ [e]"
proof -
  have "nat (n + 1) = Suc (nat n)" using assms by simp
  then show ?thesis using assms by (simp add: take_Suc_conv_app_nth)
qed

lemma xmalloc_large_ok:
  assumes "table_inv s" "n_large_alloc s < MAX_LARGE" "out \<noteq> 0"
  shows "\<exists>s'. xmalloc_large (Some out) sz s = Some (Some out, s') \<and> table_inv s' \<and>
    n_large_alloc s' = n_large_alloc s + 1 \<and> mapped s' = (out, sz) # mapped s \<and> open_fds s' = open_fds s"
proof -
  let ?n = "n_large_alloc s" and ?t = "large_alloc s"
  have n: "0 \<le> ?n" "?n < int (length ?t)" "?n < 32" "int (length ?t) = 32" using assms by (simp_all add: table_inv_def MAX_LARGE_def)
  define e where "e = (?t ! nat ?n)\<lparr>lfd := -1, lp := out, lsz := sz\<rparr>"
  have "xmalloc_large (Some out) sz s = Some (Some out, s\<lparr>n_large_alloc := ?n + 1, mapped := (out, sz) # mapped s, large_alloc := ?t[nat ?n := e]\<rparr>)"
    using n assms(3) by (simp add: xmalloc_large_def clear_entry_def Let_def MAX_LARGE_def e_def)
  moreover have "entries (s\<lparr>n_large_alloc := ?n + 1, mapped := (out, sz) # mapped s, large_alloc := ?t[nat ?n := e]\<rparr>) = entries s @ [e]"
    using n entries_extend [of ?n ?t e] by (simp add: entries_def)
  ultimately show ?thesis using assms n by (simp add: table_inv_def table_maps_def table_fds_def e_def MAX_LARGE_def)
qed

lemma xmalloc_large_ext_ok:
  assumes "table_inv s" "n_large_alloc s < MAX_LARGE" "ext_out c = Some out" "out \<noteq> 0" "0 \<le> mkstemp_fd c"
    "unlink_ok c" "resize_ok c" "atexit_ok c" "signal_ok c"
  shows "\<exists>s'. xmalloc_large_ext c sz s = Some (Some out, s') \<and> table_inv s' \<and> installed_handler s' \<and>
    n_large_alloc s' = n_large_alloc s + 1 \<and> mapped s' = (out, sz) # mapped s \<and> open_fds s' = mkstemp_fd c # open_fds s"
proof -
  let ?n = "n_large_alloc s" and ?t = "large_alloc s"
  have n: "0 \<le> ?n" "?n < int (length ?t)" "?n < 32" "int (length ?t) = 32" using assms by (simp_all add: table_inv_def MAX_LARGE_def)
  define e where "e = (?t ! nat ?n)\<lparr>lp := out, lsz := sz, lfd := mkstemp_fd c\<rparr>"
  let ?s = "s\<lparr>n_large_alloc := ?n + 1, open_fds := mkstemp_fd c # open_fds s, mapped := (out, sz) # mapped s,
    installed_handler := True, large_alloc := ?t[nat ?n := e]\<rparr>"
  have "xmalloc_large_ext c sz s = Some (Some out, ?s)"
    using n assms(3-9) by (simp add: xmalloc_large_ext_def clear_entry_def Let_def MAX_LARGE_def e_def)
  moreover have "entries ?s = entries s @ [e]" using n entries_extend [of ?n ?t e] by (simp add: entries_def)
  ultimately show ?thesis using assms n by (simp add: table_inv_def table_maps_def table_fds_def e_def MAX_LARGE_def)
qed

lemma shift_down_result:
  "\<exists>w. shift_down (int (length xs)) (int (length xs + length ys)) (xs @ d # ys @ zs) = Some (xs @ ys @ w # zs)"
proof -
  let ?I = "\<lambda>j t. \<exists>w. t = xs @ take (nat j - length xs) ys @ w # drop (nat j - length xs) ys @ zs"
  have "\<exists>t. shift_down (int (length xs)) (int (length xs + length ys)) (xs @ d # ys @ zs) = Some t \<and> ?I (int (length xs + length ys)) t"
    unfolding shift_down_def
  proof (rule for_up_inv [where I = ?I])
    fix j and t :: "large list"
    assume j: "int (length xs) \<le> j" "j < int (length xs + length ys)" and "?I j t"
    then obtain w where t: "t = xs @ take (nat j - length xs) ys @ w # drop (nat j - length xs) ys @ zs" by blast
    define i where "i = nat j - length xs"
    have i: "j = int (length xs + i)" "i < length ys" "nat (j + 1) - length xs = Suc i" "nat j = length xs + i" "nat (j + 1) = Suc (length xs + i)"
      using j unfolding i_def by auto
    have d: "drop i ys = ys ! i # drop (Suc i) ys" using i(2) by (simp add: Cons_nth_drop_Suc)
    have "t = xs @ take i ys @ w # ys ! i # drop (Suc i) ys @ zs" using t d by (simp add: i_def)
    moreover from this have "rd t (j + 1) = Some (ys ! i)" "wr t j (ys ! i) = Some (xs @ take (Suc i) ys @ ys ! i # drop (Suc i) ys @ zs)"
      using i by (simp_all add: nth_append list_update_append take_Suc_conv_app_nth)
    ultimately show "\<exists>t'. (rd t (j + 1) \<bind> wr t j) = Some t' \<and> ?I (j + 1) t'"
      using i(3) by auto
  qed auto
  then show ?thesis by auto
qed

lemma take_split_nth:
  "i < n \<Longrightarrow> n \<le> length t \<Longrightarrow> take n t = take i t @ t ! i # drop (Suc i) (take n t)"
  using id_take_nth_drop [of i "take n t"] by (simp add: min_absorb1)

lemma xfree_large_ok:
  assumes inv: "table_inv s" and p: "p \<noteq> 0" "p \<in> fst ` set (mapped s)"
  shows "\<exists>s' sz. xfree_large p s = Some s' \<and> table_inv s' \<and> n_large_alloc s' = n_large_alloc s - 1 \<and>
    (p, sz) \<in> set (mapped s) \<and> mapped s' = remove1 (p, sz) (mapped s) \<and> freed s' = freed s"
proof -
  let ?n = "n_large_alloc s" and ?t = "large_alloc s" and ?P = "\<lambda>k. lp (large_alloc s ! nat k) = p"
  have n: "0 \<le> ?n" "?n \<le> int (length ?t)" using inv by (simp_all add: table_inv_def)
  have "set (mapped s) = set (table_maps (entries s))" using inv by (intro mset_eq_setD) (simp add: table_inv_def)
  with p(2) have "p \<in> fst ` set (table_maps (entries s))" by simp
  then obtain e0 where "e0 \<in> set (entries s)" "lp e0 = p" by (auto simp: table_maps_def)
  then obtain i where i: "i < nat ?n" "lp (?t ! i) = p" using n by (auto simp: entries_def in_set_conv_nth)
  then have "int i \<in> set [0..?n - 1] \<and> ?P (int i)" by auto
  then obtain k where fk: "find ?P [0..?n - 1] = Some k" using find_None_iff [of ?P "[0..?n - 1]"] by (metis not_Some_eq)
  then have k: "0 \<le> k" "k < ?n" "?P k" unfolding find_Some_iff by auto
  define e where "e = ?t ! nat k"
  define xs ys zs where "xs = take (nat k) ?t" and "ys = drop (Suc (nat k)) (entries s)" and "zs = drop (nat ?n) ?t"
  have nk: "nat k < nat ?n" "nat ?n \<le> length ?t" using k n by auto
  have ent: "entries s = xs @ e # ys"
    using take_split_nth [OF nk] by (simp only: entries_def xs_def ys_def e_def)
  have t: "?t = xs @ e # ys @ zs" using ent append_take_drop_id [of "nat ?n" ?t] by (simp add: entries_def zs_def)
  have len: "int (length xs) = k" "int (length xs + length ys) = ?n - 1"
    using nk k n arg_cong [OF ent, of length] by (auto simp: xs_def entries_def)
  obtain w where w: "shift_down k (?n - 1) (xs @ e' # ys @ zs) = Some (xs @ ys @ w e' # zs)" for e'
    using shift_down_result [of xs ys _ zs] unfolding len by metis
  define s1 where "s1 = (if lfd e \<ge> 0 then close_fd (lfd e) (munmap p (lsz e) s) else munmap p (lsz e) s)"
  have s1: "n_large_alloc s1 = ?n" "large_alloc s1 = ?t" "mapped s1 = remove1 (p, lsz e) (mapped s)" "freed s1 = freed s"
    "open_fds s1 = (if lfd e \<ge> 0 then remove1 (lfd e) (open_fds s) else open_fds s)"
    by (simp_all add: s1_def close_fd_def munmap_def)
  have "wr ?t k e' = Some (xs @ e' # ys @ zs)" for e'
    using len(1) k(1) unfolding t by (auto simp: wr_def list_update_append)
  then obtain e' where run: "xfree_large p s = Some (s1\<lparr>n_large_alloc := ?n - 1, large_alloc := xs @ ys @ w e' # zs\<rparr>)"
    using n fk w unfolding xfree_large_def by (simp add: Let_def s1(1,2) flip: e_def s1_def)
  let ?s' = "s1\<lparr>n_large_alloc := ?n - 1, large_alloc := xs @ ys @ w e' # zs\<rparr>"
  have ent': "entries ?s' = xs @ ys" using len(2) by (simp add: entries_def nat_diff_distrib flip: of_nat_add)
  have pe: "lp e = p" using k(3) by (simp add: e_def)
  have maps: "mset (mapped s) = mset (table_maps (xs @ e # ys))" and fds: "mset (open_fds s) = mset (table_fds (xs @ e # ys))"
    using inv ent by (simp_all add: table_inv_def)
  have m: "(p, lsz e) \<in> set (mapped s)" using mset_eq_setD [OF maps] p(1) pe by (simp add: table_maps_def)
  have "mset (mapped s1) = mset (table_maps (xs @ ys))" using maps p(1) pe by (simp add: s1(3) table_maps_def)
  moreover have "mset (open_fds s1) = mset (table_fds (xs @ ys))" using fds by (simp add: s1(5) table_fds_def)
  moreover have "length (xs @ ys @ w e' # zs) = length ?t" using arg_cong [OF t, of length] by simp
  ultimately have "table_inv ?s'" using inv k unfolding table_inv_def ent' by simp
  then show ?thesis using run m s1(3,4) by (intro exI [of _ ?s'] exI [of _ "lsz e"]) simp
qed

definition erased :: "large list \<Rightarrow> xstate \<Rightarrow> int \<Rightarrow> xstate \<Rightarrow> bool" where
  "erased t s k s' \<longleftrightarrow> length (large_alloc s') = length t \<and> drop (nat k) (large_alloc s') = drop (nat k) t \<and>
     n_large_alloc s' = n_large_alloc s \<and>
     mset (mapped s') = mset (table_maps (drop (nat k) (entries s))) \<and>
     mset (open_fds s') = mset (table_fds (drop (nat k) (entries s)))"

lemma exit_handler_ok:
  assumes inv: "table_inv s"
  shows "\<exists>s'. exit_handler s = Some s' \<and> mapped s' = [] \<and> open_fds s' = []"
proof -
  let ?n = "n_large_alloc s" and ?t = "large_alloc s"
  have n: "0 \<le> ?n" "?n \<le> int (length ?t)" using inv by (simp_all add: table_inv_def)
  have "\<exists>s'. exit_handler s = Some s' \<and> erased ?t s ?n s'"
    unfolding exit_handler_def
  proof (rule for_up_inv [where I = "erased ?t s"])
    fix k s'
    assume k: "0 \<le> k" "k < ?n" and s': "erased ?t s k s'"
    define i where "i = nat k"
    have i: "k = int i" "i < length ?t" "i < nat ?n" "nat (k + 1) = Suc i" using k n by (auto simp: i_def)
    define e where "e = ?t ! i"
    have dt: "drop i ?t = e # drop (Suc i) ?t" using i(2) by (simp add: e_def Cons_nth_drop_Suc)
    have de: "drop i (entries s) = e # drop (Suc i) (entries s)"
      using i n Cons_nth_drop_Suc [of i "entries s"] by (simp add: e_def entries_def)
    have len: "length (large_alloc s') = length ?t" and d: "drop i (large_alloc s') = drop i ?t" using s' i(1) by (simp_all add: erased_def)
    have "large_alloc s' ! i = e" using d dt i(2) len by (metis Cons_nth_drop_Suc list.inject)
    then have r: "rd (large_alloc s') k = Some e" using i len by simp
    have w: "wr (large_alloc s') k e' = Some ((large_alloc s')[i := e'])" for e' using i len by simp
    have d': "drop (Suc i) ((large_alloc s')[i := e']) = drop (Suc i) ?t" for e'
      using arg_cong [OF d, of "drop 1"] by simp
    define s1 where "s1 = (if lp e \<noteq> 0 then munmap (lp e) (lsz e) s' else s')"
    define s2 where "s2 = (if lfd e \<ge> 0 then close_fd (lfd e) s1 else s1)"
    have s2: "large_alloc s2 = large_alloc s'" "n_large_alloc s2 = n_large_alloc s'"
      "mapped s2 = (if lp e \<noteq> 0 then remove1 (lp e, lsz e) (mapped s') else mapped s')"
      "open_fds s2 = (if lfd e \<ge> 0 then remove1 (lfd e) (open_fds s') else open_fds s')"
      by (simp_all add: s1_def s2_def munmap_def close_fd_def)
    have "mset (mapped s') = mset (table_maps (e # drop (Suc i) (entries s)))" "mset (open_fds s') = mset (table_fds (e # drop (Suc i) (entries s)))"
      using s' de i(1) by (simp_all add: erased_def)
    then have m: "mset (mapped s2) = mset (table_maps (drop (Suc i) (entries s)))" "mset (open_fds s2) = mset (table_fds (drop (Suc i) (entries s)))"
      by (simp_all add: s2(3,4) table_maps_def table_fds_def)
    show "\<exists>s''. do {
        e \<leftarrow> rd (large_alloc s') k;
        let s = (if lp e \<noteq> 0 then munmap (lp e) (lsz e) s' else s');
        let s = (if lfd e \<ge> 0 then close_fd (lfd e) s else s);
        t \<leftarrow> wr (large_alloc s) k (e\<lparr>lp := 0, lfd := -1\<rparr>);
        Some (s\<lparr>large_alloc := t\<rparr>)
      } = Some s'' \<and> erased ?t s (k + 1) s''"
      unfolding r Option.bind.bind_lunit Let_def s1_def [symmetric] s2_def [symmetric] s2(1) w
      using m s' len d' i(4) s2(2) by (simp add: erased_def)
  qed (use n inv in \<open>simp_all add: erased_def table_inv_def\<close>)
  then show ?thesis by (auto simp: erased_def entries_def table_maps_def table_fds_def)
qed

text \<open>
  C36: The table mirrors what the operating system holds.  A successful allocation of either kind and
  the release of a mapped pointer keep this, a release unmaps with the size of the allocation, and
  the exit handler then leaves no mapping and no open descriptor behind.
\<close>

theorem large_allocations_tracked:
  assumes "table_inv s" "n_large_alloc s < MAX_LARGE" "ext_out c = Some out" "out \<noteq> 0" "0 \<le> mkstemp_fd c"
    "unlink_ok c" "resize_ok c" "atexit_ok c" "signal_ok c"
  shows "\<exists>s1 s2 s3 s4 sz'. xmalloc_large (Some out) sz s = Some (Some out, s1) \<and> table_inv s1 \<and>
    xmalloc_large_ext c sz s = Some (Some out, s2) \<and> table_inv s2 \<and>
    xfree_large out s2 = Some s3 \<and> table_inv s3 \<and> (out, sz') \<in> set (mapped s2) \<and> mapped s3 = remove1 (out, sz') (mapped s2) \<and>
    exit_handler s2 = Some s4 \<and> mapped s4 = [] \<and> open_fds s4 = []"
proof -
  obtain s1 where s1: "xmalloc_large (Some out) sz s = Some (Some out, s1)" "table_inv s1"
    using xmalloc_large_ok [OF assms(1,2,4)] by blast
  obtain s2 where s2: "xmalloc_large_ext c sz s = Some (Some out, s2)" "table_inv s2" "mapped s2 = (out, sz) # mapped s"
    using xmalloc_large_ext_ok [OF assms] by blast
  have "out \<in> fst ` set (mapped s2)" using s2(3) by simp
  from xfree_large_ok [OF s2(2) assms(4) this] exit_handler_ok [OF s2(2)] s1 s2 show ?thesis by blast
qed

definition xinit :: xstate where
  "xinit = \<lparr>n_large_alloc = 0, large_alloc = replicate 32 \<lparr>lp = 0, lsz = 0, lfd = 0\<rparr>,
     installed_handler = False, mapped = [], open_fds = [], freed = []\<rparr>"

lemma xinit_inv: "table_inv xinit"
  by (simp add: table_inv_def xinit_def entries_def table_maps_def table_fds_def MAX_LARGE_def)

theorem large_allocations_tracked_witness:
  "\<exists>s1 s2 s3 s4 sz'. xmalloc_large (Some 4096) 100 xinit = Some (Some 4096, s1) \<and> table_inv s1 \<and>
    xmalloc_large_ext \<lparr>mkstemp_fd = 3, unlink_ok = True, resize_ok = True, ext_out = Some 4096, atexit_ok = True, signal_ok = True\<rparr>
      100 xinit = Some (Some 4096, s2) \<and> table_inv s2 \<and>
    xfree_large 4096 s2 = Some s3 \<and> table_inv s3 \<and> (4096, sz') \<in> set (mapped s2) \<and> mapped s3 = remove1 (4096, sz') (mapped s2) \<and>
    exit_handler s2 = Some s4 \<and> mapped s4 = [] \<and> open_fds s4 = []"
  by (rule large_allocations_tracked) (simp_all add: xinit_inv, simp_all add: xinit_def MAX_LARGE_def)

text \<open>
  When the table is full, \<open>xmalloc_large_ext\<close> aborts with a counter that is one too large, and the
  handler reads behind the end of the table.
\<close>

lemma full_table_out_of_bounds:
  assumes "table_inv s" "n_large_alloc s = MAX_LARGE" "installed_handler s"
  shows "xmalloc_large_ext c sz s = None"
proof -
  let ?s = "s\<lparr>n_large_alloc := 33\<rparr>"
  have "exit_handler ?s = None"
  proof (cases "exit_handler ?s")
    case (Some s')
    have "length (large_alloc s') = 32 \<and> n_large_alloc ?s \<le> int (length (large_alloc s'))"
      using Some unfolding exit_handler_def
      by (rule for_up_partial [where I = "\<lambda>k t. length (large_alloc t) = 32 \<and> k \<le> int (length (large_alloc t))"])
        (use assms in \<open>auto simp: table_inv_def MAX_LARGE_def Let_def bind_eq_Some rd_eq_Some wr_eq_Some munmap_def close_fd_def
          split: if_splits\<close>)
    then show ?thesis by auto
  qed
  then show ?thesis using assms by (simp add: xmalloc_large_ext_def MAX_LARGE_def abort_handler_def)
qed

end
