(* ===== verification/Options.thy ===== *)
theory Options
  imports Driver
begin

text \<open>
  The command line of Graph500 (\<open>options.c\<close>).  What \<open>getopt\<close> returns, one option letter with its
  argument after the other, is the input; \<open>strtol\<close> and \<open>strtod\<close> return a number and whether
  \<open>errno\<close> was set, \<open>strdup\<close> may fail.  Doubles are exact rationals.  An exit is \<open>Inl\<close> with its
  status; \<^const>\<open>None\<close> is an abort or a division of zero by zero, which has no value here.
\<close>

subsection \<open>Definitions\<close>

record options =
  opt_VERBOSE :: int
  use_RMAT :: int
  dumpname :: "string option"
  rootname :: "string option"
  opt_A :: rat
  opt_B :: rat
  opt_C :: rat
  opt_D :: rat
  opt_NBFS :: int
  opt_SCALE :: int
  opt_edgefactor :: int

definition A_PARAM :: rat where "A_PARAM = 57 / 100"

definition B_PARAM :: rat where "B_PARAM = 19 / 100"

definition C_PARAM :: rat where "C_PARAM = 19 / 100"

definition default_SCALE :: int where "default_SCALE = 14"

definition default_edgefactor :: int where "default_edgefactor = 16"

definition default_options :: options where
  "default_options = \<lparr>opt_VERBOSE = 0, use_RMAT = 0, dumpname = None, rootname = None,
     opt_A = A_PARAM, opt_B = B_PARAM, opt_C = C_PARAM, opt_D = 1 - (A_PARAM + B_PARAM + C_PARAM),
     opt_NBFS = NBFS_max, opt_SCALE = default_SCALE, opt_edgefactor = default_edgefactor\<rparr>"

record parse = options +
  err :: int
  nset :: int
  whichset :: int

record libc =
  strtol :: "string \<Rightarrow> int \<times> bool"
  strtod :: "string \<Rightarrow> rat \<times> bool"
  strdup :: "string \<Rightarrow> string option"

definition fail_if :: "bool \<Rightarrow> parse \<Rightarrow> parse" where
  "fail_if b s = (if b then s\<lparr>err := -1\<rparr> else s)"

text \<open>The four options \<open>A\<close>, \<open>B\<close>, \<open>C\<close> and \<open>D\<close> have the same code.\<close>

definition set_rmat_param :: "int \<Rightarrow> (rat \<Rightarrow> parse \<Rightarrow> parse) \<Rightarrow> rat \<times> bool \<Rightarrow> parse \<Rightarrow> parse" where
  "set_rmat_param flag upd = (\<lambda>(x, errno) s.
     let s = upd x s;
         s = fail_if (whichset s AND flag \<noteq> 0) s;
         s = fail_if errno s;
         s = fail_if (x < 0) s
     in s\<lparr>whichset := whichset s OR flag, nset := nset s + 1\<rparr>)"

definition set_positive :: "(int \<Rightarrow> parse \<Rightarrow> parse) \<Rightarrow> int \<times> bool \<Rightarrow> parse \<Rightarrow> parse" where
  "set_positive upd = (\<lambda>(x, errno) s.
     let s = upd x s;
         s = fail_if errno s
     in fail_if (x \<le> 0) s)"

definition handle_option :: "libc \<Rightarrow> char \<Rightarrow> string \<Rightarrow> parse \<Rightarrow> int + parse" where
  "handle_option lc c optarg s =
    (if c = CHR ''v'' then Inl 0
     else if c = CHR ''h'' \<or> c = CHR ''?'' then Inl 0
     else if c = CHR ''V'' then Inr (s\<lparr>opt_VERBOSE := 1\<rparr>)
     else if c = CHR ''R'' then Inr (s\<lparr>use_RMAT := 1\<rparr>)
     else if c = CHR ''o'' then
       Inr (let s = s\<lparr>dumpname := strdup lc optarg\<rparr> in if dumpname s = None then s\<lparr>err := 1\<rparr> else s)
     else if c = CHR ''r'' then
       Inr (let s = s\<lparr>rootname := strdup lc optarg\<rparr> in if rootname s = None then s\<lparr>err := 1\<rparr> else s)
     else if c = CHR ''s'' then Inr (set_positive (\<lambda>x s. s\<lparr>opt_SCALE := x\<rparr>) (strtol lc optarg) s)
     else if c = CHR ''e'' then Inr (set_positive (\<lambda>x s. s\<lparr>opt_edgefactor := x\<rparr>) (strtol lc optarg) s)
     else if c = CHR ''A'' \<or> c = CHR ''a'' then Inr (set_rmat_param 1 (\<lambda>x s. s\<lparr>opt_A := x\<rparr>) (strtod lc optarg) s)
     else if c = CHR ''B'' \<or> c = CHR ''b'' then Inr (set_rmat_param 2 (\<lambda>x s. s\<lparr>opt_B := x\<rparr>) (strtod lc optarg) s)
     else if c = CHR ''C'' \<or> c = CHR ''c'' then Inr (set_rmat_param 4 (\<lambda>x s. s\<lparr>opt_C := x\<rparr>) (strtod lc optarg) s)
     else if c = CHR ''D'' \<or> c = CHR ''d'' then Inr (set_rmat_param 8 (\<lambda>x s. s\<lparr>opt_D := x\<rparr>) (strtod lc optarg) s)
     else if c = CHR ''n'' then
       Inr (set_positive (\<lambda>x s. s\<lparr>opt_NBFS := x\<rparr>) (map_prod to_int id (strtol lc optarg)) s)
     else Inr (s\<lparr>err := -1\<rparr>))"

fun parse_options :: "libc \<Rightarrow> (char \<times> string) list \<Rightarrow> parse \<Rightarrow> int + parse" where
  "parse_options lc [] s = Inr s"
| "parse_options lc ((c, optarg) # opts) s =
    (case handle_option lc c optarg s of
       Inl code \<Rightarrow> Inl code
     | Inr s \<Rightarrow> parse_options lc opts s)"

definition complete_params :: "parse \<Rightarrow> parse option" where
  "complete_params s =
    (if whichset s = 4 + 2 + 1 then Some (s\<lparr>opt_D := 1 - (opt_A s + opt_B s + opt_C s)\<rparr>)
     else if whichset s = 8 + 2 + 1 then Some (s\<lparr>opt_C := 1 - (opt_A s + opt_B s + opt_D s)\<rparr>)
     else if whichset s = 8 + 4 + 1 then Some (s\<lparr>opt_B := 1 - (opt_A s + opt_C s + opt_D s)\<rparr>)
     else if whichset s = 8 + 4 + 2 then Some (s\<lparr>opt_A := 1 - (opt_B s + opt_C s + opt_D s)\<rparr>)
     else None)"

definition normalize_params :: "parse \<Rightarrow> parse option" where
  "normalize_params s = do {
     let sum = opt_A s + opt_B s + opt_C s + opt_D s;
     assert_opt (sum \<noteq> 0);
     let s = s\<lparr>opt_A := opt_A s / sum, opt_B := opt_B s / sum, opt_C := opt_C s / sum\<rparr>;
     Some (s\<lparr>opt_D := 1 - (opt_A s + opt_B s + opt_C s)\<rparr>)
   }"

definition finish_options :: "parse \<Rightarrow> (int + parse) option" where
  "finish_options s =
    (if err s \<noteq> 0 then Some (Inl EXIT_FAILURE)
     else if nset s = 3 then do {
       s \<leftarrow> complete_params s;
       if opt_A s < 0 \<or> opt_B s < 0 \<or> opt_C s < 0 \<or> opt_D s < 0 then Some (Inl EXIT_FAILURE) else Some (Inr s)
     } else if nset s > 0 then map_option Inr (normalize_params s)
     else Some (Inr s))"

definition start_parse :: "bool \<Rightarrow> options \<Rightarrow> parse" where
  "start_parse env_VERBOSE o0 =
    (let o0 = (if env_VERBOSE then o0\<lparr>opt_VERBOSE := 1\<rparr> else o0) in
     options.extend o0 \<lparr>err = 0, nset = 0, whichset = 0\<rparr>)"

definition get_options :: "libc \<Rightarrow> bool \<Rightarrow> (char \<times> string) list \<Rightarrow> options \<Rightarrow> (int + options) option" where
  "get_options lc env_VERBOSE opts o0 =
    (case parse_options lc opts (start_parse env_VERBOSE o0) of
       Inl code \<Rightarrow> Some (Inl code)
     | Inr s \<Rightarrow> map_option (map_sum id options.truncate) (finish_options s))"

subsection \<open>What is accepted\<close>

definition options_ok :: "options \<Rightarrow> bool" where
  "options_ok o1 \<longleftrightarrow> 0 < opt_SCALE o1 \<and> 0 < opt_edgefactor o1 \<and> 0 < opt_NBFS o1 \<and>
     0 \<le> opt_A o1 \<and> 0 \<le> opt_B o1 \<and> 0 \<le> opt_C o1 \<and> 0 \<le> opt_D o1 \<and>
     opt_A o1 + opt_B o1 + opt_C o1 + opt_D o1 = 1"

definition flags :: "bool \<Rightarrow> bool \<Rightarrow> bool \<Rightarrow> bool \<Rightarrow> int" where
  "flags a b c d = of_bool a + 2 * of_bool b + 4 * of_bool c + 8 * of_bool d"

text \<open>As long as no error was found, the flags say which of the four parameters have been given.\<close>

definition parse_inv :: "parse \<Rightarrow> bool" where
  "parse_inv s \<longleftrightarrow> (err s = 0 \<longrightarrow>
     0 < opt_SCALE s \<and> 0 < opt_edgefactor s \<and> 0 < opt_NBFS s \<and>
     0 \<le> opt_A s \<and> 0 \<le> opt_B s \<and> 0 \<le> opt_C s \<and> 0 \<le> opt_D s \<and>
     (\<exists>a b c d. whichset s = flags a b c d \<and> nset s = of_bool a + of_bool b + of_bool c + of_bool d \<and>
       (\<not> a \<and> \<not> b \<and> \<not> c \<and> \<not> d \<longrightarrow> opt_A s + opt_B s + opt_C s + opt_D s = 1)))"

lemma flags_set:
  "flags a b c d AND 1 \<noteq> 0 \<longleftrightarrow> a" "flags a b c d AND 2 \<noteq> 0 \<longleftrightarrow> b"
  "flags a b c d AND 4 \<noteq> 0 \<longleftrightarrow> c" "flags a b c d AND 8 \<noteq> 0 \<longleftrightarrow> d"
  "flags a b c d OR 1 = flags True b c d" "flags a b c d OR 2 = flags a True c d"
  "flags a b c d OR 4 = flags a b True d" "flags a b c d OR 8 = flags a b c True"
  by (cases a; cases b; cases c; cases d; simp add: flags_def)+

lemma set_positive_inv:
  assumes "parse_inv s"
    "\<And>x. err (upd x s) = err s" "\<And>x. err s = 0 \<Longrightarrow> 0 < x \<Longrightarrow> parse_inv (upd x s)"
  shows "parse_inv (set_positive upd r s)"
proof (cases r)
  case (Pair x e)
  show ?thesis
  proof (cases "err s = 0 \<and> \<not> e \<and> 0 < x")
    case True
    then show ?thesis using assms(3) [of x] Pair by (simp add: set_positive_def fail_if_def)
  next
    case False
    then have "err (set_positive upd r s) \<noteq> 0" using assms(2) [of x] Pair by (auto simp: set_positive_def fail_if_def Let_def)
    then show ?thesis by (simp add: parse_inv_def)
  qed
qed

lemma set_rmat_param_inv:
  assumes "parse_inv s" "\<And>x. err (upd x s) = err s"
    "\<And>x. err s = 0 \<Longrightarrow> 0 \<le> x \<Longrightarrow> whichset (upd x s) AND flag = 0 \<Longrightarrow>
      parse_inv ((upd x s)\<lparr>whichset := whichset (upd x s) OR flag, nset := nset (upd x s) + 1\<rparr>)"
  shows "parse_inv (set_rmat_param flag upd r s)"
proof (cases r)
  case (Pair x e)
  show ?thesis
  proof (cases "err s = 0 \<and> \<not> e \<and> 0 \<le> x \<and> whichset (upd x s) AND flag = 0")
    case True
    then show ?thesis using assms(3) [of x] Pair by (simp add: set_rmat_param_def fail_if_def Let_def)
  next
    case False
    then have "err (set_rmat_param flag upd r s) \<noteq> 0" using assms(2) [of x] Pair
      by (auto simp: set_rmat_param_def fail_if_def Let_def)
    then show ?thesis by (simp add: parse_inv_def)
  qed
qed

lemma parse_invI:
  assumes "0 < opt_SCALE s" "0 < opt_edgefactor s" "0 < opt_NBFS s" "0 \<le> opt_A s" "0 \<le> opt_B s" "0 \<le> opt_C s" "0 \<le> opt_D s"
    "whichset s = flags a b c d" "nset s = of_bool a + of_bool b + of_bool c + of_bool d" "a \<or> b \<or> c \<or> d"
  shows "parse_inv s"
  using assms unfolding parse_inv_def by blast

lemma parse_invE:
  assumes "parse_inv s" "err s = 0"
  obtains a b c d where "0 < opt_SCALE s" "0 < opt_edgefactor s" "0 < opt_NBFS s"
    "0 \<le> opt_A s" "0 \<le> opt_B s" "0 \<le> opt_C s" "0 \<le> opt_D s"
    "whichset s = flags a b c d" "nset s = of_bool a + of_bool b + of_bool c + of_bool d"
    "\<not> a \<and> \<not> b \<and> \<not> c \<and> \<not> d \<longrightarrow> opt_A s + opt_B s + opt_C s + opt_D s = 1"
  using assms unfolding parse_inv_def by blast

lemma param_inv:
  assumes "parse_inv s" "0 \<le> x" "err s = 0"
  shows "whichset s AND 1 = 0 \<Longrightarrow> parse_inv (s\<lparr>opt_A := x, whichset := whichset s OR 1, nset := nset s + 1\<rparr>)"
    "whichset s AND 2 = 0 \<Longrightarrow> parse_inv (s\<lparr>opt_B := x, whichset := whichset s OR 2, nset := nset s + 1\<rparr>)"
    "whichset s AND 4 = 0 \<Longrightarrow> parse_inv (s\<lparr>opt_C := x, whichset := whichset s OR 4, nset := nset s + 1\<rparr>)"
    "whichset s AND 8 = 0 \<Longrightarrow> parse_inv (s\<lparr>opt_D := x, whichset := whichset s OR 8, nset := nset s + 1\<rparr>)"
proof -
  from assms(1,3) obtain a b c d where p: "0 < opt_SCALE s" "0 < opt_edgefactor s" "0 < opt_NBFS s"
      "0 \<le> opt_A s" "0 \<le> opt_B s" "0 \<le> opt_C s" "0 \<le> opt_D s"
    and f: "whichset s = flags a b c d" "nset s = of_bool a + of_bool b + of_bool c + of_bool d"
    by (rule parse_invE)
  have free: "whichset s AND 1 = 0 \<Longrightarrow> \<not> a" "whichset s AND 2 = 0 \<Longrightarrow> \<not> b" "whichset s AND 4 = 0 \<Longrightarrow> \<not> c" "whichset s AND 8 = 0 \<Longrightarrow> \<not> d"
    using flags_set(1-4) [of a b c d] f(1) by auto
  show "parse_inv (s\<lparr>opt_A := x, whichset := whichset s OR 1, nset := nset s + 1\<rparr>)" if "whichset s AND 1 = 0"
    by (rule parse_invI [of _ True b c d]) (use p f assms(2) free(1) [OF that] in \<open>simp_all add: flags_set\<close>)
  show "parse_inv (s\<lparr>opt_B := x, whichset := whichset s OR 2, nset := nset s + 1\<rparr>)" if "whichset s AND 2 = 0"
    by (rule parse_invI [of _ a True c d]) (use p f assms(2) free(2) [OF that] in \<open>simp_all add: flags_set\<close>)
  show "parse_inv (s\<lparr>opt_C := x, whichset := whichset s OR 4, nset := nset s + 1\<rparr>)" if "whichset s AND 4 = 0"
    by (rule parse_invI [of _ a b True d]) (use p f assms(2) free(3) [OF that] in \<open>simp_all add: flags_set\<close>)
  show "parse_inv (s\<lparr>opt_D := x, whichset := whichset s OR 8, nset := nset s + 1\<rparr>)" if "whichset s AND 8 = 0"
    by (rule parse_invI [of _ a b c True]) (use p f assms(2) free(4) [OF that] in \<open>simp_all add: flags_set\<close>)
qed

lemma positive_inv:
  assumes "parse_inv s" "0 < x"
  shows "parse_inv (s\<lparr>opt_SCALE := x\<rparr>)" "parse_inv (s\<lparr>opt_edgefactor := x\<rparr>)" "parse_inv (s\<lparr>opt_NBFS := x\<rparr>)"
  using assms by (auto simp: parse_inv_def)

lemma plain_inv:
  assumes "parse_inv s"
  shows "parse_inv (s\<lparr>opt_VERBOSE := v\<rparr>)" "parse_inv (s\<lparr>use_RMAT := v\<rparr>)"
    "parse_inv (s\<lparr>dumpname := n\<rparr>)" "parse_inv (s\<lparr>rootname := n\<rparr>)" "v \<noteq> 0 \<Longrightarrow> parse_inv (s\<lparr>err := v\<rparr>)"
  using assms by (auto simp: parse_inv_def)

lemma setters_inv:
  assumes "parse_inv s"
  shows "parse_inv (set_positive (\<lambda>x s. s\<lparr>opt_SCALE := x\<rparr>) n s)"
    "parse_inv (set_positive (\<lambda>x s. s\<lparr>opt_edgefactor := x\<rparr>) n s)"
    "parse_inv (set_positive (\<lambda>x s. s\<lparr>opt_NBFS := x\<rparr>) n s)"
    "parse_inv (set_rmat_param 1 (\<lambda>x s. s\<lparr>opt_A := x\<rparr>) r s)"
    "parse_inv (set_rmat_param 2 (\<lambda>x s. s\<lparr>opt_B := x\<rparr>) r s)"
    "parse_inv (set_rmat_param 4 (\<lambda>x s. s\<lparr>opt_C := x\<rparr>) r s)"
    "parse_inv (set_rmat_param 8 (\<lambda>x s. s\<lparr>opt_D := x\<rparr>) r s)"
  by (rule set_positive_inv [OF assms] set_rmat_param_inv [OF assms];
    simp add: positive_inv [OF assms] param_inv [OF assms])+

lemma handle_option_inv:
  assumes "parse_inv s"
  shows "case handle_option lc c optarg s of Inl _ \<Rightarrow> True | Inr s' \<Rightarrow> parse_inv s'"
  unfolding handle_option_def Let_def
  by (simp add: setters_inv [OF assms] plain_inv [OF assms]
    plain_inv(5) [OF plain_inv(3) [OF assms]] plain_inv(5) [OF plain_inv(4) [OF assms]])

lemma parse_options_inv:
  "parse_inv s \<Longrightarrow> parse_options lc opts s = Inr s' \<Longrightarrow> parse_inv s'"
proof (induction lc opts s rule: parse_options.induct)
  case (2 lc c optarg opts s)
  then show ?case using handle_option_inv [OF "2.prems"(1), of lc c optarg] by (simp split: sum.splits)
qed simp

lemma handle_option_exit: "handle_option lc c optarg s = Inl code \<Longrightarrow> code = 0"
  by (auto simp: handle_option_def Let_def split: if_splits)

lemma parse_options_exit: "parse_options lc opts s = Inl code \<Longrightarrow> code = 0"
  by (induction lc opts s rule: parse_options.induct) (auto split: sum.splits dest: handle_option_exit)

lemma normalize_params_ok:
  assumes "0 \<le> opt_A s" "0 \<le> opt_B s" "0 \<le> opt_C s" "0 \<le> opt_D s"
  shows "case normalize_params s of
      None \<Rightarrow> opt_A s = 0 \<and> opt_B s = 0 \<and> opt_C s = 0 \<and> opt_D s = 0
    | Some s' \<Rightarrow> 0 \<le> opt_A s' \<and> 0 \<le> opt_B s' \<and> 0 \<le> opt_C s' \<and> 0 \<le> opt_D s' \<and>
        opt_A s' + opt_B s' + opt_C s' + opt_D s' = 1 \<and>
        opt_SCALE s' = opt_SCALE s \<and> opt_edgefactor s' = opt_edgefactor s \<and> opt_NBFS s' = opt_NBFS s"
proof (cases "opt_A s + opt_B s + opt_C s + opt_D s = 0")
  case True
  then show ?thesis using assms by (simp add: normalize_params_def Let_def add_nonneg_eq_0_iff)
next
  case False
  define t where "t = opt_A s + opt_B s + opt_C s + opt_D s"
  have t: "0 < t" using False assms by (simp add: t_def order_less_le)
  have "opt_A s / t + opt_B s / t + opt_C s / t = (t - opt_D s) / t"
    unfolding add_divide_distrib [symmetric] by (simp add: t_def)
  then have "1 - (opt_A s / t + opt_B s / t + opt_C s / t) = opt_D s / t" using t by (simp add: diff_divide_distrib)
  moreover have "normalize_params s = Some (s\<lparr>opt_A := opt_A s / t, opt_B := opt_B s / t, opt_C := opt_C s / t,
      opt_D := 1 - (opt_A s / t + opt_B s / t + opt_C s / t)\<rparr>)"
    using False by (simp add: normalize_params_def Let_def t_def)
  ultimately show ?thesis using assms t by simp
qed

lemma complete_params_ok:
  assumes "whichset s = flags a b c d" "nset s = of_bool a + of_bool b + of_bool c + of_bool d" "nset s = 3"
  shows "\<exists>s'. complete_params s = Some s' \<and> opt_A s' + opt_B s' + opt_C s' + opt_D s' = 1 \<and>
    opt_SCALE s' = opt_SCALE s \<and> opt_edgefactor s' = opt_edgefactor s \<and> opt_NBFS s' = opt_NBFS s"
  using assms by (cases a; cases b; cases c; cases d; simp add: complete_params_def flags_def)

lemma finish_options_ok:
  assumes "parse_inv s"
  shows "case finish_options s of
      None \<Rightarrow> opt_A s = 0 \<and> opt_B s = 0 \<and> opt_C s = 0 \<and> opt_D s = 0
    | Some (Inl code) \<Rightarrow> code = EXIT_FAILURE
    | Some (Inr s') \<Rightarrow> options_ok (options.truncate s')"
proof (cases "err s = 0")
  case False
  then show ?thesis by (simp add: finish_options_def)
next
  case True
  obtain a b c d where f: "whichset s = flags a b c d" "nset s = of_bool a + of_bool b + of_bool c + of_bool d"
      "\<not> a \<and> \<not> b \<and> \<not> c \<and> \<not> d \<longrightarrow> opt_A s + opt_B s + opt_C s + opt_D s = 1"
    using assms True by (auto simp: parse_inv_def)
  have p: "0 < opt_SCALE s" "0 < opt_edgefactor s" "0 < opt_NBFS s" "0 \<le> opt_A s" "0 \<le> opt_B s" "0 \<le> opt_C s" "0 \<le> opt_D s"
    using assms True by (auto simp: parse_inv_def)
  have "0 \<le> nset s" using f(2) by simp
  then consider "nset s = 3" | "nset s \<noteq> 3" "nset s > 0" | "nset s = 0" by linarith
  then show ?thesis
  proof cases
    case 1
    obtain s' where "complete_params s = Some s'" "opt_A s' + opt_B s' + opt_C s' + opt_D s' = 1"
        "opt_SCALE s' = opt_SCALE s" "opt_edgefactor s' = opt_edgefactor s" "opt_NBFS s' = opt_NBFS s"
      using complete_params_ok [OF f(1,2) 1] by blast
    then show ?thesis using True 1 p by (auto simp: finish_options_def options_ok_def options.truncate_def)
  next
    case 2
    then show ?thesis using True normalize_params_ok [OF p(4-7)] p
      by (auto simp: finish_options_def options_ok_def options.truncate_def split: option.splits)
  next
    case 3
    then have "\<not> a" "\<not> b" "\<not> c" "\<not> d" using f(2) by (auto simp: of_bool_def split: if_splits)
    then show ?thesis using True 3 p f(3) by (simp add: finish_options_def options_ok_def options.truncate_def)
  qed
qed

lemma start_parse_inv: "options_ok o0 \<Longrightarrow> parse_inv (start_parse env o0)"
  by (auto simp: options_ok_def parse_inv_def start_parse_def options.extend_def flags_def Let_def
      intro!: exI [of _ False])

lemma default_options_ok: "options_ok default_options"
  by (simp add: options_ok_def default_options_def A_PARAM_def B_PARAM_def C_PARAM_def
      default_SCALE_def default_edgefactor_def NBFS_max_def)

lemma get_options_result:
  assumes "options_ok o0"
  shows "case get_options lc env opts o0 of
      None \<Rightarrow> (\<exists>s. parse_options lc opts (start_parse env o0) = Inr s \<and> opt_A s = 0 \<and> opt_B s = 0 \<and> opt_C s = 0 \<and> opt_D s = 0)
    | Some (Inl code) \<Rightarrow> code = 0 \<or> code = EXIT_FAILURE
    | Some (Inr o1) \<Rightarrow> options_ok o1"
proof (cases "parse_options lc opts (start_parse env o0)")
  case (Inl code)
  then show ?thesis using parse_options_exit by (auto simp: get_options_def)
next
  case (Inr s)
  from finish_options_ok [OF parse_options_inv [OF start_parse_inv [OF assms] Inr]] Inr show ?thesis
    by (auto simp: get_options_def split: option.splits sum.splits)
qed


text \<open>An option that does not exist is reported by \<open>getopt\<close> as a question mark and ends with success.\<close>

lemma unknown_option_succeeds: "get_options lc env ((CHR ''?'', arg) # opts) o0 = Some (Inl 0)"
  by (simp add: get_options_def handle_option_def)

end
