(* ===== verification/Kronecker.thy ===== *)
theory Kronecker
  imports Mrg Edges
begin

text \<open>
  The Kronecker graph generator of Graph500 (\<open>generator/graph_generator.c\<close>, \<open>make_graph.c\<close>,
  \<open>utils.c\<close> and \<open>prng.c\<close>): seeding, the four-way
  choice of a quadrant, bit reversal, the scrambling of vertex numbers, single edges and ranges of
  edges.  Assertions are aborts (\<^const>\<open>None\<close>); the rejection loop of the quadrant choice is a
  partial function, whose outer \<^const>\<open>None\<close> means that it does not return.
\<close>

subsection \<open>Seeds\<close>

definition make_mrg_seed :: "u64 \<Rightarrow> u64 \<Rightarrow> u64 list" where
  "make_mrg_seed userseed1 userseed2 =
    [ucast ((ucast (userseed1 AND 0x3FFFFFFF) :: u32) + 1),
     ucast ((ucast (drop_bit 30 userseed1 AND 0x3FFFFFFF) :: u32) + 1),
     ucast ((ucast (userseed2 AND 0x3FFFFFFF) :: u32) + 1),
     ucast ((ucast (drop_bit 30 userseed2 AND 0x3FFFFFFF) :: u32) + 1),
     ucast ((ucast (push_bit 4 (drop_bit 60 userseed2)) :: u32) + ucast (drop_bit 60 userseed1) + 1)]"

text \<open>The variant of \<open>prng.c\<close>, with one user seed.\<close>

definition make_mrg_seed_prng :: "u64 \<Rightarrow> u64 list" where
  "make_mrg_seed_prng userseed =
    [(userseed AND 0x3FFFFFFF) + 1,
     (drop_bit 30 userseed AND 0x3FFFFFFF) + 1,
     (userseed AND 0x3FFFFFFF) + 1,
     (drop_bit 30 userseed AND 0x3FFFFFFF) + 1,
     push_bit 4 (drop_bit 60 userseed) + drop_bit 60 userseed + 1]"

subsection \<open>The quadrant of an edge\<close>

definition INITIATOR_A_NUMERATOR :: u32 where
  "INITIATOR_A_NUMERATOR = 5700"

definition INITIATOR_BC_NUMERATOR :: u32 where
  "INITIATOR_BC_NUMERATOR = 1900"

definition INITIATOR_DENOMINATOR :: u32 where
  "INITIATOR_DENOMINATOR = 10000"

definition bernoulli_limit :: u32 where
  "bernoulli_limit = 0x7FFFFFFF mod INITIATOR_DENOMINATOR"

text \<open>Draw values until one is not below the limit.\<close>

partial_function (option) draw_unbiased :: "mrg_state \<Rightarrow> (u32 \<times> mrg_state) option option" where
  "draw_unbiased st = (case mrg_get_uint_orig st of
      None \<Rightarrow> Some None
    | Some (v, st') \<Rightarrow>
        (let val = ucast v :: u32 in
         if val < bernoulli_limit then draw_unbiased st' else Some (Some (val, st'))))"

declare draw_unbiased.simps [code]

definition quadrant_of :: "u32 \<Rightarrow> nat" where
  "quadrant_of val =
    (let val = val mod INITIATOR_DENOMINATOR in
     if val < INITIATOR_BC_NUMERATOR then 1
     else let val = val - INITIATOR_BC_NUMERATOR in
       if val < INITIATOR_BC_NUMERATOR then 2
       else let val = val - INITIATOR_BC_NUMERATOR in
         if val < INITIATOR_A_NUMERATOR then 0 else 3)"

definition generate_4way_bernoulli :: "mrg_state \<Rightarrow> (nat \<times> mrg_state) option option" where
  "generate_4way_bernoulli st =
    map_option (map_option (\<lambda>(val, st'). (quadrant_of val, st'))) (draw_unbiased st)"

subsection \<open>Bit reversal and scrambling\<close>

text \<open>
  \<open>swap_groups\<close> is one line of the reversal: groups of \<open>k\<close> bits selected by the mask trade
  places with their neighbours.
\<close>

definition swap_groups :: "nat \<Rightarrow> u64 \<Rightarrow> u64 \<Rightarrow> u64" where
  "swap_groups k m x = (drop_bit k x AND m) OR push_bit k (x AND m)"

definition bswap64 :: "u64 \<Rightarrow> u64" where
  "bswap64 x =
    swap_groups 8 0x00FF00FF00FF00FF
      (swap_groups 16 0x0000FFFF0000FFFF
        (drop_bit 32 x OR push_bit 32 x))"

definition bitreverse :: "u64 \<Rightarrow> u64" where
  "bitreverse x =
    (let x = bswap64 x;
         x = swap_groups 4 0x0F0F0F0F0F0F0F0F x;
         x = swap_groups 2 0x3333333333333333 x;
         x = swap_groups 1 0x5555555555555555 x in
     x)"

text \<open>The 32-bit code path: both halves are reversed and swapped.\<close>

definition swap_groups32 :: "nat \<Rightarrow> u32 \<Rightarrow> u32 \<Rightarrow> u32" where
  "swap_groups32 k m x = (drop_bit k x AND m) OR push_bit k (x AND m)"

definition bitreverse_half :: "u32 \<Rightarrow> u32" where
  "bitreverse_half h =
    (let h = drop_bit 16 h OR push_bit 16 h;
         h = swap_groups32 8 0x00FF00FF h;
         h = swap_groups32 4 0x0F0F0F0F h;
         h = swap_groups32 2 0x33333333 h;
         h = swap_groups32 1 0x55555555 h in
     h)"

definition bitreverse_32bit :: "u64 \<Rightarrow> u64" where
  "bitreverse_32bit x =
    (let h = bitreverse_half (ucast (drop_bit 32 x));
         l = bitreverse_half (ucast (x AND 0xFFFFFFFF)) in
     push_bit 32 (ucast l) OR ucast h)"

text \<open>A shift by 64 has no defined value in C, which excludes \<open>lgN = 0\<close>.\<close>

definition scramble :: "int \<Rightarrow> nat \<Rightarrow> u64 \<Rightarrow> u64 \<Rightarrow> int option" where
  "scramble w lgN val0 val1 = do {
     assert_opt (0 < lgN \<and> lgN < 64);
     let v = (word_of_int w :: u64) + (val0 + val1);
     let v = v * (val0 OR 0x4519840211493211);
     let v = drop_bit (64 - lgN) (bitreverse v);
     assert_opt (drop_bit lgN v = 0);
     let v = v * (val1 OR 0x3050852102C843A5);
     let v = drop_bit (64 - lgN) (bitreverse v);
     assert_opt (drop_bit lgN v = 0);
     Some (sint v)
   }"

subsection \<open>Edges of the graph\<close>

text \<open>
  The loop of \<open>make_one_edge\<close>; \<open>None\<close> inside is a failed assertion, outside an endless
  rejection loop.
\<close>

partial_function (option) one_edge_loop ::
    "int \<Rightarrow> int \<Rightarrow> int \<Rightarrow> mrg_state \<Rightarrow> (int \<times> int \<times> mrg_state) option option" where
  "one_edge_loop nverts base_src base_tgt st =
    (if nverts > 1 then
       (case generate_4way_bernoulli st of
          None \<Rightarrow> None
        | Some None \<Rightarrow> Some None
        | Some (Some (square, st')) \<Rightarrow>
            if \<not> base_src \<le> base_tgt then Some None
            else
              let src_offset = square div 2; tgt_offset = square mod 2;
                  (src_offset, tgt_offset) =
                    (if base_src = base_tgt \<and> src_offset > tgt_offset
                     then (tgt_offset, src_offset) else (src_offset, tgt_offset));
                  nverts = nverts div 2 in
              one_edge_loop nverts (base_src + nverts * int src_offset)
                (base_tgt + nverts * int tgt_offset) st')
     else Some (Some (base_src, base_tgt, st)))"

declare one_edge_loop.simps [code]

definition make_one_edge :: "int \<Rightarrow> nat \<Rightarrow> mrg_state \<Rightarrow> u64 \<Rightarrow> u64 \<Rightarrow> packed_edge option option" where
  "make_one_edge nverts lgN st val0 val1 =
    map_option (\<lambda>r. do {
       (base_src, base_tgt, _) \<leftarrow> r;
       a \<leftarrow> scramble base_src lgN val0 val1;
       b \<leftarrow> scramble base_tgt lgN val0 val1;
       Some (write_edge a b)
     }) (one_edge_loop nverts 0 0 st)"

text \<open>The two values that scramble the vertex numbers.\<close>

definition scramble_values :: "skip_table \<Rightarrow> mrg_state \<Rightarrow> (u64 \<times> u64) option" where
  "scramble_values tbl state = do {
     st \<leftarrow> mrg_skip tbl state 50 7 0;
     (a, st) \<leftarrow> mrg_get_uint_orig st;
     (b, st) \<leftarrow> mrg_get_uint_orig st;
     (c, st) \<leftarrow> mrg_get_uint_orig st;
     (d, st) \<leftarrow> mrg_get_uint_orig st;
     Some (a * 0xFFFFFFFF + b, c * 0xFFFFFFFF + d)
   }"

definition kronecker_edge ::
    "skip_table \<Rightarrow> mrg_state \<Rightarrow> nat \<Rightarrow> u64 \<Rightarrow> u64 \<Rightarrow> int \<Rightarrow> packed_edge option option" where
  "kronecker_edge tbl state logN val0 val1 ei =
    (case mrg_skip tbl state 0 (word_of_int ei) 0 of
       None \<Rightarrow> Some None
     | Some st \<Rightarrow> make_one_edge (2 ^ logN) logN st val0 val1)"

fun kronecker_edges ::
    "skip_table \<Rightarrow> mrg_state \<Rightarrow> nat \<Rightarrow> u64 \<Rightarrow> u64 \<Rightarrow> int \<Rightarrow> nat \<Rightarrow> packed_edge list option option" where
  "kronecker_edges tbl state logN val0 val1 ei 0 = Some (Some [])"
| "kronecker_edges tbl state logN val0 val1 ei (Suc n) =
    (case kronecker_edge tbl state logN val0 val1 ei of
       None \<Rightarrow> None
     | Some None \<Rightarrow> Some None
     | Some (Some e) \<Rightarrow>
         map_option (map_option (\<lambda>es. e # es)) (kronecker_edges tbl state logN val0 val1 (ei + 1) n))"

definition generate_kronecker_range ::
    "skip_table \<Rightarrow> u64 list \<Rightarrow> nat \<Rightarrow> int \<Rightarrow> int \<Rightarrow> packed_edge list option option" where
  "generate_kronecker_range tbl seed logN start_edge end_edge =
    (case mrg_seed seed of
       None \<Rightarrow> Some None
     | Some state \<Rightarrow>
         (case scramble_values tbl state of
            None \<Rightarrow> Some None
          | Some (val0, val1) \<Rightarrow>
              kronecker_edges tbl state logN val0 val1 start_edge (nat (end_edge - start_edge))))"

definition make_graph :: "skip_table \<Rightarrow> nat \<Rightarrow> int \<Rightarrow> u64 \<Rightarrow> u64 \<Rightarrow> packed_edge list option option" where
  "make_graph tbl log_numverts M userseed1 userseed2 =
    generate_kronecker_range tbl (make_mrg_seed userseed1 userseed2) log_numverts 0 M"

definition compute_edge_range :: "int \<Rightarrow> int \<Rightarrow> int \<Rightarrow> int \<times> int" where
  "compute_edge_range rank sizec M =
    (rank * (M div sizec) + (if rank < M mod sizec then rank else M mod sizec),
     (rank + 1) * (M div sizec) + (if rank + 1 < M mod sizec then rank + 1 else M mod sizec))"

subsection \<open>Bit reversal is correct\<close>

text \<open>The bit that a group swap of width \<open>k\<close> moves to position \<open>i\<close>.\<close>

definition swap_index :: "nat \<Rightarrow> nat \<Rightarrow> nat" where
  "swap_index k i = (if even (i div k) then i + k else i - k)"

definition group_mask :: "nat \<Rightarrow> 'a::len word \<Rightarrow> bool" where
  "group_mask k m \<longleftrightarrow> list_all (\<lambda>i. bit m i \<longleftrightarrow> even (i div k)) [0..<LENGTH('a)]"

lemma group_maskD: "group_mask k m \<Longrightarrow> i < LENGTH('a) \<Longrightarrow> bit m i \<longleftrightarrow> even (i div k)"
  for m :: "'a::len word"
  by (simp add: group_mask_def list_all_iff)

lemma bit_swap_word:
  fixes x m :: "'a::len word"
  assumes "group_mask k m" "0 < k" "i < LENGTH('a)"
  shows "bit ((drop_bit k x AND m) OR push_bit k (x AND m)) i \<longleftrightarrow> bit x (swap_index k i)"
proof (cases "even (i div k)")
  case True
  have "\<not> bit m (i - k)" if "k \<le> i"
  proof -
    have "odd ((i - k) div k)" using True le_div_geq [OF assms(2) that] by simp
    then show ?thesis using group_maskD [OF assms(1), of "i - k"] assms(3) by simp
  qed
  with True assms group_maskD [OF assms(1,3)] show ?thesis
    by (auto simp: bit_simps swap_index_def add.commute)
next
  case False
  then have "k \<le> i" using assms(2) by (metis div_less even_zero not_le_imp_less)
  moreover have "even ((i - k) div k)"
    using False le_div_geq [OF assms(2) \<open>k \<le> i\<close>] by simp
  ultimately show ?thesis
    using False assms group_maskD [OF assms(1,3)] group_maskD [OF assms(1), of "i - k"]
    by (auto simp: bit_simps swap_index_def)
qed

lemma group_masks:
  "group_mask 16 (0x0000FFFF0000FFFF :: u64)" "group_mask 8 (0x00FF00FF00FF00FF :: u64)"
  "group_mask 4 (0x0F0F0F0F0F0F0F0F :: u64)" "group_mask 2 (0x3333333333333333 :: u64)"
  "group_mask 1 (0x5555555555555555 :: u64)"
  by code_simp+

lemma group_masks32:
  "group_mask 8 (0x00FF00FF :: u32)" "group_mask 4 (0x0F0F0F0F :: u32)"
  "group_mask 2 (0x33333333 :: u32)" "group_mask 1 (0x55555555 :: u32)"
  by code_simp+

text \<open>The position after all group swaps below width \<open>k\<close> are undone.\<close>

definition mirror_index :: "nat \<Rightarrow> nat \<Rightarrow> nat \<Rightarrow> nat" where
  "mirror_index n k i = k * (n div k - 1 - i div k) + i mod k"

lemma mirror_low: "0 < k \<Longrightarrow> b < k \<Longrightarrow> mirror_index (k * (a + 1 + d)) k (k * a + b) = k * d + b"
  by (simp add: mirror_index_def)

lemma block_div: "b < k \<Longrightarrow> (k * q + b) div k = q" for k :: nat
  by simp

lemma swap_mirror:
  assumes "0 < k" "i < 2 * k * c"
  shows "swap_index k i < 2 * k * c \<and>
    mirror_index (2 * k * c) (2 * k) (swap_index k i) = mirror_index (2 * k * c) k i"
proof -
  define a b where "a = i div (2 * k)" and "b = i mod (2 * k)"
  have i: "i = 2 * k * a + b" and b: "b < 2 * k"
    using assms(1) unfolding a_def b_def by simp_all
  have "a < c" using assms unfolding a_def by (simp add: less_mult_imp_div_less mult.commute)
  then obtain d where c: "c = a + 1 + d" using less_imp_Suc_add [of a c] by auto
  show ?thesis
  proof (cases "b < k")
    case True
    have "swap_index k i = 2 * k * a + (b + k)"
    proof -
      have "i = k * (2 * a) + b" unfolding i by simp
      then have "i div k = 2 * a" by (simp only: block_div [OF True])
      then show ?thesis unfolding i by (simp add: swap_index_def)
    qed
    moreover have "mirror_index (2 * k * c) (2 * k) (2 * k * a + (b + k)) = 2 * k * d + (b + k)"
      unfolding c using True assms(1) by (intro mirror_low) simp_all
    moreover have "mirror_index (k * (2 * a + 1 + (2 * d + 1))) k (k * (2 * a) + b) = k * (2 * d + 1) + b"
      using True assms(1) by (intro mirror_low)
    moreover have "k * (2 * a + 1 + (2 * d + 1)) = 2 * k * c" "k * (2 * a) + b = i" "k * (2 * d + 1) = 2 * k * d + k"
      unfolding i c by (simp_all add: algebra_simps)
    moreover have "2 * k * a + (b + k) < 2 * k * c"
      unfolding c using True by (simp add: algebra_simps)
    ultimately show ?thesis by simp
  next
    case False
    then obtain b' where b': "b = k + b'" using le_Suc_ex not_less by blast
    with b have "b' < k" by simp
    have idiv: "i div k = 2 * a + 1"
    proof -
      have "i = k * (2 * a + 1) + b'" unfolding i b' by (simp add: algebra_simps)
      then show ?thesis by (simp only: block_div [OF \<open>b' < k\<close>])
    qed
    then have "swap_index k i = 2 * k * a + b'" unfolding i b' by (simp add: swap_index_def)
    moreover have "mirror_index (2 * k * c) (2 * k) (2 * k * a + b') = 2 * k * d + b'"
      unfolding c using \<open>b' < k\<close> assms(1) by (intro mirror_low) simp_all
    moreover have "mirror_index (k * ((2 * a + 1) + 1 + 2 * d)) k (k * (2 * a + 1) + b') = k * (2 * d) + b'"
      using \<open>b' < k\<close> assms(1) by (intro mirror_low)
    moreover have "k * ((2 * a + 1) + 1 + 2 * d) = 2 * k * c" "k * (2 * a + 1) + b' = i"
      unfolding i c b' by (simp_all add: algebra_simps)
    moreover have "2 * k * a + b' < 2 * k * c"
      unfolding c using \<open>b' < k\<close> by (simp add: algebra_simps)
    ultimately show ?thesis by simp
  qed
qed

lemma swap_mirror_step:
  assumes "m < n" "mirror_index n k m = r" "0 < k" "n = 2 * k * c"
  shows "swap_index k m < n \<and> mirror_index n (2 * k) (swap_index k m) = r"
  using swap_mirror [of k m c] assms by simp

lemma mirror_ends:
  "mirror_index 64 1 i = 63 - i" "i < 64 \<Longrightarrow> mirror_index 64 64 i = i"
  "mirror_index 32 1 i = 31 - i" "i < 32 \<Longrightarrow> mirror_index 32 32 i = i"
  by (simp_all add: mirror_index_def)

lemma swap_indices:
  assumes "i < 64"
  defines "a \<equiv> swap_index 1 i" and "b \<equiv> swap_index 2 (swap_index 1 i)"
    and "c \<equiv> swap_index 4 (swap_index 2 (swap_index 1 i))"
    and "d \<equiv> swap_index 8 (swap_index 4 (swap_index 2 (swap_index 1 i)))"
    and "e \<equiv> swap_index 16 (swap_index 8 (swap_index 4 (swap_index 2 (swap_index 1 i))))"
  shows "a < 64 \<and> b < 64 \<and> c < 64 \<and> d < 64 \<and> e < 64 \<and> swap_index 32 e = 63 - i"
proof -
  have a: "a < 64 \<and> mirror_index 64 2 a = 63 - i"
    using swap_mirror_step [OF assms(1) mirror_ends(1), of 32]
    unfolding a_def  by simp
  have b: "b < 64 \<and> mirror_index 64 4 b = 63 - i"
    using swap_mirror_step [OF conjunct1 [OF a] conjunct2 [OF a], of 16]
    unfolding b_def a_def by simp
  have c: "c < 64 \<and> mirror_index 64 8 c = 63 - i"
    using swap_mirror_step [OF conjunct1 [OF b] conjunct2 [OF b], of 8]
    unfolding c_def b_def by simp
  have d: "d < 64 \<and> mirror_index 64 16 d = 63 - i"
    using swap_mirror_step [OF conjunct1 [OF c] conjunct2 [OF c], of 4]
    unfolding d_def c_def by simp
  have e: "e < 64 \<and> mirror_index 64 32 e = 63 - i"
    using swap_mirror_step [OF conjunct1 [OF d] conjunct2 [OF d], of 2]
    unfolding e_def d_def by simp
  have top: "swap_index 32 e < 64 \<and> mirror_index 64 64 (swap_index 32 e) = 63 - i"
    using swap_mirror_step [OF conjunct1 [OF e] conjunct2 [OF e], of 1] by simp
  have "swap_index 32 e = 63 - i"
    using conjunct2 [OF top] unfolding mirror_ends(2) [OF conjunct1 [OF top]] .
  with a b c d e show ?thesis by blast
qed

lemma swap_indices32:
  assumes "i < 32"
  defines "a \<equiv> swap_index 1 i" and "b \<equiv> swap_index 2 (swap_index 1 i)"
    and "c \<equiv> swap_index 4 (swap_index 2 (swap_index 1 i))"
    and "d \<equiv> swap_index 8 (swap_index 4 (swap_index 2 (swap_index 1 i)))"
  shows "a < 32 \<and> b < 32 \<and> c < 32 \<and> d < 32 \<and> swap_index 16 d = 31 - i"
proof -
  have a: "a < 32 \<and> mirror_index 32 2 a = 31 - i"
    using swap_mirror_step [OF assms(1) mirror_ends(3), of 16]
    unfolding a_def  by simp
  have b: "b < 32 \<and> mirror_index 32 4 b = 31 - i"
    using swap_mirror_step [OF conjunct1 [OF a] conjunct2 [OF a], of 8]
    unfolding b_def a_def by simp
  have c: "c < 32 \<and> mirror_index 32 8 c = 31 - i"
    using swap_mirror_step [OF conjunct1 [OF b] conjunct2 [OF b], of 4]
    unfolding c_def b_def by simp
  have d: "d < 32 \<and> mirror_index 32 16 d = 31 - i"
    using swap_mirror_step [OF conjunct1 [OF c] conjunct2 [OF c], of 2]
    unfolding d_def c_def by simp
  have top: "swap_index 16 d < 32 \<and> mirror_index 32 32 (swap_index 16 d) = 31 - i"
    using swap_mirror_step [OF conjunct1 [OF d] conjunct2 [OF d], of 1] by simp
  have "swap_index 16 d = 31 - i"
    using conjunct2 [OF top] unfolding mirror_ends(4) [OF conjunct1 [OF top]] .
  with a b c d show ?thesis by blast
qed

lemma bit_swap_groups:
  "group_mask k m \<Longrightarrow> 0 < k \<Longrightarrow> i < 64 \<Longrightarrow> bit (swap_groups k m x) i \<longleftrightarrow> bit x (swap_index k i)"
  unfolding swap_groups_def by (rule bit_swap_word) simp_all

lemma bit_swap_groups32:
  "group_mask k m \<Longrightarrow> 0 < k \<Longrightarrow> i < 32 \<Longrightarrow> bit (swap_groups32 k m x) i \<longleftrightarrow> bit x (swap_index k i)"
  unfolding swap_groups32_def by (rule bit_swap_word) simp_all

lemma bit_swap_top:
  "i < 64 \<Longrightarrow> bit (drop_bit 32 x OR push_bit 32 x) i \<longleftrightarrow> bit x (swap_index 32 i)" for x :: u64
proof -
  have bound: "bit x n \<Longrightarrow> n < 64" for n using bit_imp_le_length [of x n] by simp
  assume "i < 64"
  moreover have "i div 32 = 1" if "\<not> i < 32" using that \<open>i < 64\<close> by simp
  ultimately show ?thesis
    using bound [of "32 + i"] by (cases "i < 32") (auto simp: bit_simps swap_index_def add.commute)
qed

lemma bit_swap_top32:
  "i < 32 \<Longrightarrow> bit (drop_bit 16 x OR push_bit 16 x) i \<longleftrightarrow> bit x (swap_index 16 i)" for x :: u32
proof -
  have bound: "bit x n \<Longrightarrow> n < 32" for n using bit_imp_le_length [of x n] by simp
  assume "i < 32"
  moreover have "i div 16 = 1" if "\<not> i < 16" using that \<open>i < 32\<close> by simp
  ultimately show ?thesis
    using bound [of "16 + i"] by (cases "i < 16") (auto simp: bit_simps swap_index_def add.commute)
qed

lemma bit_bitreverse: "i < 64 \<Longrightarrow> bit (bitreverse x) i \<longleftrightarrow> bit x (63 - i)"
  using swap_indices [of i]
  by (simp only: bitreverse_def bswap64_def Let_def bit_swap_groups [OF group_masks(1)]
      bit_swap_groups [OF group_masks(2)] bit_swap_groups [OF group_masks(3)]
      bit_swap_groups [OF group_masks(4)] bit_swap_groups [OF group_masks(5)] bit_swap_top
      zero_less_numeral zero_less_one)

lemma bit_bitreverse_half: "i < 32 \<Longrightarrow> bit (bitreverse_half x) i \<longleftrightarrow> bit x (31 - i)"
  using swap_indices32 [of i]
  by (simp only: bitreverse_half_def Let_def bit_swap_groups32 [OF group_masks32(1)]
      bit_swap_groups32 [OF group_masks32(2)] bit_swap_groups32 [OF group_masks32(3)]
      bit_swap_groups32 [OF group_masks32(4)] bit_swap_top32 zero_less_numeral zero_less_one)

text \<open>
  Both code paths of the bit reversal, the 64-bit one in use and the 32-bit one, compute
  the mirror image of the word: bit \<open>i\<close> of the result is bit \<open>63 - i\<close> of the argument.
\<close>

lemma bitreverse_mirrors:
  "bitreverse_32bit x = bitreverse x \<and> (\<forall>i. bit (bitreverse x) i \<longleftrightarrow> i < 64 \<and> bit x (63 - i))"
proof
  have bound: "bit (bitreverse x) i \<Longrightarrow> i < 64" for i
    using bit_imp_le_length [of "bitreverse x" i] by simp
  then show "\<forall>i. bit (bitreverse x) i \<longleftrightarrow> i < 64 \<and> bit x (63 - i)"
    using bit_bitreverse by blast
  show "bitreverse_32bit x = bitreverse x"
  proof (rule bit_eqI)
    fix i
    assume "possible_bit TYPE(64 word) i"
    then have i: "i < 64" by simp
    have low: "bit (0xFFFFFFFF :: u64) j \<longleftrightarrow> j < 32" for j
    proof -
      have "(0xFFFFFFFF :: u64) = mask 32" by (simp add: mask_eq_exp_minus_1)
      then show ?thesis by (simp only: bit_mask_iff) auto
    qed
    show "bit (bitreverse_32bit x) i \<longleftrightarrow> bit (bitreverse x) i"
    proof (cases "i < 32")
      case True
      then show ?thesis
        using i bit_bitreverse [OF i, of x] bit_bitreverse_half [of i]
        by (simp add: bitreverse_32bit_def Let_def bit_simps) linarith
    next
      case False
      then show ?thesis
        using i bit_bitreverse [OF i, of x] bit_bitreverse_half [of "i - 32"] low [of "63 - i"]
          bit_imp_le_length [of "bitreverse_half (ucast (drop_bit 32 x))" i]
        by (auto simp: bitreverse_32bit_def Let_def bit_simps low)
    qed
  qed
qed

subsection \<open>Scrambling is a permutation\<close>

lemma bit_top_reversed:
  assumes "lg \<le> 64"
  shows "bit (drop_bit (64 - lg) (bitreverse v)) i \<longleftrightarrow> i < lg \<and> bit v (lg - 1 - i)"
proof (cases "i < lg")
  case True
  then have "63 - (64 - lg + i) = lg - 1 - i" using assms by simp
  then show ?thesis using True assms bit_bitreverse [of "64 - lg + i" v] by (simp add: bit_simps)
next
  case False
  then show ?thesis
    using assms bit_imp_le_length [of "bitreverse v" "64 - lg + i"] by (auto simp: bit_simps)
qed

lemma top_reversed_bound:
  assumes "lg \<le> 64"
  shows "take_bit lg (drop_bit (64 - lg) (bitreverse v)) = drop_bit (64 - lg) (bitreverse v)"
  by (rule bit_eqI) (auto simp: bit_take_bit_iff bit_top_reversed [OF assms])

lemma top_reversed_inj:
  assumes "lg \<le> 64" "drop_bit (64 - lg) (bitreverse v) = drop_bit (64 - lg) (bitreverse v')"
  shows "take_bit lg v = take_bit lg v'"
proof (rule bit_eqI)
  fix i
  show "bit (take_bit lg v) i \<longleftrightarrow> bit (take_bit lg v') i"
    using arg_cong [OF assms(2), of "\<lambda>x. bit x (lg - 1 - i)"]
    by (auto simp: bit_take_bit_iff bit_top_reversed [OF assms(1)])
qed

lemma len64: "LENGTH(64) = 64" by simp

lemma take_bit_mult_odd:
  fixes a b m :: u64
  assumes "odd m" "n \<le> 64" "take_bit n (a * m) = take_bit n (b * m)"
  shows "take_bit n a = take_bit n b"
proof -
  have "take_bit n (uint (a * m)) = take_bit n (uint (b * m))"
    using arg_cong [OF assms(3), of uint] by (simp only: unsigned_take_bit_eq)
  then have "uint a * uint m mod 2 ^ n = uint b * uint m mod 2 ^ n"
    by (simp only: uint_word_ariths take_bit_eq_mod len64 mod_mod_cancel [OF le_imp_power_dvd [OF assms(2)]])
  then have "2 ^ n dvd (uint a - uint b) * uint m"
    by (simp add: mod_eq_dvd_iff left_diff_distrib)
  moreover have "odd (uint m)"
    using assms(1) bit_uint_iff [of m 0] by (simp add: bit_0)
  then have "coprime (2 ^ n) (uint m)"
    by (simp add: coprime_power_left_iff)
  ultimately have "2 ^ n dvd uint a - uint b"
    by (simp add: coprime_dvd_mult_left_iff)
  then have "take_bit n (uint a) = take_bit n (uint b)"
    by (simp add: take_bit_eq_mod mod_eq_dvd_iff)
  then have "uint (take_bit n a) = uint (take_bit n b)"
    by (simp only: unsigned_take_bit_eq)
  then show ?thesis by (rule unsigned_word_eqI)
qed

definition scrambled :: "nat \<Rightarrow> u64 \<Rightarrow> u64 \<Rightarrow> int \<Rightarrow> u64" where
  "scrambled lgN val0 val1 w =
    drop_bit (64 - lgN) (bitreverse (drop_bit (64 - lgN) (bitreverse
      ((word_of_int w + (val0 + val1)) * (val0 OR 0x4519840211493211))) * (val1 OR 0x3050852102C843A5)))"

lemma drop_take: "take_bit n v = v \<Longrightarrow> drop_bit n v = 0" for v :: u64
  using drop_bit_take_bit [of n n v] by simp

lemma scramble_eq:
  assumes "0 < lgN" "lgN < 64"
  shows "scramble w lgN val0 val1 = Some (sint (scrambled lgN val0 val1 w))"
  using assms drop_take [OF top_reversed_bound [of lgN]]
  by (simp add: scramble_def scrambled_def assert_opt_def)

lemma sint_small:
  fixes v :: u64
  assumes "lgN < 64" "take_bit lgN v = v"
  shows "0 \<le> sint v \<and> sint v < 2 ^ lgN"
proof -
  have u: "uint v < 2 ^ lgN"
    by (metis assms(2) take_bit_int_less_exp unsigned_take_bit_eq)
  also have "(2::int) ^ lgN \<le> 2 ^ 63" using assms(1) by (intro power_increasing) simp_all
  finally have "sint v = uint v"
    using signed_take_bit_int_eq_self [of 63 "uint v"] uint_ge_0 [of v] by (simp add: sint_uint)
  with u show ?thesis by simp
qed

lemma scrambled_small: "lgN \<le> 64 \<Longrightarrow> take_bit lgN (scrambled lgN val0 val1 w) = scrambled lgN val0 val1 w"
  unfolding scrambled_def by (rule top_reversed_bound)

lemma odd_factors: "odd (x OR 0x4519840211493211 :: u64)" "odd (x OR 0x3050852102C843A5 :: u64)"
  by (simp_all add: even_or_iff)

lemma take_bit_shift_inj:
  fixes a b c :: u64
  assumes "n \<le> 64" "take_bit n (a + c) = take_bit n (b + c)"
  shows "take_bit n a = take_bit n b"
proof -
  have "take_bit n (uint (a + c)) = take_bit n (uint (b + c))"
    using arg_cong [OF assms(2), of uint] by (simp only: unsigned_take_bit_eq)
  then have "(uint a + uint c) mod 2 ^ n = (uint b + uint c) mod 2 ^ n"
    by (simp only: uint_word_ariths take_bit_eq_mod len64 mod_mod_cancel [OF le_imp_power_dvd [OF assms(1)]])
  then have "take_bit n (uint a) = take_bit n (uint b)"
    by (simp add: take_bit_eq_mod mod_eq_dvd_iff)
  then show ?thesis by (simp only: word_uint_eq_iff unsigned_take_bit_eq)
qed

lemma scrambled_inj:
  assumes "lgN \<le> 64" "scrambled lgN val0 val1 w = scrambled lgN val0 val1 w'"
    "0 \<le> w" "w < 2 ^ lgN" "0 \<le> w'" "w' < 2 ^ lgN"
  shows "w = w'"
proof -
  let ?h = "\<lambda>v. drop_bit (64 - lgN) (bitreverse ((word_of_int v + (val0 + val1)) * (val0 OR 0x4519840211493211)))"
  have "take_bit lgN (?h w) = take_bit lgN (?h w')"
    using top_reversed_inj [OF assms(1) assms(2) [unfolded scrambled_def]]
    by (rule take_bit_mult_odd [OF odd_factors(2) assms(1)])
  then have "?h w = ?h w'" by (simp only: top_reversed_bound [OF assms(1)])
  then have "take_bit lgN (word_of_int w + (val0 + val1)) = take_bit lgN (word_of_int w' + (val0 + val1))"
    using take_bit_mult_odd [OF odd_factors(1) assms(1)] top_reversed_inj [OF assms(1)] by blast
  then have "take_bit lgN (word_of_int w :: u64) = take_bit lgN (word_of_int w')"
    by (rule take_bit_shift_inj [OF assms(1)])
  then have "take_bit lgN (take_bit 64 w) = take_bit lgN (take_bit 64 w')"
    by (simp only: word_uint_eq_iff unsigned_take_bit_eq uint_word_of_int_eq len64)
  then have "take_bit lgN w = take_bit lgN w'"
    using assms(1) by (simp add: min_def)
  with assms show ?thesis by (simp add: take_bit_int_eq_self)
qed

text \<open>
  C32: For a scale between 1 and 63, scrambling never fails an assertion, keeps vertex numbers
  within the scale, and maps different vertices to different vertices: it is a permutation.
\<close>

theorem scramble_permutes:
  assumes "0 < lgN" "lgN < 64" "0 \<le> w" "w < 2 ^ lgN"
  shows "\<exists>r. scramble w lgN val0 val1 = Some r \<and> 0 \<le> r \<and> r < 2 ^ lgN \<and>
    (\<forall>w' \<in> {0..<2 ^ lgN}. scramble w' lgN val0 val1 = Some r \<longrightarrow> w' = w)"
proof (rule exI [of _ "sint (scrambled lgN val0 val1 w)"], intro conjI ballI impI)
  let ?r = "sint (scrambled lgN val0 val1 w)"
  show "scramble w lgN val0 val1 = Some ?r" using assms by (simp add: scramble_eq)
  show "0 \<le> ?r" "?r < 2 ^ lgN"
    using sint_small [OF assms(2) scrambled_small] assms(2) by simp_all
  fix w'
  assume "w' \<in> {0..<2 ^ lgN}" "scramble w' lgN val0 val1 = Some ?r"
  then show "w' = w"
    using assms scrambled_inj [of lgN val0 val1 w' w] signed_word_eqI by (auto simp: scramble_eq)
qed

theorem scramble_permutes_witness:
  "\<exists>r. scramble 5 4 123456789 987654321 = Some r \<and> 0 \<le> r \<and> r < 2 ^ 4 \<and>
    (\<forall>w' \<in> {0..<2 ^ 4}. scramble w' 4 123456789 987654321 = Some r \<longrightarrow> w' = 5)"
  using scramble_permutes [of 4 5 123456789 987654321] by simp

subsection \<open>The quadrant choice returns\<close>

definition zero_state :: mrg_state where
  "zero_state = \<lparr>z1 = 0, z2 = 0, z3 = 0, z4 = 0, z5 = 0\<rparr>"

lemma small_combination:
  fixes m n k :: nat
  assumes "(of_nat (20 * m + 7 * n) :: residue_ring) = of_nat (2089600 * k)"
    "m < 3647" "n < 3647" "k < 3647"
  shows "m = 0 \<and> n = 0 \<and> k = 0"
proof -
  let ?r = "2089600 * k mod mprime"
  have "(of_nat ?r :: residue_ring) = of_nat (20 * m + 7 * n)"
    unfolding of_nat_mod_mprime by (rule assms(1) [symmetric])
  then have eq: "20 * m + 7 * n = ?r"
    using of_nat_residue_inj [of "20 * m + 7 * n" ?r] of_nat_residue_inj [of ?r "20 * m + 7 * n"]
      assms(2,3) by (cases "20 * m + 7 * n \<le> ?r") simp_all
  define q where "q = 2089600 * k div mprime"
  have split: "2089600 * k = mprime * q + (20 * m + 7 * n)"
    unfolding q_def eq by simp
  have "q \<le> 3"
  proof (rule ccontr)
    assume "\<not> q \<le> 3"
    then have "mprime * 4 \<le> mprime * q" by (intro mult_le_mono2) simp
    with split assms(4) show False by simp
  qed
  then consider "q = 0" | "q = 1" | "q = 2" | "q = 3" by linarith
  then have "q = 0 \<and> k = 0"
  proof cases
    case 1
    with split assms(2,3) show ?thesis by simp
  next
    case 2
    with split assms(2,3) have "1027 < k" "k < 1028" by simp_all
    then show ?thesis by simp
  next
    case 3
    with split assms(2,3) have "2055 < k" "k < 2056" by simp_all
    then show ?thesis by simp
  next
    case 4
    with split assms(2,3) have "3083 < k" "k < 3084" by simp_all
    then show ?thesis by simp
  qed
  with split show ?thesis by simp
qed

lemma mrg_orig_stepD:
  assumes "mrg_orig_step st = Some st'" "st_ok st"
  shows "st_ok st'" "residue (z1 st') = coef_x * residue (z1 st) + coef_y * residue (z5 st)"
    "z2 st' = z1 st" "z3 st' = z2 st" "z4 st' = z3 st" "z5 st' = z4 st"
  using mrg_orig_step_ok [OF assms(2)] assms(1)
  by (auto simp: st_res_def mrg_orig_step_def bind_eq_Some)

definition small :: "u64 \<Rightarrow> bool" where
  "small v \<longleftrightarrow> unat v < 3647"

lemma three_small:
  assumes "mrg_orig_step st = Some st'" "st_ok st" "small (z1 st)" "small (z5 st)" "small (z1 st')"
  shows "z5 st = 0"
proof -
  have xy: "20 * coef_x + 7 = 0" "20 * coef_y = 2089600"
    by (simp_all add: coef_x_def coef_y_def)
  have "20 * residue (z1 st') + 7 * residue (z1 st)
      = (20 * coef_x + 7) * residue (z1 st) + (20 * coef_y) * residue (z5 st)"
    unfolding mrg_orig_stepD(2) [OF assms(1,2)] by (simp add: algebra_simps)
  also have "\<dots> = 2089600 * residue (z5 st)" unfolding xy by simp
  finally have "(of_nat (20 * unat (z1 st') + 7 * unat (z1 st)) :: residue_ring) = of_nat (2089600 * unat (z5 st))"
    by (simp add: residue_def)
  then have "unat (z5 st) = 0"
    using small_combination assms(3-5) unfolding small_def by blast
  then show ?thesis by (simp add: unat_eq_0)
qed

lemma zero_backwards:
  assumes "mrg_orig_step st = Some zero_state" "st_ok st"
  shows "st = zero_state"
proof -
  have "coef_x * residue (z1 st) + coef_y * residue (z5 st) = 0" and z: "z1 st = 0" "z2 st = 0" "z3 st = 0" "z4 st = 0"
    using mrg_orig_stepD [OF assms] by (simp_all add: zero_state_def)
  then have "coef_y * residue (z5 st) = 0" by simp
  moreover have "1840344978 * coef_y = 1" by (simp add: coef_y_def)
  ultimately have "residue (z5 st) = 0"
    using mult.assoc [of 1840344978 coef_y "residue (z5 st)"] by simp
  then have "z5 st = 0" using residue_inj [of "z5 st" 0] assms(2) by (simp add: st_ok_def)
  with z show ?thesis by (cases st) (simp add: zero_state_def)
qed

lemma all_small_zero:
  assumes ok: "st_ok s0"
    and steps: "mrg_orig_step s0 = Some s1" "mrg_orig_step s1 = Some s2" "mrg_orig_step s2 = Some s3"
      "mrg_orig_step s3 = Some s4" "mrg_orig_step s4 = Some s5" "mrg_orig_step s5 = Some s6"
      "mrg_orig_step s6 = Some s7" "mrg_orig_step s7 = Some s8" "mrg_orig_step s8 = Some s9"
      "mrg_orig_step s9 = Some s10"
    and small: "list_all (\<lambda>s. small (z1 s)) [s1, s2, s3, s4, s5, s6, s7, s8, s9, s10]"
  shows "s0 = zero_state"
proof -
  note d = mrg_orig_stepD
  have ok1: "st_ok s1" by (rule d(1) [OF steps(1) ok])
  have ok2: "st_ok s2" by (rule d(1) [OF steps(2) ok1])
  have ok3: "st_ok s3" by (rule d(1) [OF steps(3) ok2])
  have ok4: "st_ok s4" by (rule d(1) [OF steps(4) ok3])
  have ok5: "st_ok s5" by (rule d(1) [OF steps(5) ok4])
  have ok6: "st_ok s6" by (rule d(1) [OF steps(6) ok5])
  have ok7: "st_ok s7" by (rule d(1) [OF steps(7) ok6])
  have ok8: "st_ok s8" by (rule d(1) [OF steps(8) ok7])
  have ok9: "st_ok s9" by (rule d(1) [OF steps(9) ok8])
  note shifts = d(3-6) [OF steps(1) ok] d(3-6) [OF steps(2) ok1] d(3-6) [OF steps(3) ok2]
    d(3-6) [OF steps(4) ok3] d(3-6) [OF steps(5) ok4] d(3-6) [OF steps(6) ok5]
    d(3-6) [OF steps(7) ok6] d(3-6) [OF steps(8) ok7] d(3-6) [OF steps(9) ok8]
  have "z5 s5 = 0" "z5 s6 = 0" "z5 s7 = 0" "z5 s8 = 0" "z5 s9 = 0"
    using three_small [OF steps(6) ok5] three_small [OF steps(7) ok6] three_small [OF steps(8) ok7]
      three_small [OF steps(9) ok8] three_small [OF steps(10) ok9] small by (simp_all add: shifts)
  then have "s5 = zero_state"
    by (cases s5) (simp add: zero_state_def shifts)
  then have "s4 = zero_state" using zero_backwards [OF _ ok4] steps(5) by simp
  then have "s3 = zero_state" using zero_backwards [OF _ ok3] steps(4) by simp
  then have "s2 = zero_state" using zero_backwards [OF _ ok2] steps(3) by simp
  then have "s1 = zero_state" using zero_backwards [OF _ ok1] steps(2) by simp
  then show ?thesis using zero_backwards [OF _ ok] steps(1) by simp
qed

lemma bernoulli_limit_eq: "bernoulli_limit = 3647"
  by (simp add: bernoulli_limit_def INITIATOR_DENOMINATOR_def)

lemma below_limit: "reduced v \<Longrightarrow> (ucast v :: u32) < bernoulli_limit \<longleftrightarrow> small v"
  by (simp add: bernoulli_limit_eq small_def reduced_def word_less_nat_alt unat_ucast_64_32)

lemma draw_unbiased_unfold:
  assumes "mrg_orig_step st = Some st'" "st_ok st"
  shows "draw_unbiased st =
    (if small (z1 st') then draw_unbiased st' else Some (Some (ucast (z1 st'), st')))"
  using assms mrg_orig_stepD(1) [OF assms]
  by (subst draw_unbiased.simps) (simp add: mrg_get_uint_orig_def below_limit st_ok_def)

lemma draw_unbiased_finds:
  assumes "st_ok st" "mrg_orig_steps (Suc n) st = Some s" "\<not> small (z1 s)"
  shows "\<exists>st'. draw_unbiased st = Some (Some (ucast (z1 st'), st')) \<and> st_ok st' \<and> \<not> small (z1 st')"
  using assms
proof (induction n arbitrary: st)
  case 0
  then have step: "mrg_orig_step st = Some s" by (simp add: bind_eq_Some)
  with 0 mrg_orig_stepD(1) [OF step] show ?case by (simp add: draw_unbiased_unfold)
next
  case (Suc n)
  then obtain st' where step: "mrg_orig_step st = Some st'" and rest: "mrg_orig_steps (Suc n) st' = Some s"
    by (auto simp: bind_eq_Some simp del: mrg_orig_steps.simps(2)) (auto simp: bind_eq_Some)
  note ok = mrg_orig_stepD(1) [OF step Suc.prems(1)]
  show ?case
  proof (cases "small (z1 st')")
    case True
    then show ?thesis using Suc.IH [OF ok rest Suc.prems(3)] by (simp add: draw_unbiased_unfold [OF step Suc.prems(1)])
  next
    case False
    then show ?thesis using ok by (simp add: draw_unbiased_unfold [OF step Suc.prems(1)])
  qed
qed

lemma draw_unbiased_returns:
  assumes "st_ok st" "st \<noteq> zero_state"
  shows "\<exists>st'. draw_unbiased st = Some (Some (ucast (z1 st'), st')) \<and> st_ok st' \<and> \<not> small (z1 st')"
proof -
  have ex: "\<exists>s. mrg_orig_steps n st = Some s" for n using mrg_orig_steps_ok [OF assms(1)] by blast
  obtain s where s: "mrg_orig_steps 10 st = Some s" using ex by blast
  then obtain s1 s2 s3 s4 s5 s6 s7 s8 s9 where steps:
    "mrg_orig_step st = Some s1" "mrg_orig_step s1 = Some s2" "mrg_orig_step s2 = Some s3"
    "mrg_orig_step s3 = Some s4" "mrg_orig_step s4 = Some s5" "mrg_orig_step s5 = Some s6"
    "mrg_orig_step s6 = Some s7" "mrg_orig_step s7 = Some s8" "mrg_orig_step s8 = Some s9"
    "mrg_orig_step s9 = Some s"
    by (auto simp: bind_eq_Some eval_nat_numeral)
  then have prefix: "mrg_orig_steps (Suc 0) st = Some s1" "mrg_orig_steps (Suc 1) st = Some s2"
    "mrg_orig_steps (Suc 2) st = Some s3" "mrg_orig_steps (Suc 3) st = Some s4"
    "mrg_orig_steps (Suc 4) st = Some s5" "mrg_orig_steps (Suc 5) st = Some s6"
    "mrg_orig_steps (Suc 6) st = Some s7" "mrg_orig_steps (Suc 7) st = Some s8"
    "mrg_orig_steps (Suc 8) st = Some s9" "mrg_orig_steps (Suc 9) st = Some s"
    by (simp_all add: eval_nat_numeral)
  have "\<exists>u n. mrg_orig_steps (Suc n) st = Some u \<and> \<not> small (z1 u)"
  proof (rule ccontr)
    assume "\<not> ?thesis"
    then have none: "mrg_orig_steps (Suc n) st = Some u \<Longrightarrow> small (z1 u)" for n u by blast
    show False
      using all_small_zero [OF assms(1) steps] assms(2) prefix [THEN none] by simp
  qed
  then show ?thesis using draw_unbiased_finds [OF assms(1)] by blast
qed

lemma draw_unbiased_zero: "draw_unbiased zero_state = None"
proof -
  have step: "mrg_orig_step zero_state = Some zero_state" by code_simp
  have zero: "(ucast (z1 zero_state) :: u32) < bernoulli_limit"
    by (simp add: bernoulli_limit_eq zero_state_def)
  have "st \<noteq> zero_state" if "draw_unbiased st = Some r" for st r
    using that
  proof (rule draw_unbiased.raw_induct [where P = "\<lambda>st r. st \<noteq> zero_state", rotated])
    fix draw :: "mrg_state \<Rightarrow> (u32 \<times> mrg_state) option option" and u y
    assume IH: "\<And>v r. draw v = Some r \<Longrightarrow> v \<noteq> zero_state"
      and body: "(case mrg_get_uint_orig u of None \<Rightarrow> Some None
        | Some (v, st') \<Rightarrow> (let val = ucast v :: u32 in
            if val < bernoulli_limit then draw st' else Some (Some (val, st')))) = Some y"
    show "u \<noteq> zero_state"
      using body IH [of zero_state] by (auto simp: mrg_get_uint_orig_def step zero)
  qed
  then show ?thesis by (cases "draw_unbiased zero_state") blast+
qed

lemma quadrant_bound: "quadrant_of v < 4"
  by (simp add: quadrant_of_def Let_def)

text \<open>
  C31: The quadrant choice returns on every valid generator state except the all-zero one, on
  which the rejection loop runs forever; it never fails an assertion, its result is a quadrant,
  and the state it leaves is valid and not all zero, so that it can be called again.
\<close>

theorem quadrant_choice_returns:
  assumes "st_ok st"
  shows "(if st = zero_state then generate_4way_bernoulli st = None
    else \<exists>q st'. generate_4way_bernoulli st = Some (Some (q, st')) \<and> q < 4 \<and> st_ok st' \<and>
      st' \<noteq> zero_state)"
proof (cases "st = zero_state")
  case True
  then show ?thesis by (simp add: generate_4way_bernoulli_def draw_unbiased_zero)
next
  case False
  then obtain st' where st': "draw_unbiased st = Some (Some (ucast (z1 st'), st'))" "st_ok st'" "\<not> small (z1 st')"
    using draw_unbiased_returns [OF assms] by blast
  then have "st' \<noteq> zero_state" by (auto simp: zero_state_def small_def)
  with st' False show ?thesis by (simp add: generate_4way_bernoulli_def quadrant_bound)
qed

theorem quadrant_choice_returns_witness:
  "\<exists>q st'. generate_4way_bernoulli \<lparr>z1 = 1, z2 = 2, z3 = 3, z4 = 4, z5 = 5\<rparr> = Some (Some (q, st')) \<and>
    q < 4 \<and> st_ok st' \<and> st' \<noteq> zero_state"
  using quadrant_choice_returns [of "\<lparr>z1 = 1, z2 = 2, z3 = 3, z4 = 4, z5 = 5\<rparr>"]
  by (simp add: st_ok_def reduced_def zero_state_def)

subsection \<open>The quadrant choice is unbiased\<close>

lemma card_mod_window:
  fixes d k a :: nat
  assumes "S \<subseteq> {..<d}"
  shows "card {n \<in> {a..<a + k * d}. n mod d \<in> S} = k * card S"
proof (induction k)
  case 0
  then show ?case by simp
next
  case (Suc k)
  let ?b = "a + k * d"
  have "{n \<in> {a..<a + Suc k * d}. n mod d \<in> S} =
      {n \<in> {a..<?b}. n mod d \<in> S} \<union> {n \<in> {?b..<?b + d}. n mod d \<in> S}"
    by auto
  moreover have "card {n \<in> {?b..<?b + d}. n mod d \<in> S} = card S"
  proof -
    have inj: "inj_on (\<lambda>n. n mod d) {?b..<?b + d}"
    proof (rule linorder_inj_onI)
      fix x y assume "x < y" "x \<in> {?b..<?b + d}" "y \<in> {?b..<?b + d}"
      then have "\<not> d dvd y - x" by (auto dest: dvd_imp_le)
      with \<open>x < y\<close> show "x mod d \<noteq> y mod d"
        using mod_eq_dvd_iff_nat [of x y d] by simp
    qed auto
    have "card ((\<lambda>n. n mod d) ` {?b..<?b + d}) = d" using card_image [OF inj] by simp
    moreover have "(\<lambda>n. n mod d) ` {?b..<?b + d} \<subseteq> {..<d}"
      by (cases "d = 0") auto
    ultimately have "(\<lambda>n. n mod d) ` {?b..<?b + d} = {..<d}"
      by (intro card_subset_eq) simp_all
    moreover have "(\<lambda>n. n mod d) ` {n \<in> W. n mod d \<in> S} = (\<lambda>n. n mod d) ` W \<inter> S" for W
      by blast
    ultimately have "(\<lambda>n. n mod d) ` {n \<in> {?b..<?b + d}. n mod d \<in> S} = S"
      using assms by (simp only: Int_absorb1)
    moreover have "inj_on (\<lambda>n. n mod d) {n \<in> {?b..<?b + d}. n mod d \<in> S}"
      using inj by (rule inj_on_subset) auto
    ultimately show ?thesis using card_image by fastforce
  qed
  moreover have "{n \<in> {a..<?b}. n mod d \<in> S} \<inter> {n \<in> {?b..<?b + d}. n mod d \<in> S} = {}" by auto
  ultimately show ?case using Suc.IH by (simp add: card_Un_disjoint)
qed

definition quadrant_nat :: "nat \<Rightarrow> nat" where
  "quadrant_nat r = (if r < 1900 then 1 else if r < 3800 then 2 else if r < 9500 then 0 else 3)"

lemma quadrant_of_unat: "quadrant_of v = quadrant_nat (unat v mod 10000)"
proof -
  let ?v = "v mod 10000"
  have v: "unat ?v = unat v mod 10000" by (simp add: unat_mod)
  have b: "unat (?v - 1900) = unat ?v - 1900" if "\<not> ?v < 1900"
    using that by (simp add: unat_sub word_le_nat_alt word_less_nat_alt)
  have c: "unat (?v - 1900 - 1900) = unat ?v - 3800" if "\<not> ?v < 1900" "\<not> ?v - 1900 < 1900"
    using that b by (simp add: unat_sub word_le_nat_alt word_less_nat_alt)
  show ?thesis
    unfolding quadrant_of_def quadrant_nat_def Let_def INITIATOR_DENOMINATOR_def
      INITIATOR_BC_NUMERATOR_def INITIATOR_A_NUMERATOR_def v [symmetric]
    using b c by (auto simp: word_less_nat_alt)
qed

text \<open>
  Among the values that the rejection loop accepts, each quadrant has exactly its share:
  the probabilities are 5700, 1900, 1900 and 500 in 10000, with no modulo bias.
\<close>

lemma quadrants_unbiased:
  "card {v :: u32. \<not> v < bernoulli_limit \<and> v < 0x7FFFFFFF \<and> quadrant_of v = q} =
    (if q = 0 then 5700 else if q = 1 \<or> q = 2 then 1900 else if q = 3 then 500 else 0) * 214748"
proof -
  let ?S = "{r. r < 10000 \<and> quadrant_nat r = q}"
  have "bij_betw unat {v :: u32. \<not> v < bernoulli_limit \<and> v < 0x7FFFFFFF \<and> quadrant_of v = q}
      {n \<in> {3647..<3647 + 214748 * 10000}. n mod 10000 \<in> ?S}" (is "bij_betw _ ?A ?B")
  proof (rule bij_betw_byWitness [where f' = of_nat])
    show "\<forall>v \<in> ?A. of_nat (unat v) = v" by simp
    show "\<forall>n \<in> ?B. unat (of_nat n :: u32) = n" by (auto simp: unat_of_nat_small)
    show "unat ` ?A \<subseteq> ?B"
      by (auto simp: quadrant_of_unat bernoulli_limit_eq word_less_nat_alt)
    show "of_nat ` ?B \<subseteq> ?A"
      by (auto simp: quadrant_of_unat bernoulli_limit_eq word_less_nat_alt unat_of_nat_small)
  qed
  then have "card ?A = 214748 * card ?S"
    using bij_betw_same_card card_mod_window [of ?S 10000 3647 214748] by fastforce
  moreover have "?S = (if q = 0 then {3800..<9500} else if q = 1 then {..<1900} else if q = 2 then {1900..<3800}
      else if q = 3 then {9500..<10000} else {})"
    by (auto simp: quadrant_nat_def)
  ultimately show ?thesis by simp
qed

subsection \<open>Edges\<close>

lemma quadrant_choice_ok:
  assumes "st_ok st" "st \<noteq> zero_state"
  shows "\<exists>q st'. generate_4way_bernoulli st = Some (Some (q, st')) \<and> q < 4 \<and> st_ok st' \<and> st' \<noteq> zero_state"
proof -
  obtain st' where st': "draw_unbiased st = Some (Some (ucast (z1 st'), st'))" "st_ok st'" "\<not> small (z1 st')"
    using draw_unbiased_returns [OF assms] by blast
  then have "st' \<noteq> zero_state" by (auto simp: zero_state_def small_def)
  with st' show ?thesis by (simp add: generate_4way_bernoulli_def quadrant_bound)
qed

text \<open>One level of the recursion halves the square; offsets keep the source at most the target.\<close>

lemma one_edge_loop_ok:
  assumes "st_ok st" "st \<noteq> zero_state" "0 \<le> a" "a \<le> b"
  shows "\<exists>src tgt st'. one_edge_loop (2 ^ l) (2 ^ l * a) (2 ^ l * b) st = Some (Some (src, tgt, st')) \<and>
    src \<le> tgt \<and> 2 ^ l * a \<le> src \<and> tgt < 2 ^ l * (b + 1)"
  using assms
proof (induction l arbitrary: a b st)
  case 0
  then show ?case by (subst one_edge_loop.simps) simp
next
  case (Suc l)
  obtain q st' where q: "generate_4way_bernoulli st = Some (Some (q, st'))" "q < 4" "st_ok st'" "st' \<noteq> zero_state"
    using quadrant_choice_ok [OF Suc.prems(1,2)] by blast
  define swap where "swap \<longleftrightarrow> a = b \<and> q div 2 > q mod 2"
  define s t where "s = (if swap then q mod 2 else q div 2)" and "t = (if swap then q div 2 else q mod 2)"
  have st: "s \<le> 1" "t \<le> 1" using q(2) unfolding s_def t_def by auto
  have ord: "2 * a + int s \<le> 2 * b + int t"
    using Suc.prems(4) st unfolding s_def t_def swap_def by (cases "a = b") auto
  have unfold: "one_edge_loop (2 ^ Suc l) (2 ^ Suc l * a) (2 ^ Suc l * b) st =
      one_edge_loop (2 ^ l) (2 ^ l * (2 * a + int s)) (2 ^ l * (2 * b + int t)) st'"
    using q(1) Suc.prems(4) one_less_power [of "2 :: int" "Suc l"]
    by (subst one_edge_loop.simps)
       (simp add: swap_def s_def t_def Let_def case_prod_unfold algebra_simps del: of_nat_mod of_nat_div)
  obtain src tgt st2 where res: "one_edge_loop (2 ^ l) (2 ^ l * (2 * a + int s)) (2 ^ l * (2 * b + int t)) st' =
      Some (Some (src, tgt, st2))" "src \<le> tgt" "2 ^ l * (2 * a + int s) \<le> src" "tgt < 2 ^ l * (2 * b + int t + 1)"
    using Suc.IH [OF q(3,4) _ ord] Suc.prems(3) by auto
  have "2 ^ Suc l * a \<le> 2 ^ l * (2 * a + int s)" by (simp add: algebra_simps)
  with res(3) have "2 ^ Suc l * a \<le> src" by (rule order_trans [rotated])
  moreover have "2 ^ l * (2 * b + int t + 1) \<le> 2 ^ l * (2 * (b + 1))"
    using st(2) by (intro mult_left_mono) simp_all
  with res(4) have "tgt < 2 ^ l * (2 * (b + 1))" by (rule less_le_trans)
  then have "tgt < 2 ^ Suc l * (b + 1)" by (simp add: algebra_simps)
  ultimately show ?case using res(1,2) unfolding unfold by blast
qed

definition edge_in_range :: "nat \<Rightarrow> packed_edge \<Rightarrow> bool" where
  "edge_in_range lgN e \<longleftrightarrow> 0 \<le> get_v0_from_edge e \<and> get_v0_from_edge e < 2 ^ lgN \<and>
    0 \<le> get_v1_from_edge e \<and> get_v1_from_edge e < 2 ^ lgN"

lemma make_one_edge_ok:
  assumes "st_ok st" "st \<noteq> zero_state" "0 < lgN" "lgN < 64"
  shows "\<exists>e. make_one_edge (2 ^ lgN) lgN st val0 val1 = Some (Some e) \<and> edge_in_range lgN e"
proof -
  obtain src tgt st' where "one_edge_loop (2 ^ lgN) 0 0 st = Some (Some (src, tgt, st'))"
    using one_edge_loop_ok [OF assms(1,2), of 0 0 lgN] by auto
  then show ?thesis
    using assms(3,4) sint_small [OF assms(4) scrambled_small]
    by (simp add: make_one_edge_def scramble_eq edge_in_range_def write_edge_def
        get_v0_from_edge_def get_v1_from_edge_def)
qed

subsection \<open>Ranges of edges\<close>

lemma mrg_orig_steps_nonzero:
  "mrg_orig_steps n st = Some s \<Longrightarrow> st_ok st \<Longrightarrow> st \<noteq> zero_state \<Longrightarrow> st_ok s \<and> s \<noteq> zero_state"
proof (induction n arbitrary: st)
  case (Suc n)
  then obtain st' where "mrg_orig_step st = Some st'" "mrg_orig_steps n st' = Some s"
    by (auto simp: bind_eq_Some)
  with Suc show ?case using zero_backwards mrg_orig_stepD(1) by blast
qed simp

lemma mrg_skip_valid:
  assumes "table_ok tbl" "st_ok st" "st \<noteq> zero_state"
  shows "\<exists>s. mrg_skip tbl st hi mid lo = Some s \<and> st_ok s \<and> s \<noteq> zero_state"
  using mrg_skip_table_ok [OF assms(1,2)] mrg_orig_steps_ok [OF assms(2)] mrg_orig_steps_nonzero assms(2,3)
  by metis

lemma kronecker_edge_ok:
  assumes "table_ok tbl" "st_ok st" "st \<noteq> zero_state" "0 < logN" "logN < 64"
  shows "\<exists>e. kronecker_edge tbl st logN val0 val1 ei = Some (Some e) \<and> edge_in_range logN e"
  using mrg_skip_valid [OF assms(1-3), of 0 "word_of_int ei" 0] make_one_edge_ok [OF _ _ assms(4,5)]
  by (auto simp: kronecker_edge_def)

lemma kronecker_edges_ok:
  assumes "table_ok tbl" "st_ok st" "st \<noteq> zero_state" "0 < logN" "logN < 64"
  shows "\<exists>es. kronecker_edges tbl st logN val0 val1 ei n = Some (Some es) \<and> length es = n \<and>
    list_all (edge_in_range logN) es"
proof (induction n arbitrary: ei)
  case (Suc n)
  obtain e where "kronecker_edge tbl st logN val0 val1 ei = Some (Some e)" "edge_in_range logN e"
    using kronecker_edge_ok [OF assms] by blast
  with Suc [of "ei + 1"] show ?case by auto
qed simp

lemma kronecker_edges_append:
  assumes "table_ok tbl" "st_ok st" "st \<noteq> zero_state" "0 < logN" "logN < 64"
    "kronecker_edges tbl st logN val0 val1 ei m = Some (Some es)"
    "kronecker_edges tbl st logN val0 val1 (ei + int m) n = Some (Some fs)"
  shows "kronecker_edges tbl st logN val0 val1 ei (m + n) = Some (Some (es @ fs))"
  using assms(6,7)
proof (induction m arbitrary: ei es)
  case (Suc m)
  obtain e where e: "kronecker_edge tbl st logN val0 val1 ei = Some (Some e)"
    using kronecker_edge_ok [OF assms(1-5)] by blast
  obtain es' where "kronecker_edges tbl st logN val0 val1 (ei + 1) m = Some (Some es')" "es = e # es'"
    using Suc.prems(1) e by auto
  with Suc.IH [of "ei + 1" es'] Suc.prems(2) e show ?case by (simp add: algebra_simps)
qed simp

lemma seed_part:
  fixes x :: u64
  defines "c \<equiv> ucast ((ucast (x AND 0x3FFFFFFF) :: u32) + 1) :: u64"
  shows "reduced c" "c \<noteq> 0"
proof -
  have "(0x3FFFFFFF :: u64) = mask 30" by (simp add: mask_eq_exp_minus_1)
  then have "unat (x AND 0x3FFFFFFF) < 2 ^ 30"
    by (simp only: take_bit_eq_mask [symmetric] unat_take_bit) simp
  then have small: "unat (ucast (x AND 0x3FFFFFFF) :: u32) < 2 ^ 30"
    by (simp add: unat_ucast_64_32)
  then have "unat c = unat (ucast (x AND 0x3FFFFFFF) :: u32) + 1"
    using unat_add_no_wrap [of "ucast (x AND 0x3FFFFFFF) :: u32" 1] by (simp add: c_def unat_ucast_32_64)
  with small show "reduced c" "c \<noteq> 0" by (auto simp: reduced_def)
qed

lemma unat_drop60: "unat (drop_bit 60 x) < 16" for x :: u64
  using unsigned_less [of x, where 'a = nat] by (simp add: drop_bit_eq_div unat_div less_mult_imp_div_less)

lemma seed_last:
  "reduced (ucast ((ucast (push_bit 4 (drop_bit 60 y)) :: u32) + ucast (drop_bit 60 x) + 1))"
  for x y :: u64
proof -
  have p: "unat (push_bit 4 (drop_bit 60 y)) = unat (drop_bit 60 y) * 16"
    using unat_drop60 [of y] unat_mult_no_wrap [of "drop_bit 60 y" 16] by (simp add: push_bit_eq_mult)
  let ?a = "ucast (push_bit 4 (drop_bit 60 y)) :: u32" and ?b = "ucast (drop_bit 60 x) :: u32"
  have a: "unat ?a < 256" "unat ?b < 16"
    using unat_drop60 [of x] unat_drop60 [of y] by (simp_all add: unat_ucast_64_32 p)
  then have "unat (?a + ?b) = unat ?a + unat ?b" by (intro unat_add_no_wrap) simp
  moreover with a have "unat (?a + ?b + 1) = unat (?a + ?b) + 1"
    using unat_add_no_wrap [of "?a + ?b" 1] by simp
  ultimately show ?thesis using a by (simp add: reduced_def unat_ucast_32_64)
qed

lemma make_mrg_seed_valid:
  "\<exists>st. mrg_seed (make_mrg_seed s1 s2) = Some st \<and> st_ok st \<and> st \<noteq> zero_state"
  using seed_part(2) [of s1]
  by (simp add: mrg_seed_def make_mrg_seed_def st_ok_def seed_part seed_last zero_state_def)

lemma scramble_values_ok:
  assumes "table_ok tbl" "st_ok st"
  shows "\<exists>v. scramble_values tbl st = Some v"
proof -
  have draw: "\<exists>v s'. mrg_get_uint_orig s = Some (v, s') \<and> st_ok s'" if "st_ok s" for s
    using mrg_orig_step_ok [OF that] by (auto simp: mrg_get_uint_orig_def)
  obtain s where "mrg_skip tbl st 50 7 0 = Some s" "st_ok s"
    using mrg_skip_table_ok [OF assms] mrg_orig_steps_ok [OF assms(2)] by metis
  moreover then obtain a s1 where "mrg_get_uint_orig s = Some (a, s1)" "st_ok s1" using draw by blast
  moreover then obtain b s2 where "mrg_get_uint_orig s1 = Some (b, s2)" "st_ok s2" using draw by blast
  moreover then obtain c s3 where "mrg_get_uint_orig s2 = Some (c, s3)" "st_ok s3" using draw by blast
  moreover then obtain d s4 where "mrg_get_uint_orig s3 = Some (d, s4)" using draw by blast
  ultimately show ?thesis by (simp add: scramble_values_def)
qed

lemma kronecker_bounds_concat:
  fixes f :: "nat \<Rightarrow> int"
  assumes tbl: "table_ok tbl" and seed: "mrg_seed seed = Some st" "st_ok st" "st \<noteq> zero_state"
    and lg: "0 < logN" "logN < 64" and mono: "\<And>i. i < n \<Longrightarrow> f i \<le> f (Suc i)"
  shows "\<exists>parts. length parts = n \<and>
    (\<forall>r<n. generate_kronecker_range tbl seed logN (f r) (f (Suc r)) = Some (Some (parts ! r))) \<and>
    generate_kronecker_range tbl seed logN (f 0) (f n) = Some (Some (concat parts)) \<and>
    length (concat parts) = nat (f n - f 0) \<and> list_all (edge_in_range logN) (concat parts)"
  using mono
proof (induction n)
  case 0
  then show ?case
    using scramble_values_ok [OF tbl seed(2)] by (auto simp: generate_kronecker_range_def seed(1))
next
  case (Suc n)
  obtain val0 val1 where v: "scramble_values tbl st = Some (val0, val1)"
    using scramble_values_ok [OF tbl seed(2)] by auto
  note gen = generate_kronecker_range_def
  obtain parts where parts: "length parts = n"
      "\<And>r. r < n \<Longrightarrow> generate_kronecker_range tbl seed logN (f r) (f (Suc r)) = Some (Some (parts ! r))"
      "generate_kronecker_range tbl seed logN (f 0) (f n) = Some (Some (concat parts))"
      "length (concat parts) = nat (f n - f 0)" "list_all (edge_in_range logN) (concat parts)"
    using Suc by auto
  obtain es where es: "kronecker_edges tbl st logN val0 val1 (f n) (nat (f (Suc n) - f n)) = Some (Some es)"
      "length es = nat (f (Suc n) - f n)" "list_all (edge_in_range logN) es"
    using kronecker_edges_ok [OF tbl seed(2,3) lg] by blast
  have ge: "f 0 \<le> f n" using Suc.prems by (induction n) (auto intro: order_trans)
  have le: "f n \<le> f (Suc n)" using Suc.prems by simp
  have "generate_kronecker_range tbl seed logN (f 0) (f (Suc n)) = Some (Some (concat parts @ es))"
    using kronecker_edges_append [OF tbl seed(2,3) lg, of val0 val1 "f 0" "nat (f n - f 0)" "concat parts"
        "nat (f (Suc n) - f n)" es] parts(3) es(1) ge le
    by (simp add: gen seed(1) v flip: nat_add_distrib)
  moreover have "generate_kronecker_range tbl seed logN (f r) (f (Suc r)) = Some (Some ((parts @ [es]) ! r))"
    if "r < Suc n" for r
    using that parts(1,2) es(1) by (cases "r < n") (auto simp: nth_append gen seed(1) v less_Suc_eq)
  moreover have "length (concat parts @ es) = nat (f (Suc n) - f 0)"
    using parts(4) es(2) ge le by (simp flip: nat_add_distrib)
  ultimately show ?case using parts(1,5) es(3) by (intro exI [of _ "parts @ [es]"]) simp
qed

definition edge_bound :: "int \<Rightarrow> int \<Rightarrow> nat \<Rightarrow> int" where
  "edge_bound sizec M r = int r * (M div sizec) + min (int r) (M mod sizec)"

lemma compute_edge_range_bounds:
  "compute_edge_range (int r) sizec M = (edge_bound sizec M r, edge_bound sizec M (Suc r))"
  by (auto simp: compute_edge_range_def edge_bound_def min_def algebra_simps)

lemma edge_bound_ends:
  assumes "0 \<le> M" "0 < sizec"
  shows "edge_bound (int sizec) M 0 = 0" "edge_bound (int sizec) M sizec = M"
    "edge_bound (int sizec) M r \<le> edge_bound (int sizec) M (Suc r)"
proof -
  have "0 \<le> M mod int sizec" "M mod int sizec < int sizec" "0 \<le> M div int sizec"
    using assms by (simp_all add: pos_imp_zdiv_nonneg_iff)
  moreover have "int sizec * (M div int sizec) + M mod int sizec = M" by simp
  ultimately show "edge_bound (int sizec) M 0 = 0" "edge_bound (int sizec) M sizec = M"
    "edge_bound (int sizec) M r \<le> edge_bound (int sizec) M (Suc r)"
    unfolding edge_bound_def by (simp_all add: min_def algebra_simps)
qed



end
