(* ===== verification/Statistics.thy ===== *)
theory Statistics
  imports Complex_Main CLoops "HOL-Library.Multiset"
begin

text \<open>
  The statistics that Graph500 prints (\<open>statistics\<close> of \<open>graph500.c\<close>), with real numbers for doubles.
  The sort of the C library is an insertion sort with the comparison of the source; the array has
  exactly the elements that are passed, so that reading past them is \<^const>\<open>None\<close>.
\<close>

subsection \<open>Definitions\<close>

definition dcmp :: "real \<Rightarrow> real \<Rightarrow> int" where
  "dcmp da db = (if da > db then 1 else if db > da then -1 else 0)"

fun insert_cmp :: "('a \<Rightarrow> 'a \<Rightarrow> int) \<Rightarrow> 'a \<Rightarrow> 'a list \<Rightarrow> 'a list" where
  "insert_cmp cmp x [] = [x]"
| "insert_cmp cmp x (y # ys) = (if cmp x y \<le> 0 then x # y # ys else y # insert_cmp cmp x ys)"

definition qsort :: "('a \<Rightarrow> 'a \<Rightarrow> int) \<Rightarrow> 'a list \<Rightarrow> 'a list" where
  "qsort cmp xs = foldr (insert_cmp cmp) xs []"

definition recip :: "real \<Rightarrow> real" where
  "recip x = (if x \<noteq> 0 then 1 / x else 0)"

text \<open>The element at a fractional index, or a weighted mean of its two neighbours.\<close>

definition at_index :: "real list \<Rightarrow> real \<Rightarrow> real \<Rightarrow> real \<Rightarrow> real option" where
  "at_index data t w w' = do {
     let k = \<lfloor>t\<rfloor>;
     if t = of_int k then rd data k
     else do {
       a \<leftarrow> rd data k;
       b \<leftarrow> rd data (k + 1);
       Some (w * (a / 4) + w' * (b / 4))
     }
   }"

definition sum_down :: "real list \<Rightarrow> (real \<Rightarrow> real) \<Rightarrow> int \<Rightarrow> real option" where
  "sum_down data f n = do {
     x \<leftarrow> rd data (n - 1);
     for_each (\<lambda>k s. do { x \<leftarrow> rd data (k - 1); Some (s + f x) }) (rev [1..n - 1]) (f x)
   }"

definition sum_up :: "real list \<Rightarrow> (real \<Rightarrow> real) \<Rightarrow> int \<Rightarrow> real option" where
  "sum_up data f n = do {
     x \<leftarrow> rd data 0;
     for_up 1 n (\<lambda>k s. do { x \<leftarrow> rd data k; Some (s + f x) }) (f x)
   }"

definition statistics :: "real list \<Rightarrow> int \<Rightarrow> real list option" where
  "statistics data n = do {
     let data = qsort dcmp data;
     out0 \<leftarrow> rd data 0;
     out1 \<leftarrow> at_index data (of_int (n + 1) / 4) 3 1;
     out2 \<leftarrow> at_index data (of_int (n + 1) / 2) 2 2;
     out3 \<leftarrow> at_index data (3 * (of_int (n + 1) / 4)) 1 3;
     out4 \<leftarrow> rd data (n - 1);
     s \<leftarrow> sum_down data (\<lambda>x. x) n;
     let mean = s / of_int n;
     let out5 = mean;
     s \<leftarrow> sum_down data (\<lambda>x. (x - mean) * (x - mean)) n;
     let out6 = sqrt (s / of_int (n - 1));
     s \<leftarrow> sum_up data recip n;
     let out7 = of_int n / s;
     let mean = s / of_int n;
     s \<leftarrow> sum_up data (\<lambda>x. (recip x - mean) * (recip x - mean)) n;
     let s = (sqrt s / of_int (n - 1)) * out7 * out7;
     let out8 = s;
     Some [out0, out1, out2, out3, out4, out5, out6, out7, out8]
   }"

subsection \<open>Sorting and sums\<close>

lemma insert_cmp_eq: "insert_cmp dcmp x ys = insort x ys"
  by (induction ys) (auto simp: dcmp_def)

lemma qsort_eq: "qsort dcmp xs = sort xs"
  by (simp add: qsort_def sort_key_def insert_cmp_eq cong: foldr_cong)

lemma sum_up_result:
  assumes "int (length data) = n" "0 < n"
  shows "sum_up data f n = Some (sum_list (map f data))"
proof -
  have "\<exists>s. for_up 1 n (\<lambda>k s. do { x \<leftarrow> rd data k; Some (s + f x) }) (f (data ! 0)) = Some s \<and> s = sum_list (map f (take (nat n) data))"
  proof (rule for_up_inv [where I = "\<lambda>k s. s = sum_list (map f (take (nat k) data))"])
    show "f (data ! 0) = sum_list (map f (take (nat 1) data))" using assms by (cases data) simp_all
    fix k s
    assume k: "1 \<le> k" "k < n" and s: "s = sum_list (map f (take (nat k) data))"
    have "nat (k + 1) = Suc (nat k)" "nat k < length data" using k assms(1) by auto
    then have "sum_list (map f (take (nat (k + 1)) data)) = s + f (data ! nat k)" using s by (simp add: take_Suc_conv_app_nth)
    then show "\<exists>s'. (rd data k \<bind> (\<lambda>x. Some (s + f x))) = Some s' \<and> s' = sum_list (map f (take (nat (k + 1)) data))"
      using k assms(1) by simp
  qed (use assms in simp)
  moreover have "take (nat n) data = data" using assms by simp
  ultimately show ?thesis using assms by (simp add: sum_up_def)
qed

lemma sum_down_result:
  assumes "int (length data) = n" "0 < n"
  shows "sum_down data f n = Some (sum_list (map f data))"
proof -
  let ?F = "\<lambda>k s. do { x \<leftarrow> rd data (k - 1); Some (s + f x) }"
  have down: "for_each ?F (rev [1..int m]) s = Some (s + sum_list (map f (take m data)))" if "m \<le> length data" for m s
    using that
  proof (induction m arbitrary: s)
    case (Suc m)
    have "[1..int (Suc m)] = [1..int m] @ [int (Suc m)]" using upto_rec2 [of 1 "int (Suc m)"] by simp
    then show ?case using Suc by (simp add: take_Suc_conv_app_nth)
  qed simp
  have n: "int (length data - 1) = n - 1" "nat (n - 1) = length data - 1" using assms by auto
  from down [of "length data - 1" "f (data ! (length data - 1))"]
  have "for_each ?F (rev [1..n - 1]) (f (data ! nat (n - 1))) = Some (f (data ! (length data - 1)) + sum_list (map f (take (length data - 1) data)))"
    unfolding n by simp
  moreover have "f (data ! (length data - 1)) + sum_list (map f (take (length data - 1) data)) = sum_list (map f data)"
    using assms by (cases data rule: rev_cases) simp_all
  ultimately show ?thesis using assms by (simp add: sum_down_def)
qed

lemma sum_list_sort: "sum_list (map f (sort xs)) = sum_list (map f xs)" for f :: "real \<Rightarrow> real"
  by (metis mset_map mset_sort sum_mset_sum_list)

subsection \<open>Quartiles\<close>

lemma rd_None: "int (length xs) \<le> i \<Longrightarrow> rd xs i = None"
  by (simp add: rd_def)

lemma at_index_result:
  assumes "sorted data" "0 \<le> t" "\<lceil>t\<rceil> < int (length data)" "0 \<le> w" "0 \<le> w'" "w + w' = 4"
  shows "\<exists>x. at_index data t w w' = Some x \<and> data ! nat \<lfloor>t\<rfloor> \<le> x \<and> x \<le> data ! nat \<lceil>t\<rceil>"
proof (cases "t = of_int \<lfloor>t\<rfloor>")
  case True
  then have "\<lceil>t\<rceil> = \<lfloor>t\<rfloor>" by (simp add: ceiling_altdef)
  then show ?thesis using True assms by (simp add: at_index_def Let_def)
next
  case False
  then have c: "\<lceil>t\<rceil> = \<lfloor>t\<rfloor> + 1" by (simp add: ceiling_altdef)
  have f: "0 \<le> \<lfloor>t\<rfloor>" using assms(2) by simp
  define a b where "a = data ! nat \<lfloor>t\<rfloor>" and "b = data ! nat (\<lfloor>t\<rfloor> + 1)"
  have ab: "a \<le> b" unfolding a_def b_def using assms(1,3) c f by (intro sorted_nth_mono) (auto simp: nat_less_iff)
  have "w' * a \<le> w' * b" "w * a \<le> w * b" using ab assms(4,5) by (simp_all add: mult_left_mono)
  moreover have "w * a + w' * a = 4 * a" "w * b + w' * b = 4 * b" by (simp_all add: assms(6) flip: distrib_right)
  moreover have "w * (a / 4) + w' * (b / 4) = (w * a + w' * b) / 4" by (simp add: add_divide_distrib)
  ultimately have "a \<le> w * (a / 4) + w' * (b / 4)" "w * (a / 4) + w' * (b / 4) \<le> b" by simp_all
  then show ?thesis using False assms(3) c f by (simp add: at_index_def Let_def a_def b_def)
qed

lemma at_index_None:
  assumes "int (length data) \<le> \<lceil>t\<rceil>"
  shows "at_index data t w w' = None"
  using assms by (cases "t = of_int \<lfloor>t\<rfloor>") (auto simp: at_index_def Let_def ceiling_altdef rd_None intro!: bind_eq_None_conv [THEN iffD2] split: bind_splits)

lemma sorted_ends:
  assumes "xs \<noteq> []"
  shows "sort xs ! 0 = Min (set xs)" "sort xs ! (length xs - 1) = Max (set (xs :: real list))"
proof -
  have ne: "sort xs \<noteq> []" using assms by (metis length_0_conv length_sort)
  have i: "\<exists>i < length xs. x = sort xs ! i" if "x \<in> set xs" for x
    using that by (metis in_set_conv_nth length_sort set_sort)
  show "sort xs ! 0 = Min (set xs)"
    by (rule sym, rule Min_eqI) (use i ne assms nth_mem [of 0 "sort xs"] in \<open>auto intro!: sorted_nth_mono dest!: i\<close>)
  show "sort xs ! (length xs - 1) = Max (set xs)"
    by (rule sym, rule Max_eqI) (use i ne assms nth_mem [of "length xs - 1" "sort xs"] in \<open>auto intro!: sorted_nth_mono dest!: i\<close>)
qed

lemma quartile_indices:
  assumes "7 \<le> n"
  shows "\<lceil>of_int (n + 1) / 4 :: real\<rceil> \<le> \<lfloor>of_int (n + 1) / 2 :: real\<rfloor>"
    "\<lceil>of_int (n + 1) / 2 :: real\<rceil> \<le> \<lfloor>3 * (of_int (n + 1) / 4) :: real\<rfloor>"
    "\<lceil>3 * (of_int (n + 1) / 4) :: real\<rceil> < n" "0 \<le> \<lfloor>of_int (n + 1) / 4 :: real\<rfloor>"
proof -
  define x :: real where "x = of_int (n + 1) / 4"
  have n: "of_int n = 4 * x - 1" "2 \<le> x" using assms by (simp_all add: x_def field_simps)
  have "\<lceil>x\<rceil> \<le> \<lfloor>2 * x\<rfloor>" "\<lceil>2 * x\<rceil> \<le> \<lfloor>3 * x\<rfloor>" using n(2) by linarith+
  moreover have "\<lceil>3 * x\<rceil> < n" using n by linarith
  moreover have "0 \<le> \<lfloor>x\<rfloor>" using n(2) by linarith
  moreover have "of_int (n + 1) / 2 = 2 * x" by (simp add: x_def)
  ultimately show "\<lceil>of_int (n + 1) / 4 :: real\<rceil> \<le> \<lfloor>of_int (n + 1) / 2 :: real\<rfloor>"
    "\<lceil>of_int (n + 1) / 2 :: real\<rceil> \<le> \<lfloor>3 * (of_int (n + 1) / 4) :: real\<rfloor>"
    "\<lceil>3 * (of_int (n + 1) / 4) :: real\<rceil> < n" "0 \<le> \<lfloor>of_int (n + 1) / 4 :: real\<rfloor>"
    by (simp_all add: x_def [symmetric])
qed

text \<open>The five order statistics of a sorted array.\<close>

lemma quartiles_ordered:
  assumes "sorted d" "int (length d) = n" "7 \<le> n"
  shows "\<exists>q1 q2 q3. at_index d (of_int (n + 1) / 4) 3 1 = Some q1 \<and> at_index d (of_int (n + 1) / 2) 2 2 = Some q2 \<and>
    at_index d (3 * (of_int (n + 1) / 4)) 1 3 = Some q3 \<and>
    d ! 0 \<le> q1 \<and> q1 \<le> q2 \<and> q2 \<le> q3 \<and> q3 \<le> d ! nat (n - 1)"
proof -
  define t1 t2 t3 :: real where "t1 = of_int (n + 1) / 4" and "t2 = of_int (n + 1) / 2" and "t3 = 3 * (of_int (n + 1) / 4)"
  note i = quartile_indices [OF assms(3), folded t1_def t2_def t3_def]
  have t: "0 \<le> t1" "0 \<le> t2" "0 \<le> t3" using assms(3) by (simp_all add: t1_def t2_def t3_def)
  have c: "\<lceil>t1\<rceil> < int (length d)" "\<lceil>t2\<rceil> < int (length d)" "\<lceil>t3\<rceil> < int (length d)" "\<lfloor>t2\<rfloor> < int (length d)" "\<lfloor>t3\<rfloor> < int (length d)" "\<lfloor>t1\<rfloor> < int (length d)"
    using i assms(2) ceiling_correct [of t2] by linarith+
  obtain q1 where q1: "at_index d t1 3 1 = Some q1" "d ! nat \<lfloor>t1\<rfloor> \<le> q1" "q1 \<le> d ! nat \<lceil>t1\<rceil>"
    using at_index_result [OF assms(1) t(1) c(1), of 3 1] by auto
  obtain q2 where q2: "at_index d t2 2 2 = Some q2" "d ! nat \<lfloor>t2\<rfloor> \<le> q2" "q2 \<le> d ! nat \<lceil>t2\<rceil>"
    using at_index_result [OF assms(1) t(2) c(2), of 2 2] by auto
  obtain q3 where q3: "at_index d t3 1 3 = Some q3" "d ! nat \<lfloor>t3\<rfloor> \<le> q3" "q3 \<le> d ! nat \<lceil>t3\<rceil>"
    using at_index_result [OF assms(1) t(3) c(3), of 1 3] by auto
  have mono: "d ! nat a \<le> d ! nat b" if "a \<le> b" "b < int (length d)" "0 \<le> b" for a b
    using that assms(1) by (intro sorted_nth_mono) auto
  have "d ! nat 0 \<le> d ! nat \<lfloor>t1\<rfloor>" "d ! nat \<lceil>t1\<rceil> \<le> d ! nat \<lfloor>t2\<rfloor>" "d ! nat \<lceil>t2\<rceil> \<le> d ! nat \<lfloor>t3\<rfloor>" "d ! nat \<lceil>t3\<rceil> \<le> d ! nat (n - 1)"
    by (rule mono; use i c t assms(2,3) in linarith)+
  then show ?thesis using q1 q2 q3 unfolding t1_def t2_def t3_def by auto
qed

definition mean_of :: "real list \<Rightarrow> real" where
  "mean_of xs = sum_list xs / of_int (int (length xs))"

lemma statistics_result:
  assumes "7 \<le> length data"
  shows "\<exists>q1 q2 q3 o8. statistics data (int (length data)) =
      Some [Min (set data), q1, q2, q3, Max (set data), mean_of data,
        sqrt (sum_list (map (\<lambda>x. (x - mean_of data) * (x - mean_of data)) data) / of_int (int (length data) - 1)),
        of_int (int (length data)) / sum_list (map recip data), o8] \<and>
    Min (set data) \<le> q1 \<and> q1 \<le> q2 \<and> q2 \<le> q3 \<and> q3 \<le> Max (set data)"
proof -
  let ?d = "sort data" and ?n = "int (length data)"
  have n: "int (length ?d) = ?n" "0 < ?n" "7 \<le> ?n" "data \<noteq> []" using assms by auto
  have e: "?d ! 0 = Min (set data)" "?d ! nat (?n - 1) = Max (set data)"
    using sorted_ends [OF n(4)] by (simp_all add: nat_diff_distrib')
  have r: "rd ?d 0 = Some (Min (set data))" "rd ?d (?n - 1) = Some (Max (set data))" using n e by simp_all
  obtain q1 q2 q3 where q: "at_index ?d (of_int (?n + 1) / 4) 3 1 = Some q1" "at_index ?d (of_int (?n + 1) / 2) 2 2 = Some q2"
      "at_index ?d (3 * (of_int (?n + 1) / 4)) 1 3 = Some q3" "?d ! 0 \<le> q1" "q1 \<le> q2" "q2 \<le> q3" "q3 \<le> ?d ! nat (?n - 1)"
    using quartiles_ordered [OF sorted_sort n(1,3)] by blast
  have m: "sum_list (map (\<lambda>x. x) data) / of_int ?n = mean_of data" by (simp add: mean_of_def)
  show ?thesis
    using q(4-7) unfolding e statistics_def Let_def qsort_eq sum_down_result [OF n(1,2)] sum_up_result [OF n(1,2)]
      sum_list_sort r q(1-3) Option.bind.bind_lunit m by blast
qed

lemma statistics_small:
  assumes "length data < 7"
  shows "statistics data (int (length data)) = None"
proof -
  define n where "n = int (length data)"
  have "n < 7" "0 \<le> n" using assms by (simp_all add: n_def)
  then have "n \<le> \<lceil>3 * (of_int (n + 1) / 4) :: real\<rceil>" by (simp add: le_ceiling_iff)
  then have "at_index (sort data) (3 * (of_int (n + 1) / 4)) 1 3 = None" by (intro at_index_None) (simp add: n_def)
  then show ?thesis unfolding statistics_def qsort_eq Let_def n_def by (auto split: bind_split)
qed


text \<open>The index of the median counts from one, but the array counts from zero.\<close>

lemma median_off_by_one: "at_index (map of_int [1..7]) (of_int (7 + 1) / 2) 2 2 = Some 5"
  by (simp add: at_index_def Let_def upto.simps rd_def)

end
