(* ===== verification/GraphMain.thy ===== *)
theory GraphMain
  imports Options Rmat Kronecker SeqCsr Statistics
begin

text \<open>
  The programs of Graph500 as a whole: the benchmark (\<open>main\<close> of \<open>graph500.c\<close>), which parses the
  options, makes or reads a graph, runs the searches and computes the statistics, and the generator
  of input files (\<open>make-edgelist.c\<close>).  The environment variables, the contents of input files, the
  measured times and the linked search implementation are arguments.
\<close>

subsection \<open>Definitions\<close>

text \<open>A product of two 64-bit integers, which wraps around.\<close>

definition mul64 :: "int \<Rightarrow> int \<Rightarrow> int" where
  "mul64 a b = sint (word_of_int (a * b) :: u64)"

definition seed_of :: "(int \<times> bool) option \<Rightarrow> int" where
  "seed_of SEED =
    (let seed = (case SEED of None \<Rightarrow> -1 | Some (v, errno) \<Rightarrow> if errno then -1 else v) in
     if seed < 0 then 0xDECAFBAD else seed)"

definition init_random :: "(int \<times> bool) option \<Rightarrow> (u64 \<times> mrg_state) option" where
  "init_random SEED = do {
     let userseed = word_of_int (seed_of SEED);
     st \<leftarrow> mrg_seed (make_mrg_seed_prng userseed);
     Some (userseed, st)
   }"

definition make_random_numbers :: "skip_table \<Rightarrow> int \<Rightarrow> u64 \<Rightarrow> u64 \<Rightarrow> int \<Rightarrow> rat list option" where
  "make_random_numbers tbl nvalues userseed1 userseed2 position = do {
     st \<leftarrow> mrg_seed (make_mrg_seed userseed1 userseed2);
     st \<leftarrow> mrg_skip tbl st 2 0 (2 * word_of_int position);
     (result, _) \<leftarrow> draw_doubles (nat nvalues) st;
     Some result
   }"

text \<open>\<open>args\<close> is \<^const>\<open>None\<close> when the program is called without arguments.\<close>

definition read_args :: "libc \<Rightarrow> bool \<Rightarrow> (char \<times> string) list option \<Rightarrow> (int + options) option" where
  "read_args lc env_VERBOSE args = (case args of
      None \<Rightarrow> Some (Inr default_options)
    | Some opts \<Rightarrow> get_options lc env_VERBOSE opts default_options)"

definition graph_size :: "options \<Rightarrow> (int \<times> int) option" where
  "graph_size o1 = do {
     assert_opt (opt_SCALE o1 < 63);
     let nvtx_scale = push_bit (nat (opt_SCALE o1)) 1;
     let desired_nedge = mul64 nvtx_scale (opt_edgefactor o1);
     assert_opt (desired_nedge \<ge> nvtx_scale);
     assert_opt (desired_nedge \<ge> opt_edgefactor o1);
     Some (nvtx_scale, desired_nedge)
   }"

text \<open>The memory of the edge list that R-MAT fills is \<open>raw\<close>.\<close>

definition generate ::
    "skip_table \<Rightarrow> allocator \<Rightarrow> (nat \<Rightarrow> packed_edge list option) \<Rightarrow> options \<Rightarrow> int \<Rightarrow> u64 \<Rightarrow> mrg_state \<Rightarrow>
     (packed_edge list \<times> mrg_state) option" where
  "generate tbl alloc raw o1 desired_nedge userseed st =
    (if use_RMAT o1 \<noteq> 0 then do {
       IJ \<leftarrow> raw (nat desired_nedge);
       rmat_edgelist tbl alloc (opt_SCALE o1) (opt_A o1) (opt_B o1) (opt_C o1) IJ st
     } else do {
       r \<leftarrow> make_graph tbl (nat (opt_SCALE o1)) desired_nedge userseed userseed;
       IJ \<leftarrow> r;
       Some (IJ, st)
     })"

definition output_results :: "int \<Rightarrow> real list \<Rightarrow> int list \<Rightarrow> (real list \<times> real list \<times> real list) option" where
  "output_results nbfs time nedge = do {
     assert_opt (0 \<le> nbfs \<and> nbfs \<le> int (length time) \<and> nbfs \<le> int (length nedge));
     let tm = take (nat nbfs) time;
     time_stats \<leftarrow> statistics tm nbfs;
     let tm = map of_int (take (nat nbfs) nedge);
     nedge_stats \<leftarrow> statistics tm nbfs;
     let tm = map2 (\<lambda>e t. of_int e / t) (take (nat nbfs) nedge) (take (nat nbfs) time);
     TEPS_stats \<leftarrow> statistics tm nbfs;
     Some (time_stats, nedge_stats, TEPS_stats)
   }"

record inputs =
  env_VERBOSE :: bool
  env_SEED :: "(int \<times> bool) option"
  env_SKIP_VALIDATION :: bool
  dumpfile :: "packed_edge list option"
  rootfile :: "int list option"
  times :: "real list"

definition graph500_main ::
    "(allocator \<Rightarrow> packed_edge list \<Rightarrow> (int + 'g) option) \<Rightarrow>
     (allocator \<Rightarrow> 'g \<Rightarrow> int list \<Rightarrow> int \<Rightarrow> (int \<times> int \<times> int list) option) \<Rightarrow>
     libc \<Rightarrow> skip_table \<Rightarrow> allocator \<Rightarrow> (nat \<Rightarrow> packed_edge list option) \<Rightarrow> inputs \<Rightarrow> (char \<times> string) list option \<Rightarrow>
     (int + packed_edge list \<times> bench \<times> real list \<times> real list \<times> real list) option" where
  "graph500_main create search lc tbl alloc raw inp args = do {
     r \<leftarrow> read_args lc (env_VERBOSE inp) args;
     case r of
       Inl code \<Rightarrow> Some (Inl code)
     | Inr o1 \<Rightarrow> do {
         (nvtx, desired_nedge) \<leftarrow> graph_size o1;
         (userseed, st) \<leftarrow> init_random (env_SEED inp);
         g \<leftarrow> (case dumpname o1 of
             None \<Rightarrow> map_option Inr (generate tbl alloc raw o1 desired_nedge userseed st)
           | Some _ \<Rightarrow> (case dumpfile inp of
               None \<Rightarrow> Some (Inl EXIT_FAILURE)
             | Some IJ \<Rightarrow> do { assert_opt (int (length IJ) = desired_nedge); Some (Inr (IJ, st)) }));
         case g of
           Inl code \<Rightarrow> Some (Inl code)
         | Inr (IJ, st) \<Rightarrow> do {
             r \<leftarrow> run_bfs create search alloc
               (case rootname o1 of None \<Rightarrow> None | Some _ \<Rightarrow> Some (rootfile inp))
               (env_SKIP_VALIDATION inp) IJ (bench_init nvtx (opt_NBFS o1) st);
             case r of
               Inl code \<Rightarrow> Some (Inl code)
             | Inr b \<Rightarrow> do {
                 stats \<leftarrow> output_results (NBFS b) (times inp) (bfs_nedge b);
                 Some (Inr (IJ, b, stats))
               }
           }
       }
   }"

subsection \<open>Seeds and sizes\<close>

lemma prng_seed_valid: "\<exists>st. mrg_seed (make_mrg_seed_prng u) = Some st \<and> st_ok st \<and> st \<noteq> zero_state"
proof -
  have m: "(0x3FFFFFFF :: u64) = mask 30" by (simp add: mask_eq_exp_minus_1)
  have low: "unat ((x AND 0x3FFFFFFF) + 1 :: u64) = unat (take_bit 30 x) + 1 \<and> unat (take_bit 30 x) < 2 ^ 30" for x
  proof -
    have "unat (take_bit 30 x) < 2 ^ 30" by (simp add: unat_take_bit)
    then show ?thesis unfolding m by (simp add: unat_add_no_wrap flip: take_bit_eq_mask)
  qed
  have top: "unat (drop_bit 60 u) < 16"
  proof -
    have "unat u < 2 ^ 64" using unsigned_less [of u] by simp
    moreover have "unat (drop_bit 60 u) = unat u div 2 ^ 60" using unat_drop_bit_eq [of 60 u] drop_bit_eq_div [of 60 "unat u"] by simp
    ultimately show ?thesis by simp
  qed
  have "unat (push_bit 4 (drop_bit 60 u) + drop_bit 60 u + 1) < mprime"
  proof -
    have p: "unat (push_bit 4 (drop_bit 60 u)) = 16 * unat (drop_bit 60 u)"
      using top by (simp add: push_bit_eq_mult unat_mult_no_wrap)
    then have "unat (push_bit 4 (drop_bit 60 u) + drop_bit 60 u) = 17 * unat (drop_bit 60 u)"
      using top by (simp add: unat_add_no_wrap)
    then have "unat (push_bit 4 (drop_bit 60 u) + drop_bit 60 u + 1) = 17 * unat (drop_bit 60 u) + 1"
      using top by (simp add: unat_add_no_wrap)
    then show ?thesis using top by simp
  qed
  moreover have "(x AND 0x3FFFFFFF) + 1 \<noteq> (0 :: u64)" for x using low [of x] by (metis add_is_0 one_neq_zero unat_0)
  ultimately show ?thesis using low [of u] low [of "drop_bit 30 u"]
    by (simp add: mrg_seed_def make_mrg_seed_prng_def st_ok_def reduced_def zero_state_def)
qed

lemma init_random_ok: "\<exists>u st. init_random s = Some (u, st) \<and> st_ok st"
  using prng_seed_valid [of "word_of_int (seed_of s)"] by (auto simp: init_random_def)

lemma sint_word64: "- (2 ^ 63) \<le> x \<Longrightarrow> x < 2 ^ 63 \<Longrightarrow> sint (word_of_int x :: u64) = x"
  using signed_take_bit_int_eq_self [of 63 x] by (simp add: sint_sbintrunc')

lemma mul64_small: "- (2 ^ 63) \<le> a * b \<Longrightarrow> a * b < 2 ^ 63 \<Longrightarrow> mul64 a b = a * b"
  unfolding mul64_def by (rule sint_word64)

lemma graph_size_ok:
  assumes "options_ok o1" "opt_SCALE o1 < 63" "2 ^ nat (opt_SCALE o1) * opt_edgefactor o1 < 2 ^ 63"
  shows "graph_size o1 = Some (2 ^ nat (opt_SCALE o1), 2 ^ nat (opt_SCALE o1) * opt_edgefactor o1)"
proof -
  have p: "0 < opt_edgefactor o1" "(1 :: int) \<le> 2 ^ nat (opt_SCALE o1)" using assms(1) by (simp_all add: options_ok_def)
  have "mul64 (2 ^ nat (opt_SCALE o1)) (opt_edgefactor o1) = 2 ^ nat (opt_SCALE o1) * opt_edgefactor o1"
    using p assms(3) by (intro mul64_small) (auto intro: order_trans [of _ 0])
  then show ?thesis using assms(2) p by (simp add: graph_size_def Let_def push_bit_eq_mult)
qed

lemma read_args_ok: "read_args lc env args = Some (Inr o1) \<Longrightarrow> options_ok o1"
proof (cases args)
  case (Some opts)
  assume "read_args lc env args = Some (Inr o1)"
  then show ?thesis using get_options_result [OF default_options_ok, where lc = lc and env = env and opts = opts] Some
    by (simp add: read_args_def)
qed (use default_options_ok in \<open>simp add: read_args_def\<close>)

lemma statistics_defined: "int (length d) = n \<Longrightarrow> statistics d n = None \<longleftrightarrow> n < 7"
  using statistics_result [of d] statistics_small [of d] by (cases "7 \<le> length d") auto

lemma output_results_defined:
  assumes "0 \<le> n" "n \<le> int (length ts)" "n \<le> int (length ns)"
  shows "output_results n ts ns = None \<longleftrightarrow> n < 7"
proof -
  let ?d1 = "take (nat n) ts" and ?d2 = "map of_int (take (nat n) ns) :: real list"
    and ?d3 = "map2 (\<lambda>e t. of_int e / t) (take (nat n) ns) (take (nat n) ts)"
  have l: "int (length ?d1) = n" "int (length ?d2) = n" "int (length ?d3) = n" using assms by auto
  show ?thesis
    using assms statistics_defined [OF l(1)] statistics_defined [OF l(2)] statistics_defined [OF l(3)]
    by (auto simp: output_results_def Let_def bind_eq_None_conv)
qed

subsection \<open>Generation\<close>

lemma edges_within_mset: "mset IJ = mset IJ' \<Longrightarrow> edges_within n IJ \<longleftrightarrow> edges_within n IJ'"
  unfolding edges_within_def list_all_iff by (drule mset_eq_setD) simp

definition raw_law :: "(nat \<Rightarrow> packed_edge list option) \<Rightarrow> bool" where
  "raw_law raw \<longleftrightarrow> (\<forall>n. \<exists>xs. raw n = Some xs \<and> length xs = n)"

lemma generate_ok:
  assumes "table_ok tbl" "st_ok st" "alloc_law alloc" "\<forall>n. alloc n \<noteq> None" "raw_law raw"
    "options_ok o1" "opt_SCALE o1 < 63" "0 \<le> M"
  shows "\<exists>IJ st'. generate tbl alloc raw o1 M u st = Some (IJ, st') \<and> int (length IJ) = M \<and>
    edges_within (2 ^ nat (opt_SCALE o1)) IJ \<and> st_ok st'"
proof (cases "use_RMAT o1 \<noteq> 0")
  case True
  obtain xs where xs: "raw (nat M) = Some xs" "length xs = nat M" using assms(5) unfolding raw_law_def by blast
  have S: "1 \<le> opt_SCALE o1" "opt_SCALE o1 \<le> 62" using assms(6,7) by (auto simp: options_ok_def)
  obtain iwork where "alloc (nat (2 ^ nat (opt_SCALE o1))) = Some iwork" using assms(4) by blast
  from rmat_edgelist_result [OF assms(1,2) S assms(3) this, of "opt_A o1" "opt_B o1" "opt_C o1" xs]
  obtain d f IJ st' where r: "rmat_edgelist tbl alloc (opt_SCALE o1) (opt_A o1) (opt_B o1) (opt_C o1) xs st = Some (IJ, st')" "st_ok st'"
      "length d = length xs" "edges_within (2 ^ nat (opt_SCALE o1)) d" "bij_betw f {0..<2 ^ nat (opt_SCALE o1)} {0..<2 ^ nat (opt_SCALE o1)}"
      "mset IJ = mset (map (relabelled f) d)" by blast
  have "length IJ = length xs" using mset_eq_length [OF r(6)] r(3) by simp
  moreover have "edges_within (2 ^ nat (opt_SCALE o1)) IJ"
    using relabelled_within [OF r(5,4)] edges_within_mset [OF r(6)] by blast
  ultimately show ?thesis using True r(1,2) xs assms(8) by (simp add: generate_def)
next
  case False
  obtain s where s: "mrg_seed (make_mrg_seed u u) = Some s" "st_ok s" "s \<noteq> zero_state" using make_mrg_seed_valid by blast
  have lg: "0 < nat (opt_SCALE o1)" "nat (opt_SCALE o1) < 64" using assms(6,7) by (auto simp: options_ok_def)
  obtain IJ where "generate_kronecker_range tbl (make_mrg_seed u u) (nat (opt_SCALE o1)) 0 M = Some (Some IJ)"
      "length IJ = nat M" "list_all (edge_in_range (nat (opt_SCALE o1))) IJ"
    using kronecker_bounds_concat [OF assms(1) s lg, of 1 "\<lambda>i. if i = 0 then 0 else M"] assms(8) by auto
  then show ?thesis using False assms(2,8)
    by (auto simp: generate_def make_graph_def edges_within_def edge_in_range_def list_all_iff)
qed

subsection \<open>The benchmark\<close>

context bfs_backend
begin

lemma main_result:
  assumes tbl: "table_ok tbl" and al: "alloc_law alloc" "\<forall>n. alloc n \<noteq> None" "raw_law raw"
    and o1: "read_args lc (env_VERBOSE inp) args = Some (Inr o1)" "opt_SCALE o1 < 63"
      "2 ^ nat (opt_SCALE o1) * opt_edgefactor o1 < 2 ^ 63" "opt_NBFS o1 \<le> NBFS_max" "dumpname o1 = None" "rootname o1 = None"
    and inp: "\<not> env_SKIP_VALIDATION inp" "int (length (times inp)) = NBFS_max"
    and adm: "\<And>IJ. edges_within (2 ^ nat (opt_SCALE o1)) IJ \<Longrightarrow> admits IJ"
  shows "\<exists>IJ. int (length IJ) = 2 ^ nat (opt_SCALE o1) * opt_edgefactor o1 \<and> edges_within (2 ^ nat (opt_SCALE o1)) IJ \<and>
    (case graph500_main create make lc tbl alloc raw inp args of
       None \<Rightarrow> 0 < rank_adj IJ (2 ^ nat (opt_SCALE o1)) \<and> min (opt_NBFS o1) (rank_adj IJ (2 ^ nat (opt_SCALE o1))) < 7
     | Some (Inl code) \<Rightarrow> code = EXIT_FAILURE \<and> rank_adj IJ (2 ^ nat (opt_SCALE o1)) = 0
     | Some (Inr (IJ', b, _)) \<Rightarrow> IJ' = IJ \<and> 7 \<le> NBFS b \<and> NBFS b = min (opt_NBFS o1) (rank_adj IJ (2 ^ nat (opt_SCALE o1))) \<and>
         (\<forall>m. 0 \<le> m \<and> m < NBFS b \<longrightarrow> bfs_nedge b ! nat m = component_edges IJ (bfs_root b ! nat m)))"
proof -
  let ?n = "2 ^ nat (opt_SCALE o1) :: int" and ?M = "2 ^ nat (opt_SCALE o1) * opt_edgefactor o1"
  have ok: "options_ok o1" using o1(1) by (rule read_args_ok)
  note size = graph_size_ok [OF ok o1(2,3)]
  obtain u st where u: "init_random (env_SEED inp) = Some (u, st)" "st_ok st" using init_random_ok by blast
  have "0 \<le> ?M" using ok by (simp add: options_ok_def)
  from generate_ok [OF tbl u(2) al ok o1(2) this] obtain IJ st' where
    g: "generate tbl alloc raw o1 ?M u st = Some (IJ, st')" "int (length IJ) = ?M" "edges_within ?n IJ" "st_ok st'" by blast
  let ?b = "bench_init ?n (opt_NBFS o1) st'"
  have b: "bench_ok ?b" "nvtx_scale ?b = ?n" "NBFS ?b = opt_NBFS o1" "length (bfs_nedge ?b) = 64"
    using g(4) ok o1(4) by (simp_all add: bench_ok_def bench_init_def NBFS_max_def options_ok_def)
  have main: "graph500_main create make lc tbl alloc raw inp args =
      run_bfs create make alloc None False IJ ?b \<bind> (\<lambda>r. case r of
         Inl code \<Rightarrow> Some (Inl code)
       | Inr b \<Rightarrow> output_results (NBFS b) (times inp) (bfs_nedge b) \<bind> (\<lambda>stats. Some (Inr (IJ, b, stats))))"
    using o1(1,5,6) size u(1) g(1) inp(1) by (simp add: graph500_main_def)
  have "edges_within (nvtx_scale ?b) IJ" using g(3) b(2) by simp
  from run_bfs_result [OF al(1,2) adm [OF g(3)] this b(1)] show ?thesis
  proof (elim disjE conjE exE)
    assume "rank_adj IJ (nvtx_scale ?b) = 0" "run_bfs create make alloc None False IJ ?b = Some (Inl EXIT_FAILURE)"
    then show ?thesis using main g(2,3) b(2) by (intro exI [of _ IJ]) simp
  next
    fix b' ns
    assume r: "run_bfs create make alloc None False IJ ?b = Some (Inr (b'\<lparr>bfs_nedge := ns\<rparr>))" "roots_ok IJ ?b b'" "0 < NBFS b'"
      and l: "length ns = length (bfs_nedge ?b)"
      and c: "\<forall>m. 0 \<le> m \<and> m < NBFS b' \<longrightarrow> ns ! nat m = component_edges IJ (bfs_root b' ! nat m)"
    have n: "NBFS b' = min (opt_NBFS o1) (rank_adj IJ ?n)" using r(2) b(2,3) by (simp add: roots_ok_def)
    have out: "output_results (NBFS b') (times inp) ns = None \<longleftrightarrow> NBFS b' < 7"
      using n r(3) inp(2) o1(4) l b(4) by (intro output_results_defined) (auto simp: NBFS_max_def)
    have "0 < rank_adj IJ ?n" using r(3) n by simp
    show ?thesis
    proof (cases "NBFS b' < 7")
      case True
      then show ?thesis using out main g(2,3) r(1) n \<open>0 < rank_adj IJ ?n\<close> by (intro exI [of _ IJ]) simp
    next
      case False
      then obtain stats where "output_results (NBFS b') (times inp) ns = Some stats" using out by auto
      then have "graph500_main create make lc tbl alloc raw inp args = Some (Inr (IJ, b'\<lparr>bfs_nedge := ns\<rparr>, stats))"
        using main r(1) by simp
      moreover have "7 \<le> NBFS b'" using False by simp
      ultimately show ?thesis using g(2,3) n c by (intro exI [of _ IJ]) (simp add: case_prod_beta)
    qed
  qed
qed

end


definition sample_inputs :: inputs where
  "sample_inputs = \<lparr>env_VERBOSE = False, env_SEED = None, env_SKIP_VALIDATION = False, dumpfile = None,
     rootfile = None, times = replicate 64 1\<rparr>"

definition sample_libc :: libc where
  "sample_libc = \<lparr>strtol = (\<lambda>s. (if s = ''10'' then 10 else 16, False)), strtod = (\<lambda>s. (0, True)), strdup = Some\<rparr>"

definition sample_options :: options where
  "sample_options = default_options\<lparr>opt_SCALE := 10, use_RMAT := 1\<rparr>"

lemma sample_options_simps:
  "opt_SCALE sample_options = 10" "opt_edgefactor sample_options = 16" "opt_NBFS sample_options = 64"
  "dumpname sample_options = None" "rootname sample_options = None"
  by (simp_all add: sample_options_def default_options_def default_edgefactor_def NBFS_max_def)

lemma sample_args:
  "read_args sample_libc False (Some [(CHR ''s'', ''10''), (CHR ''R'', [])]) = Some (Inr sample_options)"
  by (simp add: read_args_def get_options_def start_parse_def handle_option_def set_positive_def fail_if_def sample_options_def
      sample_libc_def finish_options_def Let_def default_options_def options.extend_def options.truncate_def)


text \<open>
  The checks after the multiplication do not catch every overflow: here the product wraps around to
  the number of vertices.
\<close>

lemma overflow_not_caught:
  "graph_size (default_options\<lparr>opt_SCALE := 33, opt_edgefactor := 2 ^ 31 + 1\<rparr>) = Some (2 ^ 33, 2 ^ 33)"
  by (simp add: graph_size_def mul64_def Let_def)

end
