(* ===== verification/MakeEdgelist.thy ===== *)
theory MakeEdgelist
  imports GraphMain
begin

text \<open>
  The generator of input files (\<open>make-edgelist.c\<close>): it writes the edge list and search roots to
  files.  \<open>open_file\<close> and \<open>write\<close> are the system calls; a negative result is an error.
\<close>

subsection \<open>Definitions\<close>

definition write_all :: "(int \<Rightarrow> 'f \<Rightarrow> int \<Rightarrow> int \<times> 'f) \<Rightarrow> int \<Rightarrow> int \<Rightarrow> 'f \<Rightarrow> (int \<times> 'f) option" where
  "write_all write fd cnt f = do {
     (got, w, f) \<leftarrow> while_opt (\<lambda>(got, w, f). Some (0 \<le> w \<and> got < cnt))
       (\<lambda>(got, w, f).
          let (w, f) = write fd f (cnt - got) in
          Some (if w < 0 then got else got + w, w, f)) (0, 0, f);
     Some (if w < 0 then w else got, f)
   }"

definition sample_vertices :: "int list \<Rightarrow> bench \<Rightarrow> (int \<times> int \<times> bench) option" where
  "sample_vertices has_adj b = while_opt
     (\<lambda>(m, t, b). Some (m < NBFS b \<and> t < nvtx_scale b))
     (\<lambda>(m, t, b). do {
        (R, st) \<leftarrow> mrg_get_double_orig (prng_state b);
        h \<leftarrow> rd has_adj t;
        if h = 0 \<or> of_int (nvtx_scale b - t) * R > of_int (NBFS b - m)
        then Some (m, t + 1, b\<lparr>prng_state := st\<rparr>)
        else do {
          roots \<leftarrow> wr (bfs_root b) m t;
          Some (m + 1, t + 1, b\<lparr>prng_state := st, bfs_root := roots\<rparr>)
        }
      }) (0, 0, b)"

definition pick_roots :: "allocator \<Rightarrow> packed_edge list \<Rightarrow> bench \<Rightarrow> (int + bench) option" where
  "pick_roots alloc IJ b = do {
     has_adj \<leftarrow> find_adj alloc (nvtx_scale b) IJ;
     (m, t, b) \<leftarrow> sample_vertices has_adj b;
     if t \<ge> nvtx_scale b \<and> m < NBFS b then
       if m > 0 then Some (Inr (b\<lparr>NBFS := m\<rparr>)) else Some (Inl EXIT_FAILURE)
     else Some (Inr b)
   }"

text \<open>
  The roots are written whether or not a file for them has been named: the condition in the source
  compares the pointer to the name with zero.
\<close>

definition write_roots ::
    "(int \<Rightarrow> 'f \<Rightarrow> int \<Rightarrow> int \<times> 'f) \<Rightarrow> allocator \<Rightarrow> int \<Rightarrow> packed_edge list \<Rightarrow> bench \<Rightarrow> 'f \<Rightarrow> (int \<times> 'f) option" where
  "write_roots write alloc fd IJ b f = do {
     r \<leftarrow> pick_roots alloc IJ b;
     case r of
       Inl code \<Rightarrow> Some (code, f)
     | Inr b \<Rightarrow> do {
         (w, f) \<leftarrow> write_all write fd (NBFS b * 8) f;
         Some (if 0 > w then EXIT_FAILURE else 0, f)
       }
   }"

definition make_edgelist_main ::
    "(string \<Rightarrow> int) \<Rightarrow> (int \<Rightarrow> 'f \<Rightarrow> int \<Rightarrow> int \<times> 'f) \<Rightarrow> libc \<Rightarrow> skip_table \<Rightarrow> allocator \<Rightarrow>
     (nat \<Rightarrow> packed_edge list option) \<Rightarrow> inputs \<Rightarrow> (char \<times> string) list option \<Rightarrow> 'f \<Rightarrow> (int \<times> 'f) option" where
  "make_edgelist_main open_file write lc tbl alloc raw inp args f = do {
     r \<leftarrow> read_args lc (env_VERBOSE inp) args;
     case r of
       Inl code \<Rightarrow> Some (code, f)
     | Inr o1 \<Rightarrow> do {
         (nvtx, desired_nedge) \<leftarrow> graph_size o1;
         (userseed, st) \<leftarrow> init_random (env_SEED inp);
         (IJ, st) \<leftarrow> generate tbl alloc raw o1 desired_nedge userseed st;
         let fd = (case dumpname o1 of Some nm \<Rightarrow> open_file nm | None \<Rightarrow> 1);
         if fd < 0 then Some (EXIT_FAILURE, f)
         else do {
           (w, f) \<leftarrow> write_all write fd (int (length IJ) * 16) f;
           if 0 > w then Some (EXIT_FAILURE, f)
           else do {
             let fd = (case rootname o1 of Some nm \<Rightarrow> open_file nm | None \<Rightarrow> -1);
             write_roots write alloc fd IJ (bench_init nvtx (opt_NBFS o1) st) f
           }
         }
       }
   }"

subsection \<open>The roots\<close>

definition picked :: "packed_edge list \<Rightarrow> bench \<Rightarrow> int \<times> int \<times> bench \<Rightarrow> bool" where
  "picked IJ b = (\<lambda>(m, t, b'). 0 \<le> m \<and> m \<le> NBFS b \<and> 0 \<le> t \<and> t \<le> nvtx_scale b \<and>
     NBFS b' = NBFS b \<and> nvtx_scale b' = nvtx_scale b \<and> st_ok (prng_state b') \<and>
     length (bfs_root b') = length (bfs_root b) \<and>
     (\<forall>i. 0 \<le> i \<and> i < m \<longrightarrow> 0 \<le> bfs_root b' ! nat i \<and> bfs_root b' ! nat i < t \<and> touched IJ (bfs_root b' ! nat i)) \<and>
     (\<forall>i j. 0 \<le> i \<and> i < j \<and> j < m \<longrightarrow> bfs_root b' ! nat i < bfs_root b' ! nat j))"

lemma picked_extend:
  assumes "picked IJ b (m, t, b')" "touched IJ t" "m < NBFS b" "t < nvtx_scale b" "NBFS b \<le> int (length (bfs_root b))" "st_ok st"
  shows "picked IJ b (m + 1, t + 1, b'\<lparr>prng_state := st, bfs_root := (bfs_root b')[nat m := t]\<rparr>)"
proof -
  define r where "r = (bfs_root b')[nat m := t]"
  have m: "0 \<le> m" "m < int (length (bfs_root b'))" using assms by (auto simp: picked_def)
  have nth: "r ! nat i = (if i = m then t else bfs_root b' ! nat i)" if "0 \<le> i" for i
    using that m by (auto simp: r_def nth_list_update_int)
  have old: "0 \<le> bfs_root b' ! nat i \<and> bfs_root b' ! nat i < t \<and> touched IJ (bfs_root b' ! nat i)" if "0 \<le> i" "i < m" for i
    using assms(1) that by (simp add: picked_def)
  have inc: "bfs_root b' ! nat i < bfs_root b' ! nat j" if "0 \<le> i" "i < j" "j < m" for i j
    using assms(1) that by (simp add: picked_def)
  have "0 \<le> r ! nat i \<and> r ! nat i < t + 1 \<and> touched IJ (r ! nat i)" if "0 \<le> i" "i < m + 1" for i
    using old [of i] that assms(1,2) nth [OF that(1)] by (cases "i = m") (auto simp: picked_def)
  moreover have "r ! nat i < r ! nat j" if "0 \<le> i" "i < j" "j < m + 1" for i j
    using old [of i] inc [of i j] that nth [of i] nth [of j] by (cases "j = m") auto
  moreover have "length r = length (bfs_root b')" by (simp add: r_def)
  ultimately show ?thesis unfolding r_def [symmetric] using assms by (simp add: picked_def)
qed

lemma picked_skip:
  assumes "picked IJ b (m, t, b')" "t < nvtx_scale b" "st_ok st"
  shows "picked IJ b (m, t + 1, b'\<lparr>prng_state := st\<rparr>)"
  using assms by (fastforce simp: picked_def)

lemma sample_vertices_result:
  assumes h: "int (length h) = nvtx_scale b" "\<forall>v. 0 \<le> v \<and> v < nvtx_scale b \<longrightarrow> (h ! nat v \<noteq> 0 \<longleftrightarrow> touched IJ v)"
    and b: "bench_ok b"
  shows "\<exists>m t b'. sample_vertices h b = Some (m, t, b') \<and> picked IJ b (m, t, b') \<and> \<not> (m < NBFS b \<and> t < nvtx_scale b)"
proof -
  let ?c = "\<lambda>(m, t, b). Some (m < NBFS b \<and> t < nvtx_scale b)"
  have nb: "NBFS b \<le> int (length (bfs_root b))" using b by (simp add: bench_ok_def)
  have "\<exists>s. sample_vertices h b = Some s \<and> picked IJ b s \<and> ?c s = Some False"
    unfolding sample_vertices_def
  proof (rule while_opt_inv [where m = "\<lambda>(m, t, b'). nat (nvtx_scale b - t)"])
    show "picked IJ b (0, 0, b)" using b by (auto simp: picked_def bench_ok_def)
    fix s
    assume s: "picked IJ b s" "?c s = Some True"
    obtain m t b' where e: "s = (m, t, b')" by (cases s)
    have g: "m < NBFS b" "t < nvtx_scale b" "0 \<le> t" "0 \<le> m" "nvtx_scale b' = nvtx_scale b" "NBFS b' = NBFS b" "st_ok (prng_state b')"
        "length (bfs_root b') = length (bfs_root b)"
      using s e by (auto simp: picked_def)
    obtain R st where R: "mrg_get_double_orig (prng_state b') = Some (R, st)" "st_ok st" using mrg_get_double_ok [OF g(7)] by blast
    have ht: "rd h t = Some (h ! nat t)" "h ! nat t \<noteq> 0 \<longleftrightarrow> touched IJ t" using g h by auto
    have w: "wr (bfs_root b') m t = Some ((bfs_root b')[nat m := t])" using g nb by simp
    show "\<exists>s'. (case s of (m, t, b) \<Rightarrow> do {
        (R, st) \<leftarrow> mrg_get_double_orig (prng_state b);
        h \<leftarrow> rd h t;
        if h = 0 \<or> of_int (nvtx_scale b - t) * R > of_int (NBFS b - m)
        then Some (m, t + 1, b\<lparr>prng_state := st\<rparr>)
        else do {
          roots \<leftarrow> wr (bfs_root b) m t;
          Some (m + 1, t + 1, b\<lparr>prng_state := st, bfs_root := roots\<rparr>)
        }
      }) = Some s' \<and> picked IJ b s' \<and>
      (case s' of (m, t, b') \<Rightarrow> nat (nvtx_scale b - t)) < (case s of (m, t, b') \<Rightarrow> nat (nvtx_scale b - t))"
    proof (cases "h ! nat t = 0 \<or> of_int (nvtx_scale b - t) * R > of_int (NBFS b - m)")
      case True
      then show ?thesis using picked_skip [OF s(1) [unfolded e] g(2) R(2)] g(2)
        by (simp add: e R(1) ht(1) g(5,6))
    next
      case False
      then have "touched IJ t" using ht(2) by blast
      from picked_extend [OF s(1) [unfolded e] this g(1,2) nb R(2)] False g(2) show ?thesis
        by (simp add: e R(1) ht(1) g(5,6) w)
    qed
  qed (auto split: prod.splits)
  then show ?thesis unfolding split_paired_Ex by (auto simp: picked_def)
qed



text \<open>
  Without a file name for the roots, they are written to an invalid descriptor: the program never
  ends with success, even if the edge list has been written.
\<close>

lemma write_all_bad_descriptor:
  assumes "\<And>f n. fst (write fd f n) < 0" "0 < cnt"
  shows "\<exists>w f'. write_all write fd cnt f = Some (w, f') \<and> w < 0"
proof -
  obtain w f' where w: "write fd f cnt = (w, f')" by (cases "write fd f cnt")
  then have "w < 0" using assms(1) [of f cnt] by simp
  then show ?thesis using w assms(2) by (simp add: write_all_def while_opt_unfold)
qed

lemma no_root_file_fails:
  assumes "alloc_law alloc" "alloc (nat (nvtx_scale b)) = Some a" "bench_ok b" "edges_within (nvtx_scale b) IJ"
    "\<And>f n. fst (write (-1) f n) < 0"
  shows "\<exists>f'. write_roots write alloc (-1) IJ b f = Some (EXIT_FAILURE, f')"
proof -
  have n: "0 \<le> nvtx_scale b" "0 < NBFS b" using assms(3) by (simp_all add: bench_ok_def)
  obtain h where h: "find_adj alloc (nvtx_scale b) IJ = Some h" "int (length h) = nvtx_scale b"
      "\<forall>v. 0 \<le> v \<and> v < nvtx_scale b \<longrightarrow> (h ! nat v \<noteq> 0 \<longleftrightarrow> touched IJ v)"
    using find_adj_result [OF assms(1,2) n(1) assms(4)] by blast
  obtain m t b' where s: "sample_vertices h b = Some (m, t, b')" "picked IJ b (m, t, b')"
    using sample_vertices_result [OF h(2,3) assms(3)] by blast
  have "write_roots write alloc (-1) IJ b f = Some (EXIT_FAILURE, f) \<or>
      (\<exists>c > 0. write_roots write alloc (-1) IJ b f =
        do { (w, f) \<leftarrow> write_all write (-1) (c * 8) f; Some (if 0 > w then EXIT_FAILURE else 0, f) })"
    using h(1) s n(2) by (auto simp: write_roots_def pick_roots_def picked_def)
  then show ?thesis
  proof (elim disjE exE conjE)
    fix c :: int
    assume "0 < c" and run: "write_roots write alloc (-1) IJ b f =
        do { (w, f) \<leftarrow> write_all write (-1) (c * 8) f; Some (if 0 > w then EXIT_FAILURE else 0, f) }"
    then have "0 < c * 8" by simp
    from write_all_bad_descriptor [of "write" "-1", OF assms(5) this] obtain w f' where
      "write_all write (-1) (c * 8) f = Some (w, f')" "w < 0" by blast
    then show ?thesis using run by simp
  qed blast
qed

end
