(* ===== verification/Omp.thy ===== *)
theory Omp
  imports CLoops "HOL-Library.Multiset"
begin

text \<open>
  What the OpenMP programs of Graph500 use of OpenMP: a team of threads, work-sharing loops whose
  iterations are distributed to the threads in any way and run in any order, the code that every
  thread of the team runs, and the atomic operations.  An iteration, and the code of a thread between
  two barriers, are executed as a whole; in which order is up to the runtime, a parameter of the
  programs.  The contents of uninitialised arrays on the stack and the memory returned by \<open>malloc\<close> where
  the programs do not check it are part of the parameter.
\<close>

subsection \<open>The runtime\<close>

text \<open>
  A place in the program at which threads are started, with the contents of the main array at that
  time: the runtime may choose differently each time.
\<close>

type_synonym site = "string \<times> int list"

record omp =
  num_threads :: nat
  omp_schedule :: "site \<Rightarrow> int \<Rightarrow> int \<Rightarrow> (nat \<times> int) list"
  omp_team :: "site \<Rightarrow> nat list"
  omp_stack :: "nat \<Rightarrow> int list"
  omp_malloc :: allocator

definition omp_law :: "omp \<Rightarrow> bool" where
  "omp_law om \<longleftrightarrow> 0 < num_threads om \<and>
     (\<forall>pl lo hi. mset (map snd (omp_schedule om pl lo hi)) = mset [lo..hi - 1] \<and>
        (\<forall>(tid, k) \<in> set (omp_schedule om pl lo hi). tid < num_threads om)) \<and>
     (\<forall>pl. mset (omp_team om pl) = mset [0..<num_threads om]) \<and>
     (\<forall>n. length (omp_stack om n) = n) \<and> alloc_law (omp_malloc om) \<and> (\<forall>n. omp_malloc om n \<noteq> None)"

text \<open>\<open>#pragma omp for\<close>, and a part of a parallel region between two barriers.\<close>

definition omp_for :: "omp \<Rightarrow> site \<Rightarrow> int \<Rightarrow> int \<Rightarrow> (nat \<Rightarrow> int \<Rightarrow> 's \<Rightarrow> 's option) \<Rightarrow> 's \<Rightarrow> 's option" where
  "omp_for om pl lo hi f = for_each (\<lambda>(tid, k). f tid k) (omp_schedule om pl lo hi)"

definition omp_each :: "omp \<Rightarrow> site \<Rightarrow> (nat \<Rightarrow> 's \<Rightarrow> 's option) \<Rightarrow> 's \<Rightarrow> 's option" where
  "omp_each om pl f = for_each f (omp_team om pl)"

subsection \<open>Atomic operations\<close>

text \<open>On a variable: the value returned and the value left.\<close>

definition int64_fetch_add :: "int \<Rightarrow> int \<Rightarrow> int \<times> int" where
  "int64_fetch_add p n = (p, p + n)"

definition int64_casval :: "int \<Rightarrow> int \<Rightarrow> int \<Rightarrow> int \<times> int" where
  "int64_casval p oldval newval = (p, if p = oldval then newval else p)"

definition int64_cas :: "int \<Rightarrow> int \<Rightarrow> int \<Rightarrow> bool \<times> int" where
  "int64_cas p oldval newval = (if p = oldval then (True, newval) else (False, p))"

text \<open>On an element of an array.\<close>

definition atomic_at :: "(int \<Rightarrow> 'r \<times> int) \<Rightarrow> int list \<Rightarrow> int \<Rightarrow> ('r \<times> int list) option" where
  "atomic_at f xs i = do {
     p \<leftarrow> rd xs i;
     let (r, p) = f p;
     xs \<leftarrow> wr xs i p;
     Some (r, xs)
   }"

lemma atomic_at_in: "0 \<le> i \<Longrightarrow> i < int (length xs) \<Longrightarrow>
    atomic_at f xs i = Some (fst (f (xs ! nat i)), xs[nat i := snd (f (xs ! nat i))])"
  by (simp add: atomic_at_def split_beta)

subsection \<open>Rules\<close>

lemma omp_lawD:
  assumes "omp_law om"
  shows "0 < num_threads om" "mset (map snd (omp_schedule om pl lo hi)) = mset [lo..hi - 1]"
    "(tid, k) \<in> set (omp_schedule om pl lo hi) \<Longrightarrow> tid < num_threads om"
    "mset (omp_team om pl) = mset [0..<num_threads om]" "length (omp_stack om n) = n"
    "alloc_law (omp_malloc om)" "omp_malloc om n \<noteq> None"
  using assms unfolding omp_law_def by blast+

lemma set_schedule:
  assumes "omp_law om"
  shows "snd ` set (omp_schedule om pl lo hi) = {lo..<hi}" "distinct (map snd (omp_schedule om pl lo hi))"
proof -
  note m = omp_lawD(2) [OF assms, of pl lo hi]
  have "{lo..hi - 1} = {lo..<hi}" by auto
  then show "snd ` set (omp_schedule om pl lo hi) = {lo..<hi}" using mset_eq_setD [OF m] by simp
  show "distinct (map snd (omp_schedule om pl lo hi))" using mset_eq_imp_distinct_iff [OF m] by simp
qed

text \<open>The invariant of a work-sharing loop speaks about the set of iterations that are done.\<close>

lemma omp_for_inv:
  assumes law: "omp_law om" and init: "I {} s"
    and body: "\<And>D tid k t. D \<subseteq> {lo..<hi} \<Longrightarrow> lo \<le> k \<Longrightarrow> k < hi \<Longrightarrow> k \<notin> D \<Longrightarrow> tid < num_threads om \<Longrightarrow> I D t \<Longrightarrow>
      \<exists>t'. f tid k t = Some t' \<and> I (insert k D) t'"
  shows "\<exists>t. omp_for om pl lo hi f s = Some t \<and> I {lo..<hi} t"
proof -
  let ?xs = "omp_schedule om pl lo hi"
  have "\<exists>t. for_each (\<lambda>(tid, k). f tid k) ?xs s = Some t \<and> I (snd ` set ?xs) t"
  proof (rule for_each_inv [where I = "\<lambda>ys t. I (snd ` set ys) t"])
    fix ys x zs t
    assume xs: "?xs = ys @ x # zs" and inv: "I (snd ` set ys) t"
    have mem: "x \<in> set ?xs" "set ys \<subseteq> set ?xs" unfolding xs by auto
    have "snd x \<notin> snd ` set ys" using set_schedule(2) [OF law, of pl lo hi] unfolding xs by auto
    moreover have "snd ` set ys \<subseteq> {lo..<hi}" "snd x \<in> {lo..<hi}"
      using mem set_schedule(1) [OF law, of pl lo hi] by blast+
    moreover have "fst x < num_threads om" using omp_lawD(3) [OF law, of "fst x" "snd x"] mem(1) by simp
    ultimately show "\<exists>t'. (case x of (tid, k) \<Rightarrow> f tid k) t = Some t' \<and> I (snd ` set (ys @ [x])) t'"
      using body [of "snd ` set ys" "snd x" "fst x" t] inv by (simp add: split_beta)
  qed (simp add: init)
  then show ?thesis by (simp add: omp_for_def set_schedule(1) [OF law])
qed

lemma omp_each_inv:
  assumes law: "omp_law om" and init: "I {} s"
    and body: "\<And>D tid t. D \<subseteq> {..<num_threads om} \<Longrightarrow> tid < num_threads om \<Longrightarrow> tid \<notin> D \<Longrightarrow> I D t \<Longrightarrow>
      \<exists>t'. f tid t = Some t' \<and> I (insert tid D) t'"
  shows "\<exists>t. omp_each om pl f s = Some t \<and> I {..<num_threads om} t"
proof -
  let ?xs = "omp_team om pl"
  have s: "set ?xs = {..<num_threads om}" "distinct ?xs"
    using mset_eq_setD [OF omp_lawD(4) [OF law, of pl]] mset_eq_imp_distinct_iff [OF omp_lawD(4) [OF law, of pl]]
    by (simp_all add: atLeast0LessThan)
  have "\<exists>t. for_each f ?xs s = Some t \<and> I (set ?xs) t"
  proof (rule for_each_inv [where I = "\<lambda>ys t. I (set ys) t"])
    fix ys x zs t
    assume xs: "?xs = ys @ x # zs" and inv: "I (set ys) t"
    have "set ys \<subseteq> {..<num_threads om}" "x < num_threads om" "x \<notin> set ys"
      using s unfolding xs by auto
    from body [OF this inv] show "\<exists>t'. f x t = Some t' \<and> I (set (ys @ [x])) t'" by simp
  qed (simp add: init)
  then show ?thesis by (simp add: omp_each_def s)
qed

text \<open>A loop over the indices of a list runs through a permutation of the list.\<close>

lemma omp_for_list:
  assumes law: "omp_law om"
  shows "\<exists>ys. mset ys = mset xs \<and>
    omp_for om pl 0 (int (length xs)) (\<lambda>tid k s. rd xs k \<bind> (\<lambda>x. f x s)) s = for_each f ys s"
proof -
  let ?ks = "map snd (omp_schedule om pl 0 (int (length xs)))"
  have m: "mset ?ks = mset [0..int (length xs) - 1]" by (rule omp_lawD(2) [OF law])
  have r: "k \<in> set ?ks \<Longrightarrow> 0 \<le> k \<and> k < int (length xs)" for k
    using set_schedule(1) [OF law, of pl 0 "int (length xs)"] by auto
  have run: "for_each (\<lambda>(tid, k) s. rd xs k \<bind> (\<lambda>x. f x s)) ps u = for_each f (map (\<lambda>k. xs ! nat k) (map snd ps)) u"
    if "\<forall>k \<in> set (map snd ps). 0 \<le> k \<and> k < int (length xs)" for ps :: "(nat \<times> int) list" and u
    using that
  proof (induction ps arbitrary: u)
    case (Cons p ps)
    then show ?case by (cases "f (xs ! nat (snd p)) u") (auto simp: split_beta)
  qed simp
  have "mset (map (\<lambda>k. xs ! nat k) ?ks) = image_mset (\<lambda>k. xs ! nat k) (mset [0..int (length xs) - 1])"
    unfolding m [symmetric] by (simp only: mset_map)
  also have "\<dots> = mset (map (\<lambda>k. xs ! nat k) [0..int (length xs) - 1])" by (simp only: mset_map)
  also have "map (\<lambda>k. xs ! nat k) [0..int (length xs) - 1] = xs"
    by (rule nth_equalityI) simp_all
  finally show ?thesis
    using run [of "omp_schedule om pl 0 (int (length xs))" s] r
    by (intro exI [of _ "map (\<lambda>k. xs ! nat k) ?ks"]) (simp add: omp_for_def)
qed

text \<open>Filling an array.\<close>

lemma omp_fill:
  assumes "omp_law om" "0 \<le> lo" "hi \<le> int (length xs)"
  shows "\<exists>ys. omp_for om pl lo hi (\<lambda>tid k t. wr t k c) xs = Some ys \<and> length ys = length xs \<and>
    (\<forall>i. 0 \<le> i \<and> i < int (length xs) \<longrightarrow> ys ! nat i = (if lo \<le> i \<and> i < hi then c else xs ! nat i))"
proof -
  have "\<exists>ys. omp_for om pl lo hi (\<lambda>tid k t. wr t k c) xs = Some ys \<and> (length ys = length xs \<and>
    (\<forall>i. 0 \<le> i \<and> i < int (length xs) \<longrightarrow> ys ! nat i = (if i \<in> {lo..<hi} then c else xs ! nat i)))"
    by (rule omp_for_inv [OF assms(1)]) (use assms in \<open>auto simp: nth_list_update_int\<close>)
  then show ?thesis by simp
qed

subsection \<open>Loops with \<open>break\<close>\<close>

fun for_break :: "('a \<Rightarrow> 's \<Rightarrow> (bool \<times> 's) option) \<Rightarrow> 'a list \<Rightarrow> 's \<Rightarrow> 's option" where
  "for_break f [] s = Some s"
| "for_break f (x # xs) s = f x s \<bind> (\<lambda>(stop, s). if stop then Some s else for_break f xs s)"

lemma for_break_find:
  assumes "\<And>x. x \<in> set xs \<Longrightarrow> f x s = Some (if P x then (True, g x) else (False, s))"
  shows "for_break f xs s = Some (case find P xs of None \<Rightarrow> s | Some x \<Rightarrow> g x)"
  using assms by (induction xs) simp_all

subsection \<open>A static schedule\<close>

text \<open>The schedule in which the iterations are dealt to the threads in order.\<close>

definition static_omp :: "nat \<Rightarrow> omp" where
  "static_omp n = \<lparr>num_threads = Suc n, omp_schedule = (\<lambda>pl lo hi. map (\<lambda>k. (nat (k mod int (Suc n)), k)) [lo..hi - 1]),
     omp_team = (\<lambda>pl. [0..<Suc n]), omp_stack = (\<lambda>m. replicate m 0),
     omp_malloc = (\<lambda>m. Some (replicate m 0))\<rparr>"

lemma static_omp_law: "omp_law (static_omp n)"
  by (simp add: omp_law_def static_omp_def comp_def nat_less_iff alloc_law_def del: mset_map)

end
