(* ===== verification/OmpCsr.thy ===== *)
theory OmpCsr
  imports SeqCsr Omp "HOL-Library.Signed_Division"
begin

text \<open>
  The construction of the compressed rows by a team of threads (\<open>omp-csr/omp-csr.c\<close>, the same in
  \<open>omp-csr/omp-csr-old.c\<close>): whatever the schedule, the graph is the one that the sequential program
  builds.  The graph is the record \<open>csr\<close> of the sequential program.
\<close>

subsection \<open>Definitions\<close>

text \<open>Every thread has its own maximum; the maxima are combined by compare and swap.\<close>

definition find_nv_omp :: "omp \<Rightarrow> packed_edge list \<Rightarrow> (int \<times> int) option" where
  "find_nv_omp om IJ = do {
     tmaxvtx \<leftarrow> omp_for om (''find_nv'', []) 0 (int (length IJ)) (\<lambda>tid k tmaxvtx. do {
         e \<leftarrow> rd IJ k;
         t \<leftarrow> rd tmaxvtx (int tid);
         wr tmaxvtx (int tid) (max_vtx e t)
       }) (replicate (num_threads om) (-1));
     maxvtx \<leftarrow> omp_each om (''find_nv'', []) (\<lambda>tid maxvtx. do {
         t \<leftarrow> rd tmaxvtx (int tid);
         (gmaxvtx, maxvtx) \<leftarrow> while_opt (\<lambda>(gmaxvtx, maxvtx). Some (t > gmaxvtx))
           (\<lambda>(gmaxvtx, maxvtx). Some (int64_casval maxvtx gmaxvtx t)) (maxvtx, maxvtx);
         Some maxvtx
       }) (-1);
     Some (maxvtx, 1 + maxvtx)
   }"

text \<open>The first element of the slice of thread \<open>k\<close>.\<close>

definition slice_begin :: "int \<Rightarrow> int \<Rightarrow> int \<Rightarrow> int" where
  "slice_begin n nt k = (let t1 = n sdiv nt; t2 = n smod nt in t1 * k + (if k < t2 then k else t2))"

definition sum_slice :: "int \<Rightarrow> int \<Rightarrow> int list \<Rightarrow> nat \<Rightarrow> int list \<Rightarrow> int list option" where
  "sum_slice n nt xo tid buf = do {
     buf \<leftarrow> wr buf (int tid) 0;
     for_up (slice_begin n nt (int tid)) (slice_begin n nt (int tid + 1)) (\<lambda>k buf. do {
       x \<leftarrow> rd xo (2 * k);
       b \<leftarrow> rd buf (int tid);
       wr buf (int tid) (b + x)
     }) buf
   }"

definition add_previous :: "int \<Rightarrow> int list \<Rightarrow> int list option" where
  "add_previous k buf = do {
     a \<leftarrow> rd buf k;
     b \<leftarrow> rd buf (k - 1);
     wr buf k (a + b)
   }"

definition offset_slice :: "int \<Rightarrow> int \<Rightarrow> int list \<Rightarrow> nat \<Rightarrow> int list \<Rightarrow> int list option" where
  "offset_slice n nt buf tid xo = do {
     t1 \<leftarrow> (if tid \<noteq> 0 then rd buf (int tid - 1) else Some 0);
     (t1, xo) \<leftarrow> for_up (slice_begin n nt (int tid)) (slice_begin n nt (int tid + 1)) (\<lambda>k (t1, xo). do {
       tmp \<leftarrow> rd xo (2 * k);
       xo \<leftarrow> wr xo (2 * k) t1;
       Some (t1 + tmp, xo)
     }) (t1, xo);
     Some xo
   }"

definition prefix_sum :: "omp \<Rightarrow> int \<Rightarrow> int list \<Rightarrow> int list \<Rightarrow> (int \<times> int list) option" where
  "prefix_sum om n buf xo = do {
     let nt = int (num_threads om);
     buf \<leftarrow> omp_each om (''prefix_sum'', buf) (sum_slice n nt xo) buf;
     buf \<leftarrow> for_up 1 nt add_previous buf;
     xo \<leftarrow> omp_each om (''prefix_sum'', buf) (offset_slice n nt buf) xo;
     accum \<leftarrow> rd buf (nt - 1);
     Some (accum, xo)
   }"

definition count_edge :: "packed_edge \<Rightarrow> int list \<Rightarrow> int list option" where
  "count_edge e xo =
    (let i = get_v0_from_edge e; j = get_v1_from_edge e in
     if i \<noteq> j then do {
       xo \<leftarrow> (if i \<ge> 0 then incr (2 * i) xo else Some xo);
       (if j \<ge> 0 then incr (2 * j) xo else Some xo)
     } else Some xo)"

text \<open>A failed allocation leaves \<open>xadj\<close> null, and the result is then 1.\<close>

definition setup_deg_off_omp ::
    "omp \<Rightarrow> allocator \<Rightarrow> packed_edge list \<Rightarrow> int \<Rightarrow> int list \<Rightarrow> (int + int list \<times> int list) option" where
  "setup_deg_off_omp om alloc IJ n xo = do {
     xo \<leftarrow> omp_for om (''zero'', []) 0 (2 * n + 2) (\<lambda>tid k xo. wr xo k 0) xo;
     xo \<leftarrow> omp_for om (''count'', []) 0 (int (length IJ)) (\<lambda>tid k xo. rd IJ k \<bind> (\<lambda>e. count_edge e xo)) xo;
     let buf = omp_stack om (num_threads om);
     xo \<leftarrow> omp_for om (''minvect'', []) 0 n (\<lambda>tid k xo. do {
         x \<leftarrow> rd xo (2 * k);
         if x < MINVECT_SIZE then wr xo (2 * k) MINVECT_SIZE else Some xo
       }) xo;
     (accum, xo) \<leftarrow> prefix_sum om n buf xo;
     xo \<leftarrow> omp_for om (''xendoff'', []) 0 n (\<lambda>tid k xo. do {
         x \<leftarrow> rd xo (2 * k);
         wr xo (1 + 2 * k) x
       }) xo;
     xo \<leftarrow> wr xo (2 * n) accum;
     case alloc (nat (accum + MINVECT_SIZE)) of
       None \<Rightarrow> Some (Inl 1)
     | Some store \<Rightarrow> do {
         store \<leftarrow> for_up 0 (accum + MINVECT_SIZE) (\<lambda>k s. wr s k (-1)) store;
         Some (Inr (xo, store))
       }
   }"

definition scatter_edge_omp :: "int \<Rightarrow> int \<Rightarrow> csr \<Rightarrow> csr option" where
  "scatter_edge_omp i j g = do {
     (w, xo) \<leftarrow> atomic_at (\<lambda>p. int64_fetch_add p 1) (xoff g) (1 + 2 * i);
     store \<leftarrow> wr_xadj (xadjstore g) w j;
     Some (g\<lparr>xoff := xo, xadjstore := store\<rparr>)
   }"

definition gather_edge_omp :: "packed_edge \<Rightarrow> csr \<Rightarrow> csr option" where
  "gather_edge_omp e g =
    (let i = get_v0_from_edge e; j = get_v1_from_edge e in
     if i \<ge> 0 \<and> j \<ge> 0 \<and> i \<noteq> j then scatter_edge_omp i j g \<bind> scatter_edge_omp j i
     else Some g)"

definition pack_edges_omp :: "omp \<Rightarrow> csr \<Rightarrow> csr option" where
  "pack_edges_omp om g = omp_for om (''pack_edges'', []) 0 (nv g) (\<lambda>tid. pack_vtx_edges) g"

definition gather_edges_omp :: "omp \<Rightarrow> packed_edge list \<Rightarrow> csr \<Rightarrow> csr option" where
  "gather_edges_omp om IJ g = do {
     g \<leftarrow> omp_for om (''gather_edges'', []) 0 (int (length IJ)) (\<lambda>tid k g. rd IJ k \<bind> (\<lambda>e. gather_edge_omp e g)) g;
     pack_edges_omp om g
   }"

definition create_graph_omp :: "omp \<Rightarrow> allocator \<Rightarrow> packed_edge list \<Rightarrow> (int + csr) option" where
  "create_graph_omp om alloc IJ = do {
     (m, n) \<leftarrow> find_nv_omp om IJ;
     case alloc_graph alloc n of
       None \<Rightarrow> Some (Inl (-1))
     | Some xo \<Rightarrow> do {
         r \<leftarrow> setup_deg_off_omp om alloc IJ n xo;
         case r of
           Inl err \<Rightarrow> Some (Inl (-1))
         | Inr (xo, store) \<Rightarrow>
             map_option Inr (gather_edges_omp om IJ \<lparr>maxvtx = m, nv = n, xoff = xo, xadjstore = store\<rparr>)
       }
   }"

subsection \<open>The number of vertices\<close>

definition upper_bound :: "packed_edge list \<Rightarrow> int set \<Rightarrow> int \<Rightarrow> bool" where
  "upper_bound IJ D m \<longleftrightarrow> (\<forall>k \<in> D. get_v0_from_edge (IJ ! nat k) \<le> m \<and> get_v1_from_edge (IJ ! nat k) \<le> m)"

lemma max_vtx_le: "max_vtx e t \<le> m \<longleftrightarrow> t \<le> m \<and> get_v0_from_edge e \<le> m \<and> get_v1_from_edge e \<le> m"
  by (auto simp: max_vtx_def Let_def)

lemma max_vertex_unique:
  assumes "-1 \<le> x" "\<And>m. -1 \<le> m \<Longrightarrow> x \<le> m \<longleftrightarrow> upper_bound IJ {0..<int (length IJ)} m"
  shows "x = max_vertex IJ"
proof -
  have ub: "upper_bound IJ {0..<int (length IJ)} m \<longleftrightarrow>
      list_all (\<lambda>e. get_v0_from_edge e \<le> m \<and> get_v1_from_edge e \<le> m) IJ" for m
    unfolding upper_bound_def list_all_length
  proof (intro iffI allI impI ballI)
    fix n assume "\<forall>k \<in> {0..<int (length IJ)}. get_v0_from_edge (IJ ! nat k) \<le> m \<and> get_v1_from_edge (IJ ! nat k) \<le> m"
      and "n < length IJ"
    then show "get_v0_from_edge (IJ ! n) \<le> m \<and> get_v1_from_edge (IJ ! n) \<le> m" by (auto dest: bspec [of _ _ "int n"])
  qed (simp add: nat_less_iff)
  have "x \<le> max_vertex IJ" using assms(2) [OF max_vertex_ge, of IJ] ub max_vertex_bound by blast
  moreover have "max_vertex IJ \<le> x" using assms ub max_vertex_least by blast
  ultimately show ?thesis by simp
qed

lemma cas_max:
  "while_opt (\<lambda>(g, m). Some (t > g)) (\<lambda>(g, m). Some (int64_casval m g t)) (m, m) = Some (max m t, max m t)"
proof (cases "t > m")
  case True
  then show ?thesis by (simp add: while_opt_unfold int64_casval_def)
qed (simp add: while_opt_unfold)

lemma find_nv_omp_eq:
  assumes law: "omp_law om"
  shows "find_nv_omp om IJ = Some (find_nv IJ)"
proof -
  let ?I = "\<lambda>D t. length t = num_threads om \<and> (\<forall>x \<in> set t. -1 \<le> x) \<and>
    (\<forall>m \<ge> -1. (\<forall>x \<in> set t. x \<le> m) \<longleftrightarrow> upper_bound IJ D m)"
  have "\<exists>t. omp_for om (''find_nv'', []) 0 (int (length IJ)) (\<lambda>tid k tmaxvtx. do {
         e \<leftarrow> rd IJ k;
         t \<leftarrow> rd tmaxvtx (int tid);
         wr tmaxvtx (int tid) (max_vtx e t)
       }) (replicate (num_threads om) (-1)) = Some t \<and> ?I {0..<int (length IJ)} t"
  proof (rule omp_for_inv [where I = ?I, OF law])
    fix D tid k t
    assume k: "0 \<le> k" "k < int (length IJ)" and tid: "tid < num_threads om" and I: "?I D t"
    let ?t = "t[tid := max_vtx (IJ ! nat k) (t ! tid)]"
    have all: "(\<forall>x \<in> set ?t. P x) \<longleftrightarrow> P (max_vtx (IJ ! nat k) (t ! tid)) \<and> (\<forall>i < length t. i \<noteq> tid \<longrightarrow> P (t ! i))" for P
      using tid I by (auto simp: all_set_conv_all_nth nth_list_update)
    have old: "(\<forall>x \<in> set t. P x) \<longleftrightarrow> P (t ! tid) \<and> (\<forall>i < length t. i \<noteq> tid \<longrightarrow> P (t ! i))" for P
      using tid I by (auto simp: all_set_conv_all_nth)
    have "(\<forall>x \<in> set ?t. x \<le> m) \<longleftrightarrow> upper_bound IJ (insert k D) m" if m: "-1 \<le> m" for m
    proof -
      have "(\<forall>x \<in> set t. x \<le> m) \<longleftrightarrow> upper_bound IJ D m" using I m by blast
      then show ?thesis unfolding all old upper_bound_def by (auto simp: max_vtx_le)
    qed
    moreover have "\<forall>x \<in> set ?t. -1 \<le> x"
      unfolding all using I old [of "\<lambda>x. -1 \<le> x"] by (auto simp: max_vtx_def Let_def)
    ultimately show "\<exists>t'. do {
         e \<leftarrow> rd IJ k;
         s \<leftarrow> rd t (int tid);
         wr t (int tid) (max_vtx e s)
       } = Some t' \<and> ?I (insert k D) t'"
      using k tid I by (intro exI [of _ ?t] conjI) simp_all
  qed (auto simp: upper_bound_def)
  then obtain t where t: "omp_for om (''find_nv'', []) 0 (int (length IJ)) (\<lambda>tid k tmaxvtx. do {
         e \<leftarrow> rd IJ k;
         t \<leftarrow> rd tmaxvtx (int tid);
         wr tmaxvtx (int tid) (max_vtx e t)
       }) (replicate (num_threads om) (-1)) = Some t" "?I {0..<int (length IJ)} t" by blast
  let ?f = "\<lambda>tid maxvtx. do {
         t \<leftarrow> rd t (int tid);
         (gmaxvtx, maxvtx) \<leftarrow> while_opt (\<lambda>(gmaxvtx, maxvtx). Some (t > gmaxvtx))
           (\<lambda>(gmaxvtx, maxvtx). Some (int64_casval maxvtx gmaxvtx t)) (maxvtx, maxvtx);
         Some maxvtx
       }"
  have "\<exists>x. omp_each om (''find_nv'', []) ?f (-1) = Some x \<and>
      (-1 \<le> x \<and> (\<forall>m \<ge> -1. x \<le> m \<longleftrightarrow> (\<forall>i \<in> {..<num_threads om}. t ! i \<le> m)))"
  proof (rule omp_each_inv [where I = "\<lambda>D x. -1 \<le> x \<and> (\<forall>m \<ge> -1. x \<le> m \<longleftrightarrow> (\<forall>i \<in> D. t ! i \<le> m))", OF law])
    fix D tid x
    assume tid: "tid < num_threads om" and I: "-1 \<le> x \<and> (\<forall>m \<ge> -1. x \<le> m \<longleftrightarrow> (\<forall>i \<in> D. t ! i \<le> m))"
    have "?f tid x = Some (max x (t ! tid))" using tid t(2) by (simp add: cas_max)
    moreover have "max x (t ! tid) \<le> m \<longleftrightarrow> (\<forall>i \<in> insert tid D. t ! i \<le> m)" if "-1 \<le> m" for m
      using I that by auto
    ultimately show "\<exists>x'. ?f tid x = Some x' \<and>
        -1 \<le> x' \<and> (\<forall>m \<ge> -1. x' \<le> m \<longleftrightarrow> (\<forall>i \<in> insert tid D. t ! i \<le> m))"
      using I by (intro exI [of _ "max x (t ! tid)"]) (simp add: le_max_iff_disj)
  qed simp
  then obtain x where x: "omp_each om (''find_nv'', []) ?f (-1) = Some x" "-1 \<le> x"
      "\<And>m. -1 \<le> m \<Longrightarrow> x \<le> m \<longleftrightarrow> (\<forall>i \<in> {..<num_threads om}. t ! i \<le> m)" by blast
  have "x \<le> m \<longleftrightarrow> upper_bound IJ {0..<int (length IJ)} m" if "-1 \<le> m" for m
  proof -
    have "(\<forall>i \<in> {..<num_threads om}. t ! i \<le> m) \<longleftrightarrow> (\<forall>y \<in> set t. y \<le> m)"
      unfolding all_set_conv_all_nth using t(2) by auto
    then show ?thesis using x(3) [OF that] t(2) that by blast
  qed
  then have "x = max_vertex IJ" by (rule max_vertex_unique [OF x(2)])
  then show ?thesis using t(1) x(1) by (simp add: find_nv_omp_def find_nv_eq)
qed

subsection \<open>Prefix sums\<close>

lemma slice_bounds:
  assumes "0 \<le> n" "0 < nt"
  shows "slice_begin n nt 0 = 0" "slice_begin n nt nt = n" "0 \<le> k \<Longrightarrow> 0 \<le> slice_begin n nt k"
    "0 \<le> k \<Longrightarrow> k \<le> l \<Longrightarrow> slice_begin n nt k \<le> slice_begin n nt l"
proof -
  have d: "n sdiv nt = n div nt" "n smod nt = n mod nt"
    using assms by (cases "n = 0"; simp add: signed_divide_int_def signed_modulo_int_def minus_div_mult_eq_mod)+
  have p: "0 \<le> n div nt" "0 \<le> n mod nt" "n mod nt < nt" "nt * (n div nt) + n mod nt = n"
    using assms by (simp_all add: pos_imp_zdiv_nonneg_iff)
  show "slice_begin n nt 0 = 0" "slice_begin n nt nt = n"
    using p by (simp_all add: slice_begin_def Let_def d mult.commute)
  show "0 \<le> slice_begin n nt k" if "0 \<le> k" for k
    using p that by (simp add: slice_begin_def Let_def d)
  show "slice_begin n nt k \<le> slice_begin n nt l" if "0 \<le> k" "k \<le> l" for k l
    using p(1) mult_left_mono [OF that(2) p(1)] that by (simp add: slice_begin_def Let_def d)
qed

lemma slice_exists:
  assumes "0 \<le> n" "0 < nt" "0 \<le> v" "v < slice_begin n (int nt) (int m)"
  shows "\<exists>tid < m. slice_begin n (int nt) (int tid) \<le> v \<and> v < slice_begin n (int nt) (int tid + 1)"
  using assms(4)
proof (induction m)
  case 0
  then show ?case using slice_bounds(1) [of n "int nt"] assms(1-3) by simp
next
  case (Suc m)
  show ?case
  proof (cases "v < slice_begin n (int nt) (int m)")
    case True
    then show ?thesis using Suc.IH less_SucI by blast
  next
    case False
    then show ?thesis using Suc.prems by (intro exI [of _ m]) (simp add: add.commute)
  qed
qed

lemma slices_disjoint:
  assumes "0 \<le> n" "0 < nt" "slice_begin n nt (int i) \<le> v" "v < slice_begin n nt (int i + 1)"
    "slice_begin n nt (int j) \<le> v" "v < slice_begin n nt (int j + 1)"
  shows "i = j"
proof (rule ccontr)
  assume "i \<noteq> j"
  then have "int i + 1 \<le> int j \<or> int j + 1 \<le> int i" by auto
  then show False
    using slice_bounds(4) [OF assms(1,2), of "int i + 1" "int j"] slice_bounds(4) [OF assms(1,2), of "int j + 1" "int i"]
      assms(3-6) by auto
qed

text \<open>
  The three phases of the prefix sums of \<open>c\<close>: the sum of every slice, the sums up to the end of
  every slice, the offsets in every slice.
\<close>

definition slice_end_off :: "omp \<Rightarrow> int \<Rightarrow> (int \<Rightarrow> int) \<Rightarrow> nat \<Rightarrow> int" where
  "slice_end_off om n c i = off c (slice_begin n (int (num_threads om)) (int i))"

lemma sum_slice_result:
  assumes "0 \<le> slice_begin n nt (int tid)" "slice_begin n nt (int tid) \<le> slice_begin n nt (int tid + 1)"
    "slice_begin n nt (int tid + 1) \<le> n" "int (length xo) = 2 * n + 2"
    "\<And>v. 0 \<le> v \<Longrightarrow> v < n \<Longrightarrow> xo ! nat (2 * v) = c v" "tid < length buf"
  shows "sum_slice n nt xo tid buf =
    Some (buf[tid := off c (slice_begin n nt (int tid + 1)) - off c (slice_begin n nt (int tid))])"
proof -
  let ?lo = "slice_begin n nt (int tid)" and ?hi = "slice_begin n nt (int tid + 1)"
  have "\<exists>b. for_up ?lo ?hi (\<lambda>k buf. do {
           x \<leftarrow> rd xo (2 * k);
           b \<leftarrow> rd buf (int tid);
           wr buf (int tid) (b + x)
         }) (buf[tid := 0]) = Some b \<and> b = buf[tid := off c ?hi - off c ?lo]"
    by (rule for_up_inv [where I = "\<lambda>k b. b = buf[tid := off c k - off c ?lo]"])
      (use assms in \<open>simp_all add: off_Suc algebra_simps\<close>)
  then show ?thesis using assms(6) by (simp add: sum_slice_def)
qed

lemma offset_slice_result:
  assumes "0 \<le> slice_begin n nt (int tid)" "slice_begin n nt (int tid) \<le> slice_begin n nt (int tid + 1)"
    "slice_begin n nt (int tid + 1) \<le> n" "int (length xo) = 2 * n + 2"
    "\<And>v. slice_begin n nt (int tid) \<le> v \<Longrightarrow> v < slice_begin n nt (int tid + 1) \<Longrightarrow> xo ! nat (2 * v) = c v"
    "(if tid \<noteq> 0 then rd buf (int tid - 1) else Some 0) = Some (off c (slice_begin n nt (int tid)))"
  shows "\<exists>xo'. offset_slice n nt buf tid xo = Some xo' \<and> length xo' = length xo \<and>
    (\<forall>v. 0 \<le> v \<and> v < n \<longrightarrow> xo' ! nat (2 * v) =
      (if slice_begin n nt (int tid) \<le> v \<and> v < slice_begin n nt (int tid + 1) then off c v else xo ! nat (2 * v)))"
proof -
  let ?lo = "slice_begin n nt (int tid)" and ?hi = "slice_begin n nt (int tid + 1)"
  let ?I = "\<lambda>k (t1, xo'). t1 = off c k \<and> length xo' = length xo \<and>
    (\<forall>v. 0 \<le> v \<and> v < n \<longrightarrow> xo' ! nat (2 * v) = (if ?lo \<le> v \<and> v < k then off c v else xo ! nat (2 * v)))"
  have "\<exists>s. for_up ?lo ?hi (\<lambda>k (t1, xo). do {
           tmp \<leftarrow> rd xo (2 * k);
           xo \<leftarrow> wr xo (2 * k) t1;
           Some (t1 + tmp, xo)
         }) (off c ?lo, xo) = Some s \<and> ?I ?hi s"
  proof (rule for_up_inv [where I = ?I, OF assms(2)])
    fix k s
    assume k: "?lo \<le> k" "k < ?hi" and I: "?I k s"
    obtain t1 x where s: "s = (t1, x)" by fastforce
    have "x ! nat (2 * k) = c k" using I k assms unfolding s by auto
    then show "\<exists>s'. (case s of (t1, xo) \<Rightarrow> do {
           tmp \<leftarrow> rd xo (2 * k);
           xo \<leftarrow> wr xo (2 * k) t1;
           Some (t1 + tmp, xo)
         }) = Some s' \<and> ?I (k + 1) s'"
      using I k assms(1,3,4) by (auto simp: s off_Suc nth_list_update_int)
  qed auto
  then show ?thesis unfolding offset_slice_def assms(6) by auto
qed

lemma slice_range:
  assumes "omp_law om" "0 \<le> n" "tid < num_threads om"
  defines "nt \<equiv> int (num_threads om)"
  shows "0 \<le> slice_begin n nt (int tid)" "slice_begin n nt (int tid) \<le> slice_begin n nt (int tid + 1)"
    "slice_begin n nt (int tid + 1) \<le> n"
proof -
  have nt: "0 < nt" using omp_lawD(1) [OF assms(1)] by (simp add: nt_def)
  have "int tid + 1 \<le> nt" using assms(3) by (simp add: nt_def)
  then show "0 \<le> slice_begin n nt (int tid)" "slice_begin n nt (int tid) \<le> slice_begin n nt (int tid + 1)"
    "slice_begin n nt (int tid + 1) \<le> n"
    using slice_bounds(2) [OF assms(2) nt] slice_bounds(3) [OF assms(2) nt, of "int tid"]
      slice_bounds(4) [OF assms(2) nt, of "int tid" "int tid + 1"] slice_bounds(4) [OF assms(2) nt, of "int tid + 1" nt]
    by auto
qed

lemma sum_slices_result:
  assumes law: "omp_law om" and n: "0 \<le> n" and len: "int (length xo) = 2 * n + 2" "length buf = num_threads om"
    and c: "\<And>v. 0 \<le> v \<Longrightarrow> v < n \<Longrightarrow> xo ! nat (2 * v) = c v"
  shows "\<exists>b. omp_each om pl (sum_slice n (int (num_threads om)) xo) buf = Some b \<and> length b = num_threads om \<and>
    (\<forall>i < num_threads om. b ! i = slice_end_off om n c (Suc i) - slice_end_off om n c i)"
proof -
  let ?I = "\<lambda>D b. length b = num_threads om \<and> (\<forall>i \<in> D. b ! i = slice_end_off om n c (Suc i) - slice_end_off om n c i)"
  have "\<exists>b. omp_each om pl (sum_slice n (int (num_threads om)) xo) buf = Some b \<and> ?I {..<num_threads om} b"
  proof (rule omp_each_inv [where I = ?I, OF law])
    fix D tid b
    assume D: "tid < num_threads om" "tid \<notin> D" and I: "?I D b"
    have "sum_slice n (int (num_threads om)) xo tid b = Some (b[tid := slice_end_off om n c (Suc tid) - slice_end_off om n c tid])"
      using sum_slice_result [OF slice_range [OF law n D(1)] len(1) c, of b] D I by (simp add: slice_end_off_def add.commute)
    then show "\<exists>b'. sum_slice n (int (num_threads om)) xo tid b = Some b' \<and> ?I (insert tid D) b'"
      using D I by (auto simp: nth_list_update)
  qed (simp add: len)
  then show ?thesis by blast
qed

lemma add_previous_result:
  assumes law: "omp_law om" and n: "0 \<le> n" and b: "length b = num_threads om"
    "\<And>i. i < num_threads om \<Longrightarrow> b ! i = slice_end_off om n c (Suc i) - slice_end_off om n c i"
  shows "\<exists>b'. for_up 1 (int (num_threads om)) add_previous b = Some b' \<and> length b' = num_threads om \<and>
    (\<forall>i < num_threads om. b' ! i = slice_end_off om n c (Suc i))"
proof -
  let ?nt = "int (num_threads om)"
  let ?I = "\<lambda>k b'. length b' = num_threads om \<and>
      (\<forall>i < num_threads om. b' ! i = (if int i < k then slice_end_off om n c (Suc i) else b ! i))"
  have nt: "0 < ?nt" using omp_lawD(1) [OF law] by simp
  have z: "slice_end_off om n c 0 = 0" using slice_bounds(1) [OF n nt] by (simp add: slice_end_off_def)
  have "\<exists>b'. for_up 1 ?nt add_previous b = Some b' \<and> ?I ?nt b'"
  proof (rule for_up_inv [where I = ?I])
    fix k b'
    assume k: "1 \<le> k" "k < ?nt" and I: "?I k b'"
    have i: "nat k < num_threads om" "nat (k - 1) < num_threads om" "int (nat k) = k" "Suc (nat (k - 1)) = nat k" using k by auto
    then have "b' ! nat k + b' ! nat (k - 1) = slice_end_off om n c (Suc (nat k))"
      using I b(2) [of "nat k"] k by simp
    then show "\<exists>b''. add_previous k b' = Some b'' \<and> ?I (k + 1) b''"
      using I k by (auto simp: add_previous_def nth_list_update)
  qed (use nt b z in auto)
  then show ?thesis by auto
qed

lemma offset_slices_result:
  assumes law: "omp_law om" and n: "0 \<le> n" and len: "int (length xo) = 2 * n + 2"
    and c: "\<And>v. 0 \<le> v \<Longrightarrow> v < n \<Longrightarrow> xo ! nat (2 * v) = c v"
    and b: "length b = num_threads om" "\<And>i. i < num_threads om \<Longrightarrow> b ! i = slice_end_off om n c (Suc i)"
  shows "\<exists>x. omp_each om pl (offset_slice n (int (num_threads om)) b) xo = Some x \<and> length x = length xo \<and>
    (\<forall>v. 0 \<le> v \<and> v < n \<longrightarrow> x ! nat (2 * v) = off c v)"
proof -
  let ?nt = "int (num_threads om)"
  let ?sl = "slice_begin n ?nt"
  let ?I = "\<lambda>D x. length x = length xo \<and> (\<forall>v. 0 \<le> v \<and> v < n \<longrightarrow>
    x ! nat (2 * v) = (if \<exists>tid \<in> D. ?sl (int tid) \<le> v \<and> v < ?sl (int tid + 1) then off c v else c v))"
  have nt: "0 < num_threads om" "0 < ?nt" using omp_lawD(1) [OF law] by simp_all
  have "\<exists>x. omp_each om pl (offset_slice n ?nt b) xo = Some x \<and> ?I {..<num_threads om} x"
  proof (rule omp_each_inv [where I = ?I, OF law])
    fix D tid x
    assume D: "tid < num_threads om" "tid \<notin> D" and I: "?I D x"
    have t: "(if tid \<noteq> 0 then rd b (int tid - 1) else Some 0) = Some (off c (?sl (int tid)))"
      using D b(1) b(2) [of "tid - 1"] slice_bounds(1) [OF n nt(2)]
      by (auto simp: slice_end_off_def nat_diff_distrib of_nat_diff)
    have v: "x ! nat (2 * v) = c v" if v: "?sl (int tid) \<le> v" "v < ?sl (int tid + 1)" for v
    proof -
      have "\<not> (\<exists>i \<in> D. ?sl (int i) \<le> v \<and> v < ?sl (int i + 1))"
        using slices_disjoint [OF n nt(2) v] D(2) by blast
      then show ?thesis using I v slice_range [OF law n D(1)] by auto
    qed
    have "int (length x) = 2 * n + 2" using I len by simp
    from offset_slice_result [OF slice_range [OF law n D(1)] this v t]
    show "\<exists>x'. offset_slice n ?nt b tid x = Some x' \<and> ?I (insert tid D) x'" using I by auto
  qed (simp add: c)
  then obtain x where x: "omp_each om pl (offset_slice n ?nt b) xo = Some x" "?I {..<num_threads om} x" by blast
  have "\<exists>tid < num_threads om. ?sl (int tid) \<le> v \<and> v < ?sl (int tid + 1)" if "0 \<le> v" "v < n" for v
    using slice_exists [OF n nt(1), of v "num_threads om"] that slice_bounds(2) [OF n nt(2)] by simp
  then show ?thesis using x by auto
qed

lemma prefix_sum_result:
  assumes law: "omp_law om" and n: "0 \<le> n" and len: "int (length xo) = 2 * n + 2" "length buf = num_threads om"
    and c: "\<And>v. 0 \<le> v \<Longrightarrow> v < n \<Longrightarrow> xo ! nat (2 * v) = c v"
  shows "\<exists>xo'. prefix_sum om n buf xo = Some (off c n, xo') \<and> length xo' = length xo \<and>
    (\<forall>v. 0 \<le> v \<and> v < n \<longrightarrow> xo' ! nat (2 * v) = off c v)"
proof -
  let ?nt = "int (num_threads om)"
  have nt: "0 < num_threads om" "0 < ?nt" using omp_lawD(1) [OF law] by simp_all
  obtain b where b: "omp_each om (''prefix_sum'', buf) (sum_slice n ?nt xo) buf = Some b" "length b = num_threads om"
      "\<And>i. i < num_threads om \<Longrightarrow> b ! i = slice_end_off om n c (Suc i) - slice_end_off om n c i"
    using sum_slices_result [OF law n len c] by blast
  obtain b' where b': "for_up 1 ?nt add_previous b = Some b'" "length b' = num_threads om"
      "\<And>i. i < num_threads om \<Longrightarrow> b' ! i = slice_end_off om n c (Suc i)"
    using add_previous_result [OF law n b(2,3)] by blast
  obtain x where x: "omp_each om (''prefix_sum'', b') (offset_slice n ?nt b') xo = Some x" "length x = length xo"
      "\<forall>v. 0 \<le> v \<and> v < n \<longrightarrow> x ! nat (2 * v) = off c v"
    using offset_slices_result [OF law n len(1) c b'(2,3)] by blast
  have "rd b' (?nt - 1) = Some (off c n)"
    using b'(2) b'(3) [of "num_threads om - 1"] nt slice_bounds(2) [OF n nt(2)]
    by (simp add: nat_diff_distrib of_nat_diff slice_end_off_def)
  then show ?thesis using b(1) b'(1) x by (simp add: prefix_sum_def Let_def)
qed

subsection \<open>The graph\<close>

text \<open>Nothing depends on the order of the edges.\<close>

lemma permuted_edges:
  assumes "mset ys = mset IJ"
  shows "set ys = set IJ" "edge_nbrs ys = edge_nbrs IJ" "deg ys = deg IJ" "capacity ys = capacity IJ"
proof -
  show s: "set ys = set IJ" by (rule mset_eq_setD [OF assms])
  then show "edge_nbrs ys = edge_nbrs IJ" by (intro ext) (simp add: edge_nbrs_def)
  show d: "deg ys = deg IJ"
  proof
    fix v
    have "deg zs v = sum_mset (image_mset (edge_deg v) (mset zs))" for zs
      unfolding deg_def by (simp only: sum_mset_sum_list [symmetric] mset_map)
    then show "deg ys v = deg IJ v" using assms by simp
  qed
  then show "capacity ys = capacity IJ" by (intro ext) (simp add: capacity_def)
qed

lemma minvect_result:
  assumes law: "omp_law om" and "int (length xo) = 2 * n + 2" "\<And>v. 0 \<le> v \<Longrightarrow> v < n \<Longrightarrow> xo ! nat (2 * v) = deg IJ v"
  shows "\<exists>x. omp_for om pl 0 n (\<lambda>tid k xo. do {
         x \<leftarrow> rd xo (2 * k);
         if x < MINVECT_SIZE then wr xo (2 * k) MINVECT_SIZE else Some xo
       }) xo = Some x \<and> length x = length xo \<and> (\<forall>v. 0 \<le> v \<and> v < n \<longrightarrow> x ! nat (2 * v) = capacity IJ v)"
proof -
  let ?I = "\<lambda>D x. length x = length xo \<and> (\<forall>v. 0 \<le> v \<and> v < n \<longrightarrow> x ! nat (2 * v) = (if v \<in> D then capacity IJ v else deg IJ v))"
  have "\<exists>x. omp_for om pl 0 n (\<lambda>tid k xo. do {
         x \<leftarrow> rd xo (2 * k);
         if x < MINVECT_SIZE then wr xo (2 * k) MINVECT_SIZE else Some xo
       }) xo = Some x \<and> ?I {0..<n} x"
  proof (rule omp_for_inv [where I = ?I, OF law])
    fix D tid k x
    assume k: "0 \<le> k" "k < n" "k \<notin> D" and I: "?I D x"
    have "x ! nat (2 * k) = deg IJ k" "int (length x) = 2 * n + 2" using I k assms(2) by auto
    then show "\<exists>x'. do {
         y \<leftarrow> rd x (2 * k);
         if y < MINVECT_SIZE then wr x (2 * k) MINVECT_SIZE else Some x
       } = Some x' \<and> ?I (insert k D) x'"
      using k I by (auto simp: capacity_def nth_list_update_int)
  qed (use assms in auto)
  then show ?thesis by auto
qed

lemma xendoff_result:
  assumes law: "omp_law om" and "int (length xo) = 2 * n + 2"
  shows "\<exists>x. omp_for om pl 0 n (\<lambda>tid k xo. do {
         x \<leftarrow> rd xo (2 * k);
         wr xo (1 + 2 * k) x
       }) xo = Some x \<and> length x = length xo \<and> (\<forall>v. 0 \<le> v \<and> v < n \<longrightarrow> x ! nat (2 * v) = xo ! nat (2 * v)) \<and>
    (\<forall>v. 0 \<le> v \<and> v < n \<longrightarrow> x ! nat (1 + 2 * v) = xo ! nat (2 * v))"
proof -
  let ?I = "\<lambda>D x. length x = length xo \<and> (\<forall>v. 0 \<le> v \<and> v < n \<longrightarrow> x ! nat (2 * v) = xo ! nat (2 * v)) \<and>
    (\<forall>v \<in> D. x ! nat (1 + 2 * v) = xo ! nat (2 * v))"
  have "\<exists>x. omp_for om pl 0 n (\<lambda>tid k xo. do {
         x \<leftarrow> rd xo (2 * k);
         wr xo (1 + 2 * k) x
       }) xo = Some x \<and> ?I {0..<n} x"
  proof (rule omp_for_inv [where I = ?I, OF law])
    fix D tid k x
    assume D: "D \<subseteq> {0..<n}" and k: "0 \<le> k" "k < n" and I: "?I D x"
    let ?x = "x[nat (1 + 2 * k) := xo ! nat (2 * k)]"
    have "nat (1 + 2 * k) \<noteq> nat (2 * v)" if "0 \<le> v" for v
      using that k by (simp add: nat_eq_iff) presburger
    then have "?x ! nat (2 * v) = x ! nat (2 * v)" if "0 \<le> v" for v using that by simp
    moreover have "?x ! nat (1 + 2 * v) = (if v = k then xo ! nat (2 * k) else x ! nat (1 + 2 * v))" if "0 \<le> v" for v
      using that k I assms(2) by (auto simp: nth_list_update_int)
    moreover have "rd x (2 * k) = Some (xo ! nat (2 * k))" "wr x (1 + 2 * k) y = Some (x[nat (1 + 2 * k) := y])" for y
      using I k assms(2) by auto
    ultimately show "\<exists>x'. do {
         y \<leftarrow> rd x (2 * k);
         wr x (1 + 2 * k) y
       } = Some x' \<and> ?I (insert k D) x'"
      using I D k by auto
  qed auto
  then show ?thesis by auto
qed

lemma setup_result_omp:
  assumes om: "omp_law om" and law: "alloc_law alloc" and xo: "int (length xo) = 2 * n + 2" and n: "n = snd (find_nv IJ)"
  shows "(setup_deg_off_omp om alloc IJ n xo = Some (Inl 1) \<and> (\<exists>k. alloc k = None)) \<or>
    (\<exists>xo' store. setup_deg_off_omp om alloc IJ n xo = Some (Inr (xo', store)) \<and>
      csr_ok (capacity IJ) \<lparr>maxvtx = m, nv = n, xoff = xo', xadjstore = store\<rparr> \<and>
      (\<forall>v. 0 \<le> v \<and> v < n \<longrightarrow> seg \<lparr>maxvtx = m, nv = n, xoff = xo', xadjstore = store\<rparr> v = []))"
proof -
  let ?c = "capacity IJ"
  have n0: "0 \<le> n" using find_nv_ge [of IJ] find_nv_snd [of IJ] n by simp
  have c0: "0 \<le> ?c u" for u by (simp add: capacity_def MINVECT_SIZE_def)
  obtain x1 where x1: "omp_for om (''zero'', []) 0 (2 * n + 2) (\<lambda>tid k xo. wr xo k 0) xo = Some x1" "length x1 = length xo"
      "\<And>i. 0 \<le> i \<Longrightarrow> i < 2 * n + 2 \<Longrightarrow> x1 ! nat i = 0"
    using omp_fill [OF om, of 0 "2 * n + 2" xo "(''zero'', [])" 0] xo by auto
  obtain ys where ys: "mset ys = mset IJ" "omp_for om (''count'', []) 0 (int (length IJ))
      (\<lambda>tid k xo. rd IJ k \<bind> (\<lambda>e. count_edge e xo)) x1 = for_each count_edge ys x1"
    using omp_for_list [OF om, of IJ "(''count'', [])" count_edge x1] by blast
  note p = permuted_edges [OF ys(1)]
  have "for_each count_edge ys x1 = count_degrees ys x1"
    unfolding count_degrees_def count_edge_def [abs_def] by (rule refl)
  then obtain x2 where x2: "for_each count_edge ys x1 = Some x2" "int (length x2) = 2 * n + 2"
      "\<And>v. 0 \<le> v \<Longrightarrow> v < n \<Longrightarrow> x2 ! nat (2 * v) = deg IJ v"
    using count_degrees_result [of x1 n ys] x1 xo find_nv_bound [of _ IJ] find_nv_snd [of IJ] n p(1,3) by fastforce
  obtain x3 where x3: "omp_for om (''minvect'', []) 0 n (\<lambda>tid k xo. do {
         x \<leftarrow> rd xo (2 * k);
         if x < MINVECT_SIZE then wr xo (2 * k) MINVECT_SIZE else Some xo
       }) x2 = Some x3" "length x3 = length x2" "\<And>v. 0 \<le> v \<Longrightarrow> v < n \<Longrightarrow> x3 ! nat (2 * v) = ?c v"
    using minvect_result [OF om x2(2,3)] by blast
  obtain x4 where x4: "prefix_sum om n (omp_stack om (num_threads om)) x3 = Some (off ?c n, x4)" "length x4 = length x3"
      "\<And>v. 0 \<le> v \<Longrightarrow> v < n \<Longrightarrow> x4 ! nat (2 * v) = off ?c v"
    using prefix_sum_result [OF om n0 _ omp_lawD(5) [OF om] x3(3)] x3(2) x2(2) by (auto simp: that)
  obtain x5 where x5: "omp_for om (''xendoff'', []) 0 n (\<lambda>tid k xo. do {
         x \<leftarrow> rd xo (2 * k);
         wr xo (1 + 2 * k) x
       }) x4 = Some x5" "length x5 = length x4" "\<And>v. 0 \<le> v \<Longrightarrow> v < n \<Longrightarrow> x5 ! nat (2 * v) = x4 ! nat (2 * v)"
      "\<And>v. 0 \<le> v \<Longrightarrow> v < n \<Longrightarrow> x5 ! nat (1 + 2 * v) = x4 ! nat (2 * v)"
    using xendoff_result [OF om, of x4 n "(''xendoff'', [])"] x4(2) x3(2) x2(2) by auto
  define x6 where "x6 = x5[nat (2 * n) := off ?c n]"
  have l5: "int (length x5) = 2 * n + 2" using x5(2) x4(2) x3(2) x2(2) by simp
  have x6: "wr x5 (2 * n) (off ?c n) = Some x6" "int (length x6) = 2 * n + 2"
      "\<And>v. 0 \<le> v \<Longrightarrow> v \<le> n \<Longrightarrow> x6 ! nat (2 * v) = off ?c v"
      "\<And>v. 0 \<le> v \<Longrightarrow> v < n \<Longrightarrow> x6 ! nat (1 + 2 * v) = off ?c v"
    using l5 n0 x5(3,4) x4(3) by (auto simp: x6_def nth_list_update_int)
  note runs = x1(1) ys(2) x2(1) x3(1) x4(1) x5(1) x6(1)
  show ?thesis
  proof (cases "alloc (nat (off ?c n + MINVECT_SIZE))")
    case None
    then show ?thesis using runs by (auto simp: setup_deg_off_omp_def)
  next
    case (Some s)
    have o0: "0 \<le> off ?c n" by (rule off_nonneg [OF c0])
    then have ls: "int (length s) = off ?c n + MINVECT_SIZE"
      using alloc_lawD [OF law Some] by (simp add: MINVECT_SIZE_def)
    obtain store where st: "for_up 0 (off ?c n + MINVECT_SIZE) (\<lambda>k s. wr s k (-1)) s = Some store" "length store = length s"
      using fill_range [of 0 "off ?c n + MINVECT_SIZE" s "-1"] ls by (auto simp: o0)
    have "setup_deg_off_omp om alloc IJ n xo = Some (Inr (x6, store))"
      using runs Some st(1) by (simp add: setup_deg_off_omp_def)
    moreover have "csr_ok ?c \<lparr>maxvtx = m, nv = n, xoff = x6, xadjstore = store\<rparr>"
      using n0 c0 x6 st(2) ls off_Suc [of _ ?c] by (auto simp: csr_ok_def)
    moreover have "seg \<lparr>maxvtx = m, nv = n, xoff = x6, xadjstore = store\<rparr> v = []" if "0 \<le> v" "v < n" for v
      using that x6(3,4) by (simp add: seg_def adj_part_def)
    ultimately show ?thesis by blast
  qed
qed

lemma gather_edge_omp_eq: "gather_edge_omp = gather_edge"
proof -
  have "scatter_edge_omp = scatter_edge"
    by (intro ext) (simp add: scatter_edge_omp_def scatter_edge_def atomic_at_def int64_fetch_add_def Option.bind_assoc)
  then show ?thesis unfolding gather_edge_omp_def [abs_def] gather_edge_def [abs_def] by (rule arg_cong)
qed

lemma pack_edges_omp_result:
  assumes om: "omp_law om" and ok: "csr_ok c g"
  shows "\<exists>g'. pack_edges_omp om g = Some g' \<and> csr_ok c g' \<and> nv g' = nv g \<and> maxvtx g' = maxvtx g \<and>
    (\<forall>v. 0 \<le> v \<and> v < nv g \<longrightarrow> seg g' v = remdups_adj (sort (seg g v)))"
proof -
  let ?I = "\<lambda>D g'. csr_ok c g' \<and> nv g' = nv g \<and> maxvtx g' = maxvtx g \<and>
      (\<forall>v. 0 \<le> v \<and> v < nv g \<longrightarrow> seg g' v = (if v \<in> D then remdups_adj (sort (seg g v)) else seg g v))"
  have "\<exists>g'. pack_edges_omp om g = Some g' \<and> ?I {0..<nv g} g'"
    unfolding pack_edges_omp_def
  proof (rule omp_for_inv [where I = ?I, OF om])
    fix D tid k h
    assume k: "0 \<le> k" "k < nv g" "k \<notin> D" and I: "?I D h"
    have h: "csr_ok c h" "nv h = nv g" "maxvtx h = maxvtx g"
        "\<And>v. 0 \<le> v \<Longrightarrow> v < nv g \<Longrightarrow> seg h v = (if v \<in> D then remdups_adj (sort (seg g v)) else seg g v)"
      using I by auto
    have "k < nv h" using k h(2) by simp
    from pack_vtx_result [OF h(1) k(1) this] obtain h' where
      h': "pack_vtx_edges k h = Some h'" "csr_ok c h'" "nv h' = nv h" "maxvtx h' = maxvtx h"
        "\<And>v. 0 \<le> v \<Longrightarrow> v < nv h \<Longrightarrow> seg h' v = (if v = k then remdups_adj (sort (seg h k)) else seg h v)" by blast
    have "seg h' v = (if v \<in> insert k D then remdups_adj (sort (seg g v)) else seg g v)" if "0 \<le> v" "v < nv g" for v
      using h'(5) [of v] h(2) h(4) [OF that] h(4) [OF k(1,2)] that k(3) by simp
    then show "\<exists>h'. pack_vtx_edges k h = Some h' \<and> ?I (insert k D) h'" using h'(1-4) h(2,3) by auto
  qed (use ok in auto)
  then show ?thesis by auto
qed

lemma gather_result_omp:
  assumes om: "omp_law om" and ok: "csr_ok (capacity IJ) g" "\<And>v. 0 \<le> v \<Longrightarrow> v < nv g \<Longrightarrow> seg g v = []"
    and g: "nv g = snd (find_nv IJ)" "maxvtx g = fst (find_nv IJ)"
  shows "\<exists>g'. gather_edges_omp om IJ g = Some g' \<and> graph_ok IJ g'"
proof -
  obtain ys where ys: "mset ys = mset IJ" "omp_for om (''gather_edges'', []) 0 (int (length IJ))
      (\<lambda>tid k g. rd IJ k \<bind> (\<lambda>e. gather_edge_omp e g)) g = for_each gather_edge ys g"
    using omp_for_list [OF om, of IJ "(''gather_edges'', [])" gather_edge g] gather_edge_omp_eq by auto
  note p = permuted_edges [OF ys(1)]
  have range: "get_v0_from_edge e < nv g \<and> get_v1_from_edge e < nv g" if "e \<in> set ys" for e
    using find_nv_bound [of e IJ] find_nv_snd [of IJ] g(1) that p(1) by simp
  obtain g1 where g1: "for_each gather_edge ys g = Some g1" "csr_ok (capacity IJ) g1" "nv g1 = nv g" "maxvtx g1 = maxvtx g"
       "\<forall>v. 0 \<le> v \<and> v < nv g \<longrightarrow> seg g1 v = nbr_list ys v"
    using gather_loop_result [of ys g, OF _ ok(2) range] ok(1) p(4) by auto
  obtain g2 where g2: "pack_edges_omp om g1 = Some g2" "csr_ok (capacity IJ) g2" "nv g2 = nv g1" "maxvtx g2 = maxvtx g1"
      "\<forall>v. 0 \<le> v \<and> v < nv g1 \<longrightarrow> seg g2 v = remdups_adj (sort (seg g1 v))"
    using pack_edges_omp_result [OF om g1(2)] by blast
  have "gather_edges_omp om IJ g = Some g2" using ys(2) g1(1) g2(1) by (simp add: gather_edges_omp_def)
  moreover have "graph_ok IJ g2"
    using g1 g2 g p(2) by (auto simp: graph_ok_def sorted_remdups_adj distinct_remdups_adj_sorted set_nbr_list)
  ultimately show ?thesis by blast
qed

lemma create_result_omp:
  assumes om: "omp_law om" and law: "alloc_law alloc"
  shows "(create_graph_omp om alloc IJ = Some (Inl (-1)) \<and> (\<exists>k. alloc k = None)) \<or>
    (\<exists>g. create_graph_omp om alloc IJ = Some (Inr g) \<and> graph_ok IJ g)"
proof -
  obtain m n where mn: "find_nv IJ = (m, n)" by fastforce
  have n: "n = snd (find_nv IJ)" "0 \<le> 2 * n + 2" using mn find_nv_ge [of IJ] find_nv_snd [of IJ] by auto
  have fnv: "find_nv_omp om IJ = Some (m, n)" using find_nv_omp_eq [OF om] mn by simp
  show ?thesis
  proof (cases "alloc_graph alloc n")
    case None
    then show ?thesis by (auto simp: create_graph_omp_def alloc_graph_def fnv)
  next
    case (Some xo)
    then have "int (length xo) = 2 * n + 2"
      using alloc_lawD [OF law, of "nat (2 * n + 2)" xo] n(2) by (simp add: alloc_graph_def)
    note su = setup_result_omp [OF om law this n(1), of m]
    show ?thesis
    proof (cases "setup_deg_off_omp om alloc IJ n xo = Some (Inl 1) \<and> (\<exists>k. alloc k = None)")
      case True
      then show ?thesis using Some by (simp add: create_graph_omp_def fnv)
    next
      case False
      obtain xo' store where r: "setup_deg_off_omp om alloc IJ n xo = Some (Inr (xo', store))"
        "csr_ok (capacity IJ) \<lparr>maxvtx = m, nv = n, xoff = xo', xadjstore = store\<rparr>"
        "\<forall>v. 0 \<le> v \<and> v < n \<longrightarrow> seg \<lparr>maxvtx = m, nv = n, xoff = xo', xadjstore = store\<rparr> v = []"
        using su False by (elim disjE exE conjE) (blast, rule that)
      obtain g where "gather_edges_omp om IJ \<lparr>maxvtx = m, nv = n, xoff = xo', xadjstore = store\<rparr> = Some g" "graph_ok IJ g"
        using gather_result_omp [OF om r(2)] r(3) mn by auto
      then show ?thesis using r(1) Some by (simp add: create_graph_omp_def fnv)
    qed
  qed
qed

end
