(* ===== verification/Bitmap.thy ===== *)
theory Bitmap
  imports CLoops "HOL-Library.Signed_Division"
begin

text \<open>
  The bitmaps of the OpenMP search of Graph500 (\<open>omp-csr/bitmap.h\<close>): the words between \<open>start\<close> and
  \<open>end\<close> are a list of 64-bit words; positions are \<open>long\<close>.
\<close>

subsection \<open>Definitions\<close>

type_synonym bitmap = "u64 list"

definition WORD_OFFSET :: "int \<Rightarrow> int" where
  "WORD_OFFSET n = n sdiv 64"

definition BIT_OFFSET :: "int \<Rightarrow> int" where
  "BIT_OFFSET n = n AND 0x3F"

definition bm_reset :: "bitmap \<Rightarrow> bitmap option" where
  "bm_reset bm = for_up 0 (int (length bm)) (\<lambda>it bm. wr bm it 0) bm"

definition bm_init :: "allocator \<Rightarrow> int \<Rightarrow> bitmap option" where
  "bm_init alloc sz = do {
     let num_longs = (to_int sz + 63) sdiv 64;
     start \<leftarrow> alloc (nat num_longs);
     bm_reset (map word_of_int start)
   }"

definition bm_get_bit :: "bitmap \<Rightarrow> int \<Rightarrow> u64 option" where
  "bm_get_bit bm pos = do {
     w \<leftarrow> rd bm (WORD_OFFSET pos);
     Some (w AND push_bit (nat (BIT_OFFSET pos)) 1)
   }"

text \<open>The search for a word with a bit, in the words after the current one.\<close>

fun next_word :: "u64 list \<Rightarrow> int \<Rightarrow> (u64 \<times> int) option" where
  "next_word [] pos = None"
| "next_word (w # ws) pos = (if w = 0 then next_word ws (pos + 64) else Some (w, pos + 64))"

definition lowest_bit :: "u64 \<Rightarrow> int \<Rightarrow> int option" where
  "lowest_bit temp pos = map_option snd (while_opt (\<lambda>(temp, pos). Some (temp AND 1 = 0))
     (\<lambda>(temp, pos). Some (drop_bit 1 temp, pos + 1)) (temp, pos))"

definition bm_get_next_bit :: "bitmap \<Rightarrow> int \<Rightarrow> int option" where
  "bm_get_next_bit bm pos = do {
     let bit_offset = BIT_OFFSET pos;
     let it = WORD_OFFSET pos;
     temp \<leftarrow> rd bm it;
     let temp = (if bit_offset \<noteq> 63 then drop_bit (nat (bit_offset + 1)) temp else 0);
     if temp = 0 then
       (case next_word (drop (nat (it + 1)) bm) (pos AND 0xFFFFFFC0) of
          None \<Rightarrow> Some (-1)
        | Some (temp, next_pos) \<Rightarrow> lowest_bit temp next_pos)
     else lowest_bit temp (pos + 1)
   }"

definition bm_set_bit :: "bitmap \<Rightarrow> int \<Rightarrow> bitmap option" where
  "bm_set_bit bm pos = do {
     w \<leftarrow> rd bm (WORD_OFFSET pos);
     wr bm (WORD_OFFSET pos) (w OR push_bit (nat (BIT_OFFSET pos)) 1)
   }"

text \<open>Compare and swap of one word, with whether it succeeded.\<close>

definition cas_word :: "bitmap \<Rightarrow> int \<Rightarrow> u64 \<Rightarrow> u64 \<Rightarrow> (bool \<times> bitmap) option" where
  "cas_word bm i oldval newval = do {
     w \<leftarrow> rd bm i;
     if w = oldval then do { bm \<leftarrow> wr bm i newval; Some (True, bm) } else Some (False, bm)
   }"

definition bm_set_bit_atomic :: "bitmap \<Rightarrow> int \<Rightarrow> bitmap option" where
  "bm_set_bit_atomic bm pos = do {
     (_, bm) \<leftarrow> while_opt (\<lambda>(stored, bm). Some (\<not> stored))
       (\<lambda>(stored, bm). do {
          old_val \<leftarrow> rd bm (WORD_OFFSET pos);
          let new_val = old_val OR push_bit (nat (BIT_OFFSET pos)) 1;
          cas_word bm (WORD_OFFSET pos) old_val new_val
        }) (False, bm);
     Some bm
   }"

definition bm_swap :: "bitmap \<times> bitmap \<Rightarrow> bitmap \<times> bitmap" where
  "bm_swap = (\<lambda>(a, b). (b, a))"

subsection \<open>The set of a bitmap\<close>

definition bits :: "bitmap \<Rightarrow> int set" where
  "bits bm = {p. 0 \<le> p \<and> p < 64 * int (length bm) \<and> bit (bm ! nat (p div 64)) (nat (p mod 64))}"

lemma offsets: "0 \<le> p \<Longrightarrow> WORD_OFFSET p = p div 64" "BIT_OFFSET p = p mod 64"
proof -
  show "WORD_OFFSET p = p div 64" if "0 \<le> p" using that by (cases "p = 0") (simp_all add: WORD_OFFSET_def signed_divide_int_def)
  have "p AND 0x3F = take_bit 6 p" by (simp add: take_bit_eq_mask mask_eq_exp_minus_1)
  then show "BIT_OFFSET p = p mod 64" by (simp add: BIT_OFFSET_def take_bit_eq_mod)
qed

lemma word_index: "0 \<le> p \<Longrightarrow> p < 64 * int n \<Longrightarrow> 0 \<le> p div 64 \<and> p div 64 < int n"
  by (simp add: pos_imp_zdiv_nonneg_iff div_less_iff_less_mult mult.commute)

lemma bits_iff:
  "0 \<le> p \<Longrightarrow> p < 64 * int (length bm) \<Longrightarrow> p \<in> bits bm \<longleftrightarrow> bit (bm ! nat (p div 64)) (nat (p mod 64))"
  by (simp add: bits_def)

lemma bm_get_bit_result:
  assumes "0 \<le> p" "p < 64 * int (length bm)"
  shows "\<exists>w. bm_get_bit bm p = Some w \<and> (w \<noteq> 0 \<longleftrightarrow> p \<in> bits bm)"
proof -
  have i: "0 \<le> p div 64" "p div 64 < int (length bm)" using word_index [OF assms] by auto
  have "w AND push_bit (nat (p mod 64)) 1 \<noteq> 0 \<longleftrightarrow> bit w (nat (p mod 64))" for w :: u64
    by (simp add: and_exp_eq_0_iff_not_bit push_bit_eq_mult)
  then show ?thesis using assms i by (simp add: bm_get_bit_def offsets bits_iff)
qed

lemma bm_set_bit_result:
  assumes "0 \<le> p" "p < 64 * int (length bm)"
  shows "\<exists>bm'. bm_set_bit bm p = Some bm' \<and> length bm' = length bm \<and> bits bm' = insert p (bits bm)"
proof -
  have i: "0 \<le> p div 64" "p div 64 < int (length bm)" using word_index [OF assms] by auto
  let ?w = "bm ! nat (p div 64) OR push_bit (nat (p mod 64)) 1"
  let ?bm = "bm[nat (p div 64) := ?w]"
  have "q \<in> bits ?bm \<longleftrightarrow> q = p \<or> q \<in> bits bm" if q: "0 \<le> q" "q < 64 * int (length bm)" for q
  proof (cases "q div 64 = p div 64")
    case True
    have m: "q mod 64 = p mod 64 \<longleftrightarrow> q = p" using True by (metis div_mult_mod_eq)
    have n: "nat (q mod 64) < 64" "nat (q mod 64) = nat (p mod 64) \<longleftrightarrow> q mod 64 = p mod 64" by auto
    have "bit ?w (nat (q mod 64)) \<longleftrightarrow> q = p \<or> bit (bm ! nat (p div 64)) (nat (q mod 64))"
      using n m by (auto simp: bit_simps)
    then show ?thesis using q True i by (simp add: bits_iff)
  next
    case False
    then have "nat (q div 64) \<noteq> nat (p div 64)" using q(1) assms(1) by (simp add: eq_nat_nat_iff pos_imp_zdiv_nonneg_iff)
    then show ?thesis using q False by (auto simp: bits_iff)
  qed
  then have "bits ?bm = insert p (bits bm)" using assms by (auto simp: bits_def)
  then show ?thesis using assms i by (simp add: bm_set_bit_def offsets)
qed

lemma bm_set_bit_atomic_eq:
  assumes "0 \<le> p" "p < 64 * int (length bm)"
  shows "bm_set_bit_atomic bm p = bm_set_bit bm p"
proof -
  have i: "0 \<le> p div 64" "p div 64 < int (length bm)" using word_index [OF assms] by auto
  show ?thesis
    unfolding bm_set_bit_atomic_def bm_set_bit_def
    by (subst while_opt_unfold(1)) (use i assms in \<open>simp_all add: cas_word_def offsets while_opt_unfold(2)\<close>)
qed

lemma bits_zero:
  assumes "\<And>i. 0 \<le> i \<Longrightarrow> i < int (length bm) \<Longrightarrow> bm ! nat i = 0"
  shows "bits bm = {}"
proof -
  have "p \<notin> bits bm" for p
  proof
    assume p: "p \<in> bits bm"
    then have "0 \<le> p" "p < 64 * int (length bm)" by (simp_all add: bits_def)
    from word_index [OF this] have "bm ! nat (p div 64) = 0" by (intro assms) simp_all
    with p show False by (simp add: bits_def)
  qed
  then show ?thesis by blast
qed

lemma bm_reset_result: "\<exists>bm'. bm_reset bm = Some bm' \<and> length bm' = length bm \<and> bits bm' = {}"
proof -
  have "\<exists>bm'. bm_reset bm = Some bm' \<and> length bm' = length bm \<and>
    (\<forall>i. 0 \<le> i \<and> i < int (length bm) \<longrightarrow> bm' ! nat i = (if 0 \<le> i \<and> i < int (length bm) then 0 else bm ! nat i))"
    unfolding bm_reset_def by (rule fill_range) simp_all
  then obtain bm' where b: "bm_reset bm = Some bm'" "length bm' = length bm"
    and z: "\<forall>i. 0 \<le> i \<and> i < int (length bm) \<longrightarrow> bm' ! nat i = (if 0 \<le> i \<and> i < int (length bm) then 0 else bm ! nat i)"
    by (elim exE conjE) (rule that)
  have e: "bits bm' = {}"
  proof (rule bits_zero)
    fix i assume "0 \<le> i" "i < int (length bm')"
    then show "bm' ! nat i = 0" using mp [OF spec [OF z, of i]] unfolding b(2) by simp
  qed
  show ?thesis by (intro exI [of _ bm'] conjI b e)
qed

subsection \<open>The next set bit\<close>

lemma and_one_iff: "w AND 1 = 0 \<longleftrightarrow> \<not> bit w 0" for w :: u64
  by (simp add: and_one_eq bit_0 even_iff_mod_2_eq_zero)

lemma lowest_bit_result:
  assumes "bit temp k" "\<forall>j < k. \<not> bit temp j"
  shows "lowest_bit temp pos = Some (pos + int k)"
  using assms
proof (induction k arbitrary: temp pos)
  case 0
  then show ?case by (simp add: lowest_bit_def while_opt_unfold(2) and_one_iff)
next
  case (Suc k)
  have "\<not> bit temp 0" using Suc.prems(2) by blast
  then have "lowest_bit temp pos = lowest_bit (drop_bit 1 temp) (pos + 1)"
    by (simp add: lowest_bit_def while_opt_unfold(1) and_one_iff)
  also have "\<dots> = Some (pos + 1 + int k)"
    by (rule Suc.IH) (use Suc.prems in \<open>auto simp: bit_drop_bit_eq\<close>)
  finally show ?case by simp
qed

lemma lowest_bit_exists:
  assumes "w \<noteq> (0 :: u64)"
  obtains k where "k < 64" "bit w k" "\<forall>j < k. \<not> bit w j" "\<And>pos. lowest_bit w pos = Some (pos + int k)"
proof -
  have "\<exists>k. bit w k" using assms by (metis bit_eqI bit_0_eq bot_apply bot_bool_def)
  then obtain k where k: "bit w k" "\<forall>j < k. \<not> bit w j" using exists_least_iff [of "bit w"] by blast
  moreover have "k < 64" using bit_imp_le_length [OF k(1)] by simp
  ultimately show ?thesis using that lowest_bit_result by blast
qed

lemma next_word_result:
  "case next_word ws pos of
     None \<Rightarrow> \<forall>i < length ws. ws ! i = 0
   | Some (w, p) \<Rightarrow> \<exists>i < length ws. w = ws ! i \<and> w \<noteq> 0 \<and> p = pos + 64 * int (Suc i) \<and> (\<forall>j < i. ws ! j = 0)"
proof (induction ws pos rule: next_word.induct)
  case (2 w ws pos)
  show ?case
  proof (cases "w = 0")
    case True
    show ?thesis
    proof (cases "next_word ws (pos + 64)")
      case None
      then show ?thesis using True "2.IH" by (auto simp: nth_Cons')
    next
      case (Some r)
      then obtain i where "i < length ws" "fst r = ws ! i" "fst r \<noteq> 0" "snd r = pos + 64 + 64 * int (Suc i)" "\<forall>j < i. ws ! j = 0"
        using True "2.IH" by (auto split: prod.splits)
      then show ?thesis using True Some
        by (auto simp: nth_Cons' split: prod.splits intro!: exI [of _ "Suc i"])
    qed
  qed auto
qed simp

lemma mask_pos:
  fixes pos :: int
  assumes "0 \<le> pos" "pos < 2 ^ 32"
  shows "pos AND 0xFFFFFFC0 = 64 * (pos div 64)"
proof -
  have m: "(0xFFFFFFC0 :: int) = mask 32 AND NOT (mask 6)" by (simp add: mask_eq_exp_minus_1)
  have "pos AND 0xFFFFFFC0 = take_bit 32 pos AND NOT (mask 6)" unfolding m by (simp add: take_bit_eq_mask and.assoc)
  also have "take_bit 32 pos = pos" using assms by (simp add: take_bit_int_eq_self_iff)
  also have "pos AND NOT (mask 6) = push_bit 6 (drop_bit 6 pos)" by (rule bit_eqI) (auto simp: bit_simps)
  finally show ?thesis by (simp add: push_bit_eq_mult drop_bit_eq_div)
qed

lemma bits_decomp: "q \<in> bits bm \<longleftrightarrow> (\<exists>i k. q = 64 * int i + int k \<and> i < length bm \<and> k < 64 \<and> bit (bm ! i) k)"
proof
  assume q: "q \<in> bits bm"
  then have "0 \<le> q" "q < 64 * int (length bm)" by (simp_all add: bits_def)
  from word_index [OF this] have "nat (q div 64) < length bm" by (simp add: nat_less_iff)
  moreover have "q = 64 * int (nat (q div 64)) + int (nat (q mod 64))" using \<open>0 \<le> q\<close> by (simp add: pos_imp_zdiv_nonneg_iff)
  ultimately show "\<exists>i k. q = 64 * int i + int k \<and> i < length bm \<and> k < 64 \<and> bit (bm ! i) k"
    using q by (intro exI [of _ "nat (q div 64)"] exI [of _ "nat (q mod 64)"]) (simp add: bits_def)
next
  assume "\<exists>i k. q = 64 * int i + int k \<and> i < length bm \<and> k < 64 \<and> bit (bm ! i) k"
  then obtain i k where q: "q = 64 * int i + int k" "i < length bm" "k < 64" "bit (bm ! i) k" by blast
  moreover have "q div 64 = int i" "q mod 64 = int k" using q(1,3) by simp_all
  ultimately show "q \<in> bits bm" by (simp add: bits_def)
qed

lemma drop_current:
  assumes "0 \<le> pos"
  shows "(if BIT_OFFSET pos \<noteq> 63 then drop_bit (nat (BIT_OFFSET pos + 1)) w else 0) = drop_bit (nat (pos mod 64) + 1) (w :: u64)"
proof (cases "pos mod 64 = 63")
  case True
  have "drop_bit 64 w = 0" by (rule bit_eqI) (auto simp: bit_drop_bit_eq dest: bit_imp_le_length)
  then show ?thesis using True by (simp add: offsets)
next
  case False
  have "nat (pos mod 64 + 1) = nat (pos mod 64) + 1" using assms by (simp add: nat_add_distrib)
  then show ?thesis using False by (simp add: offsets)
qed

definition next_bit_spec :: "bitmap \<Rightarrow> int \<Rightarrow> int \<Rightarrow> bool" where
  "next_bit_spec bm pos r \<longleftrightarrow>
     (r = -1 \<and> (\<forall>q \<in> bits bm. q \<le> pos)) \<or> (r \<in> bits bm \<and> pos < r \<and> (\<forall>q \<in> bits bm. q \<le> pos \<or> r \<le> q))"

lemma next_bit_same_word:
  assumes i: "i < length bm" and b: "b < 64" and k: "bit (bm ! i) (b + 1 + k)" "\<forall>j < k. \<not> bit (bm ! i) (b + 1 + j)"
  shows "next_bit_spec bm (64 * int i + int b) (64 * int i + int b + 1 + int k)"
proof -
  have l: "b + 1 + k < 64" using bit_imp_le_length [OF k(1)] by simp
  have "64 * int i + int b + 1 + int k \<in> bits bm"
    unfolding bits_decomp using i k(1) l by (intro exI [of _ i] exI [of _ "b + 1 + k"]) simp
  moreover have "q \<le> 64 * int i + int b \<or> 64 * int i + int b + 1 + int k \<le> q" if q0: "q \<in> bits bm" for q
  proof -
    obtain i' k' where q: "q = 64 * int i' + int k'" "k' < 64" "bit (bm ! i') k'" using q0 unfolding bits_decomp by blast
    consider "i' < i" | "i' = i" "k' \<le> b" | "i' = i" "b < k'" | "i < i'" by linarith
    then show ?thesis
    proof cases
      case 3
      then have "bit (bm ! i) (b + 1 + (k' - b - 1))" using q(3) by simp
      with k(2) have "\<not> k' - b - 1 < k" by blast
      then show ?thesis using 3 q(1) by linarith
    qed (use q(1,2) b l in linarith)+
  qed
  ultimately show ?thesis unfolding next_bit_spec_def by auto
qed

lemma next_bit_none:
  assumes "b < 64" "\<forall>j. b < j \<longrightarrow> \<not> bit (bm ! i) j" "\<forall>i'. i < i' \<and> i' < length bm \<longrightarrow> bm ! i' = 0"
  shows "next_bit_spec bm (64 * int i + int b) (-1)"
proof -
  have "q \<le> 64 * int i + int b" if q0: "q \<in> bits bm" for q
  proof -
    obtain i' k' where q: "q = 64 * int i' + int k'" "i' < length bm" "k' < 64" "bit (bm ! i') k'" using q0 unfolding bits_decomp by blast
    consider "i' < i" | "i' = i" "k' \<le> b" | "i' = i" "b < k'" | "i < i'" by linarith
    then show ?thesis
    proof cases
      case 3
      then show ?thesis using assms(2) q(4) by blast
    next
      case 4
      then have "bm ! i' = 0" using assms(3) q(2) by blast
      then show ?thesis using q(4) by simp
    qed (use q(1,3) assms(1) in linarith)+
  qed
  then show ?thesis unfolding next_bit_spec_def by blast
qed

lemma next_bit_later_word:
  assumes b: "b < 64" "\<forall>j. b < j \<longrightarrow> \<not> bit (bm ! i) j"
    and i: "i < n" "n < length bm" "\<forall>i'. i < i' \<and> i' < n \<longrightarrow> bm ! i' = 0"
    and k: "k < 64" "bit (bm ! n) k" "\<forall>j < k. \<not> bit (bm ! n) j"
  shows "next_bit_spec bm (64 * int i + int b) (64 * int n + int k)"
proof -
  have "64 * int n + int k \<in> bits bm" unfolding bits_decomp using i(2) k by blast
  moreover have "64 * int i + int b < 64 * int n + int k" using i(1) b(1) by linarith
  moreover have "q \<le> 64 * int i + int b \<or> 64 * int n + int k \<le> q" if q0: "q \<in> bits bm" for q
  proof -
    obtain i' k' where q: "q = 64 * int i' + int k'" "i' < length bm" "k' < 64" "bit (bm ! i') k'" using q0 unfolding bits_decomp by blast
    consider "i' < i" | "i' = i" "k' \<le> b" | "i' = i" "b < k'" | "i < i'" "i' < n" | "i' = n" "k' < k" | "i' = n" "k \<le> k'" | "n < i'" by linarith
    then show ?thesis
    proof cases
      case 3
      then show ?thesis using b(2) q(4) by blast
    next
      case 4
      then have "bm ! i' = 0" using i(3) by blast
      then show ?thesis using q(4) by simp
    next
      case 5
      then show ?thesis using k(3) q(4) by blast
    qed (use q(1,3) b(1) k(1) in linarith)+
  qed
  ultimately show ?thesis unfolding next_bit_spec_def by blast
qed

lemma bm_get_next_bit_result:
  assumes "0 \<le> pos" "pos < 64 * int (length bm)" "pos < 2 ^ 32"
  shows "\<exists>r. bm_get_next_bit bm pos = Some r \<and> next_bit_spec bm pos r"
proof -
  define i b where "i = nat (pos div 64)" and "b = nat (pos mod 64)"
  have w: "0 \<le> pos div 64" "pos div 64 < int (length bm)" using word_index [OF assms(1,2)] by auto
  have pos: "pos = 64 * int i + int b" "b < 64" "i < length bm" using w by (simp_all add: i_def b_def nat_less_iff)
  define temp where "temp = drop_bit (b + 1) (bm ! i)"
  have bt: "bit temp j \<longleftrightarrow> bit (bm ! i) (b + 1 + j)" for j by (simp add: temp_def bit_drop_bit_eq)
  have run: "bm_get_next_bit bm pos = (if temp = 0 then
       (case next_word (drop (i + 1) bm) (64 * int i) of
          None \<Rightarrow> Some (-1)
        | Some (temp, next_pos) \<Rightarrow> lowest_bit temp next_pos)
     else lowest_bit temp (pos + 1))"
    using assms(1) w unfolding bm_get_next_bit_def Let_def drop_current [OF assms(1)] mask_pos [OF assms(1,3)]
    by (simp add: offsets temp_def i_def b_def nat_add_distrib)
  show ?thesis
  proof (cases "temp = 0")
    case False
    then obtain k where k: "bit temp k" "\<forall>j < k. \<not> bit temp j" "\<And>pos. lowest_bit temp pos = Some (pos + int k)"
      using lowest_bit_exists by metis
    have "next_bit_spec bm pos (pos + 1 + int k)" unfolding pos(1)
      by (rule next_bit_same_word) (use pos k(1,2) in \<open>simp_all add: bt\<close>)
    then show ?thesis using run False k(3) by simp
  next
    case True
    have z: "\<forall>j. b < j \<longrightarrow> \<not> bit (bm ! i) j"
    proof (intro allI impI)
      fix j assume "b < j"
      then have "bit (bm ! i) j = bit temp (j - b - 1)" by (simp add: bt)
      then show "\<not> bit (bm ! i) j" using True by simp
    qed
    note nw = next_word_result [of "drop (i + 1) bm" "64 * int i"]
    show ?thesis
    proof (cases "next_word (drop (i + 1) bm) (64 * int i)")
      case None
      have "bm ! i' = 0" if "i < i'" "i' < length bm" for i'
        using nw None that by (auto dest!: spec [of _ "i' - i - 1"])
      then have "next_bit_spec bm pos (-1)" unfolding pos(1) by (intro next_bit_none pos z) blast
      then show ?thesis using run True None by simp
    next
      case (Some r)
      obtain d where d: "d < length (drop (i + 1) bm)" "fst r = bm ! (i + 1 + d)" "fst r \<noteq> 0" "snd r = 64 * int i + 64 * int (Suc d)"
        and dz: "\<forall>j < d. bm ! (i + 1 + j) = 0"
        using nw Some by (auto split: prod.splits)
      obtain k where k: "k < 64" "bit (fst r) k" "\<forall>j < k. \<not> bit (fst r) j" "\<And>pos. lowest_bit (fst r) pos = Some (pos + int k)"
        using lowest_bit_exists [OF d(3)] by metis
      have "bm ! i' = 0" if "i < i'" "i' < i + 1 + d" for i'
        using dz [rule_format, of "i' - i - 1"] that by simp
      then have "next_bit_spec bm (64 * int i + int b) (64 * int (i + 1 + d) + int k)"
        using d(1) k(2,3) unfolding d(2) by (intro next_bit_later_word pos z k(1)) auto
      moreover have "bm_get_next_bit bm pos = Some (64 * int (i + 1 + d) + int k)"
        using run True Some k(4) d(4) by (simp add: case_prod_beta)
      ultimately show ?thesis using pos(1) by simp
    qed
  qed
qed

lemma bm_init_result:
  assumes "alloc_law alloc" "0 \<le> sz" "sz < 2 ^ 31 - 63" "alloc (nat ((sz + 63) div 64)) = Some start"
  shows "\<exists>bm. bm_init alloc sz = Some bm \<and> bits bm = {} \<and> int (length bm) = (sz + 63) div 64 \<and> sz \<le> 64 * int (length bm)"
proof -
  have n: "(to_int sz + 63) sdiv 64 = (sz + 63) div 64"
    using assms(2,3) offsets(1) [of "sz + 63"] by (simp add: to_int_small WORD_OFFSET_def)
  obtain bm where bm: "bm_reset (map word_of_int start) = Some bm" "length bm = length start" "bits bm = {}"
    using bm_reset_result [of "map word_of_int start"] by auto
  have l: "int (length bm) = (sz + 63) div 64"
    using alloc_lawD [OF assms(1,4)] bm(2) assms(2) by (simp add: pos_imp_zdiv_nonneg_iff)
  have "sz \<le> 64 * ((sz + 63) div 64)" by linarith
  then show ?thesis using bm l assms(4) n by (simp add: bm_init_def)
qed

text \<open>
  C24: From any position of the bitmap below 2 to the 32, the search for the next set bit returns the
  smallest set position behind it, or -1 if there is none.
\<close>

theorem next_bit_correct:
  assumes "0 \<le> pos" "pos < 64 * int (length bm)" "pos < 2 ^ 32"
  shows "\<exists>r. bm_get_next_bit bm pos = Some r \<and>
    ((r = -1 \<and> (\<forall>q \<in> bits bm. q \<le> pos)) \<or> (r \<in> bits bm \<and> pos < r \<and> (\<forall>q \<in> bits bm. q \<le> pos \<or> r \<le> q)))"
  using bm_get_next_bit_result [OF assms] unfolding next_bit_spec_def .

theorem next_bit_correct_witness:
  "\<exists>r. bm_get_next_bit [8, 0, 5] 3 = Some r \<and>
    ((r = -1 \<and> (\<forall>q \<in> bits [8, 0, 5]. q \<le> 3)) \<or>
     (r \<in> bits [8, 0, 5] \<and> 3 < r \<and> (\<forall>q \<in> bits [8, 0, 5]. q \<le> 3 \<or> r \<le> q)))"
  using next_bit_correct [of 3 "[8, 0, 5]"] by simp

end
