(* ===== verification/Levels.thy ===== *)
theory Levels
  imports Bfs
begin

text \<open>
  Breadth-first search by levels in the abstract: a step gives every undiscovered neighbour of the
  current level some parent in the level.  Which parent, and in which order, does not matter for the
  result; this is the specification of the parallel searches.
\<close>

subsection \<open>Levels\<close>

definition frontier :: "(int \<Rightarrow> int set) \<Rightarrow> int \<Rightarrow> nat \<Rightarrow> int set" where
  "frontier E r d = {v. reachable E r v \<and> hops E r v = d}"

definition level_inv :: "(int \<Rightarrow> int set) \<Rightarrow> int \<Rightarrow> int \<Rightarrow> nat \<Rightarrow> int list \<Rightarrow> bool" where
  "level_inv E r nv d tree \<longleftrightarrow> nv \<le> int (length tree) \<and> 0 \<le> r \<and> r < nv \<and> tree ! nat r = r \<and>
     (\<forall>v. 0 \<le> v \<and> v < nv \<longrightarrow> (tree ! nat v \<noteq> -1 \<longleftrightarrow> reachable E r v \<and> hops E r v \<le> d)) \<and>
     (\<forall>v. 0 \<le> v \<and> v < nv \<and> v \<noteq> r \<and> tree ! nat v \<noteq> -1 \<longrightarrow>
        reachable E r (tree ! nat v) \<and> v \<in> E (tree ! nat v) \<and> hops E r v = Suc (hops E r (tree ! nat v)))"

text \<open>The vertices that the next level has to discover.\<close>

definition next_level :: "(int \<Rightarrow> int set) \<Rightarrow> int \<Rightarrow> int list \<Rightarrow> int set \<Rightarrow> int set" where
  "next_level E nv tree F = {v. 0 \<le> v \<and> v < nv \<and> tree ! nat v = -1 \<and> (\<exists>u \<in> F. v \<in> E u)}"

definition level_step :: "(int \<Rightarrow> int set) \<Rightarrow> int \<Rightarrow> int set \<Rightarrow> int list \<Rightarrow> int list \<Rightarrow> bool" where
  "level_step E nv F tree tree' \<longleftrightarrow> length tree' = length tree \<and>
     (\<forall>v. 0 \<le> v \<and> v < nv \<longrightarrow>
        (if v \<in> next_level E nv tree F then tree' ! nat v \<in> F \<and> v \<in> E (tree' ! nat v)
         else tree' ! nat v = tree ! nat v))"

lemma reachable_bounds:
  assumes "reachable E r v" "0 \<le> r" "r < nv" "\<And>u. E u \<subseteq> {0..<nv}"
  shows "0 \<le> v \<and> v < nv"
proof -
  have "v \<in> {0..<nv}"
    by (rule reachable_closed [OF assms(1)]) (use assms(2,3) in simp, use assms(4) in blast)
  then show ?thesis by simp
qed

lemma level_discovered:
  assumes "level_inv E r nv d tree" "0 \<le> v" "v < nv"
  shows "tree ! nat v \<noteq> -1 \<longleftrightarrow> reachable E r v \<and> hops E r v \<le> d"
  using assms unfolding level_inv_def by blast

lemma frontier_range:
  assumes "level_inv E r nv d tree" "\<And>u. E u \<subseteq> {0..<nv}"
  shows "frontier E r k \<subseteq> {0..<nv}"
proof
  fix v assume "v \<in> frontier E r k"
  then have "reachable E r v" by (simp add: frontier_def)
  from reachable_bounds [OF this _ _ assms(2)] assms(1) show "v \<in> {0..<nv}" by (simp add: level_inv_def)
qed

lemma level_inv_init:
  assumes "0 \<le> r" "r < nv" "nv \<le> int (length tree)"
    "\<And>i. 0 \<le> i \<Longrightarrow> i < nv \<Longrightarrow> tree ! nat i = (if i = r then r else -1)"
  shows "level_inv E r nv 0 tree" "frontier E r 0 = {r}"
  using assms hops_0 [of E r] by (auto simp: level_inv_def frontier_def)

lemma next_level_frontier:
  assumes inv: "level_inv E r nv d tree" and E: "\<And>u. E u \<subseteq> {0..<nv}"
  shows "next_level E nv tree (frontier E r d) = frontier E r (Suc d)"
proof
  show "next_level E nv tree (frontier E r d) \<subseteq> frontier E r (Suc d)"
  proof
    fix v assume "v \<in> next_level E nv tree (frontier E r d)"
    then obtain u where u: "reachable E r u" "hops E r u = d" "v \<in> E u" and v: "0 \<le> v" "v < nv" "tree ! nat v = -1"
      by (auto simp: next_level_def frontier_def)
    have "reachable E r v" "hops E r v \<le> Suc d" using reachable_step [OF u(1,3)] hops_step [OF u(1,3)] u(2) by auto
    moreover have "\<not> hops E r v \<le> d" using level_discovered [OF inv v(1,2)] v(3) \<open>reachable E r v\<close> by simp
    ultimately show "v \<in> frontier E r (Suc d)" by (simp add: frontier_def)
  qed
  show "frontier E r (Suc d) \<subseteq> next_level E nv tree (frontier E r d)"
  proof
    fix v assume v: "v \<in> frontier E r (Suc d)"
    then have d: "reachable E r v" "hops E r v = Suc d" by (simp_all add: frontier_def)
    from hops_pred [OF this] obtain u where u: "reachable E r u" "hops E r u = d" "v \<in> E u" by blast
    have b: "0 \<le> v" "v < nv" using subsetD [OF frontier_range [OF inv E] v] by auto
    have "tree ! nat v = -1" using level_discovered [OF inv b] d by simp
    then show "v \<in> next_level E nv tree (frontier E r d)"
      using u b unfolding next_level_def frontier_def by blast
  qed
qed

lemma level_inv_step:
  assumes inv: "level_inv E r nv d tree" and E: "\<And>u. E u \<subseteq> {0..<nv}"
    and step: "level_step E nv (frontier E r d) tree tree'"
  shows "level_inv E r nv (Suc d) tree'"
proof -
  note nx = next_level_frontier [OF inv E]
  have len: "nv \<le> int (length tree')" using inv step by (simp add: level_inv_def level_step_def)
  have new: "tree' ! nat v \<in> frontier E r d \<and> v \<in> E (tree' ! nat v)" if "v \<in> frontier E r (Suc d)" for v
    using step subsetD [OF frontier_range [OF inv E] that] that by (simp add: level_step_def nx)
  have old: "tree' ! nat v = tree ! nat v" if "0 \<le> v" "v < nv" "v \<notin> frontier E r (Suc d)" for v
    using step that by (simp add: level_step_def nx)
  have parent: "0 \<le> u" if "u \<in> frontier E r d" for u using frontier_range [OF inv E, of d] that by auto
  have iff: "tree' ! nat v \<noteq> -1 \<longleftrightarrow> reachable E r v \<and> hops E r v \<le> Suc d" if v: "0 \<le> v" "v < nv" for v
  proof (cases "v \<in> frontier E r (Suc d)")
    case True
    then have "0 \<le> tree' ! nat v" using new parent by blast
    then show ?thesis using True by (auto simp: frontier_def)
  next
    case False
    then show ?thesis using old [OF v False] inv v by (auto simp: level_inv_def frontier_def le_Suc_eq)
  qed
  have tree: "reachable E r (tree' ! nat v) \<and> v \<in> E (tree' ! nat v) \<and> hops E r v = Suc (hops E r (tree' ! nat v))"
    if v: "0 \<le> v" "v < nv" "v \<noteq> r" "tree' ! nat v \<noteq> -1" for v
  proof (cases "v \<in> frontier E r (Suc d)")
    case True
    then show ?thesis using new [OF True] by (auto simp: frontier_def)
  next
    case False
    then show ?thesis using old [OF v(1,2) False] inv v by (auto simp: level_inv_def)
  qed
  have "r \<notin> frontier E r (Suc d)" by (simp add: frontier_def)
  then have "tree' ! nat r = r" using old [of r] inv by (auto simp: level_inv_def)
  then show ?thesis unfolding level_inv_def using len iff tree inv by (auto simp: level_inv_def)
qed

lemma frontier_empty:
  assumes "frontier E r d = {}" "reachable E r v"
  shows "hops E r v < d"
proof (rule ccontr)
  assume "\<not> hops E r v < d"
  then have "\<exists>w. reachable E r w \<and> hops E r w = hops E r v - k" if "k \<le> hops E r v - d" for k
    using that
  proof (induction k)
    case 0
    then show ?case using assms(2) by auto
  next
    case (Suc k)
    then obtain w where w: "reachable E r w" "hops E r w = hops E r v - k" by auto
    then have "hops E r w = Suc (hops E r v - Suc k)" using Suc.prems by simp
    with hops_pred [OF w(1) this] show ?case by blast
  qed
  from this [of "hops E r v - d"] assms(1) \<open>\<not> hops E r v < d\<close> show False by (auto simp: frontier_def)
qed

lemma level_inv_done:
  assumes inv: "level_inv E r nv d tree" and fin: "frontier E r d = {} \<or> frontier E r (Suc d) = {}"
    and E: "\<And>u. E u \<subseteq> {0..<nv}"
  shows "bfs_tree_of E r nv tree"
proof -
  have all: "hops E r v \<le> d" if "reachable E r v" for v
    using fin frontier_empty [OF _ that, of d] frontier_empty [OF _ that, of "Suc d"] by auto
  show ?thesis
    unfolding bfs_tree_of_def
  proof (intro conjI allI impI)
    fix v assume v: "0 \<le> v \<and> v < nv"
    then have iff: "tree ! nat v \<noteq> -1 \<longleftrightarrow> reachable E r v" using level_discovered [OF inv] all [of v] by blast
    have parent: "v \<noteq> r \<Longrightarrow> reachable E r v \<Longrightarrow> reachable E r (tree ! nat v) \<and> v \<in> E (tree ! nat v) \<and>
        hops E r v = Suc (hops E r (tree ! nat v))" using inv v iff unfolding level_inv_def by blast
    have "tree ! nat r = r" "\<not> reachable E r v \<Longrightarrow> tree ! nat v < 0" using inv iff unfolding level_inv_def by auto
    with iff parent show "if v = r then tree ! nat v = r
         else if reachable E r v then
           v \<in> E (tree ! nat v) \<and> reachable E r (tree ! nat v) \<and> hops E r v = Suc (hops E r (tree ! nat v))
         else tree ! nat v < 0" by simp
  qed (use inv in \<open>simp add: level_inv_def\<close>)
qed

text \<open>The search ends: every level that is not empty discovers a vertex.\<close>

definition undiscovered :: "int \<Rightarrow> int list \<Rightarrow> nat" where
  "undiscovered nv tree = card {v. 0 \<le> v \<and> v < nv \<and> tree ! nat v = -1}"

lemma undiscovered_less:
  assumes inv: "level_inv E r nv d tree" and inv': "level_inv E r nv d' tree'" and "d \<le> d'"
    and F: "v \<in> frontier E r d'" "d < d'" and E: "\<And>u. E u \<subseteq> {0..<nv}"
  shows "undiscovered nv tree' < undiscovered nv tree"
  unfolding undiscovered_def
proof (rule psubset_card_mono)
  show "finite {v. 0 \<le> v \<and> v < nv \<and> tree ! nat v = -1}"
    by (rule finite_subset [of _ "{0..<nv}"]) auto
  have "v \<in> {0..<nv}" using frontier_range [OF inv E] F(1) by blast
  have disc: "tree ! nat w \<noteq> -1 \<longleftrightarrow> reachable E r w \<and> hops E r w \<le> d"
      "tree' ! nat w \<noteq> -1 \<longleftrightarrow> reachable E r w \<and> hops E r w \<le> d'" if "0 \<le> w" "w < nv" for w
    using level_discovered [OF inv that] level_discovered [OF inv' that] by simp_all
  have "tree ! nat v = -1" "tree' ! nat v \<noteq> -1" using disc [of v] \<open>v \<in> {0..<nv}\<close> F by (auto simp: frontier_def)
  moreover have "tree ! nat w = -1" if "0 \<le> w" "w < nv" "tree' ! nat w = -1" for w
    using disc [OF that(1,2)] that(3) \<open>d \<le> d'\<close> by auto
  ultimately show "{v. 0 \<le> v \<and> v < nv \<and> tree' ! nat v = -1} \<subset> {v. 0 \<le> v \<and> v < nv \<and> tree ! nat v = -1}"
    using \<open>v \<in> {0..<nv}\<close> by auto
qed

lemma level_measure:
  assumes inv: "level_inv E r nv d tree" and inv': "level_inv E r nv d' tree'" and "d < d'" and E: "\<And>u. E u \<subseteq> {0..<nv}"
  shows "undiscovered nv tree' + of_bool (card (frontier E r d') \<noteq> 0) < undiscovered nv tree + 1"
proof (cases "frontier E r d' = {}")
  case True
  have fin: "finite {v. 0 \<le> v \<and> v < nv \<and> tree ! nat v = -1}"
    by (rule finite_subset [of _ "{0..<nv}"]) auto
  have "tree ! nat v = -1" if "0 \<le> v" "v < nv" "tree' ! nat v = -1" for v
    using level_discovered [OF inv that(1,2)] level_discovered [OF inv' that(1,2)] that(3) \<open>d < d'\<close> by auto
  then have "undiscovered nv tree' \<le> undiscovered nv tree" unfolding undiscovered_def by (intro card_mono [OF fin]) auto
  then show ?thesis using True by simp
next
  case False
  then obtain v where "v \<in> frontier E r d'" by blast
  from undiscovered_less [OF inv inv' _ this \<open>d < d'\<close> E] \<open>d < d'\<close> show ?thesis by simp
qed

end
