(* ===== verification/OmpBfs.thy ===== *)
theory OmpBfs
  imports OmpCsr Bitmap Levels
begin

text \<open>
  The search by a team of threads (\<open>omp-csr/omp-csr.c\<close>): levels are expanded from the queue of
  discovered vertices, with a buffer per thread (top-down), or by looking for a parent of every
  undiscovered vertex in a bitmap of the current level (bottom-up), whichever seems cheaper.  For every
  schedule the result is a breadth-first tree.
\<close>

subsection \<open>Definitions\<close>

definition THREAD_BUF_LEN :: int where
  "THREAD_BUF_LEN = 16384"

definition ALPHA :: int where
  "ALPHA = 14"

definition BETA :: int where
  "BETA = 24"

definition fill_bitmap_from_queue :: "omp \<Rightarrow> bitmap \<Rightarrow> int list \<Rightarrow> int \<Rightarrow> int \<Rightarrow> bitmap option" where
  "fill_bitmap_from_queue om bm vlist k1 k2 = omp_for om (''fill_bitmap'', vlist) k1 k2 (\<lambda>tid q_index bm. do {
     v \<leftarrow> rd vlist q_index;
     bm_set_bit_atomic bm v
   }) bm"

text \<open>
  What a thread does to fill the queue: the vertices of its part of the bitmap are collected in its
  buffer, which is copied to the queue when it is full and at the end.
\<close>

definition take_vertex ::
    "bitmap \<Rightarrow> int \<times> int list \<times> int \<times> int list \<times> int \<Rightarrow> (int \<times> int list \<times> int \<times> int list \<times> int) option" where
  "take_vertex bm = (\<lambda>(i, vlist, k2, local, local_index). do {
     local \<leftarrow> wr local local_index i;
     let local_index = local_index + 1;
     i \<leftarrow> bm_get_next_bit bm i;
     if local_index = THREAD_BUF_LEN then do {
       let (my_in, k2) = int64_fetch_add k2 THREAD_BUF_LEN;
       vlist \<leftarrow> copy_block THREAD_BUF_LEN local (to_int my_in) vlist;
       Some (i, vlist, k2, local, 0)
     } else Some (i, vlist, k2, local, local_index)
   })"

definition take_part ::
    "bitmap \<Rightarrow> int \<Rightarrow> int \<Rightarrow> int list \<times> int \<times> int list \<Rightarrow> (int list \<times> int \<times> int list \<times> int) option" where
  "take_part bm i i_end = (\<lambda>(vlist, k2, local). do {
     w \<leftarrow> bm_get_bit bm i;
     (local, local_index) \<leftarrow> (if w \<noteq> 0 then do { local \<leftarrow> wr local 0 i; Some (local, 1) } else Some (local, 0));
     i \<leftarrow> bm_get_next_bit bm i;
     (i, s) \<leftarrow> while_opt (\<lambda>(i, s). Some (i \<noteq> -1 \<and> i < i_end)) (take_vertex bm) (i, vlist, k2, local, local_index);
     Some s
   })"

definition fill_queue_thread ::
    "int \<Rightarrow> int \<Rightarrow> bitmap \<Rightarrow> nat \<Rightarrow> int list \<times> int \<times> int list list \<Rightarrow> (int list \<times> int \<times> int list list) option" where
  "fill_queue_thread n nt bm tid = (\<lambda>(vlist, k2, nbuf). do {
     local \<leftarrow> rd nbuf (int tid);
     let nodes_per_thread = (n + nt - 1) sdiv nt;
     let i = nodes_per_thread * int tid;
     (vlist, k2, local, local_index) \<leftarrow> (if i < n then
         (let i_end = i + nodes_per_thread in
          take_part bm i (if i_end \<ge> n then n else i_end) (vlist, k2, local))
       else Some (vlist, k2, local, 0));
     let (my_in, k2) = int64_fetch_add k2 local_index;
     vlist \<leftarrow> copy_block local_index local (to_int my_in) vlist;
     nbuf \<leftarrow> wr nbuf (int tid) local;
     Some (vlist, k2, nbuf)
   })"

text \<open>The result has the new bounds of the level in the queue.\<close>

definition fill_queue_from_bitmap ::
    "omp \<Rightarrow> int \<Rightarrow> bitmap \<Rightarrow> int list \<Rightarrow> int list list \<Rightarrow> (int list \<times> int \<times> int \<times> int list list) option" where
  "fill_queue_from_bitmap om n bm vlist nbuf = do {
     let k1 = 0;
     (vlist, k2, nbuf) \<leftarrow> omp_each om (''fill_queue'', vlist) (fill_queue_thread n (int (num_threads om)) bm) (vlist, 0, nbuf);
     Some (vlist, k1, k2, nbuf)
   }"

definition bottom_up_vertex :: "csr \<Rightarrow> bitmap \<Rightarrow> int \<Rightarrow> int list \<times> bitmap \<times> int \<Rightarrow> (int list \<times> bitmap \<times> int) option" where
  "bottom_up_vertex g past i = (\<lambda>(bfs_tree, next_bm, awake_count). do {
     t \<leftarrow> rd bfs_tree i;
     if t = -1 then do {
       lo \<leftarrow> rd (xoff g) (2 * i);
       hi \<leftarrow> rd (xoff g) (1 + 2 * i);
       for_break (\<lambda>vo (bfs_tree, next_bm, awake_count). do {
         j \<leftarrow> rd_xadj (xadjstore g) vo;
         w \<leftarrow> bm_get_bit past j;
         if w \<noteq> 0 then do {
           bfs_tree \<leftarrow> wr bfs_tree i j;
           next_bm \<leftarrow> bm_set_bit_atomic next_bm i;
           Some (True, bfs_tree, next_bm, awake_count + 1)
         } else Some (False, bfs_tree, next_bm, awake_count)
       }) [lo..hi - 1] (bfs_tree, next_bm, awake_count)
     } else Some (bfs_tree, next_bm, awake_count)
   })"

definition bfs_bottom_up_step ::
    "omp \<Rightarrow> csr \<Rightarrow> int list \<times> bitmap \<times> bitmap \<Rightarrow> (int \<times> int list \<times> bitmap \<times> bitmap) option" where
  "bfs_bottom_up_step om g = (\<lambda>(bfs_tree, past, next_bm). do {
     let (past, next_bm) = bm_swap (past, next_bm);
     next_bm \<leftarrow> bm_reset next_bm;
     (bfs_tree, next_bm, awake_count) \<leftarrow>
       omp_for om (''bottom_up'', bfs_tree) 0 (nv g) (\<lambda>tid. bottom_up_vertex g past) (bfs_tree, next_bm, 0);
     Some (awake_count, bfs_tree, past, next_bm)
   })"

text \<open>
  The shared part of the queue, and the buffers of the threads with their fill levels.
\<close>

type_synonym pqueue = "int list \<times> int \<times> int list list \<times> int list"

definition flush_buf :: "int \<Rightarrow> int \<Rightarrow> int list \<Rightarrow> int list \<times> int \<Rightarrow> (int list \<times> int) option" where
  "flush_buf n kbuf local = (\<lambda>(vlist, k2). do {
     let (voff, k2) = int64_fetch_add k2 kbuf;
     assert_opt (voff + kbuf \<le> n);
     vlist \<leftarrow> copy_block kbuf local voff vlist;
     Some (vlist, k2)
   })"

definition push_vertex :: "int \<Rightarrow> nat \<Rightarrow> int \<Rightarrow> pqueue \<Rightarrow> pqueue option" where
  "push_vertex n tid j = (\<lambda>(vlist, k2, nbuf, kbufs). do {
     local \<leftarrow> rd nbuf (int tid);
     kbuf \<leftarrow> rd kbufs (int tid);
     if kbuf < THREAD_BUF_LEN then do {
       local \<leftarrow> wr local kbuf j;
       nbuf \<leftarrow> wr nbuf (int tid) local;
       kbufs \<leftarrow> wr kbufs (int tid) (kbuf + 1);
       Some (vlist, k2, nbuf, kbufs)
     } else do {
       (vlist, k2) \<leftarrow> flush_buf n THREAD_BUF_LEN local (vlist, k2);
       local \<leftarrow> wr local 0 j;
       nbuf \<leftarrow> wr nbuf (int tid) local;
       kbufs \<leftarrow> wr kbufs (int tid) 1;
       Some (vlist, k2, nbuf, kbufs)
     }
   })"

definition top_down_edge :: "int \<Rightarrow> nat \<Rightarrow> int \<Rightarrow> int \<Rightarrow> int list \<times> pqueue \<Rightarrow> (int list \<times> pqueue) option" where
  "top_down_edge n tid v j = (\<lambda>(bfs_tree, q). do {
     t \<leftarrow> rd bfs_tree j;
     if t = -1 then do {
       (won, bfs_tree) \<leftarrow> atomic_at (\<lambda>p. int64_cas p (-1) v) bfs_tree j;
       if won then do {
         q \<leftarrow> push_vertex n tid j q;
         Some (bfs_tree, q)
       } else Some (bfs_tree, q)
     } else Some (bfs_tree, q)
   })"

definition top_down_vertex :: "csr \<Rightarrow> nat \<Rightarrow> int \<Rightarrow> int list \<times> pqueue \<Rightarrow> (int list \<times> pqueue) option" where
  "top_down_vertex g tid k = (\<lambda>(bfs_tree, vlist, q). do {
     v \<leftarrow> rd vlist k;
     veo \<leftarrow> rd (xoff g) (1 + 2 * v);
     vo \<leftarrow> rd (xoff g) (2 * v);
     for_up vo veo (\<lambda>vo s. rd_xadj (xadjstore g) vo \<bind> (\<lambda>j. top_down_edge (nv g) tid v j s)) (bfs_tree, vlist, q)
   })"

definition bfs_top_down_step ::
    "omp \<Rightarrow> csr \<Rightarrow> int list \<times> int list \<times> int list list \<times> int \<times> int \<Rightarrow>
     (int list \<times> int list \<times> int list list \<times> int \<times> int) option" where
  "bfs_top_down_step om g = (\<lambda>(bfs_tree, vlist, nbuf, k1, k2). do {
     let oldk2 = k2;
     let kbufs = replicate (num_threads om) 0;
     (bfs_tree, vlist, k2, nbuf, kbufs) \<leftarrow>
       omp_for om (''top_down'', bfs_tree) k1 oldk2 (top_down_vertex g) (bfs_tree, vlist, k2, nbuf, kbufs);
     (vlist, k2) \<leftarrow> omp_each om (''top_down'', bfs_tree) (\<lambda>tid (vlist, k2). do {
         kbuf \<leftarrow> rd kbufs (int tid);
         local \<leftarrow> rd nbuf (int tid);
         if kbuf \<noteq> 0 then flush_buf (nv g) kbuf local (vlist, k2) else Some (vlist, k2)
       }) (vlist, k2);
     Some (bfs_tree, vlist, nbuf, oldk2, k2)
   })"

definition count_scout :: "omp \<Rightarrow> csr \<Rightarrow> int list \<Rightarrow> int \<Rightarrow> int \<Rightarrow> int option" where
  "count_scout om g vlist k1 k2 = omp_for om (''scout'', vlist) k1 k2 (\<lambda>tid i scout_count. do {
     v \<leftarrow> rd vlist i;
     hi \<leftarrow> rd (xoff g) (1 + 2 * v);
     lo \<leftarrow> rd (xoff g) (2 * v);
     Some (scout_count + (hi - lo))
   }) 0"

text \<open>
  The variables of the search.  The private variables \<open>awake_count\<close> and \<open>edges_to_check\<close> have the same
  value in every thread.
\<close>

record search =
  s_tree :: "int list"
  s_vlist :: "int list"
  s_k1 :: int
  s_k2 :: int
  s_past :: bitmap
  s_next :: bitmap
  s_nbuf :: "int list list"
  s_scout :: int
  s_awake :: int
  s_edges :: int

definition top_down_phase :: "omp \<Rightarrow> csr \<Rightarrow> search \<Rightarrow> search option" where
  "top_down_phase om g s = do {
     (bfs_tree, vlist, nbuf, k1, k2) \<leftarrow> bfs_top_down_step om g (s_tree s, s_vlist s, s_nbuf s, s_k1 s, s_k2 s);
     Some (s\<lparr>s_tree := bfs_tree, s_vlist := vlist, s_nbuf := nbuf, s_k1 := k1, s_k2 := k2,
       s_edges := s_edges s - s_scout s, s_awake := k2 - k1\<rparr>)
   }"

definition bottom_up_phase :: "omp \<Rightarrow> csr \<Rightarrow> int \<Rightarrow> search \<Rightarrow> search option" where
  "bottom_up_phase om g down_cutoff s = do {
     next_bm \<leftarrow> fill_bitmap_from_queue om (s_next s) (s_vlist s) (s_k1 s) (s_k2 s);
     r \<leftarrow> bfs_bottom_up_step om g (s_tree s, s_past s, next_bm);
     (awake_count, bfs_tree, past, next_bm) \<leftarrow> while_opt (\<lambda>(awake_count, r). Some (awake_count > down_cutoff))
       (\<lambda>(awake_count, r). bfs_bottom_up_step om g r) r;
     (vlist, k1, k2, nbuf) \<leftarrow> fill_queue_from_bitmap om (nv g) next_bm (s_vlist s) (s_nbuf s);
     Some (s\<lparr>s_tree := bfs_tree, s_past := past, s_next := next_bm, s_awake := awake_count,
       s_vlist := vlist, s_nbuf := nbuf, s_k1 := k1, s_k2 := k2\<rparr>)
   }"

definition search_round :: "omp \<Rightarrow> csr \<Rightarrow> int \<Rightarrow> search \<Rightarrow> search option" where
  "search_round om g down_cutoff s = do {
     s \<leftarrow> (if s_scout s < (s_edges s - s_scout s) sdiv ALPHA then top_down_phase om g s
           else bottom_up_phase om g down_cutoff s);
     scout_count \<leftarrow> count_scout om g (s_vlist s) (s_k1 s) (s_k2 s);
     Some (s\<lparr>s_scout := scout_count\<rparr>)
   }"

definition make_bfs_tree_omp ::
    "omp \<Rightarrow> allocator \<Rightarrow> csr \<Rightarrow> int list \<Rightarrow> int \<Rightarrow> (int \<times> int \<times> int list) option" where
  "make_bfs_tree_omp om alloc g bfs_tree_out srcvtx =
    (case alloc (nat (nv g)) of
       None \<Rightarrow> Some (-1, maxvtx g, bfs_tree_out)
     | Some vlist \<Rightarrow> do {
         vlist \<leftarrow> wr vlist 0 srcvtx;
         bfs_tree \<leftarrow> wr bfs_tree_out srcvtx srcvtx;
         past \<leftarrow> bm_init (omp_malloc om) (nv g);
         next_bm \<leftarrow> bm_init (omp_malloc om) (nv g);
         let down_cutoff = nv g sdiv BETA;
         hi \<leftarrow> rd (xoff g) (1 + 2 * srcvtx);
         lo \<leftarrow> rd (xoff g) (2 * srcvtx);
         edges_to_check \<leftarrow> rd (xoff g) (2 * nv g);
         bfs_tree \<leftarrow> omp_for om (''clear'', []) 0 srcvtx (\<lambda>tid k t. wr t k (-1)) bfs_tree;
         bfs_tree \<leftarrow> omp_for om (''clear'', []) (srcvtx + 1) (nv g) (\<lambda>tid k t. wr t k (-1)) bfs_tree;
         s \<leftarrow> while_opt (\<lambda>s. Some (s_awake s \<noteq> 0)) (search_round om g down_cutoff)
           \<lparr>s_tree = bfs_tree, s_vlist = vlist, s_k1 = 0, s_k2 = 1, s_past = past, s_next = next_bm,
            s_nbuf = replicate (num_threads om) (omp_stack om (nat THREAD_BUF_LEN)),
            s_scout = hi - lo, s_awake = 1, s_edges = edges_to_check\<rparr>;
         Some (0, maxvtx g, s_tree s)
       })"

subsection \<open>The queue with buffers\<close>

definition queue_wf :: "int \<Rightarrow> nat \<Rightarrow> pqueue \<Rightarrow> bool" where
  "queue_wf n nt = (\<lambda>(vlist, k2, nbuf, kbufs). int (length vlist) = n \<and> 0 \<le> k2 \<and> k2 \<le> n \<and>
     length nbuf = nt \<and> length kbufs = nt \<and>
     (\<forall>i < nt. int (length (nbuf ! i)) = THREAD_BUF_LEN \<and> 0 \<le> kbufs ! i \<and> kbufs ! i \<le> THREAD_BUF_LEN))"

text \<open>The vertices in the shared part and in the buffers of some of the threads.\<close>

definition in_buffers :: "nat set \<Rightarrow> int list list \<Rightarrow> int list \<Rightarrow> int multiset" where
  "in_buffers A nbuf kbufs = (\<Sum>i \<in> A. mset (take (nat (kbufs ! i)) (nbuf ! i)))"

definition held :: "nat set \<Rightarrow> pqueue \<Rightarrow> int multiset" where
  "held A = (\<lambda>(vlist, k2, nbuf, kbufs). mset (take (nat k2) vlist) + in_buffers A nbuf kbufs)"

lemma in_buffers_update:
  assumes "finite A" "tid \<in> A" "tid < length nbuf" "tid < length kbufs"
  shows "in_buffers A (nbuf[tid := l]) (kbufs[tid := k]) + mset (take (nat (kbufs ! tid)) (nbuf ! tid)) =
    in_buffers A nbuf kbufs + mset (take (nat k) l)"
proof -
  have "(\<Sum>i \<in> A - {tid}. mset (take (nat (kbufs[tid := k] ! i)) (nbuf[tid := l] ! i))) =
    (\<Sum>i \<in> A - {tid}. mset (take (nat (kbufs ! i)) (nbuf ! i)))" by (rule sum.cong) auto
  then show ?thesis
    unfolding in_buffers_def using assms
    by (simp add: sum.remove [OF assms(1,2)] add_ac)
qed

lemma flush_buf_result:
  assumes "int (length vlist) = n" "0 \<le> k2" "0 \<le> k" "k2 + k \<le> n" "k \<le> int (length local)"
  shows "\<exists>vlist'. flush_buf n k local (vlist, k2) = Some (vlist', k2 + k) \<and> length vlist' = length vlist \<and>
    take (nat (k2 + k)) vlist' = take (nat k2) vlist @ take (nat k) local"
proof -
  note c = copy_block_prefix [of k local k2 vlist]
  show ?thesis using assms c by (simp add: flush_buf_def int64_fetch_add_def)
qed

lemma push_vertex_result:
  assumes wf: "queue_wf n nt (vlist, k2, nbuf, kbufs)" and tid: "tid < nt"
    and room: "int (size (held {..<nt} (vlist, k2, nbuf, kbufs))) < n"
  shows "\<exists>vlist' k2' nbuf' kbufs'. push_vertex n tid j (vlist, k2, nbuf, kbufs) = Some (vlist', k2', nbuf', kbufs') \<and>
    queue_wf n nt (vlist', k2', nbuf', kbufs') \<and> k2 \<le> k2' \<and> take (nat k2) vlist' = take (nat k2) vlist \<and>
    held {..<nt} (vlist', k2', nbuf', kbufs') = add_mset j (held {..<nt} (vlist, k2, nbuf, kbufs))"
proof -
  let ?l = "nbuf ! tid" and ?k = "kbufs ! tid"
  have w: "int (length vlist) = n" "0 \<le> k2" "k2 \<le> n" "length nbuf = nt" "length kbufs = nt"
      "int (length ?l) = THREAD_BUF_LEN" "0 \<le> ?k" "?k \<le> THREAD_BUF_LEN"
    using wf tid by (auto simp: queue_wf_def)
  have B: "0 < THREAD_BUF_LEN" by (simp add: THREAD_BUF_LEN_def)
  have rds: "rd nbuf (int tid) = Some ?l" "rd kbufs (int tid) = Some ?k" using w tid by simp_all
  show ?thesis
  proof (cases "?k < THREAD_BUF_LEN")
    case True
    let ?l' = "?l[nat ?k := j]"
    have upd: "in_buffers {..<nt} (nbuf[tid := ?l']) (kbufs[tid := ?k + 1]) + mset (take (nat ?k) ?l) =
        in_buffers {..<nt} nbuf kbufs + mset (take (nat (?k + 1)) ?l')"
      using in_buffers_update [of "{..<nt}" tid nbuf kbufs ?l' "?k + 1"] tid w by simp
    have "nat (?k + 1) = Suc (nat ?k)" "nat ?k < length ?l" using w True by auto
    then have "take (nat (?k + 1)) ?l' = take (nat ?k) ?l @ [j]" by (simp add: take_Suc_conv_app_nth)
    then have "in_buffers {..<nt} (nbuf[tid := ?l']) (kbufs[tid := ?k + 1]) = add_mset j (in_buffers {..<nt} nbuf kbufs)"
      using upd by simp
    moreover have "push_vertex n tid j (vlist, k2, nbuf, kbufs) = Some (vlist, k2, nbuf[tid := ?l'], kbufs[tid := ?k + 1])"
      using rds w tid True by (simp add: push_vertex_def)
    moreover have "queue_wf n nt (vlist, k2, nbuf[tid := ?l'], kbufs[tid := ?k + 1])"
      using wf w tid True by (auto simp: queue_wf_def nth_list_update)
    ultimately show ?thesis using w by (simp add: held_def)
  next
    case False
    then have k: "?k = THREAD_BUF_LEN" using w by simp
    then have all: "take (nat ?k) ?l = ?l" using w(6) by simp
    let ?l' = "?l[0 := j]"
    have upd: "in_buffers {..<nt} (nbuf[tid := ?l']) (kbufs[tid := 1]) + mset ?l =
        in_buffers {..<nt} nbuf kbufs + mset (take (nat 1) ?l')"
      using in_buffers_update [of "{..<nt}" tid nbuf kbufs ?l' 1] tid w all by simp
    have "?l \<noteq> []" using w(6) B by auto
    then have "take (nat 1) ?l' = [j]" by (cases ?l) auto
    with upd have upd': "in_buffers {..<nt} (nbuf[tid := ?l']) (kbufs[tid := 1]) + mset ?l = add_mset j (in_buffers {..<nt} nbuf kbufs)"
      by simp
    have "mset ?l \<subseteq># in_buffers {..<nt} nbuf kbufs"
      unfolding in_buffers_def using sum.remove [of "{..<nt}" tid "\<lambda>i. mset (take (nat (kbufs ! i)) (nbuf ! i))"] tid all by simp
    then have "int (length ?l) \<le> int (size (in_buffers {..<nt} nbuf kbufs))" using size_mset_mono by fastforce
    then have fit: "k2 + THREAD_BUF_LEN \<le> n" using room w by (simp add: held_def)
    obtain vlist' where v: "flush_buf n THREAD_BUF_LEN ?l (vlist, k2) = Some (vlist', k2 + THREAD_BUF_LEN)"
        "length vlist' = length vlist" "take (nat (k2 + THREAD_BUF_LEN)) vlist' = take (nat k2) vlist @ ?l"
      using flush_buf_result [OF w(1,2) _ fit, of ?l] w(6) B by auto
    have "push_vertex n tid j (vlist, k2, nbuf, kbufs) = Some (vlist', k2 + THREAD_BUF_LEN, nbuf[tid := ?l'], kbufs[tid := 1])"
      using rds w tid False v(1) B by (simp add: push_vertex_def)
    moreover have "queue_wf n nt (vlist', k2 + THREAD_BUF_LEN, nbuf[tid := ?l'], kbufs[tid := 1])"
      using wf w tid v(2) fit B by (auto simp: queue_wf_def nth_list_update)
    moreover have "take (nat k2) vlist' = take (nat k2) vlist"
    proof -
      have "take (nat k2) vlist' = take (nat k2) (take (nat (k2 + THREAD_BUF_LEN)) vlist')" using B by (simp add: min_def)
      also have "\<dots> = take (nat k2) vlist" unfolding v(3) using w(1,3) by simp
      finally show ?thesis .
    qed
    moreover have "held {..<nt} (vlist', k2 + THREAD_BUF_LEN, nbuf[tid := ?l'], kbufs[tid := 1]) =
        add_mset j (held {..<nt} (vlist, k2, nbuf, kbufs))"
      unfolding held_def prod.case v(3) mset_append using upd' by (simp add: ac_simps)
    ultimately show ?thesis using B by auto
  qed
qed

subsection \<open>The top-down step\<close>

text \<open>
  During the step from the level \<open>F\<close>, with \<open>Q0\<close> the queue at the beginning: vertices get a parent in
  \<open>F\<close>, and exactly the new ones are added to the queue.  \<open>X\<close> is what has been discovered for sure.
\<close>

definition newly :: "int \<Rightarrow> int list \<Rightarrow> int list \<Rightarrow> int set" where
  "newly n tree0 tree = {v. 0 \<le> v \<and> v < n \<and> tree0 ! nat v = -1 \<and> tree ! nat v \<noteq> -1}"

definition td_start :: "int \<Rightarrow> int set \<Rightarrow> int list \<Rightarrow> int list \<Rightarrow> bool" where
  "td_start n F tree0 Q0 \<longleftrightarrow> n \<le> int (length tree0) \<and> F \<subseteq> {0..<n} \<and> distinct Q0 \<and>
     set Q0 \<subseteq> {v. 0 \<le> v \<and> v < n \<and> tree0 ! nat v \<noteq> -1}"

definition td_inv ::
    "(int \<Rightarrow> int set) \<Rightarrow> int \<Rightarrow> nat \<Rightarrow> int set \<Rightarrow> int list \<Rightarrow> int list \<Rightarrow> int set \<Rightarrow> int list \<times> pqueue \<Rightarrow> bool" where
  "td_inv E n nt F tree0 Q0 X = (\<lambda>(tree, q). length tree = length tree0 \<and> queue_wf n nt q \<and>
     take (length Q0) (fst q) = Q0 \<and> int (length Q0) \<le> fst (snd q) \<and>
     (\<forall>v. 0 \<le> v \<and> v < n \<longrightarrow> (if tree0 ! nat v \<noteq> -1 then tree ! nat v = tree0 ! nat v
        else tree ! nat v = -1 \<or> tree ! nat v \<in> F \<and> v \<in> E (tree ! nat v))) \<and>
     held {..<nt} q = mset Q0 + mset_set (newly n tree0 tree) \<and> (\<forall>v \<in> X. tree ! nat v \<noteq> -1))"

lemma finite_newly: "finite (newly n tree0 tree)"
  by (rule finite_subset [of _ "{0..<n}"]) (auto simp: newly_def)

lemma td_room:
  assumes st: "td_start n F tree0 Q0" and j: "0 \<le> j" "j < n" "tree0 ! nat j = -1" "tree ! nat j = -1"
  shows "int (size (mset Q0 + mset_set (newly n tree0 tree))) < n"
proof -
  let ?N = "newly n tree0 tree"
  have dis: "set Q0 \<inter> ?N = {}" using st by (auto simp: td_start_def newly_def)
  have "set Q0 \<union> ?N \<subseteq> {0..<n} - {j}" using st j by (auto simp: td_start_def newly_def)
  then have "card (set Q0 \<union> ?N) \<le> card ({0..<n} - {j})" by (intro card_mono) auto
  also have "\<dots> = nat n - 1" using j by (simp add: card_Diff_singleton)
  finally have "card (set Q0 \<union> ?N) \<le> nat n - 1" .
  moreover have "card (set Q0 \<union> ?N) = length Q0 + card ?N"
    using dis st finite_newly by (simp add: card_Un_disjoint distinct_card td_start_def)
  ultimately show ?thesis using j by auto
qed

lemma top_down_edge_result:
  assumes st: "td_start n F tree0 Q0" and inv: "td_inv E n nt F tree0 Q0 X (tree, q)"
    and v: "v \<in> F" and j: "j \<in> E v" "0 \<le> j" "j < n" and tid: "tid < nt"
  shows "\<exists>s. top_down_edge n tid v j (tree, q) = Some s \<and> td_inv E n nt F tree0 Q0 (insert j X) s"
proof -
  have len: "int (length tree) = int (length tree0)" "n \<le> int (length tree)" using inv st by (auto simp: td_inv_def td_start_def)
  have v0: "v \<noteq> -1" using st v by (auto simp: td_start_def)
  have rj: "rd tree j = Some (tree ! nat j)" using j len by simp
  show ?thesis
  proof (cases "tree ! nat j = -1")
    case False
    then show ?thesis using inv rj by (simp add: top_down_edge_def td_inv_def)
  next
    case True
    have t0: "tree0 ! nat j = -1" using inv j True by (auto simp: td_inv_def split: if_splits)
    let ?t = "tree[nat j := v]"
    obtain vlist k2 nbuf kbufs where q: "q = (vlist, k2, nbuf, kbufs)" by (cases q) auto
    have i: "queue_wf n nt q" "held {..<nt} q = mset Q0 + mset_set (newly n tree0 tree)"
        "take (length Q0) vlist = Q0" "int (length Q0) \<le> k2"
      using inv by (auto simp: td_inv_def q)
    have "int (size (held {..<nt} q)) < n" unfolding i(2) by (rule td_room [OF st j(2,3) t0 True])
    from push_vertex_result [OF i(1) [unfolded q] tid this [unfolded q], of j]
    obtain vlist' k2' nbuf' kbufs' where p: "push_vertex n tid j q = Some (vlist', k2', nbuf', kbufs')"
        "queue_wf n nt (vlist', k2', nbuf', kbufs')" "k2 \<le> k2'" "take (nat k2) vlist' = take (nat k2) vlist"
        "held {..<nt} (vlist', k2', nbuf', kbufs') = add_mset j (held {..<nt} q)" unfolding q by blast
    have upd: "?t ! nat u = (if u = j then v else tree ! nat u)" if "0 \<le> u" for u
      using that j len by (auto simp: nth_list_update_int)
    have "newly n tree0 ?t = insert j (newly n tree0 tree)" "j \<notin> newly n tree0 tree"
      using upd j t0 v0 True by (auto simp: newly_def split: if_splits)
    then have h: "held {..<nt} (vlist', k2', nbuf', kbufs') = mset Q0 + mset_set (newly n tree0 ?t)"
      using p(5) i(2) finite_newly by simp
    have pre: "take (length Q0) vlist' = Q0"
    proof -
      have m: "min (length Q0) (nat k2) = length Q0" using i(4) by simp
      have "take (length Q0) (take (nat k2) vlist') = take (length Q0) (take (nat k2) vlist)" using p(4) by simp
      then show ?thesis unfolding take_take m using i(3) by simp
    qed
    have "\<forall>u. 0 \<le> u \<and> u < n \<longrightarrow> (if tree0 ! nat u \<noteq> -1 then ?t ! nat u = tree0 ! nat u
        else ?t ! nat u = -1 \<or> ?t ! nat u \<in> F \<and> u \<in> E (?t ! nat u))"
      using inv upd v j t0 by (auto simp: td_inv_def)
    moreover have "\<forall>u \<in> insert j X. ?t ! nat u \<noteq> -1"
      using inv v0 j len by (auto simp: td_inv_def nth_list_update)
    ultimately have "td_inv E n nt F tree0 Q0 (insert j X) (?t, vlist', k2', nbuf', kbufs')"
      unfolding td_inv_def using p(2,3) h i(4) pre len by auto
    moreover have "top_down_edge n tid v j (tree, q) = Some (?t, vlist', k2', nbuf', kbufs')"
      using True rj p(1) j len by (simp add: top_down_edge_def atomic_at_in int64_cas_def)
    ultimately show ?thesis by blast
  qed
qed

text \<open>Reading the neighbours of a vertex.\<close>

lemma seg_reads:
  assumes g: "graph_ok IJ g" and v: "0 \<le> v" "v < nv g"
  shows "\<exists>lo hi. rd (xoff g) (2 * v) = Some lo \<and> rd (xoff g) (1 + 2 * v) = Some hi \<and>
    seg g v = map (\<lambda>l. xadjstore g ! nat (MINVECT_SIZE + l)) [lo..hi - 1] \<and>
    (\<forall>l. lo \<le> l \<and> l < hi \<longrightarrow> rd_xadj (xadjstore g) l = Some (xadjstore g ! nat (MINVECT_SIZE + l)))"
proof -
  let ?lo = "off (capacity IJ) v" and ?hi = "xoff g ! nat (1 + 2 * v)"
  have ok: "csr_ok (capacity IJ) g" using g by (simp add: graph_ok_def)
  have "rd_xadj (xadjstore g) l = Some (xadjstore g ! nat (MINVECT_SIZE + l))" if "?lo \<le> l \<and> l < ?hi" for l
    using that off_bounds [OF ok v] csr_okD(6) [OF ok v] csr_okD(7) [OF ok]
    unfolding rd_xadj_def by (intro rd_in) (auto simp: MINVECT_SIZE_def)
  moreover have "rd (xoff g) (1 + 2 * v) = Some ?hi" "rd (xoff g) (2 * v) = Some ?lo" "xoff g ! nat (2 * v) = ?lo"
    using csr_okD(3,4) [OF ok] v by simp_all
  ultimately show ?thesis by (intro exI [of _ ?lo] exI [of _ ?hi]) (simp add: seg_def adj_part_def)
qed

lemma graph_nbrs:
  assumes "graph_ok IJ g"
  shows "0 \<le> v \<Longrightarrow> v < nv g \<Longrightarrow> set (seg g v) = edge_nbrs IJ v" "edge_nbrs IJ u \<subseteq> {0..<nv g}" "0 \<le> nv g"
  using assms edge_nbrs_range [of IJ u] csr_okD(1) [of _ g] by (auto simp: graph_ok_def)

lemma top_down_vertex_result:
  assumes g: "graph_ok IJ g" and st: "td_start (nv g) F tree0 Q0"
    and inv: "td_inv (edge_nbrs IJ) (nv g) nt F tree0 Q0 X s"
    and k: "0 \<le> k" "k < int (length Q0)" and v: "Q0 ! nat k \<in> F" and tid: "tid < nt"
  shows "\<exists>s'. top_down_vertex g tid k s = Some s' \<and>
    td_inv (edge_nbrs IJ) (nv g) nt F tree0 Q0 (X \<union> edge_nbrs IJ (Q0 ! nat k)) s'"
proof -
  let ?v = "Q0 ! nat k"
  obtain tree vlist q where s: "s = (tree, vlist, q)" by (cases s) auto
  have i: "take (length Q0) vlist = Q0" using inv by (auto simp: td_inv_def s)
  have vl: "nat k < length vlist" "vlist ! nat k = ?v"
  proof -
    have m: "nat k < length Q0" using k by simp
    then have "nat k < length (take (length Q0) vlist)" unfolding i .
    then show "nat k < length vlist" by simp
    show "vlist ! nat k = ?v" using nth_take [OF m, of vlist] unfolding i by simp
  qed
  have vr: "0 \<le> ?v" "?v < nv g" using st v by (auto simp: td_start_def)
  obtain lo hi where r: "rd (xoff g) (2 * ?v) = Some lo" "rd (xoff g) (1 + 2 * ?v) = Some hi"
      "seg g ?v = map (\<lambda>l. xadjstore g ! nat (MINVECT_SIZE + l)) [lo..hi - 1]"
      "\<And>l. lo \<le> l \<Longrightarrow> l < hi \<Longrightarrow> rd_xadj (xadjstore g) l = Some (xadjstore g ! nat (MINVECT_SIZE + l))"
    using seg_reads [OF g vr] by blast
  have "top_down_vertex g tid k s = for_each (top_down_edge (nv g) tid ?v) (seg g ?v) s"
    using vl k r for_up_reads [OF r(4), where f = "top_down_edge (nv g) tid ?v"]
    by (simp add: top_down_vertex_def s)
  moreover have "\<exists>s'. for_each (top_down_edge (nv g) tid ?v) (seg g ?v) s = Some s' \<and>
      td_inv (edge_nbrs IJ) (nv g) nt F tree0 Q0 (X \<union> set (seg g ?v)) s'"
  proof (rule for_each_inv [where I = "\<lambda>ys. td_inv (edge_nbrs IJ) (nv g) nt F tree0 Q0 (X \<union> set ys)"])
    fix ys j zs t
    assume js: "seg g ?v = ys @ j # zs" and I: "td_inv (edge_nbrs IJ) (nv g) nt F tree0 Q0 (X \<union> set ys) t"
    have "j \<in> edge_nbrs IJ ?v" using graph_nbrs(1) [OF g vr] unfolding js by auto
    moreover have "0 \<le> j" "j < nv g" using graph_nbrs(2) [OF g, of ?v] calculation by auto
    ultimately show "\<exists>t'. top_down_edge (nv g) tid ?v j t = Some t' \<and>
        td_inv (edge_nbrs IJ) (nv g) nt F tree0 Q0 (X \<union> set (ys @ [j])) t'"
      using top_down_edge_result [OF st, of "edge_nbrs IJ" nt "X \<union> set ys" "fst t" "snd t", OF _ v _ _ _ tid] I by simp
  qed (use inv in simp)
  ultimately show ?thesis using graph_nbrs(1) [OF g vr] by simp
qed

text \<open>Emptying the buffers at the end of the step.\<close>

lemma flush_all_result:
  assumes om: "omp_law om" and wf: "queue_wf n (num_threads om) (vlist, k2, nbuf, kbufs)"
    and room: "int (size (held {..<num_threads om} (vlist, k2, nbuf, kbufs))) \<le> n"
  shows "\<exists>vlist' k2'. omp_each om pl (\<lambda>tid (vlist, k2). do {
         kbuf \<leftarrow> rd kbufs (int tid);
         local \<leftarrow> rd nbuf (int tid);
         if kbuf \<noteq> 0 then flush_buf n kbuf local (vlist, k2) else Some (vlist, k2)
       }) (vlist, k2) = Some (vlist', k2') \<and> int (length vlist') = n \<and> k2 \<le> k2' \<and> k2' \<le> n \<and>
    take (nat k2) vlist' = take (nat k2) vlist \<and>
    mset (take (nat k2') vlist') = held {..<num_threads om} (vlist, k2, nbuf, kbufs)"
proof -
  let ?nt = "num_threads om"
  let ?M = "held {..<?nt} (vlist, k2, nbuf, kbufs)"
  let ?I = "\<lambda>D (vl, k). int (length vl) = n \<and> k2 \<le> k \<and> k \<le> n \<and> take (nat k2) vl = take (nat k2) vlist \<and>
    mset (take (nat k) vl) + in_buffers ({..<?nt} - D) nbuf kbufs = ?M"
  let ?f = "\<lambda>tid (vlist, k2). do {
         kbuf \<leftarrow> rd kbufs (int tid);
         local \<leftarrow> rd nbuf (int tid);
         if kbuf \<noteq> 0 then flush_buf n kbuf local (vlist, k2) else Some (vlist, k2)
       }"
  have w: "int (length vlist) = n" "0 \<le> k2" "k2 \<le> n" "length nbuf = ?nt" "length kbufs = ?nt"
    using wf by (auto simp: queue_wf_def)
  have "\<exists>s. omp_each om pl ?f (vlist, k2) = Some s \<and> ?I {..<?nt} s"
  proof (rule omp_each_inv [where I = ?I, OF om])
    fix D tid s
    assume D: "D \<subseteq> {..<?nt}" "tid < ?nt" "tid \<notin> D" and I: "?I D s"
    obtain vl k where s: "s = (vl, k)" by fastforce
    let ?k = "kbufs ! tid" and ?l = "nbuf ! tid"
    have b: "int (length ?l) = THREAD_BUF_LEN" "0 \<le> ?k" "?k \<le> int (length ?l)" using wf D(2) by (auto simp: queue_wf_def)
    have ib: "in_buffers ({..<?nt} - D) nbuf kbufs = mset (take (nat ?k) ?l) + in_buffers ({..<?nt} - insert tid D) nbuf kbufs"
    proof -
      have "{..<?nt} - insert tid D = ({..<?nt} - D) - {tid}" by auto
      then show ?thesis
        unfolding in_buffers_def using sum.remove [of "{..<?nt} - D" tid "\<lambda>i. mset (take (nat (kbufs ! i)) (nbuf ! i))"] D by simp
    qed
    have vl: "int (length vl) = n" "k2 \<le> k" "k \<le> n" "take (nat k2) vl = take (nat k2) vlist"
        "mset (take (nat k) vl) + (mset (take (nat ?k) ?l) + in_buffers ({..<?nt} - insert tid D) nbuf kbufs) = ?M"
      using I unfolding s ib by auto
    have "size (mset (take (nat k) vl) + (mset (take (nat ?k) ?l) + in_buffers ({..<?nt} - insert tid D) nbuf kbufs)) = size ?M"
      using vl(5) by simp
    then have "k + ?k \<le> n" using room vl(1-3) b w(2) by (simp add: min_def split: if_splits)
    moreover have "0 \<le> k" using vl(2) w(2) by simp
    ultimately obtain vl' where f: "flush_buf n ?k ?l (vl, k) = Some (vl', k + ?k)" "length vl' = length vl"
        "take (nat (k + ?k)) vl' = take (nat k) vl @ take (nat ?k) ?l"
      using flush_buf_result [OF vl(1), of k ?k ?l] b by blast
    have pre: "take (nat k2) vl' = take (nat k2) vlist"
    proof -
      have m: "min (nat k2) (nat (k + ?k)) = nat k2" "min (nat k2) (nat k) = nat k2" "nat k2 \<le> length (take (nat k) vl)"
        using vl(1-3) b by (auto simp: min_def)
      have "take (nat k2) (take (nat (k + ?k)) vl') = take (nat k2) (take (nat k) vl)" unfolding f(3) using m(3) by simp
      then show ?thesis unfolding take_take m using vl(4) by simp
    qed
    have rds: "rd kbufs (int tid) = Some ?k" "rd nbuf (int tid) = Some ?l" using w D(2) by simp_all
    show "\<exists>s'. ?f tid s = Some s' \<and> ?I (insert tid D) s'"
    proof (cases "?k = 0")
      case True
      then show ?thesis using rds vl by (simp add: s)
    next
      case False
      have "?I (insert tid D) (vl', k + ?k)"
        unfolding prod.case f(3) using f(2) vl pre b \<open>k + ?k \<le> n\<close> by (simp add: ac_simps)
      then show ?thesis using rds False f(1) by (simp add: s)
    qed
  qed (use w in \<open>simp add: held_def\<close>)
  then show ?thesis by (auto simp: in_buffers_def)
qed

text \<open>The queue has the current level between \<open>k1\<close> and \<open>k2\<close>.\<close>

definition level_queue :: "int \<Rightarrow> int list \<Rightarrow> int set \<Rightarrow> int list \<Rightarrow> int \<Rightarrow> int \<Rightarrow> bool" where
  "level_queue n tree F vlist k1 k2 \<longleftrightarrow> int (length vlist) = n \<and> 0 \<le> k1 \<and> k1 \<le> k2 \<and> k2 \<le> n \<and>
     distinct (take (nat k2) vlist) \<and>
     set (take (nat k2) vlist) \<subseteq> {v. 0 \<le> v \<and> v < n \<and> tree ! nat v \<noteq> -1} \<and>
     set (drop (nat k1) (take (nat k2) vlist)) = F"

definition bufs_ok :: "nat \<Rightarrow> int list list \<Rightarrow> bool" where
  "bufs_ok nt nbuf \<longleftrightarrow> length nbuf = nt \<and> (\<forall>i < nt. int (length (nbuf ! i)) = THREAD_BUF_LEN)"

lemma level_queue_card:
  assumes "level_queue n tree F vlist k1 k2"
  shows "k2 - k1 = int (card F)"
proof -
  let ?ys = "drop (nat k1) (take (nat k2) vlist)"
  have "distinct ?ys" "set ?ys = F" "length ?ys = nat k2 - nat k1" using assms by (auto simp: level_queue_def)
  then have "card F = nat k2 - nat k1" using distinct_card by fastforce
  then show ?thesis using assms by (auto simp: level_queue_def of_nat_diff)
qed

lemma level_queue_nth:
  assumes "level_queue n tree F vlist k1 k2" "k1 \<le> k" "k < k2"
  shows "rd vlist k = Some (vlist ! nat k)" "vlist ! nat k \<in> F" "take (nat k2) vlist ! nat k = vlist ! nat k"
    "0 \<le> vlist ! nat k" "vlist ! nat k < n"
proof -
  let ?ys = "drop (nat k1) (take (nat k2) vlist)"
  have b: "int (length vlist) = n" "0 \<le> k1" "k1 \<le> k2" "k2 \<le> n" "set ?ys = F"
      "set (take (nat k2) vlist) \<subseteq> {v. 0 \<le> v \<and> v < n \<and> tree ! nat v \<noteq> -1}"
    using assms(1) by (auto simp: level_queue_def)
  show "rd vlist k = Some (vlist ! nat k)" using b(1-4) assms(2,3) by simp
  show t: "take (nat k2) vlist ! nat k = vlist ! nat k" using assms(2,3) b(2) by simp
  have "nat k - nat k1 < length ?ys" "?ys ! (nat k - nat k1) = vlist ! nat k"
    using b(1-4) assms(2,3) by auto
  then show "vlist ! nat k \<in> F" using nth_mem [of "nat k - nat k1" ?ys] b(5) by simp
  have "nat k < length (take (nat k2) vlist)" using b(1-4) assms(2,3) by simp
  from nth_mem [OF this] t have "vlist ! nat k \<in> set (take (nat k2) vlist)" by simp
  then show "0 \<le> vlist ! nat k" "vlist ! nat k < n" using b(6) by auto
qed

text \<open>The tree after the step, and the part of the queue that has been added.\<close>

lemma td_inv_level_step:
  assumes "td_inv E n nt F tree0 Q0 (\<Union>u \<in> F. E u) (tree, q)" "\<And>u. E u \<subseteq> {0..<n}"
  shows "level_step E n F tree0 tree" "newly n tree0 tree = next_level E n tree0 F"
proof -
  have t: "if tree0 ! nat v \<noteq> -1 then tree ! nat v = tree0 ! nat v
        else tree ! nat v = -1 \<or> tree ! nat v \<in> F \<and> v \<in> E (tree ! nat v)" if "0 \<le> v" "v < n" for v
    using assms(1) that unfolding td_inv_def by auto
  have d: "tree ! nat v \<noteq> -1" if "u \<in> F" "v \<in> E u" for u v using assms(1) that unfolding td_inv_def by auto
  have "length tree = length tree0" using assms(1) unfolding td_inv_def by auto
  moreover have "if v \<in> next_level E n tree0 F then tree ! nat v \<in> F \<and> v \<in> E (tree ! nat v) else tree ! nat v = tree0 ! nat v"
    if "0 \<le> v" "v < n" for v
    using t [OF that] d [of _ v] that by (auto simp: next_level_def split: if_splits)
  ultimately show "level_step E n F tree0 tree" unfolding level_step_def by blast
  show "newly n tree0 tree = next_level E n tree0 F"
  proof (intro set_eqI iffI)
    fix v assume "v \<in> newly n tree0 tree"
    then show "v \<in> next_level E n tree0 F" using t [of v] by (auto simp: newly_def next_level_def)
  next
    fix v assume "v \<in> next_level E n tree0 F"
    then show "v \<in> newly n tree0 tree" using d [of _ v] by (auto simp: newly_def next_level_def)
  qed
qed

lemma mset_set_list:
  assumes "mset ys = mset_set N" "finite N"
  shows "distinct ys" "set ys = N"
proof -
  show "set ys = N" using arg_cong [OF assms(1), of set_mset] assms(2) by simp
  then show "distinct ys" using assms by (simp add: distinct_count_atmost_1)
qed

lemma appended_level:
  assumes "length Q0 \<le> k" "take (length Q0) vl = Q0" "mset (take k vl) = mset Q0 + mset_set N" "finite N"
    "distinct Q0" "set Q0 \<inter> N = {}"
  shows "distinct (take k vl)" "set (take k vl) = set Q0 \<union> N" "set (drop (length Q0) (take k vl)) = N"
proof -
  have "take (length Q0) (take k vl) = Q0" using assms(1,2) by (simp add: min_absorb1)
  then obtain ys where split: "take k vl = Q0 @ ys" by (metis append_take_drop_id)
  then have "mset ys = mset_set N" using assms(3) by simp
  note ys = mset_set_list [OF this assms(4)]
  show "distinct (take k vl)" "set (take k vl) = set Q0 \<union> N" "set (drop (length Q0) (take k vl)) = N"
    unfolding split using ys assms(5,6) by simp_all
qed

lemma td_inv_init:
  assumes q: "level_queue n tree F vlist k1 k2" and b: "bufs_ok nt nbuf" and F: "F \<subseteq> {0..<n}" and len: "n \<le> int (length tree)"
  shows "td_start n F tree (take (nat k2) vlist)"
    "td_inv E n nt F tree (take (nat k2) vlist) {} (tree, vlist, k2, nbuf, replicate nt 0)"
    "length (take (nat k2) vlist) = nat k2"
proof -
  have v: "int (length vlist) = n" "0 \<le> k1" "k1 \<le> k2" "k2 \<le> n" "distinct (take (nat k2) vlist)"
      "set (take (nat k2) vlist) \<subseteq> {v. 0 \<le> v \<and> v < n \<and> tree ! nat v \<noteq> -1}"
    using q by (auto simp: level_queue_def)
  show "td_start n F tree (take (nat k2) vlist)" using v F len by (simp add: td_start_def)
  show l: "length (take (nat k2) vlist) = nat k2" using v by simp
  have "newly n tree tree = {}" by (auto simp: newly_def)
  moreover have "queue_wf n nt (vlist, k2, nbuf, replicate nt 0)"
    using v b by (auto simp: queue_wf_def bufs_ok_def THREAD_BUF_LEN_def)
  ultimately show "td_inv E n nt F tree (take (nat k2) vlist) {} (tree, vlist, k2, nbuf, replicate nt 0)"
    using l v(2,3) by (auto simp: td_inv_def held_def in_buffers_def)
qed

lemma level_queue_image:
  assumes q: "level_queue n tree F vlist k1 k2"
  shows "(\<lambda>i. take (nat k2) vlist ! nat i) ` {k1..<k2} = F"
proof
  let ?Q = "take (nat k2) vlist"
  have k: "0 \<le> k1" "k1 \<le> k2" "set (drop (nat k1) ?Q) = F" "length ?Q = nat k2" using q by (auto simp: level_queue_def)
  show "(\<lambda>i. ?Q ! nat i) ` {k1..<k2} \<subseteq> F" using level_queue_nth(2,3) [OF q] by auto
  show "F \<subseteq> (\<lambda>i. ?Q ! nat i) ` {k1..<k2}"
  proof
    fix u assume "u \<in> F"
    then obtain m where m: "m < length (drop (nat k1) ?Q)" "u = drop (nat k1) ?Q ! m"
      unfolding k(3) [symmetric] in_set_conv_nth by blast
    have "nat k1 + m < nat k2" using m(1) unfolding length_drop k(4) by linarith
    then have "u = ?Q ! nat (k1 + int m)" "k1 + int m \<in> {k1..<k2}"
      using m k(1,4) by (auto simp: nat_add_distrib)
    then show "u \<in> (\<lambda>i. ?Q ! nat i) ` {k1..<k2}" by blast
  qed
qed

lemma take_prefix: "take k xs = take k ys \<Longrightarrow> m \<le> k \<Longrightarrow> take m xs = take m ys"
  by (metis min.absorb1 take_take)

lemma discovered_mono:
  assumes "level_inv E r n d tree" "level_inv E r n d' tree'" "d \<le> d'"
  shows "{v. 0 \<le> v \<and> v < n \<and> tree ! nat v \<noteq> -1} \<subseteq> {v. 0 \<le> v \<and> v < n \<and> tree' ! nat v \<noteq> -1}"
proof
  fix v assume v: "v \<in> {v. 0 \<le> v \<and> v < n \<and> tree ! nat v \<noteq> -1}"
  then have "0 \<le> v" "v < n" by simp_all
  from level_discovered [OF assms(1) this] level_discovered [OF assms(2) this] v assms(3)
  show "v \<in> {v. 0 \<le> v \<and> v < n \<and> tree' ! nat v \<noteq> -1}" by simp
qed

lemma level_size:
  assumes "set Q \<union> N \<subseteq> {0..<n}" "set Q \<inter> N = {}" "distinct Q" "0 \<le> n"
  shows "int (size (mset Q + mset_set N)) \<le> n"
proof -
  have fin: "finite N" using assms(1) by (intro finite_subset [of N "{0..<n}"]) auto
  have "card (set Q \<union> N) \<le> card {0..<n}" using assms(1) by (intro card_mono) auto
  moreover have "card (set Q \<union> N) = length Q + card N" using assms(2,3) fin by (simp add: card_Un_disjoint distinct_card)
  ultimately show ?thesis using assms(4) by (simp add: le_nat_iff)
qed

text \<open>The loop over the level.\<close>

lemma top_down_loop:
  assumes om: "omp_law om" and g: "graph_ok IJ g" and inv: "level_inv (edge_nbrs IJ) r (nv g) d tree"
    and q: "level_queue (nv g) tree (frontier (edge_nbrs IJ) r d) vlist k1 k2" and b: "bufs_ok (num_threads om) nbuf"
  shows "\<exists>tree' vl k nb kb. omp_for om pl k1 k2 (top_down_vertex g) (tree, vlist, k2, nbuf, replicate (num_threads om) 0) =
      Some (tree', vl, k, nb, kb) \<and>
    td_inv (edge_nbrs IJ) (nv g) (num_threads om) (frontier (edge_nbrs IJ) r d) tree (take (nat k2) vlist)
      (\<Union>u \<in> frontier (edge_nbrs IJ) r d. edge_nbrs IJ u) (tree', vl, k, nb, kb)"
proof -
  let ?E = "edge_nbrs IJ" and ?n = "nv g" and ?nt = "num_threads om" and ?Q = "take (nat k2) vlist"
  let ?F = "frontier ?E r d"
  have len: "?n \<le> int (length tree)" using inv by (simp add: level_inv_def)
  note i0 = td_inv_init [OF q b frontier_range [OF inv graph_nbrs(2) [OF g]] len]
  let ?I = "\<lambda>D. td_inv ?E ?n ?nt ?F tree ?Q (\<Union>i \<in> D. ?E (?Q ! nat i))"
  have "\<exists>s. omp_for om pl k1 k2 (top_down_vertex g) (tree, vlist, k2, nbuf, replicate ?nt 0) = Some s \<and> ?I {k1..<k2} s"
  proof (rule omp_for_inv [where I = ?I, OF om])
    show "?I {} (tree, vlist, k2, nbuf, replicate ?nt 0)" using i0(2) by simp
    fix D tid i s
    assume i: "k1 \<le> i" "i < k2" and tid: "tid < ?nt" and I: "?I D s"
    have "?Q ! nat i \<in> ?F" using level_queue_nth(2,3) [OF q i] by simp
    moreover have "0 \<le> i" "i < int (length ?Q)" using i q i0(3) by (auto simp: level_queue_def)
    ultimately show "\<exists>s'. top_down_vertex g tid i s = Some s' \<and> ?I (insert i D) s'"
      using top_down_vertex_result [OF g i0(1) I _ _ _ tid, of i] by (simp add: Un_commute)
  qed
  moreover have "(\<Union>i \<in> {k1..<k2}. ?E (?Q ! nat i)) = (\<Union>u \<in> ?F. ?E u)"
    using level_queue_image [OF q] by (metis image_image)
  ultimately show ?thesis by auto
qed

lemma top_down_result:
  assumes om: "omp_law om" and g: "graph_ok IJ g" and inv: "level_inv (edge_nbrs IJ) r (nv g) d tree"
    and q: "level_queue (nv g) tree (frontier (edge_nbrs IJ) r d) vlist k1 k2" and b: "bufs_ok (num_threads om) nbuf"
  shows "\<exists>tree' vlist' nbuf' k2'. bfs_top_down_step om g (tree, vlist, nbuf, k1, k2) = Some (tree', vlist', nbuf', k2, k2') \<and>
    length tree' = length tree \<and> level_inv (edge_nbrs IJ) r (nv g) (Suc d) tree' \<and>
    level_queue (nv g) tree' (frontier (edge_nbrs IJ) r (Suc d)) vlist' k2 k2' \<and> bufs_ok (num_threads om) nbuf'"
proof -
  let ?E = "edge_nbrs IJ" and ?n = "nv g" and ?nt = "num_threads om" and ?Q = "take (nat k2) vlist"
  let ?F = "frontier ?E r d" and ?N = "frontier ?E r (Suc d)"
  note E = graph_nbrs(2) [OF g]
  have Q: "length ?Q = nat k2" "distinct ?Q" "set ?Q \<subseteq> {v. 0 \<le> v \<and> v < ?n \<and> tree ! nat v \<noteq> -1}" "0 \<le> k2"
    using q by (auto simp: level_queue_def)
  obtain tree' vl k nb kb where s: "omp_for om (''top_down'', tree) k1 k2 (top_down_vertex g)
      (tree, vlist, k2, nbuf, replicate ?nt 0) = Some (tree', vl, k, nb, kb)"
      and fin: "td_inv ?E ?n ?nt ?F tree ?Q (\<Union>u \<in> ?F. ?E u) (tree', vl, k, nb, kb)"
    using top_down_loop [OF om g inv q b] by blast
  note ls = td_inv_level_step [OF fin E]
  have inv': "level_inv ?E r ?n (Suc d) tree'" by (rule level_inv_step [OF inv E ls(1)])
  have N: "newly ?n tree tree' = ?N" unfolding ls(2) by (rule next_level_frontier [OF inv E])
  have f: "queue_wf ?n ?nt (vl, k, nb, kb)" "take (length ?Q) vl = ?Q" "int (length ?Q) \<le> k" "length tree' = length tree"
      "held {..<?nt} (vl, k, nb, kb) = mset ?Q + mset_set ?N"
    using fin unfolding td_inv_def N [symmetric] by auto
  have dis: "set ?Q \<inter> ?N = {}" unfolding N [symmetric] using Q(3) by (auto simp: newly_def)
  have fin_N: "finite ?N" unfolding N [symmetric] by (rule finite_newly)
  have "set ?Q \<union> ?N \<subseteq> {0..<?n}" using frontier_range [OF inv E, of "Suc d"] Q(3) by auto
  then have room: "int (size (held {..<?nt} (vl, k, nb, kb))) \<le> ?n"
    unfolding f(5) using dis Q(2) graph_nbrs(3) [OF g] by (rule level_size)
  obtain vl' k' where fl: "omp_each om (''top_down'', tree') (\<lambda>tid (vlist, k2). do {
         kbuf \<leftarrow> rd kb (int tid);
         local \<leftarrow> rd nb (int tid);
         if kbuf \<noteq> 0 then flush_buf ?n kbuf local (vlist, k2) else Some (vlist, k2)
       }) (vl, k) = Some (vl', k')" "int (length vl') = ?n" "k \<le> k'" "k' \<le> ?n" "take (nat k) vl' = take (nat k) vl"
      "mset (take (nat k') vl') = mset ?Q + mset_set ?N"
    using flush_all_result [OF om f(1) room, of "(''top_down'', tree')"] unfolding f(5) by blast
  have le: "length ?Q \<le> nat k" "length ?Q \<le> nat k'" "k2 \<le> k'" using f(3) fl(3) Q(1,4) by auto
  have pre: "take (length ?Q) vl' = ?Q" using take_prefix [OF fl(5) le(1)] f(2) by simp
  note ap = appended_level [OF le(2) pre fl(6) fin_N Q(2) dis]
  have disc: "set ?Q \<union> ?N \<subseteq> {v. 0 \<le> v \<and> v < ?n \<and> tree' ! nat v \<noteq> -1}"
    using discovered_mono [OF inv inv'] Q(3) unfolding N [symmetric] by (auto simp: newly_def)
  have "level_queue ?n tree' ?N vl' k2 k'"
    using ap disc fl(2-4) le(3) Q(4) unfolding level_queue_def Q(1) by auto
  moreover have "bufs_ok ?nt nb" using f(1) by (auto simp: queue_wf_def bufs_ok_def)
  moreover have "bfs_top_down_step om g (tree, vlist, nbuf, k1, k2) = Some (tree', vl', nb, k2, k')"
    using s fl(1) by (simp add: bfs_top_down_step_def)
  ultimately show ?thesis using inv' f(4) by blast
qed

subsection \<open>The bottom-up step\<close>

definition bu_inv ::
    "(int \<Rightarrow> int set) \<Rightarrow> int \<Rightarrow> nat \<Rightarrow> int set \<Rightarrow> int list \<Rightarrow> int set \<Rightarrow> int list \<times> bitmap \<times> int \<Rightarrow> bool" where
  "bu_inv E n L F tree0 D = (\<lambda>(tree, nx, aw). length tree = length tree0 \<and> length nx = L \<and>
     bits nx = next_level E n tree0 F \<inter> D \<and> aw = int (card (next_level E n tree0 F \<inter> D)) \<and>
     (\<forall>v. 0 \<le> v \<and> v < n \<longrightarrow> (if v \<in> next_level E n tree0 F \<inter> D then tree ! nat v \<in> F \<and> v \<in> E (tree ! nat v)
        else tree ! nat v = tree0 ! nat v)))"

lemma finite_next_level: "finite (next_level E n tree F)"
  by (rule finite_subset [of _ "{0..<n}"]) (auto simp: next_level_def)

text \<open>
  A bitmap with the level and possibly vertices of earlier levels: for an undiscovered vertex, the
  neighbours in the bitmap are those in the level.
\<close>

definition level_bits :: "(int \<Rightarrow> int set) \<Rightarrow> int \<Rightarrow> nat \<Rightarrow> bitmap \<Rightarrow> bool" where
  "level_bits E r d bm \<longleftrightarrow> frontier E r d \<subseteq> bits bm \<and> bits bm \<subseteq> {v. reachable E r v \<and> hops E r v \<le> d}"

lemma level_bits_parent:
  assumes "level_inv E r n d tree" "level_bits E r d bm" "0 \<le> i" "i < n" "tree ! nat i = -1" "i \<in> E j" "j \<in> bits bm"
  shows "j \<in> frontier E r d"
proof -
  have j: "reachable E r j" "hops E r j \<le> d" using assms(2,7) by (auto simp: level_bits_def)
  have "hops E r i \<le> Suc (hops E r j)" "reachable E r i" using hops_step [OF j(1) assms(6)] reachable_step [OF j(1) assms(6)] by auto
  moreover have "\<not> hops E r i \<le> d" using level_discovered [OF assms(1,3,4)] assms(5) calculation(2) by simp
  ultimately show ?thesis using j by (simp add: frontier_def)
qed

lemma find_map: "find P (map f xs) = map_option f (find (\<lambda>x. P (f x)) xs)"
  by (induction xs) simp_all

text \<open>The scan of an undiscovered vertex stops at the first neighbour in the bitmap.\<close>

lemma bottom_up_scan:
  assumes g: "graph_ok IJ g" and past: "nv g \<le> 64 * int (length past)" and nx: "nv g \<le> 64 * int (length nx)"
    and i: "0 \<le> i" "i < nv g" and t: "nv g \<le> int (length tree)" "tree ! nat i = -1"
  shows "\<exists>nx'. length nx' = length nx \<and> bits nx' = insert i (bits nx) \<and>
    bottom_up_vertex g past i (tree, nx, aw) = Some (case find (\<lambda>j. j \<in> bits past) (seg g i) of
      None \<Rightarrow> (tree, nx, aw) | Some j \<Rightarrow> (tree[nat i := j], nx', aw + 1))"
proof -
  let ?x = "\<lambda>l. xadjstore g ! nat (MINVECT_SIZE + l)"
  obtain lo hi where r: "rd (xoff g) (2 * i) = Some lo" "rd (xoff g) (1 + 2 * i) = Some hi" "seg g i = map ?x [lo..hi - 1]"
      "\<And>l. lo \<le> l \<Longrightarrow> l < hi \<Longrightarrow> rd_xadj (xadjstore g) l = Some (?x l)"
    using seg_reads [OF g i] by blast
  obtain nx' where nx': "bm_set_bit_atomic nx i = Some nx'" "length nx' = length nx" "bits nx' = insert i (bits nx)"
    using bm_set_bit_result [of i nx] bm_set_bit_atomic_eq [of i nx] i nx by auto
  let ?f = "\<lambda>vo (bfs_tree, next_bm, awake_count). do {
       j \<leftarrow> rd_xadj (xadjstore g) vo;
       w \<leftarrow> bm_get_bit past j;
       if w \<noteq> 0 then do {
         bfs_tree \<leftarrow> wr bfs_tree i j;
         next_bm \<leftarrow> bm_set_bit_atomic next_bm i;
         Some (True, bfs_tree, next_bm, awake_count + 1)
       } else Some (False, bfs_tree, next_bm, awake_count)
     }"
  have "for_break ?f [lo..hi - 1] (tree, nx, aw) = Some (case find (\<lambda>l. ?x l \<in> bits past) [lo..hi - 1] of
      None \<Rightarrow> (tree, nx, aw) | Some l \<Rightarrow> (tree[nat i := ?x l], nx', aw + 1))"
  proof (rule for_break_find)
    fix l assume l0: "l \<in> set [lo..hi - 1]"
    then have l: "lo \<le> l" "l < hi" by auto
    have "?x l \<in> set (seg g i)" unfolding r(3) using l0 by simp
    then have "?x l \<in> {0..<nv g}" using graph_nbrs(1) [OF g i] graph_nbrs(2) [OF g, of i] by blast
    then obtain w where w: "bm_get_bit past (?x l) = Some w" "w \<noteq> 0 \<longleftrightarrow> ?x l \<in> bits past"
      using bm_get_bit_result [of "?x l" past] past by auto
    show "?f l (tree, nx, aw) =
        Some (if ?x l \<in> bits past then (True, tree[nat i := ?x l], nx', aw + 1) else (False, (tree, nx, aw)))"
      using r(4) [OF l] w nx'(1) i t by simp
  qed
  moreover have "bottom_up_vertex g past i (tree, nx, aw) = for_break ?f [lo..hi - 1] (tree, nx, aw)"
    using t i r(1,2) by (simp add: bottom_up_vertex_def)
  moreover have "find (\<lambda>j. j \<in> bits past) (seg g i) = map_option ?x (find (\<lambda>l. ?x l \<in> bits past) [lo..hi - 1])"
    unfolding r(3) by (rule find_map)
  ultimately show ?thesis
    using nx'(2,3) by (intro exI [of _ nx']) (simp split: option.split)
qed

lemma bottom_up_vertex_result:
  assumes g: "graph_ok IJ g" and inv: "level_inv (edge_nbrs IJ) r (nv g) d tree0"
    and past: "level_bits (edge_nbrs IJ) r d past" "nv g \<le> 64 * int (length past)" and L: "nv g \<le> 64 * int L"
    and I: "bu_inv (edge_nbrs IJ) (nv g) L (frontier (edge_nbrs IJ) r d) tree0 D s"
    and i: "0 \<le> i" "i < nv g" "i \<notin> D"
  shows "\<exists>s'. bottom_up_vertex g past i s = Some s' \<and>
    bu_inv (edge_nbrs IJ) (nv g) L (frontier (edge_nbrs IJ) r d) tree0 (insert i D) s'"
proof -
  let ?E = "edge_nbrs IJ" and ?n = "nv g"
  let ?F = "frontier ?E r d"
  let ?N = "next_level ?E ?n tree0 ?F"
  obtain tree nx aw where s: "s = (tree, nx, aw)" by (cases s) auto
  have t: "length tree = length tree0" "length nx = L" "bits nx = ?N \<inter> D" "aw = int (card (?N \<inter> D))"
      "\<And>v. 0 \<le> v \<Longrightarrow> v < ?n \<Longrightarrow> if v \<in> ?N \<inter> D then tree ! nat v \<in> ?F \<and> v \<in> ?E (tree ! nat v) else tree ! nat v = tree0 ! nat v"
    using I unfolding bu_inv_def s by auto
  have ti: "tree ! nat i = tree0 ! nat i" using t(5) [OF i(1,2)] i(3) by simp
  have len: "?n \<le> int (length tree)" using inv t(1) by (simp add: level_inv_def)
  have same: "bu_inv ?E ?n L ?F tree0 (insert i D) s" if "i \<notin> ?N"
  proof -
    have "?N \<inter> insert i D = ?N \<inter> D" using that by auto
    then show ?thesis using I unfolding bu_inv_def by simp
  qed
  show ?thesis
  proof (cases "tree0 ! nat i = -1")
    case False
    then have "i \<notin> ?N" by (simp add: next_level_def)
    then show ?thesis using same i len ti False by (simp add: bottom_up_vertex_def s)
  next
    case True
    note nb = graph_nbrs(1) [OF g i(1,2)]
    obtain nx' where nx': "length nx' = length nx" "bits nx' = insert i (bits nx)"
        and run: "bottom_up_vertex g past i s = Some (case find (\<lambda>j. j \<in> bits past) (seg g i) of
          None \<Rightarrow> s | Some j \<Rightarrow> (tree[nat i := j], nx', aw + 1))"
      using bottom_up_scan [OF g past(2) L [folded t(2)] i(1,2) len ti [unfolded True], of aw, folded s] by (elim exE conjE) (rule that)
    show ?thesis
    proof (cases "find (\<lambda>j. j \<in> bits past) (seg g i)")
      case None
      have "i \<notin> ?N"
      proof
        assume "i \<in> ?N"
        then obtain u where u: "u \<in> ?F" "i \<in> ?E u" by (auto simp: next_level_def)
        then have "u \<in> set (seg g i)" unfolding nb using edge_nbrs_sym by blast
        then show False using None u(1) past(1) by (auto simp: level_bits_def find_None_iff)
      qed
      then show ?thesis using run None same by simp
    next
      case (Some j)
      then have j: "j \<in> set (seg g i)" "j \<in> bits past" by (auto simp: find_Some_iff)
      then have x: "i \<in> ?E j" unfolding nb using edge_nbrs_sym by blast
      have F: "j \<in> ?F" by (rule level_bits_parent [OF inv past(1) i(1,2) True x j(2)])
      then have iN: "i \<in> ?N" using i True x by (auto simp: next_level_def)
      have un: "?N \<inter> insert i D = insert i (?N \<inter> D)" "i \<notin> ?N \<inter> D" using iN i(3) by auto
      have card: "card (?N \<inter> insert i D) = Suc (card (?N \<inter> D))" unfolding un(1) using un(2) finite_next_level by simp
      have "bu_inv ?E ?n L ?F tree0 (insert i D) (tree[nat i := j], nx', aw + 1)"
        unfolding bu_inv_def prod.case card using t nx' un F x i len by (auto simp: nth_list_update_int)
      then show ?thesis using run Some by simp
    qed
  qed
qed

lemma bottom_up_result:
  assumes om: "omp_law om" and g: "graph_ok IJ g" and inv: "level_inv (edge_nbrs IJ) r (nv g) d tree"
    and nx: "level_bits (edge_nbrs IJ) r d nx" "nv g \<le> 64 * int (length nx)" and past: "nv g \<le> 64 * int (length past)"
  shows "\<exists>tree' nx'. bfs_bottom_up_step om g (tree, past, nx) =
      Some (int (card (frontier (edge_nbrs IJ) r (Suc d))), tree', nx, nx') \<and>
    length tree' = length tree \<and> length nx' = length past \<and> level_inv (edge_nbrs IJ) r (nv g) (Suc d) tree' \<and>
    bits nx' = frontier (edge_nbrs IJ) r (Suc d)"
proof -
  let ?E = "edge_nbrs IJ" and ?n = "nv g"
  let ?F = "frontier ?E r d" and ?N = "frontier ?E r (Suc d)"
  note E = graph_nbrs(2) [OF g]
  obtain b where b: "bm_reset past = Some b" "length b = length past" "bits b = {}" using bm_reset_result by blast
  let ?I = "bu_inv ?E ?n (length past) ?F tree"
  have "\<exists>s. omp_for om (''bottom_up'', tree) 0 ?n (\<lambda>tid. bottom_up_vertex g nx) (tree, b, 0) = Some s \<and> ?I {0..<?n} s"
  proof (rule omp_for_inv [where I = ?I, OF om])
    show "?I {} (tree, b, 0)" using b by (simp add: bu_inv_def)
  qed (rule bottom_up_vertex_result [OF g inv nx past])
  then obtain tree' nx' aw where s: "omp_for om (''bottom_up'', tree) 0 ?n (\<lambda>tid. bottom_up_vertex g nx) (tree, b, 0) =
      Some (tree', nx', aw)" "?I {0..<?n} (tree', nx', aw)" by auto
  have N: "next_level ?E ?n tree ?F = ?N" "?N \<inter> {0..<?n} = ?N"
    using next_level_frontier [OF inv E] frontier_range [OF inv E, of "Suc d"] by auto
  have f: "length tree' = length tree" "length nx' = length past" "bits nx' = ?N" "aw = int (card ?N)"
      "\<And>v. 0 \<le> v \<Longrightarrow> v < ?n \<Longrightarrow> if v \<in> ?N then tree' ! nat v \<in> ?F \<and> v \<in> ?E (tree' ! nat v) else tree' ! nat v = tree ! nat v"
    using s(2) unfolding bu_inv_def N by auto
  have "level_step ?E ?n ?F tree tree'" unfolding level_step_def N(1) using f(1,5) by blast
  then have "level_inv ?E r ?n (Suc d) tree'" by (rule level_inv_step [OF inv E])
  moreover have "bfs_bottom_up_step om g (tree, past, nx) = Some (aw, tree', nx, nx')"
    using b(1) s(1) by (simp add: bfs_bottom_up_step_def bm_swap_def)
  ultimately show ?thesis using f by blast
qed

text \<open>Marking the level in the bitmap.\<close>

lemma fill_bitmap_result:
  assumes om: "omp_law om" and q: "level_queue n tree F vlist k1 k2" and n: "n \<le> 64 * int (length bm)"
  shows "\<exists>bm'. fill_bitmap_from_queue om bm vlist k1 k2 = Some bm' \<and> length bm' = length bm \<and> bits bm' = bits bm \<union> F"
proof -
  let ?I = "\<lambda>D bm'. length bm' = length bm \<and> bits bm' = bits bm \<union> (\<lambda>i. vlist ! nat i) ` D"
  have "\<exists>bm'. fill_bitmap_from_queue om bm vlist k1 k2 = Some bm' \<and> ?I {k1..<k2} bm'"
    unfolding fill_bitmap_from_queue_def
  proof (rule omp_for_inv [where I = ?I, OF om])
    fix D tid i bm'
    assume i: "k1 \<le> i" "i < k2" and I: "?I D bm'"
    let ?v = "vlist ! nat i"
    have v: "rd vlist i = Some ?v" "0 \<le> ?v" "?v < 64 * int (length bm')"
      using level_queue_nth [OF q i] I n by auto
    obtain bm2 where "bm_set_bit bm' ?v = Some bm2" "length bm2 = length bm'" "bits bm2 = insert ?v (bits bm')"
      using bm_set_bit_result [OF v(2,3)] by blast
    then show "\<exists>bm2. do { v \<leftarrow> rd vlist i; bm_set_bit_atomic bm' v } = Some bm2 \<and> ?I (insert i D) bm2"
      using v(1) bm_set_bit_atomic_eq [OF v(2,3)] I by simp
  qed simp
  moreover have "(\<lambda>i. vlist ! nat i) ` {k1..<k2} = F"
    unfolding level_queue_image [OF q, symmetric] by (rule image_cong) (use level_queue_nth(3) [OF q] in auto)
  ultimately show ?thesis by auto
qed

subsection \<open>From the bitmap to the queue\<close>

text \<open>
  The part of the bitmap of a thread starts at \<open>lo\<close>; \<open>i\<close> is the next vertex to take, or -1.
\<close>

definition taken :: "bitmap \<Rightarrow> int \<Rightarrow> int \<Rightarrow> int \<Rightarrow> int set" where
  "taken bm lo hi i = {q \<in> bits bm. lo \<le> q \<and> q < hi \<and> (i = -1 \<or> q < i)}"

lemma taken_finite: "finite (taken bm lo hi i)"
  by (rule finite_subset [of _ "{lo..<hi}"]) (auto simp: taken_def)

lemma taken_next:
  assumes "next_bit_spec bm i i'" "lo \<le> i" "i < hi" "i \<noteq> -1"
  shows "taken bm lo hi i' = (if i \<in> bits bm then insert i (taken bm lo hi i) else taken bm lo hi i)"
proof -
  have up_to: "i' = -1 \<or> q < i' \<longleftrightarrow> q \<le> i" if q: "q \<in> bits bm" for q
    using assms(1) unfolding next_bit_spec_def
  proof
    assume r: "i' \<in> bits bm \<and> i < i' \<and> (\<forall>q \<in> bits bm. q \<le> i \<or> i' \<le> q)"
    then have "0 \<le> i'" "i < i'" "q \<le> i \<or> i' \<le> q" using q by (simp_all add: bits_def)
    then show ?thesis by linarith
  next
    assume "i' = -1 \<and> (\<forall>q \<in> bits bm. q \<le> i)"
    then show ?thesis using q by simp
  qed
  show ?thesis
  proof (rule set_eqI)
    fix q
    show "q \<in> taken bm lo hi i' \<longleftrightarrow> q \<in> (if i \<in> bits bm then insert i (taken bm lo hi i) else taken bm lo hi i)"
    proof (cases "q \<in> bits bm")
      case True
      have "q \<le> i \<longleftrightarrow> q = i \<or> q < i" by linarith
      then show ?thesis using up_to [OF True] True assms(2-4) by (simp add: taken_def) blast
    next
      case False
      then show ?thesis by (auto simp: taken_def)
    qed
  qed
qed

lemma taken_card: "taken bm lo hi i \<subseteq> taken bm lo hi (-1)"
  by (auto simp: taken_def)

text \<open>What has been taken is in the queue or in the buffer; \<open>M\<close> is what was in the queue before.\<close>

definition fq_inv ::
    "bitmap \<Rightarrow> int \<Rightarrow> int \<Rightarrow> int \<Rightarrow> int multiset \<Rightarrow> int \<times> int list \<times> int \<times> int list \<times> int \<Rightarrow> bool" where
  "fq_inv bm n lo hi M = (\<lambda>(i, vlist, k2, local, idx). int (length vlist) = n \<and> 0 \<le> k2 \<and> k2 \<le> n \<and>
     int (length local) = THREAD_BUF_LEN \<and> 0 \<le> idx \<and> idx < THREAD_BUF_LEN \<and> (i = -1 \<or> i \<in> bits bm \<and> lo < i) \<and>
     mset (take (nat k2) vlist) + mset (take (nat idx) local) = M + mset_set (taken bm lo hi i))"

lemma fq_size:
  assumes "size M + card (taken bm lo hi (-1)) \<le> nat n"
    "mset (take (nat k2) vlist) + mset (take (nat idx) local) = M + mset_set (taken bm lo hi i)"
    "int (length vlist) = n" "0 \<le> k2" "k2 \<le> n" "0 \<le> idx" "idx \<le> int (length local)"
  shows "k2 + idx \<le> n"
proof -
  have "size (mset (take (nat k2) vlist) + mset (take (nat idx) local)) = size M + card (taken bm lo hi i)"
    unfolding assms(2) by simp
  moreover have "size (mset (take (nat k2) vlist) + mset (take (nat idx) local)) = nat k2 + nat idx"
  proof -
    have "nat k2 \<le> length vlist" "nat idx \<le> length local" using assms(3-7) by auto
    then show ?thesis by simp
  qed
  moreover have "card (taken bm lo hi i) \<le> card (taken bm lo hi (-1))"
    by (rule card_mono [OF taken_finite taken_card])
  ultimately have "nat k2 + nat idx \<le> nat n" using assms(1) by linarith
  then show ?thesis using assms(4-6) by linarith
qed

lemma fill_queue_step:
  assumes bm: "bits bm \<subseteq> {0..<n}" "n \<le> 64 * int (length bm)" "n < 2 ^ 31"
    and room: "size M + card (taken bm lo hi (-1)) \<le> nat n" and lo: "0 \<le> lo"
    and I: "fq_inv bm n lo hi M (i, vlist, k2, local, idx)" and i: "i \<noteq> -1" "i < hi"
  shows "\<exists>i' s. take_vertex bm (i, vlist, k2, local, idx) = Some (i', s) \<and> fq_inv bm n lo hi M (i', s) \<and> (i' = -1 \<or> i < i')"
proof -
  have f: "int (length vlist) = n" "0 \<le> k2" "k2 \<le> n" "int (length local) = THREAD_BUF_LEN" "0 \<le> idx" "idx < THREAD_BUF_LEN"
      "i \<in> bits bm" "lo < i" "mset (take (nat k2) vlist) + mset (take (nat idx) local) = M + mset_set (taken bm lo hi i)"
    using I i(1) by (auto simp: fq_inv_def)
  have b: "0 \<le> i" "i < 64 * int (length bm)" "i < 2 ^ 32" using bm f(7) by auto
  obtain i' where i': "bm_get_next_bit bm i = Some i'" "next_bit_spec bm i i'" using bm_get_next_bit_result [OF b] by blast
  let ?l = "local[nat idx := i]"
  have w: "wr local idx i = Some ?l" using f by simp
  have tk: "take (nat (idx + 1)) ?l = take (nat idx) local @ [i]"
  proof -
    have "nat (idx + 1) = Suc (nat idx)" "nat idx < length local" using f(4-6) by auto
    then show ?thesis by (simp add: take_Suc_conv_app_nth)
  qed
  have "i \<notin> taken bm lo hi i" using i(1) by (simp add: taken_def)
  then have new: "mset_set (taken bm lo hi i') = add_mset i (mset_set (taken bm lo hi i))"
    using taken_next [OF i'(2), of lo hi] f(7,8) i taken_finite by simp
  have sum: "mset (take (nat k2) vlist) + mset (take (nat (idx + 1)) ?l) = M + mset_set (taken bm lo hi i')"
    unfolding tk new using f(9) by simp
  have i1: "i' = -1 \<or> i' \<in> bits bm \<and> lo < i'" "i' = -1 \<or> i < i'" using i'(2) f(8) by (auto simp: next_bit_spec_def)
  show ?thesis
  proof (cases "idx + 1 = THREAD_BUF_LEN")
    case False
    then have "fq_inv bm n lo hi M (i', vlist, k2, ?l, idx + 1)"
      using f sum i1 by (simp add: fq_inv_def)
    then show ?thesis using w i'(1) False i1(2) by (simp add: take_vertex_def)
  next
    case True
    have fit: "k2 + THREAD_BUF_LEN \<le> n"
      using fq_size [OF room sum f(1-3)] f(4,5) True by simp
    have "0 \<le> THREAD_BUF_LEN" "to_int k2 = k2" using bm(3) f(2,3) by (simp_all add: THREAD_BUF_LEN_def to_int_small)
    note c = copy_block_prefix [of THREAD_BUF_LEN ?l k2 vlist, OF this(1) _ f(2)]
    have "fq_inv bm n lo hi M (i', put vlist (nat k2) (take (nat THREAD_BUF_LEN) ?l), k2 + THREAD_BUF_LEN, ?l, 0)"
      using f(1-4) c fit i1(1) sum True \<open>0 \<le> THREAD_BUF_LEN\<close> by (simp add: fq_inv_def THREAD_BUF_LEN_def)
    then show ?thesis using w i'(1) True i1(2) c(1) fit f(1,4) \<open>to_int k2 = k2\<close> by (simp add: take_vertex_def int64_fetch_add_def)
  qed
qed

end
