(* ===== verification/OmpSearch.thy ===== *)
theory OmpSearch
  imports OmpBfs
begin

text \<open>
  The parallel search as a whole: the queue is filled from the bitmap without loss, every round of the
  search keeps the invariant of the search by levels, and the rounds end.
\<close>

subsection \<open>Filling the queue\<close>

lemma fill_queue_loop:
  assumes bm: "bits bm \<subseteq> {0..<n}" "n \<le> 64 * int (length bm)" "n < 2 ^ 31"
    and room: "size M + card (taken bm lo hi (-1)) \<le> nat n" and lo: "0 \<le> lo"
    and I: "fq_inv bm n lo hi M (i, s)"
  shows "\<exists>i' s'. while_opt (\<lambda>(i, s). Some (i \<noteq> -1 \<and> i < hi)) (take_vertex bm) (i, s) = Some (i', s') \<and>
    fq_inv bm n lo hi M (i', s') \<and> (i' = -1 \<or> hi \<le> i')"
proof -
  let ?b = "\<lambda>(i, s :: int list \<times> int \<times> int list \<times> int). Some (i \<noteq> -1 \<and> i < hi)"
  have "\<exists>t. while_opt ?b (take_vertex bm) (i, s) = Some t \<and> fq_inv bm n lo hi M t \<and> ?b t = Some False"
  proof (rule while_opt_inv [where m = "\<lambda>(i, s). if i = -1 then 0 else nat (hi - i)"])
    fix t
    assume J: "fq_inv bm n lo hi M t" and go: "?b t = Some True"
    obtain i vlist k2 local idx where t: "t = (i, vlist, k2, local, idx)" by (cases t) auto
    have i: "i \<noteq> -1" "i < hi" using go by (simp_all add: t)
    obtain i' s where s: "take_vertex bm t = Some (i', s)" "fq_inv bm n lo hi M (i', s)" "i' = -1 \<or> i < i'"
      using fill_queue_step [OF bm room lo J [unfolded t] i] unfolding t by blast
    then show "\<exists>t'. take_vertex bm t = Some t' \<and> fq_inv bm n lo hi M t' \<and>
        (case t' of (i, s) \<Rightarrow> if i = -1 then 0 else nat (hi - i)) < (case t of (i, s) \<Rightarrow> if i = -1 then 0 else nat (hi - i))"
      using i by (intro exI [of _ "(i', s)"]) (auto simp: t)
  qed (use I in auto)
  then show ?thesis by auto
qed

text \<open>The vertices of the bitmap that a thread takes.\<close>

definition part :: "int \<Rightarrow> int \<Rightarrow> bitmap \<Rightarrow> nat set \<Rightarrow> int set" where
  "part n nt bm D = {q \<in> bits bm. nat (q div ((n + nt - 1) div nt)) \<in> D}"

lemma nodes_per_thread:
  fixes n nt :: int
  assumes "0 < n" "0 < nt"
  shows "(n + nt - 1) sdiv nt = (n + nt - 1) div nt" "0 < (n + nt - 1) div nt" "n \<le> (n + nt - 1) div nt * nt"
proof -
  have p: "0 < n + nt - 1" using assms by simp
  show "(n + nt - 1) sdiv nt = (n + nt - 1) div nt"
    using assms p by (simp add: signed_divide_int_def)
  show "0 < (n + nt - 1) div nt" using assms by (simp add: pos_imp_zdiv_pos_iff)
  have "(n + nt - 1) div nt * nt + (n + nt - 1) mod nt = n + nt - 1" "(n + nt - 1) mod nt < nt"
    using assms by simp_all
  then show "n \<le> (n + nt - 1) div nt * nt" by linarith
qed

lemma part_thread:
  assumes "0 < n" "0 < nt" "bits bm \<subseteq> {0..<n}"
  defines "m \<equiv> (n + nt - 1) div nt"
  shows "part n nt bm {tid} = taken bm (m * int tid) (if m * int tid + m \<ge> n then n else m * int tid + m) (-1)"
proof (rule set_eqI)
  fix q
  have m: "0 < m" unfolding m_def by (rule nodes_per_thread(2) [OF assms(1,2)])
  show "q \<in> part n nt bm {tid} \<longleftrightarrow> q \<in> taken bm (m * int tid) (if m * int tid + m \<ge> n then n else m * int tid + m) (-1)"
  proof (cases "q \<in> bits bm")
    case True
    then have q: "0 \<le> q" "q < n" using assms(3) by auto
    have "nat (q div m) = tid \<longleftrightarrow> q div m = int tid" using q m by (auto simp: pos_imp_zdiv_nonneg_iff)
    also have "\<dots> \<longleftrightarrow> m * int tid \<le> q \<and> q < m * int tid + m"
    proof
      assume "q div m = int tid"
      moreover have "m * (q div m) + q mod m = q" "0 \<le> q mod m" "q mod m < m" using m by simp_all
      ultimately show "m * int tid \<le> q \<and> q < m * int tid + m" by simp
    next
      assume "m * int tid \<le> q \<and> q < m * int tid + m"
      then show "q div m = int tid" by (intro int_div_pos_eq [of _ _ _ "q - m * int tid"]) simp_all
    qed
    finally show ?thesis using True q by (simp add: part_def taken_def m_def [symmetric])
  qed (simp add: part_def taken_def)
qed

lemma part_finite: "bits bm \<subseteq> {0..<n} \<Longrightarrow> finite (part n nt bm D)"
  by (rule finite_subset [of _ "{0..<n}"]) (auto simp: part_def)

lemma take_part_result:
  assumes bm: "bits bm \<subseteq> {0..<n}" "n \<le> 64 * int (length bm)" "n < 2 ^ 31" and lo: "0 \<le> lo" "lo < hi" "lo < n"
    and v: "int (length vlist) = n" "0 \<le> k2" "k2 \<le> n" and l: "int (length local) = THREAD_BUF_LEN"
    and room: "nat k2 + card (taken bm lo hi (-1)) \<le> nat n"
  shows "\<exists>i s. take_part bm lo hi (vlist, k2, local) = Some s \<and> fq_inv bm n lo hi (mset (take (nat k2) vlist)) (i, s) \<and>
    (i = -1 \<or> hi \<le> i)"
proof -
  let ?M = "mset (take (nat k2) vlist)"
  have B: "1 < THREAD_BUF_LEN" by (simp add: THREAD_BUF_LEN_def)
  have rm: "size ?M + card (taken bm lo hi (-1)) \<le> nat n" using room v by (simp add: min_def)
  have b0: "lo < 64 * int (length bm)" "lo < 2 ^ 32" using lo(3) bm(2,3) by auto
  obtain w where w: "bm_get_bit bm lo = Some w" "w \<noteq> 0 \<longleftrightarrow> lo \<in> bits bm"
    using bm_get_bit_result [OF lo(1) b0(1)] by blast
  obtain i where i: "bm_get_next_bit bm lo = Some i" "next_bit_spec bm lo i"
    using bm_get_next_bit_result [OF lo(1) b0] by blast
  define l' where "l' = (if w \<noteq> 0 then local[0 := lo] else local)"
  define idx :: int where "idx = (if w \<noteq> 0 then 1 else 0)"
  have first: "(if w \<noteq> 0 then do { local \<leftarrow> wr local 0 lo; Some (local, 1) } else Some (local, 0)) = Some (l', idx)"
    using l B by (simp add: l'_def idx_def)
  have "taken bm lo hi lo = {}" using lo by (auto simp: taken_def)
  then have tk: "taken bm lo hi i = (if w \<noteq> 0 then {lo} else {})"
    using taken_next [OF i(2), of lo hi] lo w(2) by simp
  have "take (nat idx) l' = (if w \<noteq> 0 then [lo] else [])" using l B by (cases local) (auto simp: l'_def idx_def)
  then have "fq_inv bm n lo hi ?M (i, vlist, k2, l', idx)"
    using v l B i(2) tk by (auto simp: fq_inv_def l'_def idx_def next_bit_spec_def)
  from fill_queue_loop [OF bm rm lo(1) this] obtain i' s where
    J: "while_opt (\<lambda>(i, s). Some (i \<noteq> -1 \<and> i < hi)) (take_vertex bm) (i, vlist, k2, l', idx) = Some (i', s)"
      "fq_inv bm n lo hi ?M (i', s)" "i' = -1 \<or> hi \<le> i'" by (elim exE conjE) (rule that)
  have "take_part bm lo hi (vlist, k2, local) = Some s"
    unfolding take_part_def prod.case w(1) Option.bind.bind_lunit first i(1) J(1) by simp
  with J(2,3) show ?thesis by blast
qed

lemma fill_queue_flush:
  assumes J: "fq_inv bm n lo hi M (i, vl, k2, local, idx)" "i = -1 \<or> hi \<le> i" and n: "n < 2 ^ 31"
    and room: "size M + card (taken bm lo hi (-1)) \<le> nat n" and b: "bufs_ok nt nbuf" and tid: "tid < nt"
  shows "\<exists>vl' k2'' nbuf'. do {
       let (my_in, k2) = int64_fetch_add k2 idx;
       vlist \<leftarrow> copy_block idx local (to_int my_in) vl;
       nbuf \<leftarrow> wr nbuf (int tid) local;
       Some (vlist, k2, nbuf)
     } = Some (vl', k2'', nbuf') \<and> int (length vl') = n \<and> 0 \<le> k2'' \<and> k2'' \<le> n \<and> bufs_ok nt nbuf' \<and>
    mset (take (nat k2'') vl') = M + mset_set (taken bm lo hi (-1))"
proof -
  have "taken bm lo hi i = taken bm lo hi (-1)" using J(2) by (auto simp: taken_def)
  then have f: "int (length vl) = n" "0 \<le> k2" "k2 \<le> n" "int (length local) = THREAD_BUF_LEN" "0 \<le> idx" "idx < THREAD_BUF_LEN"
      "mset (take (nat k2) vl) + mset (take (nat idx) local) = M + mset_set (taken bm lo hi (-1))"
    using J(1) by (auto simp: fq_inv_def)
  have il: "idx \<le> int (length local)" using f(4,6) by simp
  have fit: "k2 + idx \<le> n" by (rule fq_size [OF room f(7,1,2,3,5) il])
  have ti: "to_int k2 = k2" using n f(2,3) by (simp add: to_int_small)
  note c = copy_block_prefix [OF f(5) il f(2) fit [folded f(1)]]
  have wn: "wr nbuf (int tid) local = Some (nbuf[tid := local])" using b tid by (simp add: bufs_ok_def)
  have "length (nbuf[tid := local]) = nt" "int (length (nbuf[tid := local] ! j)) = THREAD_BUF_LEN" if "j < nt" for j
    using b f(4) that by (cases "j = tid"; simp add: bufs_ok_def)+
  then have "bufs_ok nt (nbuf[tid := local])" using b by (simp add: bufs_ok_def)
  then show ?thesis
    using f(1,2,5,7) fit c(2,3) by (simp add: int64_fetch_add_def ti c(1) wn)
qed

lemma fill_queue_thread_result:
  assumes n: "0 < n" "0 < nt" and bm: "bits bm \<subseteq> {0..<n}" "n \<le> 64 * int (length bm)" "n < 2 ^ 31"
    and v: "int (length vlist) = n" "0 \<le> k2" "k2 \<le> n" and b: "bufs_ok (nat nt) nbuf" and tid: "tid < nat nt"
    and room: "nat k2 + card (part n nt bm {tid}) \<le> nat n"
  shows "\<exists>vlist' k2' nbuf'. fill_queue_thread n nt bm tid (vlist, k2, nbuf) = Some (vlist', k2', nbuf') \<and>
    int (length vlist') = n \<and> 0 \<le> k2' \<and> k2' \<le> n \<and> bufs_ok (nat nt) nbuf' \<and>
    mset (take (nat k2') vlist') = mset (take (nat k2) vlist) + mset_set (part n nt bm {tid})"
proof -
  define m where "m = (n + nt - 1) div nt"
  define lo where "lo = m * int tid"
  define hi where "hi = (if lo + m \<ge> n then n else lo + m)"
  have m: "0 < m" "(n + nt - 1) sdiv nt = m" using nodes_per_thread [OF n] by (simp_all add: m_def)
  have lo: "0 \<le> lo" using m by (simp add: lo_def)
  have pt: "part n nt bm {tid} = taken bm lo hi (-1)"
    unfolding hi_def lo_def m_def by (rule part_thread [OF n bm(1)])
  let ?l = "nbuf ! tid" and ?M = "mset (take (nat k2) vlist)"
  have tl: "tid < length nbuf" "int (length ?l) = THREAD_BUF_LEN" using b tid by (simp_all add: bufs_ok_def)
  then have bl: "rd nbuf (int tid) = Some ?l" "int (length ?l) = THREAD_BUF_LEN" by simp_all
  have rm: "size ?M + card (taken bm lo hi (-1)) \<le> nat n" using room v by (simp add: pt min_def)
  have "\<exists>i s. (if lo < n then take_part bm lo hi (vlist, k2, ?l) else Some (vlist, k2, ?l, 0)) = Some s \<and>
      fq_inv bm n lo hi ?M (i, s) \<and> (i = -1 \<or> hi \<le> i)"
  proof (cases "lo < n")
    case False
    then have "taken bm lo hi (-1) = {}" using bm(1) by (auto simp: taken_def)
    then have "fq_inv bm n lo hi ?M (-1, vlist, k2, ?l, 0)" using v bl(2) by (simp add: fq_inv_def THREAD_BUF_LEN_def)
    then show ?thesis using False by (intro exI [of _ "-1"]) simp
  next
    case True
    then have "lo < hi" using m(1) by (simp add: hi_def)
    then show ?thesis using take_part_result [OF bm lo _ True v bl(2)] room True by (simp add: pt)
  qed
  then obtain i vl k local idx where s: "(if lo < n then take_part bm lo hi (vlist, k2, ?l) else Some (vlist, k2, ?l, 0)) =
      Some (vl, k, local, idx)" "fq_inv bm n lo hi ?M (i, vl, k, local, idx)" "i = -1 \<or> hi \<le> i" by auto
  show ?thesis
    unfolding fill_queue_thread_def prod.case bl(1) Option.bind.bind_lunit m(2) Let_def lo_def [symmetric] hi_def [symmetric] s(1) pt
    using fill_queue_flush [OF s(2,3) bm(3) rm b tid] by (simp add: Let_def)
qed

lemma part_add:
  assumes "tid \<notin> D"
  shows "part n nt bm (insert tid D) = part n nt bm D \<union> part n nt bm {tid}" "part n nt bm D \<inter> part n nt bm {tid} = {}"
  using assms by (auto simp: part_def)

lemma part_all:
  assumes "0 < n" "0 < nt" "bits bm \<subseteq> {0..<n}"
  shows "part n nt bm {..<nat nt} = bits bm"
proof -
  define m where "m = (n + nt - 1) div nt"
  have m: "0 < m" "n \<le> m * nt" using nodes_per_thread [OF assms(1,2)] by (simp_all add: m_def)
  have "nat (q div m) < nat nt" if "q \<in> bits bm" for q
  proof -
    have "0 \<le> q" "q < nt * m" using that assms(3) m(2) by (auto simp: mult.commute)
    have "q div m < nt"
    proof (rule ccontr)
      assume "\<not> q div m < nt"
      then have "nt * m \<le> q div m * m" using m(1) by (intro mult_right_mono) auto
      moreover have "q div m * m + q mod m = q" "0 \<le> q mod m" using m(1) by simp_all
      ultimately show False using \<open>q < nt * m\<close> by linarith
    qed
    then show ?thesis using m(1) \<open>0 \<le> q\<close> assms(2) by (simp add: pos_imp_zdiv_nonneg_iff)
  qed
  then show ?thesis by (auto simp: part_def m_def [symmetric])
qed

lemma fill_queue_result:
  assumes om: "omp_law om" and n: "0 < n" and bm: "bits bm \<subseteq> {0..<n}" "n \<le> 64 * int (length bm)" "n < 2 ^ 31"
    and v: "int (length vlist) = n" and b: "bufs_ok (num_threads om) nbuf"
  shows "\<exists>vlist' k2 nbuf'. fill_queue_from_bitmap om n bm vlist nbuf = Some (vlist', 0, k2, nbuf') \<and>
    int (length vlist') = n \<and> 0 \<le> k2 \<and> k2 \<le> n \<and> bufs_ok (num_threads om) nbuf' \<and>
    distinct (take (nat k2) vlist') \<and> set (take (nat k2) vlist') = bits bm"
proof -
  let ?nt = "int (num_threads om)"
  have nt: "0 < ?nt" using omp_lawD(1) [OF om] by simp
  let ?I = "\<lambda>D (vl, k, nb). int (length vl) = n \<and> 0 \<le> k \<and> k \<le> n \<and> bufs_ok (num_threads om) nb \<and>
    mset (take (nat k) vl) = mset_set (part n ?nt bm D)"
  have "\<exists>s. omp_each om (''fill_queue'', vlist) (fill_queue_thread n ?nt bm) (vlist, 0, nbuf) = Some s \<and> ?I {..<num_threads om} s"
  proof (rule omp_each_inv [where I = ?I, OF om])
    show "?I {} (vlist, 0, nbuf)" using v n b by (simp add: part_def)
    fix D tid s
    assume tid: "tid < num_threads om" "tid \<notin> D" and I: "?I D s"
    obtain vl k nb where s: "s = (vl, k, nb)" by (cases s) auto
    have f: "int (length vl) = n" "0 \<le> k" "k \<le> n" "bufs_ok (num_threads om) nb" "mset (take (nat k) vl) = mset_set (part n ?nt bm D)"
      using I by (simp_all add: s)
    note pa = part_add [OF tid(2), of n ?nt bm] and fin = part_finite [OF bm(1)]
    have "nat k = card (part n ?nt bm D)"
      using arg_cong [OF f(5), of size] f(1,3) by (simp add: min_def split: if_splits)
    then have "nat k + card (part n ?nt bm {tid}) = card (part n ?nt bm (insert tid D))"
      unfolding pa(1) using card_Un_disjoint [OF fin fin pa(2)] by simp
    also have "\<dots> \<le> card {0..<n}" by (rule card_mono) (use bm(1) in \<open>auto simp: part_def\<close>)
    finally have room: "nat k + card (part n ?nt bm {tid}) \<le> nat n" by simp
    have "mset_set (part n ?nt bm (insert tid D)) = mset_set (part n ?nt bm D) + mset_set (part n ?nt bm {tid})"
      unfolding pa(1) by (rule mset_set_Union [OF fin fin pa(2)])
    then show "\<exists>s'. fill_queue_thread n ?nt bm tid s = Some s' \<and> ?I (insert tid D) s'"
      using fill_queue_thread_result [OF n nt bm f(1-3), of nb tid] f(4,5) tid(1) room by (auto simp: s)
  qed
  then obtain vl k nb where s: "omp_each om (''fill_queue'', vlist) (fill_queue_thread n ?nt bm) (vlist, 0, nbuf) = Some (vl, k, nb)"
      "int (length vl) = n" "0 \<le> k" "k \<le> n" "bufs_ok (num_threads om) nb"
      "mset (take (nat k) vl) = mset_set (part n ?nt bm {..<num_threads om})" by auto
  have "part n ?nt bm {..<num_threads om} = bits bm" using part_all [OF n nt bm(1)] by simp
  then show ?thesis
    using s mset_set_list [OF s(6) part_finite [OF bm(1)]] by (simp add: fill_queue_from_bitmap_def)
qed

subsection \<open>Rounds\<close>

text \<open>
  The invariant of the search: after \<open>d\<close> levels the queue has the level between \<open>k1\<close> and \<open>k2\<close>; the
  bitmap \<open>next\<close> may still have vertices of earlier levels, but no others.
\<close>

definition search_ok :: "omp \<Rightarrow> packed_edge list \<Rightarrow> csr \<Rightarrow> int \<Rightarrow> nat \<Rightarrow> nat \<Rightarrow> search \<Rightarrow> bool" where
  "search_ok om IJ g r len d s \<longleftrightarrow> length (s_tree s) = len \<and> level_inv (edge_nbrs IJ) r (nv g) d (s_tree s) \<and>
     level_queue (nv g) (s_tree s) (frontier (edge_nbrs IJ) r d) (s_vlist s) (s_k1 s) (s_k2 s) \<and>
     bufs_ok (num_threads om) (s_nbuf s) \<and> s_awake s = int (card (frontier (edge_nbrs IJ) r d)) \<and>
     bits (s_next s) \<subseteq> {v. reachable (edge_nbrs IJ) r v \<and> hops (edge_nbrs IJ) r v \<le> d} \<and>
     nv g \<le> 64 * int (length (s_next s)) \<and> nv g \<le> 64 * int (length (s_past s))"

lemma frontier_finite:
  assumes "level_inv E r n d tree" "\<And>u. E u \<subseteq> {0..<n}"
  shows "finite (frontier E r k)"
  by (rule finite_subset [OF frontier_range [OF assms]]) simp

lemma top_down_phase_result:
  assumes om: "omp_law om" and g: "graph_ok IJ g" and ok: "search_ok om IJ g r len d s"
  shows "\<exists>s'. top_down_phase om g s = Some s' \<and> search_ok om IJ g r len (Suc d) s'"
proof -
  let ?E = "edge_nbrs IJ"
  have f: "length (s_tree s) = len" "level_inv ?E r (nv g) d (s_tree s)"
      "level_queue (nv g) (s_tree s) (frontier ?E r d) (s_vlist s) (s_k1 s) (s_k2 s)" "bufs_ok (num_threads om) (s_nbuf s)"
    using ok by (simp_all add: search_ok_def)
  obtain tree vlist nbuf k2 where t: "bfs_top_down_step om g (s_tree s, s_vlist s, s_nbuf s, s_k1 s, s_k2 s) =
        Some (tree, vlist, nbuf, s_k2 s, k2)" "length tree = length (s_tree s)" "level_inv ?E r (nv g) (Suc d) tree"
      "level_queue (nv g) tree (frontier ?E r (Suc d)) vlist (s_k2 s) k2" "bufs_ok (num_threads om) nbuf"
    using top_down_result [OF om g f(2-4)] by blast
  have "{v. reachable ?E r v \<and> hops ?E r v \<le> d} \<subseteq> {v. reachable ?E r v \<and> hops ?E r v \<le> Suc d}" by auto
  then show ?thesis
    using t ok f(1) level_queue_card [OF t(4)] by (auto simp: top_down_phase_def search_ok_def)
qed

text \<open>The inner loop of the bottom-up phase.\<close>

definition bu_state_ok :: "packed_edge list \<Rightarrow> csr \<Rightarrow> int \<Rightarrow> nat \<Rightarrow> nat \<Rightarrow> int \<times> int list \<times> bitmap \<times> bitmap \<Rightarrow> bool" where
  "bu_state_ok IJ g r len d = (\<lambda>(aw, tree, past, nx). length tree = len \<and> level_inv (edge_nbrs IJ) r (nv g) d tree \<and>
     aw = int (card (frontier (edge_nbrs IJ) r d)) \<and> bits nx = frontier (edge_nbrs IJ) r d \<and>
     nv g \<le> 64 * int (length nx) \<and> nv g \<le> 64 * int (length past))"

lemma bu_step:
  assumes om: "omp_law om" and g: "graph_ok IJ g" and inv: "length tree = len" "level_inv (edge_nbrs IJ) r (nv g) d tree"
    and nx: "level_bits (edge_nbrs IJ) r d nx" "nv g \<le> 64 * int (length nx)" "nv g \<le> 64 * int (length past)"
  shows "\<exists>t. bfs_bottom_up_step om g (tree, past, nx) = Some t \<and> bu_state_ok IJ g r len (Suc d) t"
  using bottom_up_result [OF om g inv(2) nx] inv(1) nx(2,3) by (auto simp: bu_state_ok_def)

lemma bu_loop:
  assumes om: "omp_law om" and g: "graph_ok IJ g" and cut: "0 \<le> cutoff" and ok: "bu_state_ok IJ g r len d t"
  shows "\<exists>d' t'. while_opt (\<lambda>(awake_count, r). Some (awake_count > cutoff)) (\<lambda>(awake_count, r). bfs_bottom_up_step om g r) t = Some t' \<and>
    d \<le> d' \<and> bu_state_ok IJ g r len d' t'"
proof -
  let ?E = "edge_nbrs IJ"
  let ?b = "\<lambda>(awake_count, r :: int list \<times> bitmap \<times> bitmap). Some (awake_count > cutoff)"
  have "\<exists>t'. while_opt ?b (\<lambda>(awake_count, r). bfs_bottom_up_step om g r) t = Some t' \<and>
      (\<exists>d'. d \<le> d' \<and> bu_state_ok IJ g r len d' t') \<and> ?b t' = Some False"
  proof (rule while_opt_inv [where m = "\<lambda>(aw, tree, x). undiscovered (nv g) tree + of_bool (aw \<noteq> 0)"])
    fix t
    assume "\<exists>d'. d \<le> d' \<and> bu_state_ok IJ g r len d' t" and go: "?b t = Some True"
    then obtain d' where d': "d \<le> d'" "bu_state_ok IJ g r len d' t" by blast
    obtain aw tree past nx where t: "t = (aw, tree, past, nx)" by (cases t) auto
    have f: "length tree = len" "level_inv ?E r (nv g) d' tree" "aw = int (card (frontier ?E r d'))" "bits nx = frontier ?E r d'"
        "nv g \<le> 64 * int (length nx)" "nv g \<le> 64 * int (length past)"
      using d'(2) by (simp_all add: t bu_state_ok_def)
    have "level_bits ?E r d' nx" by (auto simp: level_bits_def f(4) frontier_def)
    from bu_step [OF om g f(1,2) this f(5,6)] obtain t' where
      t': "bfs_bottom_up_step om g (tree, past, nx) = Some t'" "bu_state_ok IJ g r len (Suc d') t'" by blast
    obtain aw' tree' x where x: "t' = (aw', tree', x)" by (cases t') auto
    have inv': "level_inv ?E r (nv g) (Suc d') tree'" "aw' = int (card (frontier ?E r (Suc d')))"
      using t'(2) by (auto simp: x bu_state_ok_def)
    have "aw \<noteq> 0" using go cut by (auto simp: t)
    have "undiscovered (nv g) tree' + of_bool (aw' \<noteq> 0) < undiscovered (nv g) tree + of_bool (aw \<noteq> 0)"
      using level_measure [OF f(2) inv'(1) _ graph_nbrs(2) [OF g]] inv'(2) \<open>aw \<noteq> 0\<close> by simp
    then show "\<exists>t'. (case t of (awake_count, r) \<Rightarrow> bfs_bottom_up_step om g r) = Some t' \<and>
        (\<exists>d'. d \<le> d' \<and> bu_state_ok IJ g r len d' t') \<and>
        (case t' of (aw, tree, x) \<Rightarrow> undiscovered (nv g) tree + of_bool (aw \<noteq> 0)) <
        (case t of (aw, tree, x) \<Rightarrow> undiscovered (nv g) tree + of_bool (aw \<noteq> 0))"
      using t' d'(1) by (intro exI [of _ t']) (auto simp: t x intro: le_SucI)
  qed (use ok in auto)
  then show ?thesis by blast
qed

lemma level_queue_filled:
  assumes inv: "level_inv E r n d tree" and E: "\<And>u. E u \<subseteq> {0..<n}"
    and v: "int (length vlist) = n" "0 \<le> k2" "k2 \<le> n" "distinct (take (nat k2) vlist)" "set (take (nat k2) vlist) = frontier E r d"
  shows "level_queue n tree (frontier E r d) vlist 0 k2"
proof -
  have "frontier E r d \<subseteq> {v. 0 \<le> v \<and> v < n \<and> tree ! nat v \<noteq> -1}"
  proof
    fix u assume u: "u \<in> frontier E r d"
    then have "0 \<le> u" "u < n" using frontier_range [OF inv E, of d] by auto
    then show "u \<in> {v. 0 \<le> v \<and> v < n \<and> tree ! nat v \<noteq> -1}"
      using level_discovered [OF inv] u by (simp add: frontier_def)
  qed
  then show ?thesis using v by (simp add: level_queue_def)
qed

lemma bottom_up_phase_result:
  assumes om: "omp_law om" and g: "graph_ok IJ g" and n: "0 < nv g" "nv g < 2 ^ 31" and cut: "0 \<le> cutoff"
    and ok: "search_ok om IJ g r len d s"
  shows "\<exists>d' s'. bottom_up_phase om g cutoff s = Some s' \<and> d < d' \<and> search_ok om IJ g r len d' s'"
proof -
  let ?E = "edge_nbrs IJ" and ?n = "nv g"
  note E = graph_nbrs(2) [OF g]
  have f: "length (s_tree s) = len" "level_inv ?E r ?n d (s_tree s)"
      "level_queue ?n (s_tree s) (frontier ?E r d) (s_vlist s) (s_k1 s) (s_k2 s)" "bufs_ok (num_threads om) (s_nbuf s)"
      "bits (s_next s) \<subseteq> {v. reachable ?E r v \<and> hops ?E r v \<le> d}"
      "?n \<le> 64 * int (length (s_next s))" "?n \<le> 64 * int (length (s_past s))"
    using ok by (simp_all add: search_ok_def)
  obtain nx where nx: "fill_bitmap_from_queue om (s_next s) (s_vlist s) (s_k1 s) (s_k2 s) = Some nx"
      "length nx = length (s_next s)" "bits nx = bits (s_next s) \<union> frontier ?E r d"
    using fill_bitmap_result [OF om f(3,6)] by blast
  have lb: "level_bits ?E r d nx" using f(5) by (auto simp: level_bits_def nx(3) frontier_def)
  obtain t where t: "bfs_bottom_up_step om g (s_tree s, s_past s, nx) = Some t" "bu_state_ok IJ g r len (Suc d) t"
    using bu_step [OF om g f(1,2) lb _ f(7)] f(6) nx(2) by auto
  obtain d' aw tree past nx' where w: "while_opt (\<lambda>(awake_count, r). Some (awake_count > cutoff))
        (\<lambda>(awake_count, r). bfs_bottom_up_step om g r) t = Some (aw, tree, past, nx')" "Suc d \<le> d'"
      "bu_state_ok IJ g r len d' (aw, tree, past, nx')"
    using bu_loop [OF om g cut t(2)] by (elim exE conjE) (metis prod.collapse that)
  have h: "length tree = len" "level_inv ?E r ?n d' tree" "aw = int (card (frontier ?E r d'))" "bits nx' = frontier ?E r d'"
      "?n \<le> 64 * int (length nx')" "?n \<le> 64 * int (length past)"
    using w(3) by (simp_all add: bu_state_ok_def)
  have vl: "int (length (s_vlist s)) = ?n" using f(3) by (simp add: level_queue_def)
  obtain vlist k2 nbuf where q: "fill_queue_from_bitmap om ?n nx' (s_vlist s) (s_nbuf s) = Some (vlist, 0, k2, nbuf)"
      "int (length vlist) = ?n" "0 \<le> k2" "k2 \<le> ?n" "bufs_ok (num_threads om) nbuf" "distinct (take (nat k2) vlist)"
      "set (take (nat k2) vlist) = bits nx'"
    using fill_queue_result [OF om n(1) _ h(5) n(2) vl f(4)] frontier_range [OF h(2) E] unfolding h(4) by blast
  have lq: "level_queue ?n tree (frontier ?E r d') vlist 0 k2"
    by (rule level_queue_filled [OF h(2) E q(2-4,6)]) (simp add: q(7) h(4))
  have "bottom_up_phase om g cutoff s = Some (s\<lparr>s_tree := tree, s_past := past, s_next := nx', s_awake := aw,
       s_vlist := vlist, s_nbuf := nbuf, s_k1 := 0, s_k2 := k2\<rparr>)"
    by (simp add: bottom_up_phase_def nx(1) t(1) w(1) q(1))
  moreover have "search_ok om IJ g r len d' (s\<lparr>s_tree := tree, s_past := past, s_next := nx', s_awake := aw,
       s_vlist := vlist, s_nbuf := nbuf, s_k1 := 0, s_k2 := k2\<rparr>)"
    using h lq q(5) by (auto simp: search_ok_def frontier_def)
  ultimately show ?thesis using w(2) Suc_le_lessD by blast
qed

lemma count_scout_result:
  assumes om: "omp_law om" and g: "graph_ok IJ g" and q: "level_queue (nv g) tree F vlist k1 k2"
  shows "\<exists>c. count_scout om g vlist k1 k2 = Some c"
proof -
  have "\<exists>c. count_scout om g vlist k1 k2 = Some c \<and> True"
    unfolding count_scout_def
  proof (rule omp_for_inv [where I = "\<lambda>D c. True", OF om])
    fix D tid i and c :: int
    assume i: "k1 \<le> i" "i < k2"
    note v = level_queue_nth [OF q i]
    from seg_reads [OF g v(4,5)] v(1)
    show "\<exists>c'. do {
       v \<leftarrow> rd vlist i;
       hi \<leftarrow> rd (xoff g) (1 + 2 * v);
       lo \<leftarrow> rd (xoff g) (2 * v);
       Some (c + (hi - lo))
     } = Some c' \<and> True" by auto
  qed simp
  then show ?thesis by simp
qed

lemma search_round_result:
  assumes om: "omp_law om" and g: "graph_ok IJ g" and n: "0 < nv g" "nv g < 2 ^ 31" and cut: "0 \<le> cutoff"
    and ok: "search_ok om IJ g r len d s"
  shows "\<exists>d' s'. search_round om g cutoff s = Some s' \<and> d < d' \<and> search_ok om IJ g r len d' s'"
proof -
  have "\<exists>d' s'. (if s_scout s < (s_edges s - s_scout s) sdiv ALPHA then top_down_phase om g s
           else bottom_up_phase om g cutoff s) = Some s' \<and> d < d' \<and> search_ok om IJ g r len d' s'"
    using top_down_phase_result [OF om g ok] bottom_up_phase_result [OF om g n cut ok] by auto
  then obtain d' s' where s': "(if s_scout s < (s_edges s - s_scout s) sdiv ALPHA then top_down_phase om g s
           else bottom_up_phase om g cutoff s) = Some s'" "d < d'" "search_ok om IJ g r len d' s'" by blast
  have "level_queue (nv g) (s_tree s') (frontier (edge_nbrs IJ) r d') (s_vlist s') (s_k1 s') (s_k2 s')"
    using s'(3) by (simp add: search_ok_def)
  from count_scout_result [OF om g this] obtain c where "count_scout om g (s_vlist s') (s_k1 s') (s_k2 s') = Some c" by blast
  moreover have "search_ok om IJ g r len d' (s'\<lparr>s_scout := c\<rparr>)" using s'(3) by (simp add: search_ok_def)
  ultimately show ?thesis using s'(1,2) by (auto simp: search_round_def)
qed

lemma search_result:
  assumes om: "omp_law om" and g: "graph_ok IJ g" and n: "0 < nv g" "nv g < 2 ^ 31" and cut: "0 \<le> cutoff"
    and ok: "search_ok om IJ g r len d s"
  shows "\<exists>s'. while_opt (\<lambda>s. Some (s_awake s \<noteq> 0)) (search_round om g cutoff) s = Some s' \<and> length (s_tree s') = len \<and>
    bfs_tree_of (edge_nbrs IJ) r (nv g) (s_tree s')"
proof -
  let ?E = "edge_nbrs IJ"
  note E = graph_nbrs(2) [OF g]
  have "\<exists>s'. while_opt (\<lambda>s. Some (s_awake s \<noteq> 0)) (search_round om g cutoff) s = Some s' \<and>
    (\<exists>d. search_ok om IJ g r len d s') \<and> Some (s_awake s' \<noteq> 0) = Some False"
  proof (rule while_opt_inv [where m = "\<lambda>s. undiscovered (nv g) (s_tree s) + of_bool (s_awake s \<noteq> 0)"])
    fix s
    assume "\<exists>d. search_ok om IJ g r len d s" and go: "Some (s_awake s \<noteq> 0) = Some True"
    then obtain d where ok: "search_ok om IJ g r len d s" by blast
    obtain d' s' where s': "search_round om g cutoff s = Some s'" "d < d'" "search_ok om IJ g r len d' s'"
      using search_round_result [OF om g n cut ok] by blast
    have "undiscovered (nv g) (s_tree s') + of_bool (s_awake s' \<noteq> 0) < undiscovered (nv g) (s_tree s) + of_bool (s_awake s \<noteq> 0)"
      using level_measure [of ?E r "nv g" d "s_tree s" d' "s_tree s'", OF _ _ s'(2) E] ok s'(3) go by (simp add: search_ok_def)
    then show "\<exists>s'. search_round om g cutoff s = Some s' \<and> (\<exists>d. search_ok om IJ g r len d s') \<and>
        undiscovered (nv g) (s_tree s') + of_bool (s_awake s' \<noteq> 0) < undiscovered (nv g) (s_tree s) + of_bool (s_awake s \<noteq> 0)"
      using s' by blast
  qed (use ok in auto)
  then obtain s' d where s': "while_opt (\<lambda>s. Some (s_awake s \<noteq> 0)) (search_round om g cutoff) s = Some s'"
      "search_ok om IJ g r len d s'" "s_awake s' = 0" by auto
  have inv: "level_inv ?E r (nv g) d (s_tree s')" "card (frontier ?E r d) = 0" "length (s_tree s') = len"
    using s'(2,3) by (auto simp: search_ok_def)
  then have "frontier ?E r d = {}" using frontier_finite [OF inv(1) E] by simp
  then show ?thesis using s'(1) inv(3) level_inv_done [OF inv(1) _ E] by blast
qed

subsection \<open>The search\<close>

lemma clear_result:
  assumes om: "omp_law om" and src: "0 \<le> src" "src < n" "n \<le> int (length out)"
  shows "\<exists>t1 t2. omp_for om pl 0 src (\<lambda>tid k t. wr t k (-1)) (out[nat src := src]) = Some t1 \<and>
    omp_for om pl' (src + 1) n (\<lambda>tid k t. wr t k (-1)) t1 = Some t2 \<and> length t2 = length out \<and>
    (\<forall>i. 0 \<le> i \<and> i < n \<longrightarrow> t2 ! nat i = (if i = src then src else -1))"
proof -
  obtain t1 where t1: "omp_for om pl 0 src (\<lambda>tid k t. wr t k (-1)) (out[nat src := src]) = Some t1" "length t1 = length out"
      "\<And>i. 0 \<le> i \<Longrightarrow> i < int (length out) \<Longrightarrow> t1 ! nat i = (if i < src then -1 else out[nat src := src] ! nat i)"
    using omp_fill [OF om, of 0 src "out[nat src := src]" pl "-1"] src by auto
  obtain t2 where t2: "omp_for om pl' (src + 1) n (\<lambda>tid k t. wr t k (-1)) t1 = Some t2" "length t2 = length t1"
      "\<And>i. 0 \<le> i \<Longrightarrow> i < int (length out) \<Longrightarrow> t2 ! nat i = (if src + 1 \<le> i \<and> i < n then -1 else t1 ! nat i)"
    using omp_fill [OF om, of "src + 1" n t1 pl' "-1"] src t1(2) by auto
  have "t2 ! nat i = (if i = src then src else -1)" if "0 \<le> i" "i < n" for i
    using t2(3) [of i] t1(3) [of i] that src by auto
  then show ?thesis using t1(1,2) t2(1,2) by auto
qed

lemma make_bfs_tree_omp_result:
  assumes om: "omp_law om" and law: "alloc_law alloc" and g: "graph_ok IJ g" and n: "nv g < 2 ^ 31 - 63"
    and src: "0 \<le> src" "src < nv g" "nv g \<le> int (length out)"
  shows "(alloc (nat (nv g)) = None \<and> make_bfs_tree_omp om alloc g out src = Some (-1, maxvtx g, out)) \<or>
    (\<exists>tree. make_bfs_tree_omp om alloc g out src = Some (0, maxvtx g, tree) \<and> length tree = length out \<and>
      bfs_tree_of (edge_nbrs IJ) src (nv g) tree)"
proof (cases "alloc (nat (nv g))")
  case None
  then show ?thesis by (simp add: make_bfs_tree_omp_def)
next
  case (Some vlist)
  let ?E = "edge_nbrs IJ" and ?n = "nv g"
  have vl: "int (length vlist) = ?n" using alloc_lawD [OF law Some] src by simp
  have n0: "0 < ?n" "?n < 2 ^ 31" "0 \<le> ?n" using src n by auto
  obtain start where st: "omp_malloc om (nat ((?n + 63) div 64)) = Some start" using omp_lawD(7) [OF om] by blast
  obtain bm where bm: "bm_init (omp_malloc om) ?n = Some bm" "bits bm = {}" "?n \<le> 64 * int (length bm)"
    using bm_init_result [OF omp_lawD(6) [OF om] n0(3) n st] by blast
  obtain lo hi where x: "rd (xoff g) (2 * src) = Some lo" "rd (xoff g) (1 + 2 * src) = Some hi"
    using seg_reads [OF g src(1,2)] by blast
  have ok: "csr_ok (capacity IJ) g" using g by (simp add: graph_ok_def)
  obtain ec where ec: "rd (xoff g) (2 * ?n) = Some ec" using csr_okD(1,3) [OF ok] by simp
  obtain t1 t2 where t: "omp_for om (''clear'', []) 0 src (\<lambda>tid k t. wr t k (-1)) (out[nat src := src]) = Some t1"
      "omp_for om (''clear'', []) (src + 1) ?n (\<lambda>tid k t. wr t k (-1)) t1 = Some t2" "length t2 = length out"
      "\<And>i. 0 \<le> i \<Longrightarrow> i < ?n \<Longrightarrow> t2 ! nat i = (if i = src then src else -1)"
    using clear_result [OF om src] by blast
  let ?s = "\<lparr>s_tree = t2, s_vlist = vlist[0 := src], s_k1 = 0, s_k2 = 1, s_past = bm, s_next = bm,
      s_nbuf = replicate (num_threads om) (omp_stack om (nat THREAD_BUF_LEN)), s_scout = hi - lo, s_awake = 1, s_edges = ec\<rparr>"
  have len: "?n \<le> int (length t2)" using t(3) src by simp
  have li: "level_inv ?E src ?n 0 t2" "frontier ?E src 0 = {src}"
    using level_inv_init [OF src(1,2) len t(4)] by blast+
  have tk: "take (nat 1) (vlist[0 := src]) = [src]" using vl n0 by (cases vlist) auto
  have "level_queue ?n t2 (frontier ?E src 0) (vlist[0 := src]) 0 1"
    unfolding level_queue_def tk li(2) using vl n0 src t(4) [of src] by simp
  moreover have "bufs_ok (num_threads om) (s_nbuf ?s)"
    using omp_lawD(5) [OF om, of "nat THREAD_BUF_LEN"] by (simp add: bufs_ok_def THREAD_BUF_LEN_def)
  ultimately have inv: "search_ok om IJ g src (length out) 0 ?s"
    using li t(3) bm by (simp add: search_ok_def)
  have cut: "0 \<le> ?n sdiv BETA"
    using n0 by (simp add: signed_divide_int_def BETA_def pos_imp_zdiv_nonneg_iff)
  obtain s' where s': "while_opt (\<lambda>s. Some (s_awake s \<noteq> 0)) (search_round om g (?n sdiv BETA)) ?s = Some s'"
      "length (s_tree s') = length out" "bfs_tree_of ?E src ?n (s_tree s')"
    using search_result [OF om g n0(1,2) cut inv] by blast
  have "wr vlist 0 src = Some (vlist[0 := src])" "wr out src src = Some (out[nat src := src])" using vl n0 src by simp_all
  then have "make_bfs_tree_omp om alloc g out src = Some (0, maxvtx g, s_tree s')"
    using Some by (simp add: make_bfs_tree_omp_def bm(1) x ec t(1,2) s'(1))
  then show ?thesis using s'(2,3) by blast
qed

subsection \<open>The benchmark with this implementation\<close>

text \<open>
  The number of vertices must leave room for rounding up in an \<open>int\<close>.  Whatever the runtime does
  within its law, the implementation keeps the promises of the interface.
\<close>

definition omp_admits :: "packed_edge list \<Rightarrow> bool" where
  "omp_admits IJ \<longleftrightarrow> max_vertex IJ + 1 < 2 ^ 31 - 63"

lemma omp_backend:
  assumes runtime: "omp_law om"
  shows "bfs_backend omp_admits (create_graph_omp om) (make_bfs_tree_omp om)"
proof
  fix alloc IJ
  assume al: "alloc_law alloc" and ad: "omp_admits IJ"
  note cr = create_result_omp [OF runtime al, of IJ]
  show "(\<exists>g. create_graph_omp om alloc IJ = Some (Inr g)) \<or>
      (\<exists>e n. create_graph_omp om alloc IJ = Some (Inl e) \<and> e \<noteq> 0 \<and> alloc n = None)"
    using cr by (elim disjE conjE exE) auto
  fix g src and out :: "int list"
  assume c: "create_graph_omp om alloc IJ = Some (Inr g)"
    and b: "0 \<le> src" "src \<le> max_vertex IJ" "max_vertex IJ < int (length out)"
  have gk: "graph_ok IJ g" using cr c by (elim disjE conjE exE) simp_all
  then have g: "maxvtx g = max_vertex IJ" "nv g = max_vertex IJ + 1" by (simp_all add: graph_ok_def find_nv_eq)
  have b': "nv g < 2 ^ 31 - 63" "src < nv g" "nv g \<le> int (length out)" using b ad by (auto simp: g(2) omp_admits_def)
  show "(\<exists>tree. make_bfs_tree_omp om alloc g out src = Some (0, max_vertex IJ, tree) \<and> length tree = length out \<and>
         bfs_tree_of (edge_nbrs IJ) src (max_vertex IJ + 1) tree) \<or>
      (\<exists>e m t n. make_bfs_tree_omp om alloc g out src = Some (e, m, t) \<and> e \<noteq> 0 \<and> alloc n = None)"
    using make_bfs_tree_omp_result [OF runtime al gk b'(1) b(1) b'(2,3)] unfolding g
    by (elim disjE conjE exE) (simp, blast, simp)
qed

locale omp_runtime =
  fixes om :: omp
  assumes runtime: "omp_law om"

sublocale omp_runtime \<subseteq> bfs_backend omp_admits "create_graph_omp om" "make_bfs_tree_omp om"
  by (rule omp_backend [OF runtime])

interpretation omp_static: omp_runtime "static_omp n" for n
  by unfold_locales (rule static_omp_law)



end
