(* ===== verification/OmpOld.thy ===== *)
theory OmpOld
  imports OmpSearch
begin

text \<open>
  The earlier OpenMP search (\<open>omp-csr/omp-csr-old.c\<close>), which is top-down only, and what the OpenMP
  implementations have in common with the sequential one.  Its construction of the graph and its loop
  body are those of \<open>omp-csr.c\<close>.
\<close>

subsection \<open>Definitions\<close>

definition make_bfs_tree_old ::
    "omp \<Rightarrow> allocator \<Rightarrow> csr \<Rightarrow> int list \<Rightarrow> int \<Rightarrow> (int \<times> int \<times> int list) option" where
  "make_bfs_tree_old om alloc g bfs_tree_out srcvtx =
    (case alloc (nat (nv g)) of
       None \<Rightarrow> Some (-1, maxvtx g, bfs_tree_out)
     | Some vlist \<Rightarrow> do {
         vlist \<leftarrow> wr vlist 0 srcvtx;
         bfs_tree \<leftarrow> wr bfs_tree_out srcvtx srcvtx;
         bfs_tree \<leftarrow> omp_for om (''clear'', []) 0 srcvtx (\<lambda>tid k t. wr t k (-1)) bfs_tree;
         bfs_tree \<leftarrow> omp_for om (''clear'', []) (srcvtx + 1) (nv g) (\<lambda>tid k t. wr t k (-1)) bfs_tree;
         (bfs_tree, _) \<leftarrow> while_opt (\<lambda>(bfs_tree, vlist, nbuf, k1, k2). Some (k1 \<noteq> k2)) (bfs_top_down_step om g)
           (bfs_tree, vlist, replicate (num_threads om) (omp_stack om (nat THREAD_BUF_LEN)), 0, 1);
         Some (0, maxvtx g, bfs_tree)
       })"

subsection \<open>The search\<close>

definition old_inv :: "omp \<Rightarrow> packed_edge list \<Rightarrow> csr \<Rightarrow> int \<Rightarrow> nat \<Rightarrow> nat \<Rightarrow> int list \<times> int list \<times> int list list \<times> int \<times> int \<Rightarrow> bool" where
  "old_inv om IJ g r len d = (\<lambda>(tree, vlist, nbuf, k1, k2). length tree = len \<and>
     level_inv (edge_nbrs IJ) r (nv g) d tree \<and> level_queue (nv g) tree (frontier (edge_nbrs IJ) r d) vlist k1 k2 \<and>
     bufs_ok (num_threads om) nbuf)"

lemma old_loop:
  assumes om: "omp_law om" and g: "graph_ok IJ g" and inv: "old_inv om IJ g r len d t"
  shows "\<exists>tree x. while_opt (\<lambda>(bfs_tree, vlist, nbuf, k1, k2). Some (k1 \<noteq> k2)) (bfs_top_down_step om g) t = Some (tree, x) \<and>
    length tree = len \<and> bfs_tree_of (edge_nbrs IJ) r (nv g) tree"
proof -
  let ?E = "edge_nbrs IJ"
  let ?b = "\<lambda>(bfs_tree :: int list, vlist :: int list, nbuf :: int list list, k1 :: int, k2). Some (k1 \<noteq> k2)"
  note E = graph_nbrs(2) [OF g]
  have "\<exists>t'. while_opt ?b (bfs_top_down_step om g) t = Some t' \<and> (\<exists>d. old_inv om IJ g r len d t') \<and> ?b t' = Some False"
  proof (rule while_opt_inv [where m = "\<lambda>(tree, vlist, nbuf, k1, k2). undiscovered (nv g) tree + of_bool (k1 \<noteq> k2)"])
    fix t
    assume "\<exists>d. old_inv om IJ g r len d t" and go: "?b t = Some True"
    then obtain d where inv: "old_inv om IJ g r len d t" by blast
    obtain tree vlist nbuf k1 k2 where t: "t = (tree, vlist, nbuf, k1, k2)" by (cases t) auto
    have f: "length tree = len" "level_inv ?E r (nv g) d tree" "level_queue (nv g) tree (frontier ?E r d) vlist k1 k2"
        "bufs_ok (num_threads om) nbuf" "k1 \<noteq> k2"
      using inv go by (simp_all add: t old_inv_def)
    obtain tree' vlist' nbuf' k2' where s: "bfs_top_down_step om g t = Some (tree', vlist', nbuf', k2, k2')"
        "length tree' = length tree" "level_inv ?E r (nv g) (Suc d) tree'"
        "level_queue (nv g) tree' (frontier ?E r (Suc d)) vlist' k2 k2'" "bufs_ok (num_threads om) nbuf'"
      using top_down_result [OF om g f(2-4)] unfolding t by blast
    have "k2 \<noteq> k2' \<longleftrightarrow> card (frontier ?E r (Suc d)) \<noteq> 0" using level_queue_card [OF s(4)] by auto
    then have "undiscovered (nv g) tree' + of_bool (k2 \<noteq> k2') < undiscovered (nv g) tree + of_bool (k1 \<noteq> k2)"
      using level_measure [OF f(2) s(3) _ E] f(5) by simp
    then show "\<exists>t'. bfs_top_down_step om g t = Some t' \<and> (\<exists>d. old_inv om IJ g r len d t') \<and>
        (case t' of (tree, vlist, nbuf, k1, k2) \<Rightarrow> undiscovered (nv g) tree + of_bool (k1 \<noteq> k2)) <
        (case t of (tree, vlist, nbuf, k1, k2) \<Rightarrow> undiscovered (nv g) tree + of_bool (k1 \<noteq> k2))"
      using s f(1) by (intro exI [of _ "(tree', vlist', nbuf', k2, k2')"]) (auto simp: t old_inv_def)
  qed (use inv in auto)
  then obtain d tree vlist nbuf k1 where w: "while_opt ?b (bfs_top_down_step om g) t = Some (tree, vlist, nbuf, k1, k1)"
      "length tree = len" "level_inv ?E r (nv g) d tree" "level_queue (nv g) tree (frontier ?E r d) vlist k1 k1"
    by (auto simp: old_inv_def)
  have "frontier ?E r d = {}" using level_queue_card [OF w(4)] frontier_range [OF w(3) E, of d] finite_subset by fastforce
  then show ?thesis using w(1,2) level_inv_done [OF w(3) _ E] by blast
qed

lemma make_bfs_tree_old_result:
  assumes om: "omp_law om" and law: "alloc_law alloc" and g: "graph_ok IJ g"
    and src: "0 \<le> src" "src < nv g" "nv g \<le> int (length out)"
  shows "(alloc (nat (nv g)) = None \<and> make_bfs_tree_old om alloc g out src = Some (-1, maxvtx g, out)) \<or>
    (\<exists>tree. make_bfs_tree_old om alloc g out src = Some (0, maxvtx g, tree) \<and> length tree = length out \<and>
      bfs_tree_of (edge_nbrs IJ) src (nv g) tree)"
proof (cases "alloc (nat (nv g))")
  case None
  then show ?thesis by (simp add: make_bfs_tree_old_def)
next
  case (Some vlist)
  let ?E = "edge_nbrs IJ" and ?n = "nv g"
  have vl: "int (length vlist) = ?n" using alloc_lawD [OF law Some] src by simp
  obtain t1 t2 where t: "omp_for om (''clear'', []) 0 src (\<lambda>tid k t. wr t k (-1)) (out[nat src := src]) = Some t1"
      "omp_for om (''clear'', []) (src + 1) ?n (\<lambda>tid k t. wr t k (-1)) t1 = Some t2" "length t2 = length out"
      "\<And>i. 0 \<le> i \<Longrightarrow> i < ?n \<Longrightarrow> t2 ! nat i = (if i = src then src else -1)"
    using clear_result [OF om src] by blast
  have len: "?n \<le> int (length t2)" using t(3) src by simp
  have li: "level_inv ?E src ?n 0 t2" "frontier ?E src 0 = {src}"
    using level_inv_init [OF src(1,2) len t(4)] by blast+
  have tk: "take (nat 1) (vlist[0 := src]) = [src]" using vl src by (cases vlist) auto
  have "level_queue ?n t2 (frontier ?E src 0) (vlist[0 := src]) 0 1"
    unfolding level_queue_def tk li(2) using vl src t(4) [of src] by simp
  moreover have "bufs_ok (num_threads om) (replicate (num_threads om) (omp_stack om (nat THREAD_BUF_LEN)))"
    using omp_lawD(5) [OF om, of "nat THREAD_BUF_LEN"] by (simp add: bufs_ok_def THREAD_BUF_LEN_def)
  ultimately have inv: "old_inv om IJ g src (length out) 0
      (t2, vlist[0 := src], replicate (num_threads om) (omp_stack om (nat THREAD_BUF_LEN)), 0, 1)"
    using li t(3) by (simp add: old_inv_def)
  have "wr vlist 0 src = Some (vlist[0 := src])" "wr out src src = Some (out[nat src := src])" using vl src by simp_all
  then show ?thesis using Some t(1,2) old_loop [OF om g inv] by (auto simp: make_bfs_tree_old_def)
qed

text \<open>This search has no limit on the number of vertices.\<close>

lemma old_backend:
  assumes runtime: "omp_law om"
  shows "bfs_backend (\<lambda>_. True) (create_graph_omp om) (make_bfs_tree_old om)"
proof
  fix alloc IJ
  assume al: "alloc_law alloc"
  note cr = create_result_omp [OF runtime al, of IJ]
  show "(\<exists>g. create_graph_omp om alloc IJ = Some (Inr g)) \<or>
      (\<exists>e n. create_graph_omp om alloc IJ = Some (Inl e) \<and> e \<noteq> 0 \<and> alloc n = None)"
    using cr by (elim disjE conjE exE) auto
  fix g src and out :: "int list"
  assume c: "create_graph_omp om alloc IJ = Some (Inr g)"
    and b: "0 \<le> src" "src \<le> max_vertex IJ" "max_vertex IJ < int (length out)"
  have gk: "graph_ok IJ g" using cr c by (elim disjE conjE exE) simp_all
  then have g: "maxvtx g = max_vertex IJ" "nv g = max_vertex IJ + 1" by (simp_all add: graph_ok_def find_nv_eq)
  have b': "src < nv g" "nv g \<le> int (length out)" using b by (auto simp: g(2))
  show "(\<exists>tree. make_bfs_tree_old om alloc g out src = Some (0, max_vertex IJ, tree) \<and> length tree = length out \<and>
         bfs_tree_of (edge_nbrs IJ) src (max_vertex IJ + 1) tree) \<or>
      (\<exists>e m t n. make_bfs_tree_old om alloc g out src = Some (e, m, t) \<and> e \<noteq> 0 \<and> alloc n = None)"
    using make_bfs_tree_old_result [OF runtime al gk b(1) b'] unfolding g by (elim disjE conjE exE) (simp, blast, simp)
qed

sublocale omp_runtime \<subseteq> old: bfs_backend "\<lambda>_. True" "create_graph_omp om" "make_bfs_tree_old om"
  by (rule old_backend [OF runtime])

subsection \<open>Independence of the schedule\<close>

lemma sorted_segments_unique:
  assumes "graph_ok IJ g" "graph_ok IJ h"
  shows "maxvtx g = maxvtx h" "nv g = nv h" "0 \<le> v \<Longrightarrow> v < nv g \<Longrightarrow> seg g v = seg h v"
proof -
  show n: "maxvtx g = maxvtx h" "nv g = nv h" using assms by (simp_all add: graph_ok_def)
  show "seg g v = seg h v" if "0 \<le> v" "v < nv g"
    by (rule sorted_distinct_set_unique) (use assms that n in \<open>auto simp: graph_ok_def\<close>)
qed



end
