(* ===== verification/BTreeArrays.thy ===== *)
theory BTreeArrays
  imports CLoops
begin

text \<open>
  Arrays with unsigned indices and the loops over them that the B+ tree (\<open>btree1.c\<close>) uses: searching
  for a position, moving a block by one place, copying with a gap, and clearing.  Each loop has a
  closed form.  As in the other components an access outside an array is \<^const>\<open>None\<close>.
\<close>

subsection \<open>Access\<close>

definition ld :: "'a list \<Rightarrow> nat \<Rightarrow> 'a option" where
  "ld xs i = (if i < length xs then Some (xs ! i) else None)"

definition st :: "'a list \<Rightarrow> nat \<Rightarrow> 'a \<Rightarrow> 'a list option" where
  "st xs i x = (if i < length xs then Some (xs[i := x]) else None)"

lemma ld_in [simp]: "i < length xs \<Longrightarrow> ld xs i = Some (xs ! i)"
  by (simp add: ld_def)

lemma st_in [simp]: "i < length xs \<Longrightarrow> st xs i x = Some (xs[i := x])"
  by (simp add: st_def)

text \<open>An unsigned counter that is decremented; the model stops where it would wrap around.\<close>

definition dec :: "nat \<Rightarrow> nat option" where
  "dec n = (if n = 0 then None else Some (n - 1))"

lemma dec_pos [simp]: "0 < n \<Longrightarrow> dec n = Some (n - 1)"
  by (simp add: dec_def)

subsection \<open>Searching\<close>

text \<open>\<open>i = 0; while (i < n && P(xs[i])) i++;\<close>\<close>

definition scan :: "('a \<Rightarrow> bool) \<Rightarrow> nat \<Rightarrow> 'a list \<Rightarrow> nat option" where
  "scan P n xs = while_opt (\<lambda>i. if i < n then map_option P (ld xs i) else Some False) (\<lambda>i. Some (Suc i)) 0"

text \<open>\<open>i = 0; while (P(xs[i])) i++;\<close>\<close>

definition scan_on :: "('a \<Rightarrow> bool) \<Rightarrow> 'a list \<Rightarrow> nat option" where
  "scan_on P xs = while_opt (\<lambda>i. map_option P (ld xs i)) (\<lambda>i. Some (Suc i)) 0"

lemma takeWhile_stop:
  assumes "i \<le> length xs" "\<forall>j<i. P (xs ! j)" "i < length xs \<Longrightarrow> \<not> P (xs ! i)"
  shows "length (takeWhile P xs) = i"
proof -
  have "takeWhile P xs = take i xs" by (rule takeWhile_eq_take_P_nth) (use assms in auto)
  then show ?thesis using assms(1) by simp
qed

lemma scan_eq:
  assumes "n \<le> length xs"
  shows "scan P n xs = Some (length (takeWhile P (take n xs)))"
proof -
  let ?b = "\<lambda>i. if i < n then map_option P (ld xs i) else Some False"
  have "\<exists>i. while_opt ?b (\<lambda>i. Some (Suc i)) 0 = Some i \<and> (i \<le> n \<and> (\<forall>j<i. P (xs ! j))) \<and> ?b i = Some False"
    by (rule while_opt_inv [where m = "\<lambda>i. n - i"]) (use assms in \<open>auto simp: less_Suc_eq split: if_splits\<close>)
  then obtain i where i: "scan P n xs = Some i" "i \<le> n" "\<forall>j<i. P (xs ! j)" "?b i = Some False"
    by (auto simp: scan_def)
  have "length (takeWhile P (take n xs)) = i"
    by (rule takeWhile_stop) (use i assms in \<open>auto split: if_splits\<close>)
  with i(1) show ?thesis by simp
qed

lemma scan_on_eq:
  assumes "x \<in> set xs" "\<not> P x"
  shows "scan_on P xs = Some (length (takeWhile P xs))"
proof -
  obtain m where m: "m < length xs" "\<not> P (xs ! m)" using assms by (auto simp: in_set_conv_nth)
  have "\<exists>i. while_opt (\<lambda>i. map_option P (ld xs i)) (\<lambda>i. Some (Suc i)) 0 = Some i \<and>
      (i \<le> m \<and> (\<forall>j<i. P (xs ! j))) \<and> map_option P (ld xs i) = Some False"
  proof (rule while_opt_inv [where m = "\<lambda>i. m - i"])
    fix i assume i: "i \<le> m \<and> (\<forall>j<i. P (xs ! j))"
    then show "\<exists>go. map_option P (ld xs i) = Some go" using m(1) by simp
    assume "map_option P (ld xs i) = Some True"
    then have "i \<noteq> m" using m by auto
    then show "\<exists>t'. Some (Suc i) = Some t' \<and> (t' \<le> m \<and> (\<forall>j<t'. P (xs ! j))) \<and> m - t' < m - i"
      using i m \<open>map_option P (ld xs i) = Some True\<close> by (auto simp: less_Suc_eq)
  qed simp
  then obtain i where i: "scan_on P xs = Some i" "i \<le> m" "\<forall>j<i. P (xs ! j)" "map_option P (ld xs i) = Some False"
    by (auto simp: scan_on_def)
  have "length (takeWhile P xs) = i"
    by (rule takeWhile_stop) (use i m in auto)
  with i(1) show ?thesis by simp
qed

subsection \<open>Moving a block by one place\<close>

text \<open>\<open>for (i = n; i > p; i--) xs[i] = xs[i - 1];\<close>\<close>

definition shift_up :: "nat \<Rightarrow> 'a list \<Rightarrow> 'a list option" where
  "shift_up i xs = do {
     x \<leftarrow> ld xs (i - 1);
     st xs i x
   }"

text \<open>\<open>for (i = p; i < n; i++) xs[i] = xs[i + 1];\<close>\<close>

definition shift_down :: "nat \<Rightarrow> 'a list \<Rightarrow> 'a list option" where
  "shift_down i xs = do {
     x \<leftarrow> ld xs (Suc i);
     st xs i x
   }"

lemma for_each_nil: "for_each f [] = Some"
  by (rule ext) simp

lemma for_each_single: "for_each f [x] = f x"
  by (rule ext) (simp add: for_each_nil)

lemma for_each_snoc: "for_each f (xs @ [x]) s = for_each f xs s \<bind> f x"
  by (cases "for_each f xs s") (simp_all add: for_each_append for_each_nil)

lemma shift_up_loop:
  assumes "p \<le> n" "n < length xs"
  shows "for_each shift_up (rev [Suc p..<Suc n]) xs
    = Some (take (Suc p) xs @ take (n - p) (drop p xs) @ drop (Suc n) xs)"
  using assms
proof (induction "n - p" arbitrary: p)
  case 0
  then show ?case by simp
next
  case (Suc m)
  have split: "rev [Suc p..<Suc n] = rev [Suc (Suc p)..<Suc n] @ [Suc p]"
    using Suc(2-) upt_conv_Cons [of "Suc p" "Suc n"] by simp
  let ?ys = "take (Suc (Suc p)) xs @ take (n - Suc p) (drop (Suc p) xs) @ drop (Suc n) xs"
  have IH: "for_each shift_up (rev [Suc (Suc p)..<Suc n]) xs = Some ?ys"
    using Suc by (intro Suc.hyps(1)) simp_all
  have t: "take (Suc (Suc p)) xs = take p xs @ [xs ! p, xs ! Suc p]" using Suc by (simp add: take_Suc_conv_app_nth)
  have "shift_up (Suc p) ?ys = Some (take p xs @ [xs ! p, xs ! p] @ take (n - Suc p) (drop (Suc p) xs) @ drop (Suc n) xs)"
    using Suc(2-) unfolding shift_up_def t by (simp add: nth_append list_update_append)
  moreover have "take (n - p) (drop p xs) = xs ! p # take (n - Suc p) (drop (Suc p) xs)"
    using Suc(2-) by (simp add: Cons_nth_drop_Suc [symmetric] Suc_diff_Suc [symmetric] take_Cons')
  moreover have "take (Suc p) xs = take p xs @ [xs ! p]" using Suc by (simp add: take_Suc_conv_app_nth)
  ultimately show ?case unfolding split for_each_snoc IH by simp
qed

lemma shift_down_loop:
  assumes "p \<le> n" "n < length xs"
  shows "for_each shift_down [p..<n] xs
    = Some (take p xs @ take (n - p) (drop (Suc p) xs) @ drop n xs)"
  using assms
proof (induction n)
  case (Suc n)
  show ?case
  proof (cases "p = Suc n")
    case False
    with Suc.prems have p: "p \<le> n" "Suc n < length xs" by auto
    let ?ys = "take p xs @ take (n - p) (drop (Suc p) xs) @ drop n xs"
    have IH: "for_each shift_down [p..<n] xs = Some ?ys" using Suc.IH p by simp
    have d: "drop n xs = xs ! n # xs ! Suc n # drop (Suc (Suc n)) xs" using p by (simp add: Cons_nth_drop_Suc)
    have l: "length (take p xs @ take (n - p) (drop (Suc p) xs)) = n" using p by simp
    have "shift_down n ?ys = Some ((take p xs @ take (n - p) (drop (Suc p) xs)) @ [xs ! Suc n, xs ! Suc n] @ drop (Suc (Suc n)) xs)"
      unfolding shift_down_def d append_assoc [symmetric]
      using l p by (simp add: nth_append list_update_append del: append_assoc)
    moreover have "take (Suc n - p) (drop (Suc p) xs) = take (n - p) (drop (Suc p) xs) @ [xs ! Suc n]"
      using p by (simp add: Suc_diff_le take_Suc_conv_app_nth)
    moreover have "drop (Suc n) xs = xs ! Suc n # drop (Suc (Suc n)) xs" using p by (simp add: Cons_nth_drop_Suc)
    moreover have "[p..<Suc n] = [p..<n] @ [n]" using p by simp
    ultimately show ?thesis unfolding \<open>[p..<Suc n] = _\<close> for_each_snoc IH by simp
  qed simp
qed simp

lemma shift_up_insert:
  assumes "p \<le> n" "n < length xs"
  shows "for_each shift_up (rev [Suc p..<Suc n]) xs \<bind> (\<lambda>xs. st xs p x)
    = Some (take p xs @ x # take (n - p) (drop p xs) @ drop (Suc n) xs)"
proof -
  have "take (Suc p) xs = take p xs @ [xs ! p]" using assms by (simp add: take_Suc_conv_app_nth)
  then show ?thesis unfolding shift_up_loop [OF assms] using assms by (simp add: list_update_append)
qed

subsection \<open>Copying with a gap\<close>

text \<open>
  \<open>for (i = 0, j = 0; i < n; i++, j++) { if (j == p) j++; dst[j] = src[i]; }\<close>
\<close>

definition copy_gap :: "nat \<Rightarrow> 'a list \<Rightarrow> nat \<Rightarrow> nat \<times> 'a list \<Rightarrow> (nat \<times> 'a list) option" where
  "copy_gap p src i = (\<lambda>(j, dst). do {
     let j = (if j = p then Suc j else j);
     x \<leftarrow> ld src i;
     dst \<leftarrow> st dst j x;
     Some (Suc j, dst)
   })"

lemma copy_gap_step:
  assumes "k < length src" "length dst = Suc (Suc m)" "k \<le> m" "p \<le> Suc m"
    "if k \<le> p then j = k \<and> take k dst = take k src
     else j = Suc k \<and> take p dst = take p src \<and> take (k - p) (drop (Suc p) dst) = take (k - p) (drop p src)"
  shows "\<exists>j' dst'. copy_gap p src k (j, dst) = Some (j', dst') \<and> length dst' = length dst \<and>
    (if Suc k \<le> p then j' = Suc k \<and> take (Suc k) dst' = take (Suc k) src
     else j' = Suc (Suc k) \<and> take p dst' = take p src \<and>
       take (Suc k - p) (drop (Suc p) dst') = take (Suc k - p) (drop p src))"
proof (cases "k < p")
  case True
  then show ?thesis using assms by (simp add: copy_gap_def take_Suc_conv_app_nth)
next
  case False
  then have pk: "p \<le> k" by simp
  have pre: "take p dst = take p src" "take (k - p) (drop (Suc p) dst) = take (k - p) (drop p src)"
    using assms(5) pk by (auto split: if_splits)
  have run: "copy_gap p src k (j, dst) = Some (Suc (Suc k), dst[Suc k := src ! k])"
    using assms pk by (auto simp: copy_gap_def split: if_splits)
  have "take (Suc k - p) (drop (Suc p) (dst[Suc k := src ! k])) = take (k - p) (drop (Suc p) dst) @ [src ! k]"
    using assms pk by (simp add: Suc_diff_le drop_update_swap take_Suc_conv_app_nth)
  moreover have "take (Suc k - p) (drop p src) = take (k - p) (drop p src) @ [src ! k]"
    using assms pk by (simp add: Suc_diff_le take_Suc_conv_app_nth)
  ultimately show ?thesis unfolding run using pre pk by simp
qed

lemma copy_gap_loop:
  assumes "n \<le> length src" "n < length dst" "p \<le> n"
  shows "\<exists>j dst'. for_each (copy_gap p src) [0..<n] (0, dst) = Some (j, dst') \<and> length dst' = length dst \<and>
    take p dst' = take p src \<and> take (n - p) (drop (Suc p) dst') = take (n - p) (drop p src)"
proof -
  define I where "I = (\<lambda>k (j, d). length d = length dst \<and>
    (if k \<le> p then j = k \<and> take k d = take k src
     else j = Suc k \<and> take p d = take p src \<and> take (k - p) (drop (Suc p) d) = take (k - p) (drop p src)))"
  have "\<exists>t. for_each (copy_gap p src) [0..<n] (0, dst) = Some t \<and> I (length [0..<n]) t"
  proof (rule for_each_inv [where I = "\<lambda>ys. I (length ys)"])
    fix ys k zs t
    assume eq: "[0..<n] = ys @ k # zs" and I: "I (length ys) t"
    have "length ys < n" using arg_cong [OF eq, of length] by simp
    moreover have "k = length ys" using arg_cong [OF eq, of "\<lambda>xs. xs ! length ys"] \<open>length ys < n\<close> by simp
    ultimately have k: "k < n" "length ys = k" by auto
    obtain j d where t: "t = (j, d)" by (cases t)
    have "length d = Suc (Suc (length dst - 2))" using assms k I t by (simp add: I_def)
    then have "\<exists>j' d'. copy_gap p src k (j, d) = Some (j', d') \<and> length d' = length d \<and>
      (if Suc k \<le> p then j' = Suc k \<and> take (Suc k) d' = take (Suc k) src
       else j' = Suc (Suc k) \<and> take p d' = take p src \<and>
         take (Suc k - p) (drop (Suc p) d') = take (Suc k - p) (drop p src))"
      by (rule copy_gap_step [rotated]) (use k assms I t in \<open>simp_all add: I_def\<close>)
    then obtain j' d' where "copy_gap p src k (j, d) = Some (j', d')" "I (Suc k) (j', d')"
      using I t by (auto simp: I_def)
    then show "\<exists>t'. copy_gap p src k t = Some t' \<and> I (length (ys @ [k])) t'"
      using k t by auto
  qed (simp add: I_def)
  then show ?thesis using assms(3) by (auto simp: I_def split: if_splits)
qed

subsection \<open>Copying and clearing\<close>

text \<open>\<open>for (i = lo, j = off; i < hi; i++, j++) dst[j] = src[i];\<close>\<close>

definition copy_elem :: "nat \<Rightarrow> nat \<Rightarrow> 'a list \<Rightarrow> nat \<Rightarrow> 'a list \<Rightarrow> 'a list option" where
  "copy_elem lo off src i dst = do {
     x \<leftarrow> ld src i;
     st dst (off + (i - lo)) x
   }"

lemma copy_elem_loop:
  assumes "lo \<le> hi" "hi \<le> length src" "off + (hi - lo) \<le> length dst"
  shows "for_each (copy_elem lo off src) [lo..<hi] dst = Some (put dst off (take (hi - lo) (drop lo src)))"
  using assms
proof (induction hi)
  case (Suc hi)
  show ?case
  proof (cases "lo = Suc hi")
    case False
    with Suc.prems have h: "lo \<le> hi" "hi < length src" "off + (hi - lo) < length dst" by auto
    have IH: "for_each (copy_elem lo off src) [lo..<hi] dst = Some (put dst off (take (hi - lo) (drop lo src)))"
      using Suc.IH h by simp
    have l: "length (take (hi - lo) (drop lo src)) = hi - lo" using h by simp
    have "copy_elem lo off src hi (put dst off (take (hi - lo) (drop lo src)))
      = Some (put dst off (take (hi - lo) (drop lo src) @ [src ! hi]))"
      using h l put_snoc [of off "take (hi - lo) (drop lo src)" dst "src ! hi"] by (simp add: copy_elem_def)
    moreover have "take (Suc hi - lo) (drop lo src) = take (hi - lo) (drop lo src) @ [src ! hi]"
      using h by (simp add: Suc_diff_le take_Suc_conv_app_nth)
    moreover have "[lo..<Suc hi] = [lo..<hi] @ [hi]" using h by simp
    ultimately show ?thesis by (simp add: for_each_snoc IH)
  qed simp
qed simp

text \<open>\<open>for (i = lo; i < hi; i++) xs[i] = x;\<close>\<close>

lemma clear_loop:
  assumes "lo \<le> hi" "hi \<le> length xs"
  shows "for_each (\<lambda>i xs. st xs i x) [lo..<hi] xs = Some (take lo xs @ replicate (hi - lo) x @ drop hi xs)"
  using assms
proof (induction hi)
  case (Suc hi)
  show ?case
  proof (cases "lo = Suc hi")
    case False
    with Suc.prems have h: "lo \<le> hi" "hi < length xs" by auto
    have IH: "for_each (\<lambda>i xs. st xs i x) [lo..<hi] xs = Some (take lo xs @ replicate (hi - lo) x @ drop hi xs)"
      using Suc.IH h by simp
    have d: "drop hi xs = xs ! hi # drop (Suc hi) xs" using h by (simp add: Cons_nth_drop_Suc)
    have "(take lo xs @ replicate (hi - lo) x @ drop hi xs)[hi := x]
      = take lo xs @ replicate (hi - lo) x @ x # drop (Suc hi) xs"
      unfolding d using h by (simp add: list_update_append)
    moreover have "replicate (Suc hi - lo) x = replicate (hi - lo) x @ [x]"
      using h by (simp add: Suc_diff_le replicate_append_same)
    moreover have "[lo..<Suc hi] = [lo..<hi] @ [hi]" using h by simp
    ultimately show ?thesis using h by (simp add: for_each_snoc IH)
  qed simp
qed simp

subsection \<open>Loops over two arrays\<close>

text \<open>A loop that treats two components of a state in the same way is two loops.\<close>

lemma for_each_pair:
  "for_each (\<lambda>i (a, b). do { a \<leftarrow> f i a; b \<leftarrow> g i b; Some (a, b) }) xs (a, b)
    = do { a \<leftarrow> for_each f xs a; b \<leftarrow> for_each g xs b; Some (a, b) }"
proof (induction xs arbitrary: a b)
  case (Cons x xs)
  show ?case
  proof (cases "f x a")
    case (Some a')
    then show ?thesis by (cases "g x b"; cases "for_each f xs a'") (simp_all add: Cons.IH)
  qed simp
qed simp

end
