(* ===== verification/BTree.thy ===== *)
theory BTree
  imports BTreeArrays
begin

text \<open>
  The B+ tree of the workload \<open>btree\<close> (\<open>btree1.c\<close>): its structures on an explicit heap, the slab
  allocators, searching, insertion and deletion.

  Nodes and records live in two maps from addresses, and a \<open>void *\<close> in a node is a value of
  \<open>pointer\<close>, so that following a pointer that is null, freed or of the other kind gives
  \<^const>\<open>None\<close>.  The arrays \<open>keys\<close> and \<open>pointers\<close> belong to their node and are never shared; they are
  fields of it, empty while the node has none.  \<^const>\<open>None\<close> also stands for the exit when memory is
  exhausted.  The order of the tree, the number of structures in a slab and the success of each
  allocation are the argument \<open>bt_env\<close>.  Unsigned counters are natural numbers; the index
  \<open>(uint64_t)-1\<close> of \<open>get_neighbor_index\<close> is the integer \<open>-1\<close>.
\<close>

subsection \<open>Structures\<close>

datatype pointer = Null | Node_at nat | Rec_at nat

record bt_record =
  rec_value :: u64
  rec_next :: pointer
  rec_flags :: u64
  rec_stats :: u64

record bt_node =
  pointers :: "pointer list"
  keys :: "u64 list"
  parent :: pointer
  is_leaf :: bool
  num_keys :: nat
  node_stats :: u64
  node_next :: pointer

record bt_env =
  order :: nat
  node_slab :: nat
  rec_slab :: nat
  memalign :: "nat \<Rightarrow> bool"

text \<open>
  The globals and the memory of the program.  Slabs are cut from fresh addresses; \<open>mem_calls\<close> counts
  the calls of \<open>posix_memalign\<close>.
\<close>

record bt_heap =
  nodes :: "nat \<rightharpoonup> bt_node"
  recs :: "nat \<rightharpoonup> bt_record"
  free_nodes :: pointer
  free_recs :: pointer
  node_brk :: nat
  rec_brk :: nat
  mem_calls :: nat
  allocator_stat :: u64
  queue :: pointer

definition empty_heap :: bt_heap where
  "empty_heap = \<lparr>nodes = Map.empty, recs = Map.empty, free_nodes = Null, free_recs = Null,
     node_brk = 0, rec_brk = 0, mem_calls = 0, allocator_stat = 0, queue = Null\<rparr>"

definition get_node :: "pointer \<Rightarrow> bt_heap \<Rightarrow> bt_node option" where
  "get_node p h = (case p of Node_at a \<Rightarrow> nodes h a | _ \<Rightarrow> None)"

definition set_node :: "pointer \<Rightarrow> bt_node \<Rightarrow> bt_heap \<Rightarrow> bt_heap option" where
  "set_node p n h = (case p of
     Node_at a \<Rightarrow> if nodes h a = None then None else Some (h\<lparr>nodes := (nodes h)(a \<mapsto> n)\<rparr>)
   | _ \<Rightarrow> None)"

definition get_rec :: "pointer \<Rightarrow> bt_heap \<Rightarrow> bt_record option" where
  "get_rec p h = (case p of Rec_at a \<Rightarrow> recs h a | _ \<Rightarrow> None)"

definition set_rec :: "pointer \<Rightarrow> bt_record \<Rightarrow> bt_heap \<Rightarrow> bt_heap option" where
  "set_rec p r h = (case p of
     Rec_at a \<Rightarrow> if recs h a = None then None else Some (h\<lparr>recs := (recs h)(a \<mapsto> r)\<rparr>)
   | _ \<Rightarrow> None)"

definition set_parent :: "pointer \<Rightarrow> pointer \<Rightarrow> bt_heap \<Rightarrow> bt_heap option" where
  "set_parent c p h = do {
     n \<leftarrow> get_node c h;
     set_node c (n\<lparr>parent := p\<rparr>) h
   }"

subsection \<open>Allocation\<close>

definition allocate :: "bt_env \<Rightarrow> nat \<Rightarrow> bt_heap \<Rightarrow> bt_heap option" where
  "allocate e sz h =
    (if memalign e (mem_calls h)
     then Some (h\<lparr>mem_calls := Suc (mem_calls h), allocator_stat := allocator_stat h + of_nat sz\<rparr>)
     else None)"

definition allocate_align64 :: "bt_env \<Rightarrow> nat \<Rightarrow> bt_heap \<Rightarrow> bt_heap option" where
  "allocate_align64 e sz h =
    (if memalign e (mem_calls h)
     then Some (h\<lparr>mem_calls := Suc (mem_calls h), allocator_stat := allocator_stat h + of_nat sz\<rparr>)
     else None)"

definition SLAB_GROW :: nat where
  "SLAB_GROW = 2 ^ 20"

definition zero_node :: bt_node where
  "zero_node = \<lparr>pointers = [], keys = [], parent = Null, is_leaf = False, num_keys = 0,
     node_stats = 0, node_next = Null\<rparr>"

definition zero_rec :: bt_record where
  "zero_rec = \<lparr>rec_value = 0, rec_next = Null, rec_flags = 0, rec_stats = 0\<rparr>"

definition push_node :: "nat \<Rightarrow> bt_heap \<Rightarrow> bt_heap" where
  "push_node a h = h\<lparr>nodes := (nodes h)(a \<mapsto> zero_node\<lparr>node_next := free_nodes h\<rparr>), free_nodes := Node_at a\<rparr>"

definition push_rec :: "nat \<Rightarrow> bt_heap \<Rightarrow> bt_heap" where
  "push_rec a h = h\<lparr>recs := (recs h)(a \<mapsto> zero_rec\<lparr>rec_next := free_recs h\<rparr>), free_recs := Rec_at a\<rparr>"

text \<open>
  The first branch of \<open>alloc_node\<close>: a new slab of zero-filled nodes, put on the free list.
\<close>

definition grow_nodes :: "bt_env \<Rightarrow> bt_heap \<Rightarrow> bt_heap option" where
  "grow_nodes e h = do {
     h \<leftarrow> allocate e SLAB_GROW h;
     Some (fold push_node [node_brk h..<node_brk h + node_slab e] (h\<lparr>node_brk := node_brk h + node_slab e\<rparr>))
   }"

text \<open>\<open>memset(nd, 0, sizeof(nd))\<close> clears as many bytes as a pointer has: the field \<open>pointers\<close>.\<close>

definition alloc_node :: "bt_env \<Rightarrow> bt_heap \<Rightarrow> (pointer \<times> bt_heap) option" where
  "alloc_node e h = do {
     h \<leftarrow> (if free_nodes h = Null then grow_nodes e h else Some h);
     let nd = free_nodes h;
     n \<leftarrow> get_node nd h;
     h \<leftarrow> set_node nd (n\<lparr>pointers := []\<rparr>) (h\<lparr>free_nodes := node_next n\<rparr>);
     Some (nd, h)
   }"

text \<open>The arrays of a freed node are released before.\<close>

definition free_node :: "pointer \<Rightarrow> bt_heap \<Rightarrow> bt_heap option" where
  "free_node p h = do {
     n \<leftarrow> get_node p h;
     h \<leftarrow> set_node p (n\<lparr>node_next := free_nodes h\<rparr>) h;
     Some (h\<lparr>free_nodes := p\<rparr>)
   }"

definition free_arrays :: "pointer \<Rightarrow> bt_heap \<Rightarrow> bt_heap option" where
  "free_arrays p h = do {
     n \<leftarrow> get_node p h;
     set_node p (n\<lparr>keys := [], pointers := []\<rparr>) h
   }"

definition grow_recs :: "bt_env \<Rightarrow> bt_heap \<Rightarrow> bt_heap option" where
  "grow_recs e h = do {
     h \<leftarrow> allocate e SLAB_GROW h;
     Some (fold push_rec [rec_brk h..<rec_brk h + rec_slab e] (h\<lparr>rec_brk := rec_brk h + rec_slab e\<rparr>))
   }"

definition alloc_record :: "bt_env \<Rightarrow> bt_heap \<Rightarrow> (pointer \<times> bt_heap) option" where
  "alloc_record e h = do {
     h \<leftarrow> (if free_recs h = Null then grow_recs e h else Some h);
     let rec = free_recs h;
     r \<leftarrow> get_rec rec h;
     h \<leftarrow> set_rec rec zero_rec (h\<lparr>free_recs := rec_next r\<rparr>);
     Some (rec, h)
   }"

definition free_record :: "pointer \<Rightarrow> bt_heap \<Rightarrow> bt_heap option" where
  "free_record p h = do {
     r \<leftarrow> get_rec p h;
     h \<leftarrow> set_rec p (r\<lparr>rec_next := free_recs h\<rparr>) h;
     Some (h\<lparr>free_recs := p\<rparr>)
   }"

definition make_record :: "bt_env \<Rightarrow> u64 \<Rightarrow> bt_heap \<Rightarrow> (pointer \<times> bt_heap) option" where
  "make_record e value h = do {
     (p, h) \<leftarrow> alloc_record e h;
     r \<leftarrow> get_rec p h;
     h \<leftarrow> set_rec p (r\<lparr>rec_value := value\<rparr>) h;
     Some (p, h)
   }"

definition make_node :: "bt_env \<Rightarrow> bt_heap \<Rightarrow> (pointer \<times> bt_heap) option" where
  "make_node e h = do {
     (p, h) \<leftarrow> alloc_node e h;
     h \<leftarrow> allocate_align64 e ((order e - 1) * 8) h;
     h \<leftarrow> allocate_align64 e (order e * 8) h;
     n \<leftarrow> get_node p h;
     h \<leftarrow> set_node p (n\<lparr>keys := replicate (order e - 1) 0, pointers := replicate (order e) Null,
         is_leaf := False, num_keys := 0, parent := Null, node_next := Null\<rparr>) h;
     Some (p, h)
   }"

definition make_leaf :: "bt_env \<Rightarrow> bt_heap \<Rightarrow> (pointer \<times> bt_heap) option" where
  "make_leaf e h = do {
     (p, h) \<leftarrow> make_node e h;
     n \<leftarrow> get_node p h;
     h \<leftarrow> set_node p (n\<lparr>is_leaf := True\<rparr>) h;
     Some (p, h)
   }"

subsection \<open>Searching\<close>

definition height :: "pointer \<Rightarrow> bt_heap \<Rightarrow> nat option" where
  "height root h = map_option snd (while_opt
     (\<lambda>(c, k). map_option (\<lambda>n. \<not> is_leaf n) (get_node c h))
     (\<lambda>(c, k). do { n \<leftarrow> get_node c h; c \<leftarrow> ld (pointers n) 0; Some (c, Suc k) })
     (root, 0))"

definition path_to_root :: "pointer \<Rightarrow> pointer \<Rightarrow> bt_heap \<Rightarrow> nat option" where
  "path_to_root root child h = map_option snd (while_opt
     (\<lambda>(c, k). Some (c \<noteq> root))
     (\<lambda>(c, k). do { n \<leftarrow> get_node c h; Some (parent n, Suc k) })
     (child, 0))"

definition find_child :: "bt_heap \<Rightarrow> u64 \<Rightarrow> pointer \<Rightarrow> pointer option" where
  "find_child h key c = do {
     n \<leftarrow> get_node c h;
     i \<leftarrow> scan (\<lambda>k. key \<ge> k) (num_keys n) (keys n);
     ld (pointers n) i
   }"

definition descend :: "bt_heap \<Rightarrow> u64 \<Rightarrow> pointer \<Rightarrow> pointer option" where
  "descend h key = while_opt (\<lambda>c. map_option (\<lambda>n. \<not> is_leaf n) (get_node c h)) (find_child h key)"

definition find_leaf :: "pointer \<Rightarrow> u64 \<Rightarrow> bt_heap \<Rightarrow> pointer option" where
  "find_leaf root key h = (if root = Null then Some root else descend h key root)"

text \<open>The result is the record with the leaf that \<open>leaf_out\<close> receives.\<close>

definition find_bt :: "pointer \<Rightarrow> u64 \<Rightarrow> bt_heap \<Rightarrow> (pointer \<times> pointer) option" where
  "find_bt root key h =
    (if root = Null then Some (Null, Null)
     else do {
       leaf \<leftarrow> find_leaf root key h;
       n \<leftarrow> get_node leaf h;
       i \<leftarrow> scan (\<lambda>k. k \<noteq> key) (num_keys n) (keys n);
       if i = num_keys n then Some (Null, leaf)
       else do {
         r \<leftarrow> ld (pointers n) i;
         Some (r, leaf)
       }
     })"

text \<open>
  The loops of \<open>find_range\<close>: the state is the position in the leaf, the two arrays of the caller
  and the number of entries found.
\<close>

type_synonym range_out = "u64 list \<times> pointer list \<times> nat"

definition take_range :: "bt_node \<Rightarrow> u64 \<Rightarrow> nat \<times> range_out \<Rightarrow> (nat \<times> range_out) option" where
  "take_range n key_end = while_opt
     (\<lambda>(i, ks, ps, num_found). if i < num_keys n then map_option (\<lambda>k. k \<le> key_end) (ld (keys n) i) else Some False)
     (\<lambda>(i, ks, ps, num_found). do {
        k \<leftarrow> ld (keys n) i;
        ks \<leftarrow> st ks num_found k;
        p \<leftarrow> ld (pointers n) i;
        ps \<leftarrow> st ps num_found p;
        Some (Suc i, ks, ps, Suc num_found)
      })"

definition find_range ::
    "bt_env \<Rightarrow> pointer \<Rightarrow> u64 \<Rightarrow> u64 \<Rightarrow> u64 list \<Rightarrow> pointer list \<Rightarrow> bt_heap \<Rightarrow> range_out option" where
  "find_range e root key_start key_end returned_keys returned_pointers h = do {
     p \<leftarrow> find_leaf root key_start h;
     if p = Null then Some (returned_keys, returned_pointers, 0)
     else do {
       n \<leftarrow> get_node p h;
       i \<leftarrow> scan (\<lambda>k. k < key_start) (num_keys n) (keys n);
       if i = num_keys n then Some (returned_keys, returned_pointers, 0)
       else do {
         (p, i, ks, ps, num_found) \<leftarrow> while_opt (\<lambda>(p, i, out). Some (p \<noteq> Null))
           (\<lambda>(p, i, out). do {
              n \<leftarrow> get_node p h;
              (i, out) \<leftarrow> take_range n key_end (i, out);
              p \<leftarrow> ld (pointers n) (order e - 1);
              Some (p, 0, out)
            }) (p, i, returned_keys, returned_pointers, 0);
         Some (ks, ps, num_found)
       }
     }
   }"

definition cut :: "nat \<Rightarrow> nat" where
  "cut len = (if len mod 2 = 0 then len div 2 else len div 2 + 1)"

subsection \<open>Insertion\<close>

definition get_left_index :: "pointer \<Rightarrow> pointer \<Rightarrow> bt_heap \<Rightarrow> nat option" where
  "get_left_index par left h = do {
     n \<leftarrow> get_node par h;
     scan (\<lambda>p. p \<noteq> left) (Suc (num_keys n)) (pointers n)
   }"

text \<open>A loop body that treats both arrays of a node, one that also counts the keys.\<close>

definition on_arrays ::
    "(nat \<Rightarrow> u64 list \<Rightarrow> u64 list option) \<Rightarrow> (nat \<Rightarrow> pointer list \<Rightarrow> pointer list option)
      \<Rightarrow> nat \<Rightarrow> bt_node \<Rightarrow> bt_node option" where
  "on_arrays f g i n = do {
     ks \<leftarrow> f i (keys n);
     ps \<leftarrow> g i (pointers n);
     Some (n\<lparr>keys := ks, pointers := ps\<rparr>)
   }"

definition append_entry ::
    "(nat \<Rightarrow> u64 list \<Rightarrow> u64 list option) \<Rightarrow> (nat \<Rightarrow> pointer list \<Rightarrow> pointer list option)
      \<Rightarrow> nat \<Rightarrow> bt_node \<Rightarrow> bt_node option" where
  "append_entry f g i n = do {
     ps \<leftarrow> g i (pointers n);
     ks \<leftarrow> f i (keys n);
     Some (n\<lparr>keys := ks, pointers := ps, num_keys := Suc (num_keys n)\<rparr>)
   }"

definition insert_into_leaf :: "pointer \<Rightarrow> u64 \<Rightarrow> pointer \<Rightarrow> bt_heap \<Rightarrow> (pointer \<times> bt_heap) option" where
  "insert_into_leaf leaf key p h = do {
     n \<leftarrow> get_node leaf h;
     insertion_point \<leftarrow> scan (\<lambda>k. k < key) (num_keys n) (keys n);
     n \<leftarrow> for_each (on_arrays shift_up shift_up) (rev [Suc insertion_point..<Suc (num_keys n)]) n;
     ks \<leftarrow> st (keys n) insertion_point key;
     ps \<leftarrow> st (pointers n) insertion_point p;
     h \<leftarrow> set_node leaf (n\<lparr>keys := ks, pointers := ps, num_keys := Suc (num_keys n)\<rparr>) h;
     Some (leaf, h)
   }"

text \<open>The loop that fills both temporary arrays, leaving a gap.\<close>

definition copy_gap2 ::
    "nat \<Rightarrow> u64 list \<Rightarrow> pointer list \<Rightarrow> nat \<Rightarrow> nat \<times> u64 list \<times> pointer list
      \<Rightarrow> (nat \<times> u64 list \<times> pointer list) option" where
  "copy_gap2 gap ks ps i = (\<lambda>(j, tk, tp). do {
     (_, tk) \<leftarrow> copy_gap gap ks i (j, tk);
     (j, tp) \<leftarrow> copy_gap gap ps i (j, tp);
     Some (j, tk, tp)
   })"

text \<open>
  \<open>insert_into_leaf_after_splitting\<close> up to its last call: the leaf is split and the result is the new
  key with the new leaf.
\<close>

definition split_leaf :: "bt_env \<Rightarrow> pointer \<Rightarrow> u64 \<Rightarrow> pointer \<Rightarrow> bt_heap \<Rightarrow> (u64 \<times> pointer \<times> bt_heap) option" where
  "split_leaf e leaf key p h = do {
     (new_leaf, h) \<leftarrow> make_leaf e h;
     h \<leftarrow> allocate_align64 e ((order e + 1) * 8) h;
     h \<leftarrow> allocate_align64 e ((order e + 1) * 8) h;
     n \<leftarrow> get_node leaf h;
     insertion_index \<leftarrow> scan (\<lambda>k. k < key) (order e - 1) (keys n);
     (_, temp_keys, temp_pointers) \<leftarrow> for_each (copy_gap2 insertion_index (keys n) (pointers n)) [0..<num_keys n]
       (0, replicate (order e + 1) 0, replicate (order e + 1) Null);
     temp_keys \<leftarrow> st temp_keys insertion_index key;
     temp_pointers \<leftarrow> st temp_pointers insertion_index p;
     let split = cut (order e - 1);
     n \<leftarrow> for_each (append_entry (copy_elem 0 0 temp_keys) (copy_elem 0 0 temp_pointers)) [0..<split]
       (n\<lparr>num_keys := 0\<rparr>);
     m \<leftarrow> get_node new_leaf h;
     m \<leftarrow> for_each (append_entry (copy_elem split 0 temp_keys) (copy_elem split 0 temp_pointers)) [split..<order e] m;
     nxt \<leftarrow> ld (pointers n) (order e - 1);
     mp \<leftarrow> st (pointers m) (order e - 1) nxt;
     np \<leftarrow> st (pointers n) (order e - 1) new_leaf;
     np \<leftarrow> for_each (\<lambda>i xs. st xs i Null) [num_keys n..<order e - 1] np;
     mp \<leftarrow> for_each (\<lambda>i xs. st xs i Null) [num_keys m..<order e - 1] mp;
     new_key \<leftarrow> ld (keys m) 0;
     h \<leftarrow> set_node leaf (n\<lparr>pointers := np\<rparr>) h;
     h \<leftarrow> set_node new_leaf (m\<lparr>pointers := mp, parent := parent n\<rparr>) h;
     Some (new_key, new_leaf, h)
   }"

definition insert_into_node ::
    "pointer \<Rightarrow> pointer \<Rightarrow> nat \<Rightarrow> u64 \<Rightarrow> pointer \<Rightarrow> bt_heap \<Rightarrow> (pointer \<times> bt_heap) option" where
  "insert_into_node root p left_index key right h = do {
     n \<leftarrow> get_node p h;
     n \<leftarrow> for_each (on_arrays shift_up (\<lambda>i. shift_up (Suc i))) (rev [Suc left_index..<Suc (num_keys n)]) n;
     ps \<leftarrow> st (pointers n) (left_index + 1) right;
     ks \<leftarrow> st (keys n) left_index key;
     h \<leftarrow> set_node p (n\<lparr>keys := ks, pointers := ps, num_keys := Suc (num_keys n)\<rparr>) h;
     Some (root, h)
   }"

text \<open>\<open>insert_into_node_after_splitting\<close> up to its last call.\<close>

definition split_node ::
    "bt_env \<Rightarrow> pointer \<Rightarrow> nat \<Rightarrow> u64 \<Rightarrow> pointer \<Rightarrow> bt_heap \<Rightarrow> (u64 \<times> pointer \<times> bt_heap) option" where
  "split_node e old_node left_index key right h = do {
     h \<leftarrow> allocate_align64 e ((order e + 1) * 8) h;
     h \<leftarrow> allocate_align64 e (order e * 8) h;
     n \<leftarrow> get_node old_node h;
     (_, temp_pointers) \<leftarrow> for_each (copy_gap (left_index + 1) (pointers n)) [0..<num_keys n + 1]
       (0, replicate (order e + 1) Null);
     (_, temp_keys) \<leftarrow> for_each (copy_gap left_index (keys n)) [0..<num_keys n] (0, replicate (order e) 0);
     temp_pointers \<leftarrow> st temp_pointers (left_index + 1) right;
     temp_keys \<leftarrow> st temp_keys left_index key;
     let split = cut (order e);
     (new_node, h) \<leftarrow> make_node e h;
     n \<leftarrow> for_each (append_entry (copy_elem 0 0 temp_keys) (copy_elem 0 0 temp_pointers)) [0..<split - 1]
       (n\<lparr>num_keys := 0\<rparr>);
     np \<leftarrow> copy_elem 0 0 temp_pointers (split - 1) (pointers n);
     k_prime \<leftarrow> ld temp_keys (split - 1);
     m \<leftarrow> get_node new_node h;
     m \<leftarrow> for_each (append_entry (copy_elem split 0 temp_keys) (copy_elem split 0 temp_pointers)) [split..<order e] m;
     mp \<leftarrow> copy_elem split 0 temp_pointers (order e) (pointers m);
     h \<leftarrow> set_node old_node (n\<lparr>pointers := np\<rparr>) h;
     h \<leftarrow> set_node new_node (m\<lparr>pointers := mp, parent := parent n\<rparr>) h;
     h \<leftarrow> for_each (\<lambda>i h. ld mp i \<bind> (\<lambda>child. set_parent child new_node h)) [0..<num_keys m + 1] h;
     Some (k_prime, new_node, h)
   }"

definition insert_into_new_root ::
    "bt_env \<Rightarrow> pointer \<Rightarrow> u64 \<Rightarrow> pointer \<Rightarrow> bt_heap \<Rightarrow> (pointer \<times> bt_heap) option" where
  "insert_into_new_root e left key right h = do {
     (root, h) \<leftarrow> make_node e h;
     n \<leftarrow> get_node root h;
     ks \<leftarrow> st (keys n) 0 key;
     ps \<leftarrow> st (pointers n) 0 left;
     ps \<leftarrow> st ps 1 right;
     h \<leftarrow> set_node root (n\<lparr>keys := ks, pointers := ps, num_keys := Suc (num_keys n), parent := Null\<rparr>) h;
     h \<leftarrow> set_parent left root h;
     h \<leftarrow> set_parent right root h;
     Some (root, h)
   }"

partial_function (option) insert_into_parent ::
    "bt_env \<Rightarrow> pointer \<Rightarrow> pointer \<Rightarrow> u64 \<Rightarrow> pointer \<Rightarrow> bt_heap \<Rightarrow> (pointer \<times> bt_heap) option" where
  "insert_into_parent e root left key right h = do {
     l \<leftarrow> get_node left h;
     if parent l = Null then insert_into_new_root e left key right h
     else do {
       left_index \<leftarrow> get_left_index (parent l) left h;
       p \<leftarrow> get_node (parent l) h;
       if num_keys p < order e - 1 then insert_into_node root (parent l) left_index key right h
       else do {
         (k_prime, new_node, h) \<leftarrow> split_node e (parent l) left_index key right h;
         insert_into_parent e root (parent l) k_prime new_node h
       }
     }
   }"

declare insert_into_parent.simps [code]

definition insert_into_node_after_splitting ::
    "bt_env \<Rightarrow> pointer \<Rightarrow> pointer \<Rightarrow> nat \<Rightarrow> u64 \<Rightarrow> pointer \<Rightarrow> bt_heap \<Rightarrow> (pointer \<times> bt_heap) option" where
  "insert_into_node_after_splitting e root old_node left_index key right h = do {
     (k_prime, new_node, h) \<leftarrow> split_node e old_node left_index key right h;
     insert_into_parent e root old_node k_prime new_node h
   }"

definition insert_into_leaf_after_splitting ::
    "bt_env \<Rightarrow> pointer \<Rightarrow> pointer \<Rightarrow> u64 \<Rightarrow> pointer \<Rightarrow> bt_heap \<Rightarrow> (pointer \<times> bt_heap) option" where
  "insert_into_leaf_after_splitting e root leaf key p h = do {
     (new_key, new_leaf, h) \<leftarrow> split_leaf e leaf key p h;
     insert_into_parent e root leaf new_key new_leaf h
   }"

definition start_new_tree :: "bt_env \<Rightarrow> u64 \<Rightarrow> pointer \<Rightarrow> bt_heap \<Rightarrow> (pointer \<times> bt_heap) option" where
  "start_new_tree e key p h = do {
     (root, h) \<leftarrow> make_leaf e h;
     n \<leftarrow> get_node root h;
     ks \<leftarrow> st (keys n) 0 key;
     ps \<leftarrow> st (pointers n) 0 p;
     ps \<leftarrow> st ps (order e - 1) Null;
     h \<leftarrow> set_node root (n\<lparr>keys := ks, pointers := ps, parent := Null, num_keys := Suc (num_keys n)\<rparr>) h;
     Some (root, h)
   }"

definition insert_bt :: "bt_env \<Rightarrow> pointer \<Rightarrow> u64 \<Rightarrow> u64 \<Rightarrow> bt_heap \<Rightarrow> (pointer \<times> bt_heap) option" where
  "insert_bt e root key value h = do {
     (record_pointer, _) \<leftarrow> find_bt root key h;
     if record_pointer \<noteq> Null then do {
       r \<leftarrow> get_rec record_pointer h;
       h \<leftarrow> set_rec record_pointer (r\<lparr>rec_value := value\<rparr>) h;
       Some (root, h)
     } else do {
       (record_pointer, h) \<leftarrow> make_record e value h;
       if root = Null then start_new_tree e key record_pointer h
       else do {
         leaf \<leftarrow> find_leaf root key h;
         n \<leftarrow> get_node leaf h;
         if num_keys n < order e - 1 then do {
           (_, h) \<leftarrow> insert_into_leaf leaf key record_pointer h;
           Some (root, h)
         } else insert_into_leaf_after_splitting e root leaf key record_pointer h
       }
     }
   }"

end
