(* ===== verification/BTreeShape.thy ===== *)
theory BTreeShape
  imports BTree "HOL-Library.Multiset"
begin

text \<open>
  What a heap of \<^typ>\<open>bt_heap\<close> has to do with B+ trees: trees with the addresses of their nodes, the
  in-order sequence of their entries and separators, the conditions on order, balance, occupancy and
  the list of leaves, contexts of a subtree along the parent pointers, and when a heap represents a
  tree.  The search is shown correct with these notions.
\<close>

subsection \<open>Trees\<close>

text \<open>
  A leaf holds its address, its entries (a key and the address of a record each) and the pointer to
  the next leaf; an inner node its address, its children and the keys between them.
\<close>

datatype btree = Leaf nat "(u64 \<times> nat) list" pointer | Inner nat "btree list" "u64 list"

datatype item = Ent u64 nat | Sep u64

primrec addr :: "btree \<Rightarrow> nat" where
  "addr (Leaf a es nx) = a"
| "addr (Inner a ts ks) = a"

primrec addrs :: "btree \<Rightarrow> nat list" where
  "addrs (Leaf a es nx) = [a]"
| "addrs (Inner a ts ks) = a # concat (map addrs ts)"

text \<open>The leaves with their pointers to the next leaf.\<close>

primrec links :: "btree \<Rightarrow> (nat \<times> pointer) list" where
  "links (Leaf a es nx) = [(a, nx)]"
| "links (Inner a ts ks) = concat (map links ts)"

text \<open>Children on the left followed by separators, and separators followed by children on the right.\<close>

definition weave_left :: "item list list \<Rightarrow> u64 list \<Rightarrow> item list" where
  "weave_left xss ks = concat (map (\<lambda>(xs, k). xs @ [Sep k]) (zip xss ks))"

definition weave_right :: "u64 list \<Rightarrow> item list list \<Rightarrow> item list" where
  "weave_right ks xss = concat (map (\<lambda>(k, xs). Sep k # xs) (zip ks xss))"

fun weave :: "item list list \<Rightarrow> u64 list \<Rightarrow> item list" where
  "weave [] ks = []"
| "weave (xs # xss) ks = xs @ weave_right ks xss"

primrec items :: "btree \<Rightarrow> item list" where
  "items (Leaf a es nx) = map (\<lambda>(k, r). Ent k r) es"
| "items (Inner a ts ks) = weave (map items ts) ks"

lemma addr_in_addrs [simp]: "addr t \<in> set (addrs t)"
  by (cases t) simp_all

lemma addr_in_concat:
  assumes "t \<in> set ts"
  shows "addr t \<in> set (concat (map addrs ts))"
proof -
  have "addr t \<in> set (addrs t)" by simp
  with assms show ?thesis unfolding set_concat set_map by (rule UN_I [OF imageI])
qed

lemma weave_left_simps [simp]:
  "weave_left [] ks = []"
  "weave_left (xs # xss) (k # ks) = xs @ Sep k # weave_left xss ks"
  by (simp_all add: weave_left_def)

lemma weave_right_simps [simp]:
  "weave_right [] xss = []"
  "weave_right (k # ks) (xs # xss) = Sep k # xs @ weave_right ks xss"
  by (simp_all add: weave_right_def)

lemma weave_left_append:
  "length xss = length ks \<Longrightarrow> weave_left (xss @ yss) (ks @ ls) = weave_left xss ks @ weave_left yss ls"
  by (simp add: weave_left_def)

lemma weave_right_append:
  "length xss = length ks \<Longrightarrow> weave_right (ks @ ls) (xss @ yss) = weave_right ks xss @ weave_right ls yss"
  by (simp add: weave_right_def)

lemma weave_split:
  "length xss = length ks \<Longrightarrow> weave (xss @ xs # yss) (ks @ ls) = weave_left xss ks @ xs @ weave_right ls yss"
proof (induction xss ks rule: list_induct2)
  case (Cons x xss k ks)
  then show ?case by (cases xss) simp_all
qed simp

lemma weave_join:
  "length xss = length ks \<Longrightarrow> weave_left xss ks @ weave yss ls = weave (xss @ yss) (ks @ ls)" if "yss \<noteq> []"
  using that by (cases yss) (simp_all add: weave_split)

subsection \<open>Order\<close>

text \<open>
  The keys of an item doubled, with an entry right after a separator of the same key: the entries
  below a separator are smaller than it, those above are greater or equal.
\<close>

primrec rank :: "item \<Rightarrow> nat" where
  "rank (Sep k) = 2 * unat k"
| "rank (Ent k r) = Suc (2 * unat k)"

definition ordered :: "item list \<Rightarrow> bool" where
  "ordered xs \<longleftrightarrow> sorted_wrt (\<lambda>x y. rank x < rank y) xs"

lemma ordered_simps [simp]:
  "ordered []"
  "ordered (x # xs) \<longleftrightarrow> (\<forall>y \<in> set xs. rank x < rank y) \<and> ordered xs"
  "ordered (xs @ ys) \<longleftrightarrow> ordered xs \<and> ordered ys \<and> (\<forall>x \<in> set xs. \<forall>y \<in> set ys. rank x < rank y)"
  by (auto simp: ordered_def sorted_wrt_append)

lemma rank_Ent_inject: "rank (Ent k r) = rank (Ent k' r') \<longleftrightarrow> k = k'"
  by (simp add: word_unat_eq_iff)

lemma rank_less [simp]:
  "rank (Ent k r) < rank (Ent k' r') \<longleftrightarrow> k < k'"
  "rank (Ent k r) < rank (Sep k') \<longleftrightarrow> k < k'"
  "rank (Sep k) < rank (Ent k' r') \<longleftrightarrow> k \<le> k'"
  "rank (Sep k) < rank (Sep k') \<longleftrightarrow> k < k'"
  by (auto simp: word_less_nat_alt word_le_nat_alt)

primrec ents :: "item list \<Rightarrow> (u64 \<times> nat) list" where
  "ents [] = []"
| "ents (x # xs) = (case x of Ent k r \<Rightarrow> (k, r) # ents xs | Sep k \<Rightarrow> ents xs)"

lemma ents_append [simp]: "ents (xs @ ys) = ents xs @ ents ys"
  by (induction xs) (auto split: item.splits)

lemma ents_Ent [simp]: "ents (map (\<lambda>(k, r). Ent k r) es) = es"
  by (induction es) auto

lemma set_ents: "(k, r) \<in> set (ents xs) \<longleftrightarrow> Ent k r \<in> set xs"
  by (induction xs) (auto split: item.splits)

lemma ordered_ents: "ordered xs \<Longrightarrow> sorted_wrt (<) (map fst (ents xs))"
proof (induction xs)
  case (Cons x xs)
  then show ?case by (force simp: set_ents split: item.splits simp del: rank.simps)
qed simp

lemma sorted_wrt_less_distinct: "sorted_wrt (<) xs \<Longrightarrow> distinct xs" for xs :: "'a::order list"
  by (induction xs) auto

subsection \<open>Balance and occupancy\<close>

text \<open>\<open>occupied b low n\<close>: the root has at least one key, every other node at least \<open>low\<close>.\<close>

definition occupied :: "bool \<Rightarrow> nat \<Rightarrow> nat \<Rightarrow> bool" where
  "occupied is_root low n \<longleftrightarrow> (if is_root then 0 < n else low \<le> n)"

fun shaped :: "nat \<Rightarrow> bool \<Rightarrow> nat \<Rightarrow> btree \<Rightarrow> bool" where
  "shaped d is_root n (Leaf a es nx) \<longleftrightarrow> n = 0 \<and> occupied is_root (cut (d - 1)) (length es)"
| "shaped d is_root 0 (Inner a ts ks) \<longleftrightarrow> False"
| "shaped d is_root (Suc n) (Inner a ts ks) \<longleftrightarrow>
     occupied is_root (cut d - 1) (length ks) \<and> (\<forall>t \<in> set ts. shaped d False n t)"

lemma cut_bounds: "n \<le> 2 * cut n" "2 * cut n \<le> Suc n"
  unfolding cut_def by presburger+

lemma shaped_as_root:
  assumes "3 \<le> d" "shaped d False n t"
  shows "shaped d True n t"
proof (cases t)
  case (Leaf a es nx)
  then show ?thesis using assms cut_bounds [of "d - 1"] by (cases es) (simp_all add: occupied_def)
next
  case (Inner a ts ks)
  then show ?thesis using assms cut_bounds [of d] by (cases n; cases ks) (simp_all add: occupied_def)
qed

subsection \<open>The list of leaves\<close>

fun chained :: "(nat \<times> pointer) list \<Rightarrow> bool" where
  "chained [] \<longleftrightarrow> True"
| "chained [(a, nx)] \<longleftrightarrow> nx = Null"
| "chained ((a, nx) # (b, ny) # ls) \<longleftrightarrow> nx = Node_at b \<and> chained ((b, ny) # ls)"

text \<open>The pointer to the first leaf of a list.\<close>

fun first_link :: "(nat \<times> pointer) list \<Rightarrow> pointer" where
  "first_link [] = Null"
| "first_link ((a, nx) # ls) = Node_at a"

lemma chained_Cons: "chained ((a, nx) # ls) \<longleftrightarrow> nx = first_link ls \<and> chained ls"
  by (cases ls) auto

text \<open>A leaf in the middle of the list may be replaced by a list that ends in the same place.\<close>

lemma chained_middle:
  "chained (xs @ (a, nx) # ys) \<longleftrightarrow> chained (xs @ [(a, Null)]) \<and> nx = first_link ys \<and> chained ys"
proof (induction xs)
  case (Cons x xs)
  then show ?case by (cases x; cases xs) (auto simp: chained_Cons)
qed (simp add: chained_Cons)

subsection \<open>Representation\<close>

text \<open>A node holds these keys and pointers at the beginning of its arrays.\<close>

definition holds :: "nat \<Rightarrow> bt_node \<Rightarrow> u64 list \<Rightarrow> pointer list \<Rightarrow> bool" where
  "holds d n ks ps \<longleftrightarrow> num_keys n = length ks \<and> length (keys n) = d - 1 \<and> length (pointers n) = d \<and>
     take (length ks) (keys n) = ks \<and> take (length ps) (pointers n) = ps"

lemma take_self_length: "take (length ys) xs = ys \<Longrightarrow> length ys \<le> length xs"
  by (metis length_take min.cobounded2 nat_le_linear take_all)

lemma holdsD:
  assumes "holds d n ks ps"
  shows "num_keys n = length ks" "length (keys n) = d - 1" "length (pointers n) = d"
    "length ks \<le> d - 1" "length ps \<le> d" "take (length ks) (keys n) = ks" "take (length ps) (pointers n) = ps"
  using assms take_self_length [of ks "keys n"] take_self_length [of ps "pointers n"]
  by (auto simp: holds_def)

lemma holds_ld:
  assumes "holds d n ks ps"
  shows "i < length ks \<Longrightarrow> ld (keys n) i = Some (ks ! i)" "i < length ps \<Longrightarrow> ld (pointers n) i = Some (ps ! i)"
  using holdsD [OF assms] by (simp, metis nth_take)+

lemma holds_scan:
  assumes "holds d n ks ps"
  shows "scan P (num_keys n) (keys n) = Some (length (takeWhile P ks))"
  using holdsD [OF assms] by (simp add: scan_eq)

fun rep :: "nat \<Rightarrow> (nat \<rightharpoonup> bt_node) \<Rightarrow> pointer \<Rightarrow> btree \<Rightarrow> bool" where
  "rep d N p (Leaf a es nx) \<longleftrightarrow> (\<exists>n. N a = Some n \<and> is_leaf n \<and> parent n = p \<and>
     holds d n (map fst es) (map (\<lambda>e. Rec_at (snd e)) es) \<and> ld (pointers n) (d - 1) = Some nx)"
| "rep d N p (Inner a ts ks) \<longleftrightarrow> (\<exists>n. N a = Some n \<and> \<not> is_leaf n \<and> parent n = p \<and>
     holds d n ks (map (\<lambda>t. Node_at (addr t)) ts)) \<and> length ts = Suc (length ks) \<and>
     (\<forall>t \<in> set ts. rep d N (Node_at a) t)"

lemma rep_cong:
  "(\<And>a. a \<in> set (addrs t) \<Longrightarrow> N' a = N a) \<Longrightarrow> rep d N' p t = rep d N p t"
proof (induction t arbitrary: p)
  case (Inner a ts ks)
  have "rep d N' q t = rep d N q t" if "t \<in> set ts" for t q
    using that Inner.prems by (intro Inner.IH) auto
  then show ?case using Inner.prems [of a] by auto
qed simp

lemma rep_root: "rep d N p t \<Longrightarrow> \<exists>n. N (addr t) = Some n \<and> parent n = p"
  by (cases t) auto

text \<open>Changing the parent of the root of a tree.\<close>

lemma rep_set_parent:
  assumes "rep d N p t" "distinct (addrs t)" "N (addr t) = Some n"
  shows "rep d (N(addr t \<mapsto> n\<lparr>parent := q\<rparr>)) q t"
proof (cases t)
  case (Leaf a es nx)
  then show ?thesis using assms by (auto simp: holds_def)
next
  case (Inner a ts ks)
  have "rep d (N(a \<mapsto> n\<lparr>parent := q\<rparr>)) r s = rep d N r s" if "s \<in> set ts" for r s
    using that assms(2) Inner by (intro rep_cong) auto
  then show ?thesis using assms Inner by (auto simp: holds_def)
qed

subsection \<open>Contexts\<close>

text \<open>
  The nodes above a subtree, from its parent up to the root: for each its address, the children and
  keys to the left and the keys and children to the right.
\<close>

datatype frame = Frame nat "btree list" "u64 list" "u64 list" "btree list"

fun fill :: "frame list \<Rightarrow> btree \<Rightarrow> btree" where
  "fill [] t = t"
| "fill (Frame a ls kl kr rs # c) t = fill c (Inner a (ls @ t # rs) (kl @ kr))"

fun par_of :: "frame list \<Rightarrow> pointer" where
  "par_of [] = Null"
| "par_of (Frame a ls kl kr rs # c) = Node_at a"

fun root_of :: "frame list \<Rightarrow> nat \<Rightarrow> nat" where
  "root_of [] a = a"
| "root_of (Frame b ls kl kr rs # c) a = root_of c b"

fun addrs_c :: "frame list \<Rightarrow> nat list" where
  "addrs_c [] = []"
| "addrs_c (Frame a ls kl kr rs # c) = a # concat (map addrs ls) @ concat (map addrs rs) @ addrs_c c"

fun items_l :: "frame list \<Rightarrow> item list" where
  "items_l [] = []"
| "items_l (Frame a ls kl kr rs # c) = items_l c @ weave_left (map items ls) kl"

fun items_r :: "frame list \<Rightarrow> item list" where
  "items_r [] = []"
| "items_r (Frame a ls kl kr rs # c) = weave_right kr (map items rs) @ items_r c"

fun links_l :: "frame list \<Rightarrow> (nat \<times> pointer) list" where
  "links_l [] = []"
| "links_l (Frame a ls kl kr rs # c) = links_l c @ concat (map links ls)"

fun links_r :: "frame list \<Rightarrow> (nat \<times> pointer) list" where
  "links_r [] = []"
| "links_r (Frame a ls kl kr rs # c) = concat (map links rs) @ links_r c"

fun rep_c :: "nat \<Rightarrow> (nat \<rightharpoonup> bt_node) \<Rightarrow> frame list \<Rightarrow> nat \<Rightarrow> bool" where
  "rep_c d N [] x \<longleftrightarrow> True"
| "rep_c d N (Frame a ls kl kr rs # c) x \<longleftrightarrow> (\<exists>n. N a = Some n \<and> \<not> is_leaf n \<and> parent n = par_of c \<and>
     holds d n (kl @ kr) (map (\<lambda>t. Node_at (addr t)) ls @ Node_at x # map (\<lambda>t. Node_at (addr t)) rs)) \<and>
     length ls = length kl \<and> length rs = length kr \<and>
     (\<forall>t \<in> set ls \<union> set rs. rep d N (Node_at a) t) \<and> rep_c d N c a"

fun shaped_c :: "nat \<Rightarrow> nat \<Rightarrow> frame list \<Rightarrow> bool" where
  "shaped_c d n [] \<longleftrightarrow> True"
| "shaped_c d n (Frame a ls kl kr rs # c) \<longleftrightarrow> (\<forall>t \<in> set ls \<union> set rs. shaped d False n t) \<and>
     occupied (c = []) (cut d - 1) (length (kl @ kr)) \<and> shaped_c d (Suc n) c"

text \<open>Frames whose numbers of children and keys agree.\<close>

fun framed :: "frame list \<Rightarrow> bool" where
  "framed [] \<longleftrightarrow> True"
| "framed (Frame a ls kl kr rs # c) \<longleftrightarrow> length ls = length kl \<and> length rs = length kr \<and> framed c"

lemma rep_c_framed: "rep_c d N c x \<Longrightarrow> framed c"
  by (induction c x rule: rep_c.induct) simp_all

lemma addr_fill: "addr (fill c t) = root_of c (addr t)"
  by (induction c t rule: fill.induct) simp_all

lemma addrs_fill: "mset (addrs (fill c t)) = mset (addrs_c c) + mset (addrs t)"
  by (induction c t rule: fill.induct) (simp_all add: ac_simps)

lemma distinct_fill: "distinct (addrs (fill c t)) \<longleftrightarrow> distinct (addrs_c c @ addrs t)"
  by (rule mset_eq_imp_distinct_iff) (simp add: addrs_fill)

lemma set_addrs_fill: "set (addrs (fill c t)) = set (addrs_c c) \<union> set (addrs t)"
  using addrs_fill [of c t] by (metis set_append mset_append mset_eq_setD)

lemma items_fill: "framed c \<Longrightarrow> items (fill c t) = items_l c @ items t @ items_r c"
  by (induction c t rule: fill.induct) (simp_all add: weave_split)

lemma links_fill: "links (fill c t) = links_l c @ links t @ links_r c"
  by (induction c t rule: fill.induct) simp_all

lemma rep_fill: "framed c \<Longrightarrow> rep d N Null (fill c t) \<longleftrightarrow> rep_c d N c (addr t) \<and> rep d N (par_of c) t"
proof (induction c t rule: fill.induct)
  case (2 a ls kl kr rs c t)
  then show ?case by auto
qed simp

lemma shaped_fill: "framed c \<Longrightarrow> (\<exists>n. shaped d True n (fill c t)) \<longleftrightarrow> (\<exists>n. shaped d (c = []) n t \<and> shaped_c d n c)"
proof (induction c t rule: fill.induct)
  case (2 a ls kl kr rs c t)
  have "(\<exists>m. shaped d (c = []) m (Inner a (ls @ t # rs) (kl @ kr)) \<and> shaped_c d m c) \<longleftrightarrow>
    (\<exists>n. shaped d False n t \<and> shaped_c d n (Frame a ls kl kr rs # c))"
  proof
    assume "\<exists>m. shaped d (c = []) m (Inner a (ls @ t # rs) (kl @ kr)) \<and> shaped_c d m c"
    then obtain m where m: "shaped d (c = []) m (Inner a (ls @ t # rs) (kl @ kr))" "shaped_c d m c" by blast
    then show "\<exists>n. shaped d False n t \<and> shaped_c d n (Frame a ls kl kr rs # c)"
      by (cases m) (auto intro: exI [of _ "m - 1"])
  qed (auto intro: exI [of _ "Suc _"])
  with 2 show ?case by simp
qed simp

lemma fill_append: "fill (c @ c') t = fill c' (fill c t)"
  by (induction c t rule: fill.induct) simp_all

lemma items_l_append: "items_l (c @ c') = items_l c' @ items_l c"
  by (induction c rule: items_l.induct) simp_all

lemma items_r_append: "items_r (c @ c') = items_r c @ items_r c'"
  by (induction c rule: items_r.induct) simp_all

lemma framed_append: "framed (c @ c') \<longleftrightarrow> framed c \<and> framed c'"
  by (induction c rule: framed.induct) simp_all

lemma rep_c_cong:
  "(\<And>a. a \<in> set (addrs_c c) \<Longrightarrow> N' a = N a) \<Longrightarrow> rep_c d N' c x = rep_c d N c x"
proof (induction c x rule: rep_c.induct)
  case (2 d N a ls kl kr rs c x)
  have "rep d N' q t = rep d N q t" if "t \<in> set ls \<union> set rs" for t q
    using that 2(2) by (intro rep_cong) auto
  moreover have "rep_c d N' c a = rep_c d N c a" using 2(2) by (intro 2(1)) auto
  ultimately show ?case using 2(2) [of a] by auto
qed simp

subsection \<open>Searching\<close>

lemma weave_left_bound:
  assumes "length xss = length ks" "ordered (weave_left xss ks)" "x \<in> set (weave_left xss ks)"
    "\<And>k. k \<in> set ks \<Longrightarrow> rank (Sep k) < R"
  shows "rank x < R"
proof (cases ks rule: rev_cases)
  case (snoc ks' k)
  then obtain xss' xs where xss: "xss = xss' @ [xs]" "length xss' = length ks'"
    using assms(1) by (cases xss rule: rev_cases) auto
  have w: "weave_left xss ks = (weave_left xss' ks' @ xs) @ [Sep k]"
    unfolding xss snoc using xss(2) by (simp add: weave_left_append)
  have "rank x \<le> rank (Sep k)" using assms(2,3) unfolding w by (auto simp del: rank.simps)
  also have "\<dots> < R" using assms(4) snoc by simp
  finally show ?thesis .
qed (use assms in simp)

lemma weave_right_bound:
  assumes "length xss = length ks" "ordered (weave_right ks xss)" "x \<in> set (weave_right ks xss)"
    "ks \<noteq> [] \<Longrightarrow> R < rank (Sep (hd ks))"
  shows "R < rank x"
proof (cases ks)
  case (Cons k ks')
  then obtain xs xss' where "xss = xs # xss'" using assms(1) by (cases xss) auto
  then have "x = Sep k \<or> rank (Sep k) < rank x" using assms(2,3) Cons by (auto simp del: rank.simps)
  then show ?thesis using assms(4) Cons by (auto simp del: rank.simps)
qed (use assms in simp)

text \<open>The child to which the search descends.\<close>

lemma find_child_correct:
  assumes rep: "rep d (nodes h) p (Inner a ts ks)" and ord: "ordered (items (Inner a ts ks))"
  shows "\<exists>ls t rs kl kr. ts = ls @ t # rs \<and> ks = kl @ kr \<and> length ls = length kl \<and> length rs = length kr \<and>
    find_child h key (Node_at a) = Some (Node_at (addr t)) \<and>
    (\<forall>x \<in> set (weave_left (map items ls) kl). rank x < rank (Ent key r)) \<and>
    (\<forall>x \<in> set (weave_right kr (map items rs)). rank (Ent key r) < rank x)"
proof -
  let ?P = "\<lambda>k. key \<ge> k"
  define kl where "kl = takeWhile ?P ks"
  define kr where "kr = dropWhile ?P ks"
  obtain n where n: "nodes h a = Some n" "holds d n ks (map (\<lambda>t. Node_at (addr t)) ts)"
    and len: "length ts = Suc (length ks)" using rep by auto
  have ks: "ks = kl @ kr" by (simp add: kl_def kr_def)
  let ?i = "length kl"
  define ls where "ls = take ?i ts"
  define rs where "rs = drop (Suc ?i) ts"
  have i: "?i < length ts" using len ks by simp
  have ts: "ts = ls @ ts ! ?i # rs" using i by (simp add: ls_def rs_def id_take_nth_drop)
  have lens: "length ls = length kl" "length rs = length kr" using len ks i by (simp_all add: ls_def rs_def)
  have "find_child h key (Node_at a) = Some (Node_at (addr (ts ! ?i)))"
    using n i by (simp add: find_child_def get_node_def holds_scan [OF n(2)] holds_ld(2) [OF n(2)] kl_def [symmetric])
  moreover have w: "items (Inner a ts ks)
    = weave_left (map items ls) kl @ items (ts ! ?i) @ weave_right kr (map items rs)"
    using weave_split [of "map items ls" kl "items (ts ! ?i)" "map items rs" kr] lens
    by (simp add: ts [symmetric] ks [symmetric]) (metis ts list.simps(9) map_append)
  moreover have "\<forall>x \<in> set (weave_left (map items ls) kl). rank x < rank (Ent key r)"
  proof
    fix x assume "x \<in> set (weave_left (map items ls) kl)"
    moreover have "rank (Sep k) < rank (Ent key r)" if "k \<in> set kl" for k
      using set_takeWhileD [of k ?P ks] that unfolding kl_def by (simp del: rank.simps)
    ultimately show "rank x < rank (Ent key r)"
      using ord lens unfolding w by (intro weave_left_bound [of "map items ls" kl x]) simp_all
  qed
  moreover have "\<forall>x \<in> set (weave_right kr (map items rs)). rank (Ent key r) < rank x"
  proof
    fix x assume "x \<in> set (weave_right kr (map items rs))"
    moreover have "rank (Ent key r) < rank (Sep (hd kr))" if "kr \<noteq> []"
      using hd_dropWhile [of ?P ks] that unfolding kr_def by (simp del: rank.simps)
    ultimately show "rank (Ent key r) < rank x"
      using ord lens unfolding w by (intro weave_right_bound [of "map items rs" kr x]) simp_all
  qed
  ultimately show ?thesis using ts ks lens by blast
qed

text \<open>A key belongs between the items to the left and to the right of a context.\<close>

definition located :: "u64 \<Rightarrow> frame list \<Rightarrow> bool" where
  "located key c \<longleftrightarrow> framed c \<and> (\<forall>x \<in> set (items_l c). rank x < Suc (2 * unat key)) \<and>
     (\<forall>x \<in> set (items_r c). Suc (2 * unat key) < rank x)"

text \<open>The search ends in the leaf where the key belongs.\<close>

lemma descend_correct:
  assumes "rep d (nodes h) p s" "ordered (items s)"
  shows "\<exists>c a es nx. descend h key (Node_at (addr s)) = Some (Node_at a) \<and> s = fill c (Leaf a es nx) \<and> located key c"
  using assms
proof (induction s arbitrary: p)
  case (Leaf a es nx)
  then obtain n where n: "nodes h a = Some n" "is_leaf n" by auto
  have "descend h key (Node_at a) = Some (Node_at a)"
    unfolding descend_def by (rule while_opt_unfold(2)) (simp add: get_node_def n)
  moreover have "located key []" by (simp add: located_def)
  ultimately show ?case by (intro exI [of _ "[]"] exI [of _ a] exI [of _ es] exI [of _ nx]) simp
next
  case (Inner a ts ks)
  obtain n where n: "nodes h a = Some n" "\<not> is_leaf n" using Inner.prems(1) by auto
  obtain ls t rs kl kr where t: "ts = ls @ t # rs" "ks = kl @ kr" "length ls = length kl" "length rs = length kr"
      "find_child h key (Node_at a) = Some (Node_at (addr t))"
    and left: "\<forall>x \<in> set (weave_left (map items ls) kl). rank x < Suc (2 * unat key)"
    and right: "\<forall>x \<in> set (weave_right kr (map items rs)). Suc (2 * unat key) < rank x"
    using find_child_correct [OF Inner.prems, of key] unfolding rank.simps by (elim exE conjE) (rule that)
  have "t \<in> set ts" "rep d (nodes h) (Node_at a) t" using t(1) Inner.prems(1) by auto
  moreover have "ordered (items t)"
    using Inner.prems(2) t(3) unfolding t(1,2) by (simp add: weave_split)
  ultimately obtain c b es nx where c: "descend h key (Node_at (addr t)) = Some (Node_at b)"
      "t = fill c (Leaf b es nx)" "located key c"
    using Inner.IH [of t "Node_at a"] by blast
  let ?c = "c @ [Frame a ls kl kr rs]"
  have "descend h key (Node_at a) = find_child h key (Node_at a) \<bind> descend h key"
    unfolding descend_def by (rule while_opt_unfold(1)) (simp add: get_node_def n)
  then have "descend h key (Node_at a) = Some (Node_at b)" using t(5) c(1) by simp
  moreover have "Inner a ts ks = fill ?c (Leaf b es nx)" using t(1,2) c(2) by (simp add: fill_append)
  moreover have "located key ?c"
    using c(3) t(3,4) left right unfolding located_def items_l_append items_r_append framed_append
    by (simp add: ball_Un)
  ultimately show ?case by (metis addr.simps(2))
qed

text \<open>A heap represents a B+ tree.\<close>

definition tree_ok :: "nat \<Rightarrow> (nat \<rightharpoonup> bt_node) \<Rightarrow> btree \<Rightarrow> bool" where
  "tree_ok d N t \<longleftrightarrow> rep d N Null t \<and> distinct (addrs t) \<and> ordered (items t) \<and>
     (\<exists>n. shaped d True n t) \<and> chained (links t)"

lemma tree_okD:
  assumes "tree_ok d N t"
  shows "rep d N Null t" "distinct (addrs t)" "ordered (items t)" "\<exists>n. shaped d True n t" "chained (links t)"
  using assms by (simp_all add: tree_ok_def)

definition rec_ptr :: "nat option \<Rightarrow> pointer" where
  "rec_ptr r = (case r of None \<Rightarrow> Null | Some a \<Rightarrow> Rec_at a)"

lemma rec_ptr_simps [simp]: "rec_ptr None = Null" "rec_ptr (Some a) = Rec_at a" "rec_ptr r = Null \<longleftrightarrow> r = None"
  by (simp_all add: rec_ptr_def split: option.splits)

lemma map_of_takeWhile:
  "map_of es key = (let i = length (takeWhile (\<lambda>k. k \<noteq> key) (map fst es)) in
     if i = length es then None else Some (snd (es ! i)))"
  by (induction es) (auto simp: Let_def)

lemma map_of_located:
  assumes "located key c"
  shows "map_of (items_es @ ents (items_r c)) key = map_of items_es key"
    "map_of (ents (items_l c) @ items_es) key = map_of items_es key"
proof -
  have "key \<notin> fst ` set (ents (items_r c))" "key \<notin> fst ` set (ents (items_l c))"
    using assms unfolding located_def by (force simp: set_ents)+
  then have "map_of (ents (items_r c)) key = None" "map_of (ents (items_l c)) key = None"
    by (simp_all add: map_of_eq_None_iff)
  then show "map_of (items_es @ ents (items_r c)) key = map_of items_es key"
    "map_of (ents (items_l c) @ items_es) key = map_of items_es key"
    by (simp_all add: map_add_def split: option.splits)
qed

lemma map_of_fill:
  assumes "located key c"
  shows "map_of (ents (items (fill c (Leaf a es nx)))) key = map_of es key"
proof -
  have "map_of (ents (items_l c) @ es @ ents (items_r c)) key = map_of es key"
    unfolding map_of_located(2) [OF assms] by (rule map_of_located(1)) (rule assms)
  then show ?thesis using assms by (simp add: items_fill located_def)
qed

lemma find_in_leaf:
  assumes "rep d (nodes h) p (Leaf a es nx)"
  shows "\<exists>n. get_node (Node_at a) h = Some n \<and> is_leaf n \<and>
    scan (\<lambda>k. k \<noteq> key) (num_keys n) (keys n) \<bind>
      (\<lambda>i. if i = num_keys n then Some (Null, leaf) else ld (pointers n) i \<bind> (\<lambda>r. Some (r, leaf)))
    = Some (rec_ptr (map_of es key), leaf)"
proof -
  obtain n where n: "nodes h a = Some n" "is_leaf n" "holds d n (map fst es) (map (\<lambda>e. Rec_at (snd e)) es)"
    using assms by auto
  let ?i = "length (takeWhile (\<lambda>k. k \<noteq> key) (map fst es))"
  have le: "?i \<le> length es" using length_takeWhile_le [of "\<lambda>k. k \<noteq> key" "map fst es"] by simp
  have "?i < length es \<Longrightarrow> ld (pointers n) ?i = Some (Rec_at (snd (es ! ?i)))"
    by (simp add: holds_ld(2) [OF n(3)])
  moreover have "scan (\<lambda>k. k \<noteq> key) (num_keys n) (keys n) = Some ?i" by (rule holds_scan) (rule n(3))
  ultimately show ?thesis using le
    by (auto simp: get_node_def n(1,2) holdsD(1) [OF n(3)] map_of_takeWhile [of es key] Let_def)
qed

text \<open>
  \<open>find\<close> returns the record of the key, or a null pointer, and the leaf where the key belongs.
\<close>

lemma find_bt_correct:
  assumes "tree_ok d (nodes h) t"
  shows "\<exists>c a es nx. t = fill c (Leaf a es nx) \<and> located key c \<and>
    find_leaf (Node_at (addr t)) key h = Some (Node_at a) \<and>
    find_bt (Node_at (addr t)) key h = Some (rec_ptr (map_of es key), Node_at a) \<and>
    map_of (ents (items t)) key = map_of es key"
proof -
  obtain c a es nx where c: "descend h key (Node_at (addr t)) = Some (Node_at a)" "t = fill c (Leaf a es nx)" "located key c"
    using descend_correct [OF tree_okD(1,3) [OF assms]] by blast
  have leaf: "find_leaf (Node_at (addr t)) key h = Some (Node_at a)" using c(1) by (simp add: find_leaf_def)
  have "rep d (nodes h) (par_of c) (Leaf a es nx)"
    using tree_okD(1) [OF assms] c(3) unfolding c(2) by (simp add: rep_fill located_def)
  from find_in_leaf [OF this, of key "Node_at a"]
  have "find_bt (Node_at (addr t)) key h = Some (rec_ptr (map_of es key), Node_at a)"
    by (auto simp: find_bt_def leaf)
  moreover have "map_of (ents (items t)) key = map_of es key" unfolding c(2) by (rule map_of_fill) (rule c(3))
  ultimately show ?thesis using c(2,3) leaf by blast
qed

end
