(* ===== verification/BTreeSlab.thy ===== *)
theory BTreeSlab
  imports BTree
begin

text \<open>
  The slab allocators of the B+ tree: the free lists run through the fields \<open>next\<close> of the structures.
  An allocation gives an address outside any set of addresses in use and leaves those alone.
\<close>

subsection \<open>Environment\<close>

text \<open>
  The order of the tree is at least \<open>MIN_ORDER\<close>, a slab has room for a structure and memory is not
  exhausted.
\<close>

definition env_ok :: "bt_env \<Rightarrow> bool" where
  "env_ok e \<longleftrightarrow> 3 \<le> order e \<and> 0 < node_slab e \<and> 0 < rec_slab e \<and> (\<forall>i. memalign e i)"

lemma env_okD: "env_ok e \<Longrightarrow> 3 \<le> order e" "env_ok e \<Longrightarrow> 0 < node_slab e" "env_ok e \<Longrightarrow> 0 < rec_slab e"
  by (simp_all add: env_ok_def)

text \<open>Without memory the allocation of a slab ends the program.\<close>

lemma slab_exhausted:
  assumes "free_nodes h = Null" "\<not> memalign e (mem_calls h)"
  shows "make_node e h = None"
  using assms by (simp add: make_node_def alloc_node_def grow_nodes_def allocate_def)

text \<open>What an operation on nodes leaves alone.\<close>

definition keeps_recs :: "bt_heap \<Rightarrow> bt_heap \<Rightarrow> bool" where
  "keeps_recs h h' \<longleftrightarrow> recs h' = recs h \<and> free_recs h' = free_recs h \<and> rec_brk h' = rec_brk h"

definition keeps_nodes :: "bt_heap \<Rightarrow> bt_heap \<Rightarrow> bool" where
  "keeps_nodes h h' \<longleftrightarrow> nodes h' = nodes h \<and> free_nodes h' = free_nodes h \<and> node_brk h' = node_brk h"

lemma keeps_refl [simp]: "keeps_recs h h" "keeps_nodes h h"
  by (simp_all add: keeps_recs_def keeps_nodes_def)

lemma keeps_trans:
  "keeps_recs h h' \<Longrightarrow> keeps_recs h' h'' \<Longrightarrow> keeps_recs h h''"
  "keeps_nodes h h' \<Longrightarrow> keeps_nodes h' h'' \<Longrightarrow> keeps_nodes h h''"
  by (simp_all add: keeps_recs_def keeps_nodes_def)

lemma allocate_ok:
  assumes "env_ok e"
  shows "\<exists>h'. allocate e sz h = Some h' \<and> keeps_recs h h' \<and> keeps_nodes h h'"
    "\<exists>h'. allocate_align64 e sz h = Some h' \<and> keeps_recs h h' \<and> keeps_nodes h h'"
  using assms by (simp_all add: allocate_def allocate_align64_def env_ok_def keeps_recs_def keeps_nodes_def)

subsection \<open>Nodes\<close>

fun node_list :: "(nat \<rightharpoonup> bt_node) \<Rightarrow> pointer \<Rightarrow> nat list \<Rightarrow> bool" where
  "node_list N p [] \<longleftrightarrow> p = Null"
| "node_list N p (a # as) \<longleftrightarrow> p = Node_at a \<and> (\<exists>n. N a = Some n \<and> node_list N (node_next n) as)"

definition nodes_free :: "bt_heap \<Rightarrow> nat set \<Rightarrow> bool" where
  "nodes_free h U \<longleftrightarrow> (\<exists>as. node_list (nodes h) (free_nodes h) as \<and> distinct as \<and> set as \<inter> U = {} \<and>
     (\<forall>a \<in> set as \<union> U. a < node_brk h))"

lemma node_list_cong: "(\<And>a. a \<in> set as \<Longrightarrow> N' a = N a) \<Longrightarrow> node_list N' p as = node_list N p as"
  by (induction as arbitrary: p) auto

lemma node_list_Null [simp]: "node_list N Null as \<longleftrightarrow> as = []"
  by (cases as) auto

lemma nodes_free_subset: "nodes_free h U \<Longrightarrow> V \<subseteq> U \<Longrightarrow> nodes_free h V"
  unfolding nodes_free_def by blast

lemma nodes_free_update:
  assumes "nodes_free h U" "\<And>a. a \<notin> U \<Longrightarrow> nodes h' a = nodes h a" "free_nodes h' = free_nodes h" "node_brk h' = node_brk h"
  shows "nodes_free h' U"
proof -
  obtain as where as: "node_list (nodes h) (free_nodes h) as" "distinct as" "set as \<inter> U = {}"
    "\<forall>a \<in> set as \<union> U. a < node_brk h" using assms(1) unfolding nodes_free_def by blast
  have "node_list (nodes h') (free_nodes h') as = node_list (nodes h) (free_nodes h) as"
    unfolding assms(3) by (rule node_list_cong) (use assms(2) as(3) in blast)
  then show ?thesis using as assms(4) unfolding nodes_free_def by auto
qed

lemma nodes_free_keeps: "nodes_free h U \<Longrightarrow> keeps_nodes h h' \<Longrightarrow> nodes_free h' U"
  by (erule nodes_free_update) (simp_all add: keeps_nodes_def)

lemma push_nodes:
  assumes "node_list (nodes h) (free_nodes h) as" "distinct (bs @ as)"
  shows "node_list (nodes (fold push_node bs h)) (free_nodes (fold push_node bs h)) (rev bs @ as) \<and>
    (\<forall>a. a \<notin> set bs \<longrightarrow> nodes (fold push_node bs h) a = nodes h a) \<and>
    node_brk (fold push_node bs h) = node_brk h \<and> keeps_recs h (fold push_node bs h)"
  using assms
proof (induction bs arbitrary: h as)
  case (Cons b bs)
  have "node_list (nodes (push_node b h)) (free_nodes h) as = node_list (nodes h) (free_nodes h) as"
    by (rule node_list_cong) (use Cons.prems(2) in \<open>auto simp: push_node_def\<close>)
  then have "node_list (nodes (push_node b h)) (free_nodes (push_node b h)) (b # as)"
    using Cons.prems(1) by (simp add: push_node_def)
  moreover have "distinct (bs @ b # as)" using Cons.prems(2) by auto
  moreover have "keeps_recs h (push_node b h)" "node_brk (push_node b h) = node_brk h"
    "a \<noteq> b \<Longrightarrow> nodes (push_node b h) a = nodes h a" for a
    by (simp_all add: push_node_def keeps_recs_def)
  ultimately show ?case using Cons.IH [of "push_node b h" "b # as"] keeps_trans(1) by auto
qed simp

lemma grow_nodes_ok:
  assumes "env_ok e" "nodes_free h U" "free_nodes h = Null"
  shows "\<exists>h'. grow_nodes e h = Some h' \<and> nodes_free h' U \<and> (\<forall>a \<in> U. nodes h' a = nodes h a) \<and>
    keeps_recs h h' \<and> free_nodes h' \<noteq> Null"
proof -
  obtain h0 where h0: "allocate e SLAB_GROW h = Some h0" "keeps_recs h h0" "keeps_nodes h h0"
    using allocate_ok(1) [OF assms(1)] by blast
  let ?bs = "[node_brk h0..<node_brk h0 + node_slab e]"
  let ?h1 = "h0\<lparr>node_brk := node_brk h0 + node_slab e\<rparr>"
  let ?h2 = "fold push_node ?bs ?h1"
  have U: "\<forall>a \<in> U. a < node_brk h" using assms(2) unfolding nodes_free_def by auto
  have "node_list (nodes ?h1) (free_nodes ?h1) []" using assms(3) h0(3) by (simp add: keeps_nodes_def)
  from push_nodes [OF this, of ?bs]
  have p: "node_list (nodes ?h2) (free_nodes ?h2) (rev ?bs)" "\<forall>a. a \<notin> set ?bs \<longrightarrow> nodes ?h2 a = nodes h0 a"
    "node_brk ?h2 = node_brk h0 + node_slab e" "keeps_recs h0 ?h2"
    by (simp_all add: keeps_recs_def)
  have b: "node_brk h0 = node_brk h" "nodes h0 = nodes h" using h0(3) by (simp_all add: keeps_nodes_def)
  have "nodes_free ?h2 U"
    unfolding nodes_free_def by (rule exI [of _ "rev ?bs"]) (use p(1,3) U b in auto)
  moreover have "\<forall>a \<in> U. nodes ?h2 a = nodes h a" using p(2) U b by auto
  moreover have "free_nodes ?h2 \<noteq> Null" using p(1) env_okD(2) [OF assms(1)] by auto
  moreover have "grow_nodes e h = Some ?h2" by (simp add: grow_nodes_def h0(1))
  ultimately show ?thesis using keeps_trans(1) [OF h0(2) p(4)] by blast
qed

lemma alloc_node_ok:
  assumes "env_ok e" "nodes_free h U"
  shows "\<exists>a n h'. alloc_node e h = Some (Node_at a, h') \<and> a \<notin> U \<and> nodes h' a = Some n \<and>
    (\<forall>b \<in> U. nodes h' b = nodes h b) \<and> nodes_free h' (insert a U) \<and> keeps_recs h h'"
proof -
  obtain h1 where h1: "(if free_nodes h = Null then grow_nodes e h else Some h) = Some h1" "nodes_free h1 U"
      "\<forall>a \<in> U. nodes h1 a = nodes h a" "keeps_recs h h1" "free_nodes h1 \<noteq> Null"
    using grow_nodes_ok [OF assms] assms(2) by (cases "free_nodes h = Null") auto
  obtain as where as: "node_list (nodes h1) (free_nodes h1) as" "distinct as" "set as \<inter> U = {}"
    "\<forall>a \<in> set as \<union> U. a < node_brk h1" using h1(2) unfolding nodes_free_def by blast
  obtain a bs n where a: "as = a # bs" "free_nodes h1 = Node_at a" "nodes h1 a = Some n" "node_list (nodes h1) (node_next n) bs"
    using as(1) h1(5) by (cases as) auto
  let ?h = "h1\<lparr>free_nodes := node_next n, nodes := (nodes h1)(a \<mapsto> n\<lparr>pointers := []\<rparr>)\<rparr>"
  have run: "alloc_node e h = Some (Node_at a, ?h)"
    by (simp add: alloc_node_def h1(1) a(2,3) get_node_def set_node_def)
  have "node_list (nodes ?h) (free_nodes ?h) bs = node_list (nodes h1) (free_nodes ?h) bs"
    by (rule node_list_cong) (use as(2) a(1) in auto)
  then have "nodes_free ?h (insert a U)"
    unfolding nodes_free_def using a as by (intro exI [of _ bs]) auto
  moreover have "a \<notin> U" using as(3) a(1) by auto
  moreover have "keeps_recs h ?h" using h1(4) by (simp add: keeps_recs_def)
  ultimately show ?thesis unfolding run using h1(3) by auto
qed

text \<open>A node fresh from \<open>make_node\<close>; only the statistics of the previous use are left.\<close>

definition fresh_node :: "bt_env \<Rightarrow> bool \<Rightarrow> u64 \<Rightarrow> bt_node" where
  "fresh_node e leaf s = \<lparr>pointers = replicate (order e) Null, keys = replicate (order e - 1) 0, parent = Null,
     is_leaf = leaf, num_keys = 0, node_stats = s, node_next = Null\<rparr>"

lemma make_node_ok:
  assumes "env_ok e" "nodes_free h U"
  shows "\<exists>a s h'. make_node e h = Some (Node_at a, h') \<and> a \<notin> U \<and> nodes h' a = Some (fresh_node e False s) \<and>
    (\<forall>b \<in> U. nodes h' b = nodes h b) \<and> nodes_free h' (insert a U) \<and> keeps_recs h h'"
proof -
  obtain a n h1 where a: "alloc_node e h = Some (Node_at a, h1)" "a \<notin> U" "nodes h1 a = Some n"
      "\<forall>b \<in> U. nodes h1 b = nodes h b" "nodes_free h1 (insert a U)" "keeps_recs h h1"
    using alloc_node_ok [OF assms] by blast
  obtain h2 where h2: "allocate_align64 e ((order e - 1) * 8) h1 = Some h2" "keeps_recs h1 h2" "keeps_nodes h1 h2"
    using allocate_ok(2) [OF assms(1)] by blast
  obtain h3 where h3: "allocate_align64 e (order e * 8) h2 = Some h3" "keeps_recs h2 h3" "keeps_nodes h2 h3"
    using allocate_ok(2) [OF assms(1)] by blast
  note k = keeps_trans(1) [OF keeps_trans(1) [OF a(6) h2(2)] h3(2)] keeps_trans(2) [OF h2(3) h3(3)]
  let ?h = "h3\<lparr>nodes := (nodes h3)(a \<mapsto> fresh_node e False (node_stats n))\<rparr>"
  have n: "nodes h3 = nodes h1" using k(2) by (simp add: keeps_nodes_def)
  have fresh: "n\<lparr>keys := replicate (order e - 1) 0, pointers := replicate (order e) Null, is_leaf := False,
      num_keys := 0, parent := Null, node_next := Null\<rparr> = fresh_node e False (node_stats n)"
    by (cases n) (simp add: fresh_node_def)
  have run: "make_node e h = Some (Node_at a, ?h)"
    unfolding make_node_def by (simp add: a(1,3) h2(1) [unfolded One_nat_def] h3(1) get_node_def set_node_def n fresh [unfolded One_nat_def])
  have "nodes_free ?h (insert a U)"
    by (rule nodes_free_update [OF nodes_free_keeps [OF a(5) k(2)]]) auto
  moreover have "keeps_recs h ?h" using k(1) by (simp add: keeps_recs_def)
  ultimately show ?thesis unfolding run using a(2,4) n by auto
qed

lemma make_leaf_ok:
  assumes "env_ok e" "nodes_free h U"
  shows "\<exists>a s h'. make_leaf e h = Some (Node_at a, h') \<and> a \<notin> U \<and> nodes h' a = Some (fresh_node e True s) \<and>
    (\<forall>b \<in> U. nodes h' b = nodes h b) \<and> nodes_free h' (insert a U) \<and> keeps_recs h h'"
proof -
  obtain a s h1 where a: "make_node e h = Some (Node_at a, h1)" "a \<notin> U" "nodes h1 a = Some (fresh_node e False s)"
      "\<forall>b \<in> U. nodes h1 b = nodes h b" "nodes_free h1 (insert a U)" "keeps_recs h h1"
    using make_node_ok [OF assms] by blast
  let ?h = "h1\<lparr>nodes := (nodes h1)(a \<mapsto> fresh_node e True s)\<rparr>"
  have "make_leaf e h = Some (Node_at a, ?h)"
    by (simp add: make_leaf_def a(1,3) get_node_def set_node_def fresh_node_def)
  moreover have "nodes_free ?h (insert a U)" by (rule nodes_free_update [OF a(5)]) auto
  moreover have "keeps_recs h ?h" using a(6) by (simp add: keeps_recs_def)
  ultimately show ?thesis using a(2,4) by auto
qed

text \<open>A released node goes back to the free list.\<close>

lemma free_node_ok:
  assumes "nodes_free h U" "a \<in> U" "nodes h a = Some n"
  shows "\<exists>h'. (free_arrays (Node_at a) h \<bind> free_node (Node_at a)) = Some h' \<and> nodes_free h' (U - {a}) \<and>
    (\<forall>b. b \<noteq> a \<longrightarrow> nodes h' b = nodes h b) \<and> keeps_recs h h'"
proof -
  obtain as where as: "node_list (nodes h) (free_nodes h) as" "distinct as" "set as \<inter> U = {}"
    "\<forall>a \<in> set as \<union> U. a < node_brk h" using assms(1) unfolding nodes_free_def by blast
  let ?h = "h\<lparr>nodes := (nodes h)(a \<mapsto> n\<lparr>keys := [], pointers := [], node_next := free_nodes h\<rparr>), free_nodes := Node_at a\<rparr>"
  have "(free_arrays (Node_at a) h \<bind> free_node (Node_at a)) = Some ?h"
    by (simp add: free_arrays_def free_node_def get_node_def set_node_def assms(3))
  moreover have "node_list (nodes ?h) (free_nodes h) as = node_list (nodes h) (free_nodes h) as"
    by (rule node_list_cong) (use as(3) assms(2) in auto)
  then have "nodes_free ?h (U - {a})"
    unfolding nodes_free_def using as assms(2) by (intro exI [of _ "a # as"]) auto
  ultimately show ?thesis by (auto simp: keeps_recs_def)
qed

subsection \<open>Records\<close>

fun rec_list :: "(nat \<rightharpoonup> bt_record) \<Rightarrow> pointer \<Rightarrow> nat list \<Rightarrow> bool" where
  "rec_list R p [] \<longleftrightarrow> p = Null"
| "rec_list R p (a # as) \<longleftrightarrow> p = Rec_at a \<and> (\<exists>r. R a = Some r \<and> rec_list R (rec_next r) as)"

definition recs_free :: "bt_heap \<Rightarrow> nat set \<Rightarrow> bool" where
  "recs_free h U \<longleftrightarrow> (\<exists>as. rec_list (recs h) (free_recs h) as \<and> distinct as \<and> set as \<inter> U = {} \<and>
     (\<forall>a \<in> set as \<union> U. a < rec_brk h))"

lemma rec_list_cong: "(\<And>a. a \<in> set as \<Longrightarrow> R' a = R a) \<Longrightarrow> rec_list R' p as = rec_list R p as"
  by (induction as arbitrary: p) auto

lemma rec_list_Null [simp]: "rec_list R Null as \<longleftrightarrow> as = []"
  by (cases as) auto

lemma recs_free_update:
  assumes "recs_free h U" "\<And>a. a \<notin> U \<Longrightarrow> recs h' a = recs h a" "free_recs h' = free_recs h" "rec_brk h' = rec_brk h"
  shows "recs_free h' U"
proof -
  obtain as where as: "rec_list (recs h) (free_recs h) as" "distinct as" "set as \<inter> U = {}"
    "\<forall>a \<in> set as \<union> U. a < rec_brk h" using assms(1) unfolding recs_free_def by blast
  have "rec_list (recs h') (free_recs h') as = rec_list (recs h) (free_recs h) as"
    unfolding assms(3) by (rule rec_list_cong) (use assms(2) as(3) in blast)
  then show ?thesis using as assms(4) unfolding recs_free_def by auto
qed

lemma recs_free_keeps: "recs_free h U \<Longrightarrow> keeps_recs h h' \<Longrightarrow> recs_free h' U"
  by (erule recs_free_update) (simp_all add: keeps_recs_def)

lemma push_recs:
  assumes "rec_list (recs h) (free_recs h) as" "distinct (bs @ as)"
  shows "rec_list (recs (fold push_rec bs h)) (free_recs (fold push_rec bs h)) (rev bs @ as) \<and>
    (\<forall>a. a \<notin> set bs \<longrightarrow> recs (fold push_rec bs h) a = recs h a) \<and>
    rec_brk (fold push_rec bs h) = rec_brk h \<and> keeps_nodes h (fold push_rec bs h)"
  using assms
proof (induction bs arbitrary: h as)
  case (Cons b bs)
  have "rec_list (recs (push_rec b h)) (free_recs h) as = rec_list (recs h) (free_recs h) as"
    by (rule rec_list_cong) (use Cons.prems(2) in \<open>auto simp: push_rec_def\<close>)
  then have "rec_list (recs (push_rec b h)) (free_recs (push_rec b h)) (b # as)"
    using Cons.prems(1) by (simp add: push_rec_def)
  moreover have "distinct (bs @ b # as)" using Cons.prems(2) by auto
  moreover have "keeps_nodes h (push_rec b h)" "rec_brk (push_rec b h) = rec_brk h"
    "a \<noteq> b \<Longrightarrow> recs (push_rec b h) a = recs h a" for a
    by (simp_all add: push_rec_def keeps_nodes_def)
  ultimately show ?case using Cons.IH [of "push_rec b h" "b # as"] keeps_trans(2) by auto
qed simp

lemma grow_recs_ok:
  assumes "env_ok e" "recs_free h U" "free_recs h = Null"
  shows "\<exists>h'. grow_recs e h = Some h' \<and> recs_free h' U \<and> (\<forall>a \<in> U. recs h' a = recs h a) \<and>
    keeps_nodes h h' \<and> free_recs h' \<noteq> Null"
proof -
  obtain h0 where h0: "allocate e SLAB_GROW h = Some h0" "keeps_recs h h0" "keeps_nodes h h0"
    using allocate_ok(1) [OF assms(1)] by blast
  let ?bs = "[rec_brk h0..<rec_brk h0 + rec_slab e]"
  let ?h1 = "h0\<lparr>rec_brk := rec_brk h0 + rec_slab e\<rparr>"
  let ?h2 = "fold push_rec ?bs ?h1"
  have U: "\<forall>a \<in> U. a < rec_brk h" using assms(2) unfolding recs_free_def by auto
  have "rec_list (recs ?h1) (free_recs ?h1) []" using assms(3) h0(2) by (simp add: keeps_recs_def)
  from push_recs [OF this, of ?bs]
  have p: "rec_list (recs ?h2) (free_recs ?h2) (rev ?bs)" "\<forall>a. a \<notin> set ?bs \<longrightarrow> recs ?h2 a = recs h0 a"
    "rec_brk ?h2 = rec_brk h0 + rec_slab e" "keeps_nodes h0 ?h2"
    by (simp_all add: keeps_nodes_def)
  have b: "rec_brk h0 = rec_brk h" "recs h0 = recs h" using h0(2) by (simp_all add: keeps_recs_def)
  have "recs_free ?h2 U"
    unfolding recs_free_def by (rule exI [of _ "rev ?bs"]) (use p(1,3) U b in auto)
  moreover have "\<forall>a \<in> U. recs ?h2 a = recs h a" using p(2) U b by auto
  moreover have "free_recs ?h2 \<noteq> Null" using p(1) env_okD(3) [OF assms(1)] by auto
  moreover have "grow_recs e h = Some ?h2" by (simp add: grow_recs_def h0(1))
  ultimately show ?thesis using keeps_trans(2) [OF h0(3) p(4)] by blast
qed

lemma make_record_ok:
  assumes "env_ok e" "recs_free h U"
  shows "\<exists>a h'. make_record e v h = Some (Rec_at a, h') \<and> a \<notin> U \<and> recs h' a = Some (zero_rec\<lparr>rec_value := v\<rparr>) \<and>
    (\<forall>b \<in> U. recs h' b = recs h b) \<and> recs_free h' (insert a U) \<and> keeps_nodes h h'"
proof -
  obtain h1 where h1: "(if free_recs h = Null then grow_recs e h else Some h) = Some h1" "recs_free h1 U"
      "\<forall>a \<in> U. recs h1 a = recs h a" "keeps_nodes h h1" "free_recs h1 \<noteq> Null"
    using grow_recs_ok [OF assms] assms(2) by (cases "free_recs h = Null") auto
  obtain as where as: "rec_list (recs h1) (free_recs h1) as" "distinct as" "set as \<inter> U = {}"
    "\<forall>a \<in> set as \<union> U. a < rec_brk h1" using h1(2) unfolding recs_free_def by blast
  obtain a bs r where a: "as = a # bs" "free_recs h1 = Rec_at a" "recs h1 a = Some r" "rec_list (recs h1) (rec_next r) bs"
    using as(1) h1(5) by (cases as) auto
  let ?h = "h1\<lparr>free_recs := rec_next r, recs := (recs h1)(a \<mapsto> zero_rec\<lparr>rec_value := v\<rparr>)\<rparr>"
  have run: "make_record e v h = Some (Rec_at a, ?h)"
    by (simp add: make_record_def alloc_record_def h1(1) a(2,3) get_rec_def set_rec_def)
  have "rec_list (recs ?h) (free_recs ?h) bs = rec_list (recs h1) (free_recs ?h) bs"
    by (rule rec_list_cong) (use as(2) a(1) in auto)
  then have "recs_free ?h (insert a U)"
    unfolding recs_free_def using a as by (intro exI [of _ bs]) auto
  moreover have "a \<notin> U" using as(3) a(1) by auto
  moreover have "keeps_nodes h ?h" using h1(4) by (simp add: keeps_nodes_def)
  ultimately show ?thesis unfolding run using h1(3) by auto
qed

lemma free_record_ok:
  assumes "recs_free h U" "a \<in> U" "recs h a = Some r"
  shows "\<exists>h'. free_record (Rec_at a) h = Some h' \<and> recs_free h' (U - {a}) \<and>
    (\<forall>b. b \<noteq> a \<longrightarrow> recs h' b = recs h b) \<and> keeps_nodes h h'"
proof -
  obtain as where as: "rec_list (recs h) (free_recs h) as" "distinct as" "set as \<inter> U = {}"
    "\<forall>a \<in> set as \<union> U. a < rec_brk h" using assms(1) unfolding recs_free_def by blast
  let ?h = "h\<lparr>recs := (recs h)(a \<mapsto> r\<lparr>rec_next := free_recs h\<rparr>), free_recs := Rec_at a\<rparr>"
  have "free_record (Rec_at a) h = Some ?h"
    by (simp add: free_record_def get_rec_def set_rec_def assms(3))
  moreover have "rec_list (recs ?h) (free_recs h) as = rec_list (recs h) (free_recs h) as"
    by (rule rec_list_cong) (use as(3) assms(2) in auto)
  then have "recs_free ?h (U - {a})"
    unfolding recs_free_def using as assms(2) by (intro exI [of _ "a # as"]) auto
  ultimately show ?thesis by (auto simp: keeps_nodes_def)
qed

end
