(* ===== verification/BTreeLeaf.thy ===== *)
theory BTreeLeaf
  imports BTreeShape BTreeSlab
begin

text \<open>
  Insertion into a leaf of the B+ tree, with and without splitting it: the effect of the loops on the
  arrays of a node.
\<close>

subsection \<open>Loops on the arrays of a node\<close>

lemma on_arrays_loop:
  "for_each (on_arrays f g) xs n = do {
     ks \<leftarrow> for_each f xs (keys n);
     ps \<leftarrow> for_each g xs (pointers n);
     Some (n\<lparr>keys := ks, pointers := ps\<rparr>)
   }"
proof (induction xs arbitrary: n)
  case (Cons x xs)
  show ?case
  proof (cases "f x (keys n)")
    case (Some ks)
    then show ?thesis
      by (cases "g x (pointers n)"; cases "for_each f xs ks") (simp_all add: Cons.IH on_arrays_def [of f g x])
  qed (simp add: on_arrays_def)
qed simp

lemma append_entry_loop:
  "for_each (append_entry f g) xs n = do {
     ks \<leftarrow> for_each f xs (keys n);
     ps \<leftarrow> for_each g xs (pointers n);
     Some (n\<lparr>keys := ks, pointers := ps, num_keys := num_keys n + length xs\<rparr>)
   }"
proof (induction xs arbitrary: n)
  case (Cons x xs)
  show ?case
  proof (cases "f x (keys n)")
    case (Some ks)
    then show ?thesis
      by (cases "g x (pointers n)"; cases "for_each f xs ks") (simp_all add: Cons.IH append_entry_def [of f g x])
  qed (cases "g x (pointers n)", simp_all add: append_entry_def)
qed simp

lemma for_each_map: "for_each f (map g xs) s = for_each (\<lambda>x. f (g x)) xs s"
  by (induction xs arbitrary: s) (auto split: bind_split)

lemma for_each_nth:
  "n \<le> length xs \<Longrightarrow> for_each (\<lambda>i s. ld xs i \<bind> (\<lambda>x. f x s)) [0..<n] s = for_each f (take n xs) s"
proof (induction n)
  case (Suc n)
  then show ?case by (simp add: for_each_snoc take_Suc_conv_app_nth)
qed simp

lemma copy_gap2_loop:
  assumes "for_each (copy_gap p ks) xs (j, tk) = Some (j1, tk')" "for_each (copy_gap p ps) xs (j, tp) = Some (j2, tp')"
  shows "for_each (copy_gap2 p ks ps) xs (j, tk, tp) = Some (j2, tk', tp')"
  using assms
proof (induction xs arbitrary: j tk tp)
  case (Cons x xs)
  obtain j3 tk3 where k: "copy_gap p ks x (j, tk) = Some (j3, tk3)" "for_each (copy_gap p ks) xs (j3, tk3) = Some (j1, tk')"
    using Cons.prems(1) by (auto simp: bind_eq_Some)
  obtain j4 tp4 where q: "copy_gap p ps x (j, tp) = Some (j4, tp4)" "for_each (copy_gap p ps) xs (j4, tp4) = Some (j2, tp')"
    using Cons.prems(2) by (auto simp: bind_eq_Some)
  have "j4 = j3" using k(1) q(1) by (auto simp: copy_gap_def bind_eq_Some Let_def split: if_splits)
  then show ?case using k q Cons.IH by (simp add: copy_gap2_def)
qed simp

text \<open>Inserting an element into the part of an array that is in use.\<close>

lemma array_insert:
  fixes x :: 'a
  assumes "take n xs = ys" "n = length ys" "n < length xs" "p \<le> n"
  defines "xs' \<equiv> take p xs @ x # take (n - p) (drop p xs) @ drop (Suc n) xs"
  shows "length xs' = length xs" "take (Suc n) xs' = take p ys @ x # drop p ys"
    "\<And>i. n < i \<Longrightarrow> i < length xs \<Longrightarrow> xs' ! i = xs ! i"
proof -
  show l: "length xs' = length xs" unfolding xs'_def using assms(3,4) by simp
  have ys: "take p ys = take p xs" "drop p ys = take (n - p) (drop p xs)"
    using assms(1,4) by (auto simp: drop_take min_def)
  show "take (Suc n) xs' = take p ys @ x # drop p ys"
    unfolding xs'_def ys using assms(3,4) by (simp add: Suc_diff_le)
  fix i assume i: "n < i" "i < length xs"
  have "xs' = (take p xs @ x # take (n - p) (drop p xs)) @ drop (Suc n) xs" by (simp add: xs'_def)
  moreover have "length (take p xs @ x # take (n - p) (drop p xs)) = Suc n" using assms(3,4) by simp
  ultimately have "xs' ! i = drop (Suc n) xs ! (i - Suc n)" using i by (simp only: nth_append) simp
  then show "xs' ! i = xs ! i" using i by simp
qed

lemma gap_filled:
  assumes "take p dst = take p src" "take (n - p) (drop (Suc p) dst) = take (n - p) (drop p src)"
    "p \<le> n" "n < length dst" "n \<le> length src"
  shows "take (Suc n) (dst[p := x]) = take p src @ x # take (n - p) (drop p src)"
proof -
  have "dst[p := x] = take p dst @ x # drop (Suc p) dst" using assms(3,4) by (simp add: upd_conv_take_nth_drop)
  then show ?thesis using assms by (simp add: Suc_diff_le)
qed

text \<open>A temporary array with an element inserted.\<close>

lemma temp_array:
  assumes "take n src = ys" "n = length ys" "n \<le> length src" "n < length dst" "p \<le> n"
  shows "\<exists>j dst'. for_each (copy_gap p src) [0..<n] (0, dst) = Some (j, dst') \<and> length dst' = length dst \<and>
    take (Suc n) (dst'[p := x]) = take p ys @ x # drop p ys"
proof -
  obtain j dst' where d: "for_each (copy_gap p src) [0..<n] (0, dst) = Some (j, dst')" "length dst' = length dst"
      "take p dst' = take p src" "take (n - p) (drop (Suc p) dst') = take (n - p) (drop p src)"
    using copy_gap_loop [OF assms(3,4,5)] by blast
  have ys: "take p ys = take p src" "drop p ys = take (n - p) (drop p src)"
    using assms(1,5) by (auto simp: drop_take min_def)
  show ?thesis using d gap_filled [OF d(3,4) assms(5)] assms(3,4) ys by simp
qed

subsection \<open>Leaves\<close>

lemma holdsI:
  assumes "num_keys n = length ks" "length (keys n) = d - 1" "length (pointers n) = d"
    "take (length ks) (keys n) = ks" "take (length ps) (pointers n) = ps"
  shows "holds d n ks ps"
  using assms by (simp add: holds_def)

lemma takeWhile_prefix: "take (length (takeWhile P xs)) xs = takeWhile P xs" "drop (length (takeWhile P xs)) xs = dropWhile P xs"
  by (simp add: takeWhile_eq_take [symmetric]) (simp add: dropWhile_eq_drop)

text \<open>The entries of a leaf with one more.\<close>

definition insert_entry :: "u64 \<Rightarrow> nat \<Rightarrow> (u64 \<times> nat) list \<Rightarrow> (u64 \<times> nat) list" where
  "insert_entry k r es = takeWhile (\<lambda>e. fst e < k) es @ (k, r) # dropWhile (\<lambda>e. fst e < k) es"

lemma length_insert_entry [simp]: "length (insert_entry k r es) = Suc (length es)"
proof -
  have "length (takeWhile (\<lambda>e. fst e < k) es) + length (dropWhile (\<lambda>e. fst e < k) es) = length es"
    by (metis length_append takeWhile_dropWhile_id)
  then show ?thesis by (simp add: insert_entry_def)
qed

lemma insert_entry_at:
  fixes k :: u64 and es :: "(u64 \<times> nat) list"
  defines "p \<equiv> length (takeWhile (\<lambda>k'. k' < k) (map fst es))"
  shows "p \<le> length es" "take p (map f es) @ f (k, r) # drop p (map f es) = map f (insert_entry k r es)"
proof -
  have p: "p = length (takeWhile (\<lambda>e. fst e < k) es)" by (simp add: p_def takeWhile_map comp_def)
  show "p \<le> length es" unfolding p by (rule length_takeWhile_le)
  show "take p (map f es) @ f (k, r) # drop p (map f es) = map f (insert_entry k r es)"
    unfolding p by (simp add: insert_entry_def take_map drop_map takeWhile_prefix)
qed

lemma insert_into_leaf_ok:
  assumes "rep d (nodes h) p (Leaf a es nx)" "length es < d - 1"
  shows "\<exists>n. insert_into_leaf (Node_at a) k (Rec_at r) h = Some (Node_at a, h\<lparr>nodes := (nodes h)(a \<mapsto> n)\<rparr>) \<and>
    rep d (nodes (h\<lparr>nodes := (nodes h)(a \<mapsto> n)\<rparr>)) p (Leaf a (insert_entry k r es) nx)"
proof -
  let ?ks = "map fst es" and ?ps = "map (\<lambda>e. Rec_at (snd e)) es"
  obtain n where n: "nodes h a = Some n" "is_leaf n" "parent n = p" "holds d n ?ks ?ps" "ld (pointers n) (d - 1) = Some nx"
    using assms(1) by auto
  note hd = holdsD [OF n(4)]
  let ?i = "length (takeWhile (\<lambda>k'. k' < k) ?ks)" and ?n = "length es"
  note i = insert_entry_at(1) [of k es]
  define K where "K = take ?i (keys n) @ k # take (?n - ?i) (drop ?i (keys n)) @ drop (Suc ?n) (keys n)"
  define P where "P = take ?i (pointers n) @ Rec_at r # take (?n - ?i) (drop ?i (pointers n)) @ drop (Suc ?n) (pointers n)"
  define n' where "n' = n\<lparr>keys := K, pointers := P, num_keys := Suc ?n\<rparr>"
  have b: "?n < length (keys n)" "?n < length (pointers n)" using hd(2,3) assms(2) by auto
  have run: "insert_into_leaf (Node_at a) k (Rec_at r) h = Some (Node_at a, h\<lparr>nodes := (nodes h)(a \<mapsto> n')\<rparr>)"
    using shift_up_insert [OF i b(1), of k] shift_up_insert [OF i b(2), of "Rec_at r"]
    by (auto simp: insert_into_leaf_def get_node_def set_node_def n(1) hd(1) holds_scan [OF n(4), unfolded hd(1), simplified]
        on_arrays_loop bind_eq_Some n'_def K_def P_def simp del: upt_Suc)
  have "holds d n' (map fst (insert_entry k r es)) (map (\<lambda>e. Rec_at (snd e)) (insert_entry k r es))"
  proof (rule holdsI)
    have "take (Suc ?n) K = take ?i ?ks @ k # drop ?i ?ks"
      unfolding K_def by (rule array_insert(2)) (use hd b i in auto)
    then show "take (length (map fst (insert_entry k r es))) (keys n') = map fst (insert_entry k r es)"
      using insert_entry_at(2) [of k es fst r] by (simp add: n'_def)
    have "take (Suc ?n) P = take ?i ?ps @ Rec_at r # drop ?i ?ps"
      unfolding P_def by (rule array_insert(2)) (use hd b i in auto)
    then show "take (length (map (\<lambda>e. Rec_at (snd e)) (insert_entry k r es))) (pointers n')
      = map (\<lambda>e. Rec_at (snd e)) (insert_entry k r es)"
      using insert_entry_at(2) [of k es "\<lambda>e. Rec_at (snd e)" r] by (simp add: n'_def)
  qed (use hd b i in \<open>simp_all add: n'_def K_def P_def\<close>)
  moreover have "P ! (d - 1) = pointers n ! (d - 1)"
    unfolding P_def by (rule array_insert(3)) (use hd b i assms(2) in auto)
  then have "ld (pointers n') (d - 1) = Some nx"
    using n(5) b(2) i assms(2) hd(3) by (simp add: n'_def P_def ld_def split: if_splits)
  ultimately show ?thesis using run n(2,3) by (intro exI [of _ n']) (simp add: n'_def)
qed

text \<open>Filling the beginning of both arrays of a node from temporary arrays.\<close>

lemma fill_from:
  assumes "lo \<le> hi" "hi \<le> length tk" "hi \<le> length tp" "hi - lo \<le> length (keys n)" "hi - lo \<le> length (pointers n)"
  shows "for_each (append_entry (copy_elem lo 0 tk) (copy_elem lo 0 tp)) [lo..<hi] n
    = Some (n\<lparr>keys := put (keys n) 0 (take (hi - lo) (drop lo tk)),
        pointers := put (pointers n) 0 (take (hi - lo) (drop lo tp)), num_keys := num_keys n + (hi - lo)\<rparr>)"
  using assms by (simp add: append_entry_loop copy_elem_loop)

lemma put_front:
  assumes "length ys \<le> length xs"
  shows "length (put xs 0 ys) = length xs" "take (length ys) (put xs 0 ys) = ys"
    "length ys \<le> i \<Longrightarrow> i < length xs \<Longrightarrow> put xs 0 ys ! i = xs ! i"
  using assms by (simp_all add: put_def nth_append)

text \<open>The arrays of the two leaves after a split, with the last pointers set and the rest cleared.\<close>

lemma leaf_pointers:
  fixes x :: pointer
  assumes "length ys < length ps" "d = length ps" "m = length ys"
  defines "qs \<equiv> (put ps 0 ys)[d - 1 := x]"
  shows "for_each (\<lambda>i xs. st xs i Null) [m..<d - 1] qs = Some (take m qs @ replicate (d - 1 - m) Null @ drop (d - 1) qs)"
    "take m (take m qs @ replicate (d - 1 - m) Null @ drop (d - 1) qs) = ys"
    "length (take m qs @ replicate (d - 1 - m) Null @ drop (d - 1) qs) = d"
    "ld (take m qs @ replicate (d - 1 - m) Null @ drop (d - 1) qs) (d - 1) = Some x"
proof -
  have l: "length qs = d" unfolding qs_def using assms(1-3) by simp
  show "for_each (\<lambda>i xs. st xs i Null) [m..<d - 1] qs = Some (take m qs @ replicate (d - 1 - m) Null @ drop (d - 1) qs)"
    by (rule clear_loop) (use assms(1-3) l in auto)
  have "take m qs = ys" unfolding qs_def assms(3) using assms(1,2) by (simp add: put_def)
  then show "take m (take m qs @ replicate (d - 1 - m) Null @ drop (d - 1) qs) = ys" using assms(3) by simp
  show "length (take m qs @ replicate (d - 1 - m) Null @ drop (d - 1) qs) = d" using l assms(1-3) by simp
  have "qs ! (d - 1) = x" unfolding qs_def using assms(1,2) by (simp add: put_def)
  moreover have "\<not> d - 1 < m" using assms(1-3) by simp
  ultimately show "ld (take m qs @ replicate (d - 1 - m) Null @ drop (d - 1) qs) (d - 1) = Some x"
    using l assms(1-3) by (simp add: ld_def nth_append)
qed

lemma temp_arrays_leaf:
  fixes k :: u64 and r :: nat
  assumes "holds d n (map fst es) (map (\<lambda>e. Rec_at (snd e)) es)" "length es = d - 1" "1 \<le> d"
  defines "i \<equiv> length (takeWhile (\<lambda>k'. k' < k) (map fst es))"
  shows "\<exists>j tk tp. for_each (copy_gap2 i (keys n) (pointers n)) [0..<num_keys n]
      (0, replicate (d + 1) 0, replicate (d + 1) Null) = Some (j, tk, tp) \<and> i < length tk \<and> i < length tp \<and>
    length tk = d + 1 \<and> length tp = d + 1 \<and> take d (tk[i := k]) = map fst (insert_entry k r es) \<and>
    take d (tp[i := Rec_at r]) = map (\<lambda>e. Rec_at (snd e)) (insert_entry k r es)"
proof -
  note hd = holdsD [OF assms(1)]
  have i: "i \<le> length es" unfolding i_def by (rule insert_entry_at(1))
  have d: "Suc (length es) = d" using assms(2,3) by simp
  let ?f = "\<lambda>e :: u64 \<times> nat. Rec_at (snd e)"
  have a: "take (length es) (keys n) = map fst es" "length es = length (map fst es)" "length es \<le> length (keys n)"
      "length es < length (replicate (d + 1) (0 :: u64))" "i \<le> length es"
    using hd(2,6) assms(2) i d by simp_all
  obtain j1 tk where k: "for_each (copy_gap i (keys n)) [0..<length es] (0, replicate (d + 1) 0) = Some (j1, tk)"
      "length tk = d + 1" "take (Suc (length es)) (tk[i := k]) = take i (map fst es) @ k # drop i (map fst es)"
    using temp_array [OF a, of k] unfolding length_replicate by (elim exE conjE) (rule that)
  have b: "take (length es) (pointers n) = map ?f es" "length es = length (map ?f es)" "length es \<le> length (pointers n)"
      "length es < length (replicate (d + 1) Null)" "i \<le> length es"
    using hd(3,7) assms(2) i d by simp_all
  obtain j2 tp where p: "for_each (copy_gap i (pointers n)) [0..<length es] (0, replicate (d + 1) Null) = Some (j2, tp)"
      "length tp = d + 1" "take (Suc (length es)) (tp[i := Rec_at r]) = take i (map ?f es) @ Rec_at r # drop i (map ?f es)"
    using temp_array [OF b, of "Rec_at r"] unfolding length_replicate by (elim exE conjE) (rule that)
  have "for_each (copy_gap2 i (keys n) (pointers n)) [0..<num_keys n] (0, replicate (d + 1) 0, replicate (d + 1) Null)
    = Some (j2, tk, tp)" using copy_gap2_loop [OF k(1) p(1)] hd(1) by simp
  moreover have "take d (tk[i := k]) = map fst (insert_entry k r es)"
    using k(3) insert_entry_at(2) [of k es fst r] d unfolding i_def by simp
  moreover have "take d (tp[i := Rec_at r]) = map (\<lambda>e. Rec_at (snd e)) (insert_entry k r es)"
    using p(3) insert_entry_at(2) [of k es "\<lambda>e. Rec_at (snd e)" r] d unfolding i_def by simp
  ultimately show ?thesis using k(2) p(2) i d by auto
qed

lemma split_leaf_ok:
  fixes k :: u64 and r :: nat
  assumes e: "env_ok e" "nodes_free h U" "a \<in> U"
    and rep: "rep (order e) (nodes h) p (Leaf a es nx)" and full: "length es = order e - 1"
  defines "split \<equiv> cut (order e - 1)" and "es' \<equiv> insert_entry k r es"
  shows "\<exists>b h'. split_leaf e (Node_at a) k (Rec_at r) h = Some (fst (es' ! split), Node_at b, h') \<and> b \<notin> U \<and>
    rep (order e) (nodes h') p (Leaf a (take split es') (Node_at b)) \<and>
    rep (order e) (nodes h') p (Leaf b (drop split es') nx) \<and>
    (\<forall>c \<in> U - {a}. nodes h' c = nodes h c) \<and> nodes_free h' (insert b U) \<and> keeps_recs h h'"
proof -
  let ?d = "order e"
  have d: "3 \<le> ?d" "0 < split" "split < ?d" "split \<le> ?d - 1"
    using env_okD(1) [OF e(1)] cut_bounds [of "?d - 1"] by (auto simp: split_def)
  have l: "length es' = ?d" using full d(1) by (simp add: es'_def)
  let ?ks = "map fst es" and ?ps = "map (\<lambda>e. Rec_at (snd e)) es"
  obtain n where n: "nodes h a = Some n" "is_leaf n" "parent n = p" "holds ?d n ?ks ?ps" "ld (pointers n) (?d - 1) = Some nx"
    using rep by auto
  note hd = holdsD [OF n(4)]
  let ?i = "length (takeWhile (\<lambda>k'. k' < k) ?ks)"
  obtain b s h1 where b: "make_leaf e h = Some (Node_at b, h1)" "b \<notin> U" "nodes h1 b = Some (fresh_node e True s)"
      "\<forall>c \<in> U. nodes h1 c = nodes h c" "nodes_free h1 (insert b U)" "keeps_recs h h1"
    using make_leaf_ok [OF e(1,2)] by blast
  obtain h2 where h2: "allocate_align64 e ((?d + 1) * 8) h1 = Some h2" "keeps_recs h1 h2" "keeps_nodes h1 h2"
    using allocate_ok(2) [OF e(1)] by blast
  obtain h3 where h3: "allocate_align64 e ((?d + 1) * 8) h2 = Some h3" "keeps_recs h2 h3" "keeps_nodes h2 h3"
    using allocate_ok(2) [OF e(1)] by blast
  have N: "nodes h3 = nodes h1" using h2(3) h3(3) by (simp add: keeps_nodes_def)
  have na: "nodes h3 a = Some n" using N b(4) e(3) n(1) by simp
  have ab: "a \<noteq> b" using b(2) e(3) by blast
  obtain j tk tp where t: "for_each (copy_gap2 ?i (keys n) (pointers n)) [0..<num_keys n]
      (0, replicate (?d + 1) 0, replicate (?d + 1) Null) = Some (j, tk, tp)" "?i < length tk" "?i < length tp"
      "length tk = ?d + 1" "length tp = ?d + 1" "take ?d (tk[?i := k]) = map fst es'"
      "take ?d (tp[?i := Rec_at r]) = map (\<lambda>e. Rec_at (snd e)) es'"
    using temp_arrays_leaf [OF n(4) full, of k r] d(1) unfolding es'_def by auto
  let ?tk = "tk[?i := k]" and ?tp = "tp[?i := Rec_at r]"
  have ysk: "take split ?tk = map fst (take split es')" "take (?d - split) (drop split ?tk) = map fst (drop split es')"
    using arg_cong [OF t(6), of "take split"] arg_cong [OF t(6), of "drop split"] d(3)
    by (simp_all add: take_map drop_map drop_take min_def)
  have ysp: "take split ?tp = map (\<lambda>e. Rec_at (snd e)) (take split es')"
      "take (?d - split) (drop split ?tp) = map (\<lambda>e. Rec_at (snd e)) (drop split es')"
    using arg_cong [OF t(7), of "take split"] arg_cong [OF t(7), of "drop split"] d(3)
    by (simp_all add: take_map drop_map drop_take min_def)
  define n1 where "n1 = n\<lparr>keys := put (keys n) 0 (take split ?tk), pointers := put (pointers n) 0 (take split ?tp), num_keys := split\<rparr>"
  define m where "m = fresh_node e True s"
  define m1 where "m1 = m\<lparr>keys := put (keys m) 0 (take (?d - split) (drop split ?tk)),
    pointers := put (pointers m) 0 (take (?d - split) (drop split ?tp)), num_keys := ?d - split\<rparr>"
  have lm: "length (keys m) = ?d - 1" "length (pointers m) = ?d" "num_keys m = 0" "is_leaf m"
    by (simp_all add: m_def fresh_node_def)
  have f1: "for_each (append_entry (copy_elem 0 0 ?tk) (copy_elem 0 0 ?tp)) [0..<split] (n\<lparr>num_keys := 0\<rparr>) = Some n1"
    using fill_from [of 0 split ?tk ?tp "n\<lparr>num_keys := 0\<rparr>"] d t(4,5) hd by (simp add: n1_def)
  have f2: "for_each (append_entry (copy_elem split 0 ?tk) (copy_elem split 0 ?tp)) [split..<?d] m = Some m1"
    using fill_from [of split ?d ?tk ?tp m] d t(4,5) lm by (simp add: m1_def)
  have scan: "scan (\<lambda>k'. k' < k) (?d - 1) (keys n) = Some ?i"
    using scan_eq [of "?d - 1" "keys n" "\<lambda>k'. k' < k"] hd(2,6) full by simp
  have lp: "length (pointers n1) = ?d" "length (pointers m1) = ?d"
    unfolding n1_def m1_def using d t(5) hd(3) lm(2) by simp_all
  have nxt: "ld (pointers n1) (?d - 1) = Some nx"
    using put_front(3) [of "take split ?tp" "pointers n" "?d - 1"] n(5) d hd(3) t(5) lp(1) unfolding n1_def by (simp add: ld_def)
  define qs where "qs = (pointers n1)[?d - 1 := Node_at b]"
  define rs where "rs = (pointers m1)[?d - 1 := nx]"
  define np where "np = take split qs @ replicate (?d - 1 - split) Null @ drop (?d - 1) qs"
  define mp where "mp = take (?d - split) rs @ replicate (?d - 1 - (?d - split)) Null @ drop (?d - 1) rs"
  have lpn: "length (take split ?tp) < length (pointers n)" "?d = length (pointers n)" "split = length (take split ?tp)"
    using d hd(3) t(5) by simp_all
  have lpm: "length (take (?d - split) (drop split ?tp)) < length (pointers m)" "?d = length (pointers m)"
      "?d - split = length (take (?d - split) (drop split ?tp))"
    using d lm(2) t(5) by simp_all
  have qs: "qs = (put (pointers n) 0 (take split ?tp))[?d - 1 := Node_at b]" by (simp add: qs_def n1_def)
  have rs: "rs = (put (pointers m) 0 (take (?d - split) (drop split ?tp)))[?d - 1 := nx]" by (simp add: rs_def m1_def)
  note P = leaf_pointers [OF lpn, of "Node_at b", folded qs, folded np_def]
  note Q = leaf_pointers [OF lpm, of nx, folded rs, folded mp_def]
  have key: "ld (keys m1) 0 = Some (fst (es' ! split))"
  proof -
    have "keys m1 ! 0 = map fst (drop split es') ! 0"
      unfolding m1_def ysk(2) using d l by (simp add: put_def nth_append)
    then show ?thesis unfolding m1_def using d l lm(1) t(4) by simp
  qed
  let ?n = "n1\<lparr>pointers := np\<rparr>" and ?m = "m1\<lparr>pointers := mp, parent := p\<rparr>"
  let ?h = "h3\<lparr>nodes := (nodes h3)(a \<mapsto> ?n, b \<mapsto> ?m)\<rparr>"
  have nk: "num_keys n1 = split" "num_keys m1 = ?d - split" "parent n1 = p" by (simp_all add: n1_def m1_def n(3))
  have get: "get_node (Node_at a) h3 = Some n" "get_node (Node_at b) h3 = Some m"
    using na b(3) N by (simp_all add: get_node_def m_def)
  have sts: "st tk ?i k = Some ?tk" "st tp ?i (Rec_at r) = Some ?tp" "st (pointers m1) (?d - 1) nx = Some rs"
      "st (pointers n1) (?d - 1) (Node_at b) = Some qs"
    using t(2,3) lp d(1) by (simp_all add: rs_def qs_def)
  have sets: "set_node (Node_at a) ?n h3 = Some (h3\<lparr>nodes := (nodes h3)(a \<mapsto> ?n)\<rparr>)"
      "set_node (Node_at b) ?m (h3\<lparr>nodes := (nodes h3)(a \<mapsto> ?n)\<rparr>) = Some ?h"
    using na b(3) N by (simp_all add: set_node_def)
  have run: "split_leaf e (Node_at a) k (Rec_at r) h = Some (fst (es' ! split), Node_at b, ?h)"
    unfolding split_leaf_def
    by (simp only: b(1) h2(1) h3(1) get scan t(1) sts split_def [symmetric] f1 f2 nxt nk P(1) Q(1) key sets
        bind.bind_lunit prod.case Let_def)
  have "rep ?d (nodes ?h) p (Leaf a (take split es') (Node_at b))"
  proof -
    have "holds ?d ?n (map fst (take split es')) (map (\<lambda>e. Rec_at (snd e)) (take split es'))"
      by (rule holdsI) (use P(2,3) ysk(1) ysp(1) d l hd t(4) in \<open>simp_all add: n1_def put_def min_def\<close>)
    then show ?thesis using ab n(2,3) P(4) by (simp add: n1_def)
  qed
  moreover have "rep ?d (nodes ?h) p (Leaf b (drop split es') nx)"
  proof -
    have "holds ?d ?m (map fst (drop split es')) (map (\<lambda>e. Rec_at (snd e)) (drop split es'))"
      by (rule holdsI) (use Q(2,3) ysk(2) ysp(2) d l lm t(4) in \<open>simp_all add: m1_def put_def min_def\<close>)
    then show ?thesis using lm(4) Q(4) by (simp add: m1_def)
  qed
  moreover have "nodes_free ?h (insert b U)"
  proof (rule nodes_free_update)
    show "nodes_free h3 (insert b U)" using b(5) h2(3) h3(3) nodes_free_keeps by blast
  qed (use e(3) in auto)
  moreover have "\<forall>c \<in> U - {a}. nodes ?h c = nodes h c" using b(2,4) N by auto
  moreover have "keeps_recs h ?h" using b(6) h2(2) h3(2) by (simp add: keeps_recs_def)
  ultimately show ?thesis using run b(2) by (intro exI [of _ b] exI [of _ ?h] conjI)
qed

end
