(* ===== verification/BTreeInner.thy ===== *)
theory BTreeInner
  imports BTreeLeaf
begin

text \<open>
  Insertion into an inner node of the B+ tree: with and without splitting it, and the update of the
  parent pointers.
\<close>

subsection \<open>Inner nodes\<close>

lemma get_left_index_ok:
  assumes "rep_c d (nodes h) (Frame a ls kl kr rs # c) x" "x \<notin> addr ` set ls"
  shows "get_left_index (Node_at a) (Node_at x) h = Some (length ls)"
proof -
  let ?ps = "map (\<lambda>t. Node_at (addr t)) ls @ Node_at x # map (\<lambda>t. Node_at (addr t)) rs"
  obtain n where n: "nodes h a = Some n" "holds d n (kl @ kr) ?ps" and l: "length ls = length kl" "length rs = length kr"
    using assms(1) by auto
  note hd = holdsD [OF n(2)]
  have "length ?ps = Suc (num_keys n)" using l hd(1) by simp
  then have "take (Suc (num_keys n)) (pointers n) = ?ps" "Suc (num_keys n) \<le> length (pointers n)" using hd(3,5,7) by simp_all
  then have "scan (\<lambda>p. p \<noteq> Node_at x) (Suc (num_keys n)) (pointers n) = Some (length (takeWhile (\<lambda>p. p \<noteq> Node_at x) ?ps))"
    by (simp add: scan_eq)
  also have "takeWhile (\<lambda>p. p \<noteq> Node_at x) ?ps = map (\<lambda>t. Node_at (addr t)) ls"
    using assms(2) by (subst takeWhile_append2) auto
  finally show ?thesis using n(1) by (simp add: get_left_index_def get_node_def)
qed

lemma shift_pointers:
  "for_each (\<lambda>i. shift_up (Suc i)) (rev [Suc p..<Suc n]) xs = for_each shift_up (rev [Suc (Suc p)..<Suc (Suc n)]) xs"
  by (subst for_each_map [symmetric]) (simp only: rev_map [symmetric] map_Suc_upt)

lemma insert_into_node_ok:
  assumes n: "nodes h a = Some n" "holds d n (kl @ kr) (pl @ q # pr)" "length pl = length kl" "length pr = length kr"
    and room: "length (kl @ kr) < d - 1"
  shows "\<exists>n'. insert_into_node root (Node_at a) (length kl) k right h = Some (root, h\<lparr>nodes := (nodes h)(a \<mapsto> n')\<rparr>) \<and>
    is_leaf n' = is_leaf n \<and> parent n' = parent n \<and> holds d n' (kl @ k # kr) (pl @ q # right # pr)"
proof -
  note hd = holdsD [OF n(2)]
  let ?i = "length kl" and ?n = "length (kl @ kr)"
  define K where "K = take ?i (keys n) @ k # take (?n - ?i) (drop ?i (keys n)) @ drop (Suc ?n) (keys n)"
  define P where "P = take (Suc ?i) (pointers n) @ right # take (Suc ?n - Suc ?i) (drop (Suc ?i) (pointers n))
    @ drop (Suc (Suc ?n)) (pointers n)"
  define n' where "n' = n\<lparr>keys := K, pointers := P, num_keys := Suc ?n\<rparr>"
  have b: "?i \<le> ?n" "?n < length (keys n)" "Suc ?i \<le> Suc ?n" "Suc ?n < length (pointers n)" using hd(2,3) room by auto
  have run: "insert_into_node root (Node_at a) ?i k right h = Some (root, h\<lparr>nodes := (nodes h)(a \<mapsto> n')\<rparr>)"
  proof -
    obtain K0 where K0: "for_each shift_up (rev [Suc ?i..<Suc ?n]) (keys n) = Some K0" "st K0 ?i k = Some K"
      using shift_up_insert [OF b(1,2), of k] unfolding K_def [symmetric] by (auto simp only: bind_eq_Some)
    obtain P0 where P0: "for_each shift_up (rev [Suc (Suc ?i)..<Suc (Suc ?n)]) (pointers n) = Some P0" "st P0 (Suc ?i) right = Some P"
      using shift_up_insert [OF b(3,4), of right] unfolding P_def [symmetric] by (auto simp only: bind_eq_Some)
    have "for_each (on_arrays shift_up (\<lambda>i. shift_up (Suc i))) (rev [Suc ?i..<Suc (num_keys n)]) n = Some (n\<lparr>keys := K0, pointers := P0\<rparr>)"
      unfolding on_arrays_loop shift_pointers hd(1) by (simp only: K0 P0 bind.bind_lunit)
    then show ?thesis
      using K0(2) P0(2) hd(1) by (simp add: insert_into_node_def get_node_def set_node_def n(1) n'_def del: upt_Suc)
  qed
  have k: "length K = length (keys n)" "take (Suc ?n) K = take ?i (kl @ kr) @ k # drop ?i (kl @ kr)"
    using array_insert(1,2) [of ?n "keys n" "kl @ kr" ?i k] hd b unfolding K_def by simp_all
  have p: "length P = length (pointers n)"
      "take (Suc (Suc ?n)) P = take (Suc ?i) (pl @ q # pr) @ right # drop (Suc ?i) (pl @ q # pr)"
    using array_insert(1,2) [of "Suc ?n" "pointers n" "pl @ q # pr" "Suc ?i" right] hd b n(3,4) unfolding P_def by simp_all
  have "holds d n' (kl @ k # kr) (pl @ q # right # pr)"
    by (rule holdsI) (use k p hd n(3,4) in \<open>simp_all add: n'_def\<close>)
  then show ?thesis using run by (intro exI [of _ n']) (simp add: n'_def)
qed

lemma set_parent_ok:
  assumes "rep d (nodes h) p t" "distinct (addrs t)"
  shows "\<exists>n. set_parent (Node_at (addr t)) q h = Some (h\<lparr>nodes := (nodes h)(addr t \<mapsto> n)\<rparr>) \<and>
    rep d (nodes (h\<lparr>nodes := (nodes h)(addr t \<mapsto> n)\<rparr>)) q t"
proof -
  obtain n where n: "nodes h (addr t) = Some n" using rep_root [OF assms(1)] by blast
  then have "set_parent (Node_at (addr t)) q h = Some (h\<lparr>nodes := (nodes h)(addr t \<mapsto> n\<lparr>parent := q\<rparr>)\<rparr>)"
    by (simp add: set_parent_def get_node_def set_node_def)
  moreover have "rep d ((nodes h)(addr t \<mapsto> n\<lparr>parent := q\<rparr>)) q t" using rep_set_parent [OF assms n] .
  ultimately show ?thesis by auto
qed

text \<open>Changes of nodes at some addresses only.\<close>

definition changes :: "nat set \<Rightarrow> bt_heap \<Rightarrow> bt_heap \<Rightarrow> bool" where
  "changes A h h' \<longleftrightarrow> (\<exists>N. h' = h\<lparr>nodes := N\<rparr> \<and> (\<forall>a. a \<notin> A \<longrightarrow> N a = nodes h a))"

lemma changes_refl [simp]: "changes A h h"
  unfolding changes_def by (rule exI [of _ "nodes h"]) simp

lemma changes_one: "a \<in> A \<Longrightarrow> changes A h (h\<lparr>nodes := (nodes h)(a := n)\<rparr>)"
  unfolding changes_def by auto

lemma changes_trans:
  assumes "changes A h h'" "changes B h' h''" "A \<union> B \<subseteq> C"
  shows "changes C h h''"
proof -
  obtain N M where nm: "h' = h\<lparr>nodes := N\<rparr>" "\<forall>a. a \<notin> A \<longrightarrow> N a = nodes h a" "h'' = h'\<lparr>nodes := M\<rparr>" "\<forall>a. a \<notin> B \<longrightarrow> M a = nodes h' a"
    using assms(1,2) unfolding changes_def by blast
  have "M a = nodes h a" if "a \<notin> C" for a
  proof -
    have "a \<notin> A" "a \<notin> B" using that assms(3) by auto
    then show ?thesis using nm by simp
  qed
  then show ?thesis using nm(1,3) unfolding changes_def by (intro exI [of _ M]) simp
qed

lemma changesD:
  assumes "changes A h h'"
  shows "a \<notin> A \<Longrightarrow> nodes h' a = nodes h a" "keeps_recs h h'" "free_nodes h' = free_nodes h" "node_brk h' = node_brk h"
  using assms by (auto simp: changes_def keeps_recs_def)

lemma changes_free: "changes A h h' \<Longrightarrow> A \<subseteq> U \<Longrightarrow> nodes_free h U \<Longrightarrow> nodes_free h' U"
  by (rule nodes_free_update) (use changesD in blast)+

lemma changes_rep: "changes A h h' \<Longrightarrow> A \<inter> set (addrs t) = {} \<Longrightarrow> rep d (nodes h) p t \<Longrightarrow> rep d (nodes h') p t"
  by (subst rep_cong [of t "nodes h'" "nodes h"]) (auto intro: changesD)

lemma changes_rep_c: "changes A h h' \<Longrightarrow> A \<inter> set (addrs_c c) = {} \<Longrightarrow> rep_c d (nodes h) c x \<Longrightarrow> rep_c d (nodes h') c x"
  by (subst rep_c_cong [of c "nodes h'" "nodes h"]) (auto intro: changesD)

lemma set_parents_ok:
  assumes "\<And>t. t \<in> set ts \<Longrightarrow> rep d (nodes h) p t" "distinct (concat (map addrs ts))"
  shows "\<exists>h'. for_each (\<lambda>c. set_parent c q) (map (\<lambda>t. Node_at (addr t)) ts) h = Some h' \<and>
    changes (addr ` set ts) h h' \<and> (\<forall>t \<in> set ts. rep d (nodes h') q t)"
  using assms
proof (induction ts arbitrary: h)
  case (Cons t ts)
  obtain n where n: "set_parent (Node_at (addr t)) q h = Some (h\<lparr>nodes := (nodes h)(addr t \<mapsto> n)\<rparr>)"
      "rep d (nodes (h\<lparr>nodes := (nodes h)(addr t \<mapsto> n)\<rparr>)) q t"
    using set_parent_ok [of d h p t q] Cons.prems by auto
  let ?h = "h\<lparr>nodes := (nodes h)(addr t \<mapsto> n)\<rparr>"
  have c: "changes {addr t} h ?h" by (rule changes_one) simp
  have disj: "set (addrs t) \<inter> set (addrs u) = {}" if "u \<in> set ts" for u
    using that Cons.prems(2) by auto
  have "rep d (nodes ?h) p u" if "u \<in> set ts" for u
  proof (rule changes_rep [OF c])
    show "{addr t} \<inter> set (addrs u) = {}" using disj [OF that] addr_in_addrs [of t] by blast
  qed (use that Cons.prems(1) in simp)
  moreover have "distinct (concat (map addrs ts))" using Cons.prems(2) by simp
  ultimately obtain h' where h': "for_each (\<lambda>c. set_parent c q) (map (\<lambda>t. Node_at (addr t)) ts) ?h = Some h'"
      "changes (addr ` set ts) ?h h'" "\<forall>t \<in> set ts. rep d (nodes h') q t"
    using Cons.IH [of ?h] by blast
  have "changes (addr ` set (t # ts)) h h'" by (rule changes_trans [OF c h'(2)]) auto
  moreover have "rep d (nodes h') q t"
    by (rule changes_rep [OF h'(2) _ n(2)]) (use disj addr_in_addrs in fastforce)
  ultimately show ?case using n(1) h'(1,3) by auto
qed simp

lemma temp_arrays_node:
  assumes "holds d n (kl @ kr) (pl @ q # pr)" "length pl = length kl" "length pr = length kr" "length (kl @ kr) = d - 1" "1 \<le> d"
  shows "\<exists>j tp j' tk. for_each (copy_gap (length kl + 1) (pointers n)) [0..<num_keys n + 1] (0, replicate (d + 1) Null) = Some (j, tp) \<and>
    for_each (copy_gap (length kl) (keys n)) [0..<num_keys n] (0, replicate d 0) = Some (j', tk) \<and>
    length tp = d + 1 \<and> length tk = d \<and> tp[length kl + 1 := right] = pl @ q # right # pr \<and> tk[length kl := k] = kl @ k # kr"
proof -
  note hd = holdsD [OF assms(1)]
  have d: "Suc (length kl + length kr) = d" "num_keys n + 1 = d" "num_keys n = d - 1" using assms(4,5) hd(1) by simp_all
  have a: "take d (pointers n) = pl @ q # pr" "d = length (pl @ q # pr)" "d \<le> length (pointers n)"
      "d < length (replicate (d + 1) Null)" "length kl + 1 \<le> d"
    using hd(3,7) assms(2,3) d(1) by simp_all
  obtain j tp where p: "for_each (copy_gap (length kl + 1) (pointers n)) [0..<d] (0, replicate (d + 1) Null) = Some (j, tp)"
      "length tp = d + 1" "take (Suc d) (tp[length kl + 1 := right])
        = take (length kl + 1) (pl @ q # pr) @ right # drop (length kl + 1) (pl @ q # pr)"
    using temp_array [OF a, of right] unfolding length_replicate by (elim exE conjE) (rule that)
  have b: "take (d - 1) (keys n) = kl @ kr" "d - 1 = length (kl @ kr)" "d - 1 \<le> length (keys n)"
      "d - 1 < length (replicate d (0 :: u64))" "length kl \<le> d - 1"
    using hd(1,2,6) d assms(4,5) by simp_all
  obtain j' tk where k: "for_each (copy_gap (length kl) (keys n)) [0..<d - 1] (0, replicate d 0) = Some (j', tk)"
      "length tk = d" "take (Suc (d - 1)) (tk[length kl := k]) = take (length kl) (kl @ kr) @ k # drop (length kl) (kl @ kr)"
    using temp_array [OF b, of k] unfolding length_replicate by (elim exE conjE) (rule that)
  have "tp[length kl + 1 := right] = pl @ q # right # pr" using p(2,3) assms(2) by simp
  moreover have "tk[length kl := k] = kl @ k # kr" using k(2,3) assms(5) by simp
  ultimately show ?thesis unfolding d(2) unfolding d(3) using p(1,2) k(1,2) by blast
qed

lemma last_pointer:
  assumes "j < length ts" "j < length ps"
  shows "length ((put ps 0 (map f (take j ts)))[j := f (ts ! j)]) = length ps"
    "take (Suc j) ((put ps 0 (map f (take j ts)))[j := f (ts ! j)]) = map f (take (Suc j) ts)"
  using assms by (simp_all add: put_def list_update_append take_Suc_conv_app_nth split: nat.splits)

text \<open>
  Splitting the node of a frame around the subtrees \<open>l\<close> and \<open>r\<close>: the children and keys with
  \<open>r\<close> and \<open>k\<close> inserted are distributed to the old node and to a new one, and the key between them
  goes up.
\<close>

lemma split_node_ok:
  fixes k :: u64
  assumes e: "env_ok e" "nodes_free h U" "a \<in> U"
    and n: "nodes h a = Some n" "\<not> is_leaf n" "holds (order e) n (kl @ kr) (map (\<lambda>t. Node_at (addr t)) (ls @ l # rs))"
    and len: "length ls = length kl" "length rs = length kr" "length (kl @ kr) = order e - 1"
    and kids: "\<forall>t \<in> set (ls @ l # r # rs). rep (order e) (nodes h) (Node_at a) t"
    and dist: "distinct (a # concat (map addrs (ls @ l # r # rs)))" "set (concat (map addrs (ls @ l # r # rs))) \<subseteq> U"
  defines "split \<equiv> cut (order e)" and "ts \<equiv> ls @ l # r # rs" and "ks \<equiv> kl @ k # kr"
  shows "\<exists>b h'. split_node e (Node_at a) (length kl) k (Node_at (addr r)) h = Some (ks ! (split - 1), Node_at b, h') \<and> b \<notin> U \<and>
    rep (order e) (nodes h') (parent n) (Inner a (take split ts) (take (split - 1) ks)) \<and>
    rep (order e) (nodes h') (parent n) (Inner b (drop split ts) (drop split ks)) \<and>
    (\<forall>c \<in> U - set (a # concat (map addrs ts)). nodes h' c = nodes h c) \<and> nodes_free h' (insert b U) \<and> keeps_recs h h'"
proof -
  let ?d = "order e" and ?p = "\<lambda>t. Node_at (addr t)"
  have d: "3 \<le> ?d" "1 < split" "split < ?d"
    using env_okD(1) [OF e(1)] cut_bounds [of ?d] by (auto simp: split_def)
  have l: "length ts = ?d + 1" "length ks = ?d" using len d(1) by (simp_all add: ts_def ks_def)
  note hd = holdsD [OF n(3)]
  obtain h1 where h1: "allocate_align64 e ((?d + 1) * 8) h = Some h1" "keeps_recs h h1" "keeps_nodes h h1"
    using allocate_ok(2) [OF e(1)] by blast
  obtain h2 where h2: "allocate_align64 e (?d * 8) h1 = Some h2" "keeps_recs h1 h2" "keeps_nodes h1 h2"
    using allocate_ok(2) [OF e(1)] by blast
  have N: "nodes h2 = nodes h" "nodes_free h2 U"
    using h1(3) h2(3) nodes_free_keeps e(2) by (auto simp: keeps_nodes_def)
  obtain b s h3 where b: "make_node e h2 = Some (Node_at b, h3)" "b \<notin> U" "nodes h3 b = Some (fresh_node e False s)"
      "\<forall>c \<in> U. nodes h3 c = nodes h2 c" "nodes_free h3 (insert b U)" "keeps_recs h2 h3"
    using make_node_ok [OF e(1) N(2)] by blast
  have hp: "holds ?d n (kl @ kr) (map ?p ls @ ?p l # map ?p rs)" using n(3) by simp
  have maps: "map ?p ts = map ?p ls @ ?p l # ?p r # map ?p rs" by (simp add: ts_def)
  have ml: "length (map ?p ls) = length kl" "length (map ?p rs) = length kr" "1 \<le> ?d" using len d(1) by simp_all
  obtain j tp j' tk where t: "for_each (copy_gap (length kl + 1) (pointers n)) [0..<num_keys n + 1] (0, replicate (?d + 1) Null) = Some (j, tp)"
      "for_each (copy_gap (length kl) (keys n)) [0..<num_keys n] (0, replicate ?d 0) = Some (j', tk)"
      "length tp = ?d + 1" "length tk = ?d" "tp[length kl + 1 := ?p r] = map ?p ts" "tk[length kl := k] = ks"
    using temp_arrays_node [OF hp ml(1,2) len(3) ml(3), of "?p r" k]
    unfolding maps [symmetric] ks_def [symmetric] by (elim exE conjE) (rule that)
  define m where "m = fresh_node e False s"
  have lm: "length (keys m) = ?d - 1" "length (pointers m) = ?d" "num_keys m = 0" "\<not> is_leaf m"
    by (simp_all add: m_def fresh_node_def)
  define n1 where "n1 = n\<lparr>keys := put (keys n) 0 (take (split - 1) ks), pointers := put (pointers n) 0 (map ?p (take (split - 1) ts)), num_keys := split - 1\<rparr>"
  define m1 where "m1 = m\<lparr>keys := put (keys m) 0 (drop split ks), pointers := put (pointers m) 0 (map ?p (take (?d - split) (drop split ts))), num_keys := ?d - split\<rparr>"
  have f1: "for_each (append_entry (copy_elem 0 0 ks) (copy_elem 0 0 (map ?p ts))) [0..<split - 1] (n\<lparr>num_keys := 0\<rparr>) = Some n1"
    using fill_from [of 0 "split - 1" ks "map ?p ts" "n\<lparr>num_keys := 0\<rparr>"] d l hd by (simp add: n1_def take_map)
  have f2: "for_each (append_entry (copy_elem split 0 ks) (copy_elem split 0 (map ?p ts))) [split..<?d] m = Some m1"
    using fill_from [of split ?d ks "map ?p ts" m] d l lm by (simp add: m1_def take_map drop_map)
  define np where "np = (pointers n1)[split - 1 := ?p (ts ! (split - 1))]"
  define mp where "mp = (pointers m1)[?d - split := ?p (ts ! ?d)]"
  have c1: "copy_elem 0 0 (map ?p ts) (split - 1) (pointers n1) = Some np"
    using d l hd(3) by (simp add: copy_elem_def np_def n1_def)
  have c2: "copy_elem split 0 (map ?p ts) ?d (pointers m1) = Some mp"
    using d l lm(2) by (simp add: copy_elem_def mp_def m1_def)
  have tnp: "length np = ?d" "take split np = map ?p (take split ts)"
    using last_pointer [of "split - 1" ts "pointers n" ?p] d l hd(3) by (simp_all add: np_def n1_def)
  have tmp: "length mp = ?d" "take (Suc (?d - split)) mp = map ?p (drop split ts)"
    using last_pointer [of "?d - split" "drop split ts" "pointers m" ?p] d l lm(2) by (simp_all add: mp_def m1_def Suc_diff_le)
  define n2 where "n2 = n1\<lparr>pointers := np\<rparr>"
  define m2 where "m2 = m1\<lparr>pointers := mp, parent := parent n1\<rparr>"
  define h4 where "h4 = h3\<lparr>nodes := (nodes h3)(a \<mapsto> n2, b \<mapsto> m2)\<rparr>"
  have na: "nodes h3 a = Some n" "nodes h2 a = Some n" using b(4) e(3) N(1) n(1) by simp_all
  have ab: "a \<noteq> b" using b(2) e(3) by blast
  have U4: "nodes h4 c = nodes h c" if "c \<in> U" "c \<noteq> a" for c using that b(2,4) N(1) by (auto simp: h4_def)
  have kids4: "rep ?d (nodes h4) (Node_at a) t" if "t \<in> set ts" for t
  proof (subst rep_cong [of t "nodes h4" "nodes h"])
    fix c assume "c \<in> set (addrs t)"
    then show "nodes h4 c = nodes h c" using dist that unfolding ts_def [symmetric] by (intro U4) auto
  qed (use kids that in \<open>auto simp: ts_def\<close>)
  have dd: "distinct (concat (map addrs (take split ts)) @ concat (map addrs (drop split ts)))"
    using dist(1) unfolding ts_def [symmetric]
    by (simp only: concat_append [symmetric] map_append [symmetric] append_take_drop_id distinct.simps)
  obtain h5 where h5: "for_each (\<lambda>c. set_parent c (Node_at b)) (map ?p (drop split ts)) h4 = Some h5"
      "changes (addr ` set (drop split ts)) h4 h5" "\<forall>t \<in> set (drop split ts). rep ?d (nodes h5) (Node_at b) t"
    using set_parents_ok [of "drop split ts" ?d h4 "Node_at a" "Node_at b"] kids4 dd by (auto dest: in_set_dropD)
  have get: "get_node (Node_at a) h2 = Some n" "get_node (Node_at b) h3 = Some m"
    using na b(3) by (simp_all add: get_node_def m_def)
  have sts: "st tp (length kl + 1) (?p r) = Some (map ?p ts)" "st tk (length kl) k = Some ks"
    unfolding t(5,6) [symmetric] using len t(3,4) d(1) by simp_all
  have key: "ld ks (split - 1) = Some (ks ! (split - 1))" using d l by simp
  have sets: "set_node (Node_at a) n2 h3 = Some (h3\<lparr>nodes := (nodes h3)(a \<mapsto> n2)\<rparr>)"
      "set_node (Node_at b) m2 (h3\<lparr>nodes := (nodes h3)(a \<mapsto> n2)\<rparr>) = Some h4"
    using na b(3) by (simp_all add: set_node_def h4_def)
  have nk: "num_keys m1 + 1 = Suc (?d - split)" "Suc (?d - split) \<le> length mp" using tmp(1) d by (simp_all add: m1_def)
  have loop: "for_each (\<lambda>i h. ld mp i \<bind> (\<lambda>child. set_parent child (Node_at b) h)) [0..<num_keys m1 + 1] h4 = Some h5"
    unfolding nk(1) for_each_nth [OF nk(2)] tmp(2) by (rule h5(1))
  have run: "split_node e (Node_at a) (length kl) k (?p r) h = Some (ks ! (split - 1), Node_at b, h5)"
    unfolding split_node_def
    by (simp only: b(1) h1(1) h2(1) get t(1,2) sts split_def [symmetric] f1 f2 c1 c2 key n2_def [symmetric]
        m2_def [symmetric] sets loop bind.bind_lunit prod.case Let_def)
  have inU: "addr t \<in> U - {a}" if "t \<in> set ts" for t
    using dist that addr_in_addrs [of t] unfolding ts_def [symmetric] set_concat set_map distinct.simps by blast
  have out: "a \<notin> addr ` set (drop split ts)" "b \<notin> addr ` set (drop split ts)"
    using inU b(2) by (auto dest!: in_set_dropD)
  have "nodes h5 a = Some n2" "nodes h5 b = Some m2" using changesD(1) [OF h5(2)] out ab by (simp_all add: h4_def)
  moreover have "\<forall>t \<in> set (take split ts). rep ?d (nodes h5) (Node_at a) t"
  proof
    fix t assume t: "t \<in> set (take split ts)"
    have "addr ` set (drop split ts) \<inter> set (addrs t) = {}" using dd t by (auto, metis IntI UN_I addr_in_addrs empty_iff)
    then show "rep ?d (nodes h5) (Node_at a) t"
      using kids4 [of t] t by (intro changes_rep [OF h5(2)]) (auto dest: in_set_takeD)
  qed
  moreover have "holds ?d n2 (take (split - 1) ks) (map ?p (take split ts))"
    by (rule holdsI) (use tnp d l hd in \<open>simp_all add: n2_def n1_def put_def min_def\<close>)
  moreover have "holds ?d m2 (drop split ks) (map ?p (drop split ts))"
    by (rule holdsI) (use tmp d l lm in \<open>simp_all add: m2_def m1_def put_def Suc_diff_le\<close>)
  ultimately have "rep ?d (nodes h5) (parent n) (Inner a (take split ts) (take (split - 1) ks))"
      "rep ?d (nodes h5) (parent n) (Inner b (drop split ts) (drop split ks))"
    using h5(3) n(2) lm(4) d l by (simp_all add: n2_def n1_def m2_def m1_def)
  moreover have "\<forall>c \<in> U - set (a # concat (map addrs ts)). nodes h5 c = nodes h c"
  proof
    fix c assume c: "c \<in> U - set (a # concat (map addrs ts))"
    then have "c \<notin> addr ` set (drop split ts)" using addr_in_addrs by (fastforce dest!: in_set_dropD)
    then show "nodes h5 c = nodes h c" using changesD(1) [OF h5(2)] U4 c by simp
  qed
  moreover have "nodes_free h5 (insert b U)"
  proof (rule changes_free [OF h5(2)])
    show "addr ` set (drop split ts) \<subseteq> insert b U"
      using inU by (auto dest!: in_set_dropD)
    show "nodes_free h4 (insert b U)"
      by (rule nodes_free_update [OF b(5)]) (use e(3) in \<open>auto simp: h4_def\<close>)
  qed
  moreover have "keeps_recs h h5"
    using h1(2) h2(2) b(6) changesD(2) [OF h5(2)] by (simp add: keeps_recs_def h4_def)
  ultimately show ?thesis using run b(2) by (intro exI [of _ b] exI [of _ h5] conjI)
qed

end
