(* ===== verification/BTreeInsert.thy ===== *)
theory BTreeInsert
  imports BTreeInner
begin

text \<open>
  Insertion of a new node into the B+ tree (\<open>insert_into_parent\<close>): a new root, room in the parent, or
  splits on the way up along the parent pointers.
\<close>

subsection \<open>A new root\<close>

lemma insert_into_new_root_ok:
  assumes e: "env_ok e" "nodes_free h U" "set (addrs l @ addrs r) \<subseteq> U" "distinct (addrs l @ addrs r)"
    and rep: "rep (order e) (nodes h) Null l" "rep (order e) (nodes h) Null r"
  shows "\<exists>a h'. insert_into_new_root e (Node_at (addr l)) k (Node_at (addr r)) h = Some (Node_at a, h') \<and> a \<notin> U \<and>
    rep (order e) (nodes h') Null (Inner a [l, r] [k]) \<and> nodes_free h' (insert a U) \<and> keeps_recs h h'"
proof -
  let ?d = "order e" and ?l = "Node_at (addr l)" and ?r = "Node_at (addr r)"
  have d: "3 \<le> ?d" using env_okD(1) [OF e(1)] .
  obtain a s h1 where a: "make_node e h = Some (Node_at a, h1)" "a \<notin> U" "nodes h1 a = Some (fresh_node e False s)"
      "\<forall>c \<in> U. nodes h1 c = nodes h c" "nodes_free h1 (insert a U)" "keeps_recs h h1"
    using make_node_ok [OF e(1,2)] by blast
  define n where "n = (fresh_node e False s)\<lparr>keys := (replicate (?d - 1) 0)[0 := k],
    pointers := (replicate ?d Null)[0 := ?l, 1 := ?r], num_keys := 1\<rparr>"
  define h2 where "h2 = h1\<lparr>nodes := (nodes h1)(a \<mapsto> n)\<rparr>"
  have U: "nodes h2 c = nodes h c" if "c \<in> U" for c using that a(2,4) by (auto simp: h2_def)
  have "rep ?d (nodes h2) Null t" if "t \<in> set [l, r]" for t
    using that rep e(3) by (subst rep_cong [of t "nodes h2" "nodes h"]) (auto intro: U)
  then obtain h3 where h3: "for_each (\<lambda>c. set_parent c (Node_at a)) (map (\<lambda>t. Node_at (addr t)) [l, r]) h2 = Some h3"
      "changes (addr ` set [l, r]) h2 h3" "\<forall>t \<in> set [l, r]. rep ?d (nodes h3) (Node_at a) t"
    using set_parents_ok [of "[l, r]" ?d h2 Null "Node_at a"] e(4) by auto
  have run: "insert_into_new_root e ?l k ?r h = Some (Node_at a, h3)"
  proof -
    have "(set_parent ?l (Node_at a) h2 \<bind> set_parent ?r (Node_at a)) = Some h3"
      using h3(1) by (simp add: for_each_single)
    moreover have "insert_into_new_root e ?l k ?r h = (set_parent ?l (Node_at a) h2 \<bind> set_parent ?r (Node_at a)) \<bind> (\<lambda>h. Some (Node_at a, h))"
      using d by (simp add: insert_into_new_root_def a(1,3) get_node_def set_node_def fresh_node_def n_def h2_def)
    ultimately show ?thesis by simp
  qed
  have lr: "addr ` set [l, r] \<subseteq> U" using e(3) addr_in_addrs by auto
  have "nodes h3 a = Some n" using changesD(1) [OF h3(2), of a] lr a(2) by (auto simp: h2_def)
  moreover have "holds ?d n [k] [?l, ?r]"
  proof -
    have "?d = Suc (Suc (Suc (?d - 3)))" using d by simp
    then obtain m where "?d = Suc (Suc (Suc m))" by blast
    then show ?thesis by (intro holdsI) (simp_all add: n_def fresh_node_def)
  qed
  ultimately have "rep ?d (nodes h3) Null (Inner a [l, r] [k])" using h3(3) by (simp add: n_def fresh_node_def)
  moreover have "nodes_free h3 (insert a U)"
  proof (rule changes_free [OF h3(2)])
    show "nodes_free h2 (insert a U)" by (rule nodes_free_update [OF a(5)]) (auto simp: h2_def)
  qed (use lr in auto)
  moreover have "keeps_recs h h3" using a(6) changesD(2) [OF h3(2)] by (simp add: keeps_recs_def h2_def)
  ultimately show ?thesis using run a(2) by (intro exI [of _ a] exI [of _ h3] conjI)
qed

subsection \<open>The way up\<close>

text \<open>The new children and keys of a node that is split, as a sequence of items.\<close>

lemma items_split:
  assumes "length ts = Suc (length ks)" "0 < j" "j \<le> length ks"
  shows "items (Inner a (take j ts) (take (j - 1) ks)) @ Sep (ks ! (j - 1)) # items (Inner b (drop j ts) (drop j ks))
    = weave (map items ts) ks"
proof -
  obtain i where j: "j = Suc i" using assms(2) by (cases j) auto
  have l: "length (take i ts) = length (take i ks)" "i < length ts" "i < length ks" using assms j by simp_all
  have t: "take j ts = take i ts @ [ts ! i]" "take j ks = take i ks @ [ks ! i]" using l unfolding j by (simp_all add: take_Suc_conv_app_nth)
  have "weave (map items ts) ks = weave_left (map items (take j ts)) (take j ks) @ weave (map items (drop j ts)) (drop j ks)"
    using weave_join [of "map items (drop j ts)" "map items (take j ts)" "take j ks" "drop j ks"] assms
    by (simp add: map_append [symmetric] del: map_append)
  moreover have "weave_left (map items (take j ts)) (take j ks) = weave (map items (take j ts)) (take i ks) @ [Sep (ks ! i)]"
    unfolding t using l weave_split [of "map items (take i ts)" "take i ks" "items (ts ! i)" "[]" "[]"]
    by (simp add: weave_left_append)
  ultimately show ?thesis by (simp add: j)
qed

lemma shaped_split:
  assumes "3 \<le> d" "\<forall>t \<in> set ts. shaped d False n t" "length ts = Suc d" "length ks = d"
  shows "shaped d False (Suc n) (Inner a (take (cut d) ts) (take (cut d - 1) ks))"
    "shaped d False (Suc n) (Inner b (drop (cut d) ts) (drop (cut d) ks))"
  using assms cut_bounds [of d] by (auto simp: occupied_def dest: in_set_takeD in_set_dropD)

text \<open>A tree that stands in the heap, apart from the order of its keys and the list of its leaves.\<close>

definition stands :: "bt_env \<Rightarrow> bt_heap \<Rightarrow> btree \<Rightarrow> bool" where
  "stands e h t \<longleftrightarrow> rep (order e) (nodes h) Null t \<and> distinct (addrs t) \<and> nodes_free h (set (addrs t)) \<and>
     (\<exists>n. shaped (order e) True n t)"

lemma stands_fill:
  assumes "rep_c (order e) (nodes h) c (addr t)" "rep (order e) (nodes h) (par_of c) t" "distinct (addrs_c c @ addrs t)"
    "nodes_free h (set (addrs_c c @ addrs t))" "shaped (order e) (c = []) n t" "shaped_c (order e) n c"
  shows "stands e h (fill c t)"
  using assms rep_c_framed [OF assms(1)] shaped_fill [of c "order e" t]
  by (auto simp: stands_def rep_fill distinct_fill set_addrs_fill)

lemma distinct_mset_eq: "distinct ys \<Longrightarrow> mset xs = mset ys \<Longrightarrow> distinct xs"
  using mset_eq_imp_distinct_iff by blast

lemma items_inserted:
  assumes "length ls = length kl"
  shows "items (Inner a (ls @ l # r # rs) (kl @ k # kr))
    = weave_left (map items ls) kl @ items l @ Sep k # items r @ weave_right kr (map items rs)"
  using weave_split [of "map items ls" kl "items l" "items r # map items rs" "k # kr"] assms by simp

lemma occupied_more: "occupied b low n \<Longrightarrow> n \<le> m \<Longrightarrow> occupied b low m"
  by (auto simp: occupied_def)

text \<open>The parent has room.\<close>

lemma insert_into_parent_room:
  fixes k :: u64
  assumes rep: "rep_c (order e) (nodes h) (Frame a ls kl kr rs # c) (addr l)"
      "rep (order e) (nodes h) (Node_at a) l" "rep (order e) (nodes h) (Node_at a) r"
    and dist: "distinct (addrs_c (Frame a ls kl kr rs # c) @ addrs l @ addrs r)"
    and free: "nodes_free h (set (addrs_c (Frame a ls kl kr rs # c) @ addrs l @ addrs r))"
    and sh: "shaped (order e) False n l" "shaped (order e) False n r" "shaped_c (order e) n (Frame a ls kl kr rs # c)"
    and room: "length (kl @ kr) < order e - 1"
  defines "t \<equiv> Inner a (ls @ l # r # rs) (kl @ k # kr)"
  shows "\<exists>h'. insert_into_node root (Node_at a) (length kl) k (Node_at (addr r)) h = Some (root, h') \<and>
    stands e h' (fill c t) \<and> keeps_recs h h'"
proof -
  let ?d = "order e" and ?p = "\<lambda>t. Node_at (addr t)"
  obtain m where m: "nodes h a = Some m" "\<not> is_leaf m" "parent m = par_of c"
      "holds ?d m (kl @ kr) (map ?p ls @ ?p l # map ?p rs)" and len: "length ls = length kl" "length rs = length kr"
    and kids: "\<forall>t \<in> set ls \<union> set rs. rep ?d (nodes h) (Node_at a) t" and c: "rep_c ?d (nodes h) c a"
    using rep(1) by auto
  obtain m' where m': "insert_into_node root (Node_at a) (length kl) k (?p r) h = Some (root, h\<lparr>nodes := (nodes h)(a \<mapsto> m')\<rparr>)"
      "is_leaf m' = is_leaf m" "parent m' = parent m" "holds ?d m' (kl @ k # kr) (map ?p ls @ ?p l # ?p r # map ?p rs)"
    using insert_into_node_ok [OF m(1,4), of root k "?p r"] len room by auto
  let ?h = "h\<lparr>nodes := (nodes h)(a \<mapsto> m')\<rparr>"
  have ch: "changes {a} h ?h" by (rule changes_one) simp
  have "rep ?d (nodes ?h) (Node_at a) u" if "u \<in> set (ls @ l # r # rs)" for u
    by (rule changes_rep [OF ch]) (use that rep kids dist in auto)
  then have "rep ?d (nodes ?h) (par_of c) t" using m' m(2,3) len by (simp add: t_def)
  moreover have "rep_c ?d (nodes ?h) c (addr t)"
    using changes_rep_c [OF ch _ c] dist by (simp add: t_def)
  moreover have "distinct (addrs_c c @ addrs t)"
    by (rule distinct_mset_eq [OF dist]) (simp add: t_def ac_simps)
  moreover have "nodes_free ?h (set (addrs_c c @ addrs t))"
    by (rule changes_free [OF ch]) (use free in \<open>auto simp: t_def Un_ac insert_commute\<close>)
  moreover have "shaped ?d (c = []) (Suc n) t"
    using sh occupied_more [of "c = []" "cut ?d - 1" "length (kl @ kr)" "Suc (length (kl @ kr))"] by (auto simp: t_def)
  moreover have "shaped_c ?d (Suc n) c" using sh(3) by simp
  ultimately have "stands e ?h (fill c t)" by (intro stands_fill) 
  then show ?thesis using m'(1) changesD(2) [OF ch] by blast
qed

text \<open>The parent is full.\<close>

lemma insert_into_parent_split:
  assumes e: "env_ok e"
    and rep: "rep_c (order e) (nodes h) (Frame a ls kl kr rs # c) (addr l)"
      "rep (order e) (nodes h) (Node_at a) l" "rep (order e) (nodes h) (Node_at a) r"
    and dist: "distinct (addrs_c (Frame a ls kl kr rs # c) @ addrs l @ addrs r)"
    and free: "nodes_free h (set (addrs_c (Frame a ls kl kr rs # c) @ addrs l @ addrs r))"
    and sh: "shaped (order e) False n l" "shaped (order e) False n r" "shaped_c (order e) n (Frame a ls kl kr rs # c)"
    and full: "length (kl @ kr) = order e - 1"
  shows "\<exists>L R k' h1. split_node e (Node_at a) (length kl) k (Node_at (addr r)) h = Some (k', Node_at (addr R), h1) \<and>
    addr L = a \<and> rep_c (order e) (nodes h1) c (addr L) \<and> rep (order e) (nodes h1) (par_of c) L \<and>
    rep (order e) (nodes h1) (par_of c) R \<and> distinct (addrs_c c @ addrs L @ addrs R) \<and>
    nodes_free h1 (set (addrs_c c @ addrs L @ addrs R)) \<and>
    shaped (order e) False (Suc n) L \<and> shaped (order e) False (Suc n) R \<and> keeps_recs h h1 \<and>
    items L @ Sep k' # items R = weave_left (map items ls) kl @ items l @ Sep k # items r @ weave_right kr (map items rs) \<and>
    links L @ links R = concat (map links ls) @ links l @ links r @ concat (map links rs)"
proof -
  let ?d = "order e" and ?p = "\<lambda>t. Node_at (addr t)" and ?j = "cut (order e)"
  have d: "3 \<le> ?d" "0 < ?j" "?j < ?d" using env_okD(1) [OF e] cut_bounds [of ?d] by auto
  obtain m where m: "nodes h a = Some m" "\<not> is_leaf m" "parent m = par_of c"
      "holds ?d m (kl @ kr) (map ?p (ls @ l # rs))" and len: "length ls = length kl" "length rs = length kr"
    and kids: "\<forall>t \<in> set ls \<union> set rs. rep ?d (nodes h) (Node_at a) t" and c: "rep_c ?d (nodes h) c a"
    using rep(1) by auto
  define ts where "ts = ls @ l # r # rs"
  define ks where "ks = kl @ k # kr"
  define U where "U = set (addrs_c (Frame a ls kl kr rs # c) @ addrs l @ addrs r)"
  have tk: "length ts = Suc ?d" "length ks = ?d" using len full d(1) by (simp_all add: ts_def ks_def)
  have U: "U = set (a # concat (map addrs ts)) \<union> set (addrs_c c)" by (auto simp: U_def ts_def)
  have dd: "distinct (addrs_c c @ a # concat (map addrs ts))"
    by (rule distinct_mset_eq [OF dist]) (simp add: ts_def ac_simps)
  have p1: "\<forall>t \<in> set ts. rep ?d (nodes h) (Node_at a) t" using kids rep(2,3) by (auto simp: ts_def)
  have p2: "distinct (a # concat (map addrs ts))" "set (concat (map addrs ts)) \<subseteq> U" "a \<in> U" using dd U by auto
  obtain b h1 where h1: "split_node e (Node_at a) (length kl) k (?p r) h = Some (ks ! (?j - 1), Node_at b, h1)"
      "b \<notin> U" "rep ?d (nodes h1) (par_of c) (Inner a (take ?j ts) (take (?j - 1) ks))"
      "rep ?d (nodes h1) (par_of c) (Inner b (drop ?j ts) (drop ?j ks))"
      "\<forall>x \<in> U - set (a # concat (map addrs ts)). nodes h1 x = nodes h x" "nodes_free h1 (insert b U)" "keeps_recs h h1"
    using split_node_ok [OF e free [folded U_def] p2(3) m(1,2,4) len full p1 [unfolded ts_def] p2(1,2) [unfolded ts_def], of k]
    unfolding ts_def [symmetric] ks_def [symmetric] m(3) by (elim exE conjE) (rule that)
  let ?L = "Inner a (take ?j ts) (take (?j - 1) ks)" and ?R = "Inner b (drop ?j ts) (drop ?j ks)"
  have cat: "concat (map f (take ?j ts)) @ concat (map f (drop ?j ts)) = concat (map f ts)" for f :: "btree \<Rightarrow> 'x list"
    by (simp only: concat_append [symmetric] map_append [symmetric] append_take_drop_id)
  have ms: "mset (addrs_c c @ addrs ?L @ addrs ?R) = mset (b # addrs_c c @ a # concat (map addrs ts))"
    using arg_cong [OF cat [of addrs], of mset] by (simp add: ac_simps)
  have "distinct (b # addrs_c c @ a # concat (map addrs ts))" using dd h1(2) U by auto
  then have "distinct (addrs_c c @ addrs ?L @ addrs ?R)" by (rule distinct_mset_eq) (rule ms)
  moreover have "insert b U = set (addrs_c c @ addrs ?L @ addrs ?R)" unfolding U mset_eq_setD [OF ms] by auto
  then have "nodes_free h1 (set (addrs_c c @ addrs ?L @ addrs ?R))" using h1(6) by (simp only:)
  moreover have "rep_c ?d (nodes h1) c (addr ?L)"
    using c h1(5) dd U by (subst rep_c_cong [of c "nodes h1" "nodes h"]) auto
  moreover have "items ?L @ Sep (ks ! (?j - 1)) # items ?R = weave_left (map items ls) kl @ items l @ Sep k # items r @ weave_right kr (map items rs)"
    using items_split [of ts ks ?j a b] tk d items_inserted [OF len(1), of a l r rs k kr]
    by (simp add: ts_def ks_def)
  moreover have "links ?L @ links ?R = concat (map links ls) @ links l @ links r @ concat (map links rs)"
    using cat [of links] by (simp add: ts_def)
  moreover have "shaped ?d False (Suc n) ?L" "shaped ?d False (Suc n) ?R"
    by (rule shaped_split; use d(1) tk sh in \<open>auto simp: ts_def\<close>)+
  moreover have "addr ?L = a" "?p ?R = Node_at b" by simp_all
  ultimately show ?thesis using h1(1,3,4,7)
    by (intro exI [of _ ?L] exI [of _ ?R] exI [of _ "ks ! (?j - 1)"] exI [of _ h1] conjI) (simp_all only:)
qed

lemma insert_into_parent_ok:
  assumes e: "env_ok e"
    and rep: "rep_c (order e) (nodes h) c (addr l)" "rep (order e) (nodes h) (par_of c) l" "rep (order e) (nodes h) (par_of c) r"
    and dist: "distinct (addrs_c c @ addrs l @ addrs r)" and free: "nodes_free h (set (addrs_c c @ addrs l @ addrs r))"
    and sh: "shaped (order e) False n l" "shaped (order e) False n r" "shaped_c (order e) n c"
  shows "\<exists>t h'. insert_into_parent e (Node_at (root_of c (addr l))) (Node_at (addr l)) k (Node_at (addr r)) h
      = Some (Node_at (addr t), h') \<and> stands e h' t \<and> keeps_recs h h' \<and>
    items t = items_l c @ items l @ Sep k # items r @ items_r c \<and> links t = links_l c @ links l @ links r @ links_r c"
  using rep dist free sh
proof (induction c arbitrary: l r k n h)
  case Nil
  obtain m where m: "nodes h (addr l) = Some m" "parent m = Null" using rep_root [OF Nil.prems(2)] by auto
  obtain a h' where a: "insert_into_new_root e (Node_at (addr l)) k (Node_at (addr r)) h = Some (Node_at a, h')"
      "a \<notin> set (addrs l @ addrs r)" "rep (order e) (nodes h') Null (Inner a [l, r] [k])"
      "nodes_free h' (insert a (set (addrs l @ addrs r)))" "keeps_recs h h'"
    using insert_into_new_root_ok [OF e, of h "set (addrs l @ addrs r)" l r k] Nil.prems by auto
  have "insert_into_parent e (Node_at (root_of [] (addr l))) (Node_at (addr l)) k (Node_at (addr r)) h = Some (Node_at a, h')"
    by (subst insert_into_parent.simps) (simp add: get_node_def m a(1))
  moreover have "stands e h' (fill [] (Inner a [l, r] [k]))"
    by (rule stands_fill [where n = "Suc n"]) (use a Nil.prems in \<open>simp_all add: occupied_def\<close>)
  ultimately show ?case using a(5) by (intro exI [of _ "Inner a [l, r] [k]"] exI [of _ h']) simp
next
  case (Cons f c)
  obtain a ls kl kr rs where f: "f = Frame a ls kl kr rs" by (cases f)
  note prems = Cons.prems [unfolded f]
  let ?d = "order e" and ?p = "\<lambda>t. Node_at (addr t)"
  obtain m where m: "nodes h a = Some m" "\<not> is_leaf m" "parent m = par_of c"
      "holds ?d m (kl @ kr) (map ?p (ls @ l # rs))" and len: "length ls = length kl" "length rs = length kr"
    and kids: "\<forall>t \<in> set ls \<union> set rs. rep ?d (nodes h) (Node_at a) t" and c: "rep_c ?d (nodes h) c a"
    using prems(1) by auto
  obtain ml where ml: "nodes h (addr l) = Some ml" "parent ml = Node_at a" using rep_root [OF prems(2)] by auto
  have "addr l \<notin> addr ` set ls"
  proof
    assume "addr l \<in> addr ` set ls"
    then obtain u where "u \<in> set ls" "addr l = addr u" by blast
    then have "addr l \<in> set (concat (map addrs ls))" using addr_in_concat [of u ls] by simp
    then have "addr l \<in> set (addrs_c (Frame a ls kl kr rs # c))" by simp
    moreover have "addr l \<in> set (addrs l @ addrs r)" by simp
    moreover have "set (addrs_c (Frame a ls kl kr rs # c)) \<inter> set (addrs l @ addrs r) = {}"
      using prems(4) by (simp only: distinct_append)
    ultimately show False by blast
  qed
  then have idx: "get_left_index (Node_at a) (Node_at (addr l)) h = Some (length kl)"
    using get_left_index_ok [OF prems(1)] len(1) by simp
  have step: "insert_into_parent e root (Node_at (addr l)) k (Node_at (addr r)) h =
    (if num_keys m < ?d - 1 then insert_into_node root (Node_at a) (length kl) k (Node_at (addr r)) h
     else split_node e (Node_at a) (length kl) k (Node_at (addr r)) h \<bind>
       (\<lambda>(k_prime, new_node, h). insert_into_parent e root (Node_at a) k_prime new_node h))" for root
    by (subst insert_into_parent.simps) (simp add: get_node_def m(1) ml idx)
  show ?case
  proof (cases "num_keys m < ?d - 1")
    case True
    then have room: "length (kl @ kr) < ?d - 1" using holdsD(1) [OF m(4)] by simp
    let ?t = "Inner a (ls @ l # r # rs) (kl @ k # kr)"
    obtain h' where h': "insert_into_node (Node_at (root_of c a)) (Node_at a) (length kl) k (Node_at (addr r)) h = Some (Node_at (root_of c a), h')"
        "stands e h' (fill c ?t)" "keeps_recs h h'"
      using insert_into_parent_room [OF prems(1) prems(2,3) [unfolded par_of.simps] prems(4-8) room] by blast
    have "items (fill c ?t) = items_l (f # c) @ items l @ Sep k # items r @ items_r (f # c)"
      using rep_c_framed [OF c] by (simp only: items_fill items_inserted [OF len(1)] f items_l.simps items_r.simps append.simps append_assoc)
    moreover have "links (fill c ?t) = links_l (f # c) @ links l @ links r @ links_r (f # c)" by (simp add: links_fill f)
    moreover have "insert_into_parent e (Node_at (root_of (f # c) (addr l))) (Node_at (addr l)) k (Node_at (addr r)) h = Some (Node_at (addr (fill c ?t)), h')"
      using h'(1) True unfolding f root_of.simps step addr_fill addr.simps by (simp only: if_True)
    ultimately show ?thesis using h'(2,3) by (intro exI [of _ "fill c ?t"] exI [of _ h'] conjI)
  next
    case False
    have full: "length (kl @ kr) = ?d - 1" using False holdsD(1,4) [OF m(4)] by simp
    obtain L R k' h1 where h1: "split_node e (Node_at a) (length kl) k (Node_at (addr r)) h = Some (k', Node_at (addr R), h1)"
        "addr L = a" "rep_c ?d (nodes h1) c (addr L)" "rep ?d (nodes h1) (par_of c) L" "rep ?d (nodes h1) (par_of c) R"
        "distinct (addrs_c c @ addrs L @ addrs R)" "nodes_free h1 (set (addrs_c c @ addrs L @ addrs R))"
        "shaped ?d False (Suc n) L" "shaped ?d False (Suc n) R" "keeps_recs h h1"
        "items L @ Sep k' # items R = weave_left (map items ls) kl @ items l @ Sep k # items r @ weave_right kr (map items rs)"
        "links L @ links R = concat (map links ls) @ links l @ links r @ concat (map links rs)"
      using insert_into_parent_split [OF e prems(1) prems(2,3) [unfolded par_of.simps] prems(4-8) full, of k]
      by (elim exE conjE) (rule that)
    have "shaped_c ?d (Suc n) c" using prems(8) by simp
    from Cons.IH [OF h1(3-9) this, of k'] obtain t h' where
      t: "insert_into_parent e (Node_at (root_of c (addr L))) (Node_at (addr L)) k' (Node_at (addr R)) h1 = Some (Node_at (addr t), h')"
        "stands e h' t" "keeps_recs h1 h'" "items t = items_l c @ items L @ Sep k' # items R @ items_r c"
        "links t = links_l c @ links L @ links R @ links_r c" by (elim exE conjE) (rule that)
    have "items t = items_l (f # c) @ items l @ Sep k # items r @ items_r (f # c)"
      using t(4) arg_cong [OF h1(11), of "\<lambda>xs. items_l c @ xs @ items_r c"] by (simp add: f)
    moreover have "links t = links_l (f # c) @ links l @ links r @ links_r (f # c)"
      using t(5) arg_cong [OF h1(12), of "\<lambda>xs. links_l c @ xs @ links_r c"] by (simp add: f)
    moreover have "insert_into_parent e (Node_at (root_of (f # c) (addr l))) (Node_at (addr l)) k (Node_at (addr r)) h = Some (Node_at (addr t), h')"
      using t(1) False unfolding f root_of.simps step h1(2) h1(1) by (simp only: if_False bind.bind_lunit prod.case)
    ultimately show ?thesis using t(2) keeps_trans(1) [OF h1(10) t(3)]
      by (intro exI [of _ t] exI [of _ h'] conjI)
  qed
qed

end
