(* ===== verification/BTreeIndex.thy ===== *)
theory BTreeIndex
  imports BTreeInsert
begin

text \<open>
  The B+ tree as an index: the map from keys to values that a heap represents, and the correctness of
  \<open>find\<close> and \<open>insert\<close> with respect to it.
\<close>

subsection \<open>The index as a map\<close>

text \<open>The values of the records that a tree refers to.\<close>

definition value_map :: "(nat \<rightharpoonup> bt_record) \<Rightarrow> btree \<Rightarrow> u64 \<rightharpoonup> u64" where
  "value_map R t key = map_of (ents (items t)) key \<bind> (\<lambda>r. map_option rec_value (R r))"

definition recs_of :: "btree \<Rightarrow> nat set" where
  "recs_of t = snd ` set (ents (items t))"

definition index_of :: "bt_env \<Rightarrow> bt_heap \<Rightarrow> btree \<Rightarrow> bool" where
  "index_of e h t \<longleftrightarrow> tree_ok (order e) (nodes h) t \<and> nodes_free h (set (addrs t)) \<and>
     distinct (map snd (ents (items t))) \<and> recs_free h (recs_of t) \<and> (\<forall>r \<in> recs_of t. recs h r \<noteq> None)"

text \<open>
  The invariant of the program between two operations: the root points to a well-formed B+ tree
  with the contents \<open>m\<close>, or is null, and the free lists are apart from it.
\<close>

definition bt_ok :: "bt_env \<Rightarrow> pointer \<Rightarrow> bt_heap \<Rightarrow> (u64 \<rightharpoonup> u64) \<Rightarrow> bool" where
  "bt_ok e root h m \<longleftrightarrow>
     root = Null \<and> m = Map.empty \<and> nodes_free h {} \<and> recs_free h {} \<or>
     (\<exists>t. root = Node_at (addr t) \<and> index_of e h t \<and> m = value_map (recs h) t)"

lemma bt_ok_empty: "bt_ok e Null empty_heap Map.empty"
  by (simp add: bt_ok_def nodes_free_def recs_free_def empty_heap_def)

text \<open>\<open>find\<close> finds the record with the value of the key.\<close>

lemma find_bt_value:
  assumes "bt_ok e root h m"
  shows "case m key of
      None \<Rightarrow> \<exists>leaf. find_bt root key h = Some (Null, leaf)
    | Some v \<Rightarrow> \<exists>r rc leaf. find_bt root key h = Some (Rec_at r, leaf) \<and> recs h r = Some rc \<and> rec_value rc = v"
  using assms unfolding bt_ok_def
proof (elim disjE exE conjE)
  assume "root = Null" "m = Map.empty"
  then show ?thesis by (simp add: find_bt_def)
next
  fix t assume t: "root = Node_at (addr t)" "index_of e h t" "m = value_map (recs h) t"
  obtain a es where f: "find_bt root key h = Some (rec_ptr (map_of es key), Node_at a)" "map_of (ents (items t)) key = map_of es key"
    using find_bt_correct [of "order e" h t key] t(1,2) by (auto simp: index_of_def)
  show ?thesis
  proof (cases "map_of es key")
    case None
    then show ?thesis using f t(3) by (simp add: value_map_def)
  next
    case (Some r)
    then have "r \<in> recs_of t" using f(2) by (force simp: recs_of_def dest: map_of_SomeD)
    then obtain rc where "recs h r = Some rc" using t(2) by (auto simp: index_of_def)
    then show ?thesis using f t(3) Some by (simp add: value_map_def)
  qed
qed

subsection \<open>Order after an insertion\<close>

lemma set_insert_entry: "set (insert_entry k r es) = insert (k, r) (set es)"
proof -
  have "set es = set (takeWhile (\<lambda>e. fst e < k) es) \<union> set (dropWhile (\<lambda>e. fst e < k) es)"
    by (metis set_append takeWhile_dropWhile_id)
  then show ?thesis by (auto simp: insert_entry_def)
qed

lemma ordered_Ent: "ordered (map (\<lambda>(k, r). Ent k r) es) \<longleftrightarrow> sorted_wrt (<) (map fst es)"
  by (induction es) (auto simp: split_beta simp del: rank.simps)

lemma insert_entry_simps [simp]:
  "insert_entry k r [] = [(k, r)]"
  "insert_entry k r (e # es) = (if fst e < k then e # insert_entry k r es else (k, r) # e # es)"
  by (simp_all add: insert_entry_def)

lemma sorted_insert_entry:
  assumes "sorted_wrt (<) (map fst es)" "k \<notin> fst ` set es"
  shows "sorted_wrt (<) (map fst (insert_entry k r es))"
  using assms
proof (induction es)
  case (Cons e es)
  show ?case
  proof (cases "fst e < k")
    case True
    then show ?thesis using Cons by (auto simp: set_insert_entry)
  next
    case False
    then have "k < fst e" using Cons.prems(2) by auto
    then show ?thesis using Cons.prems(1) False by (auto intro: less_trans)
  qed
qed simp

lemma map_of_insert: "k \<notin> fst ` set A \<Longrightarrow> map_of (A @ (k, r) # B) = (map_of (A @ B))(k \<mapsto> r)"
  by (induction A) (auto simp: fun_upd_twist)

text \<open>The items of a tree with one more entry in the leaf where the key belongs.\<close>

lemma inserted_items:
  assumes "ordered (items_l c @ map (\<lambda>(k, r). Ent k r) es @ items_r c)" "located k c" "k \<notin> fst ` set es"
  shows "ordered (items_l c @ map (\<lambda>(k, r). Ent k r) (insert_entry k r es) @ items_r c)"
    "map_of (ents (items_l c @ map (\<lambda>(k, r). Ent k r) (insert_entry k r es) @ items_r c))
      = (map_of (ents (items_l c @ map (\<lambda>(k, r). Ent k r) es @ items_r c)))(k \<mapsto> r)"
proof -
  have l: "\<forall>x \<in> set (items_l c). rank x < rank (Ent k r)" "\<forall>x \<in> set (items_r c). rank (Ent k r) < rank x"
    using assms(2) by (simp_all add: located_def)
  show "ordered (items_l c @ map (\<lambda>(k, r). Ent k r) (insert_entry k r es) @ items_r c)"
    using assms(1,3) l sorted_insert_entry [of es k r] unfolding ordered_simps set_append ordered_Ent
    by (auto simp: set_insert_entry ball_Un simp del: rank.simps)
  let ?A = "takeWhile (\<lambda>e. fst e < k) es" and ?B = "dropWhile (\<lambda>e. fst e < k) es"
  have "k \<notin> fst ` set (ents (items_l c))" using assms(2) unfolding located_def by (force simp: set_ents)
  moreover have "k \<notin> fst ` set ?A" by (auto dest: set_takeWhileD)
  ultimately have "k \<notin> fst ` set (ents (items_l c) @ ?A)" by auto
  from map_of_insert [OF this, of r "?B @ ents (items_r c)"]
  show "map_of (ents (items_l c @ map (\<lambda>(k, r). Ent k r) (insert_entry k r es) @ items_r c))
      = (map_of (ents (items_l c @ map (\<lambda>(k, r). Ent k r) es @ items_r c)))(k \<mapsto> r)"
    unfolding ents_append ents_Ent by (simp add: insert_entry_def del: map_of_append)
      (metis append_assoc takeWhile_dropWhile_id)
qed

lemma mset_insert_entry: "mset (insert_entry k r es) = add_mset (k, r) (mset es)"
  by (induction es) auto

text \<open>A separator between two entries keeps the order.\<close>

lemma ordered_sep:
  assumes "ordered (L @ Ent k' r' # Ent k r # R)"
  shows "ordered (L @ Ent k' r' # Sep k # Ent k r # R)"
proof -
  have k: "unat k' < unat k" using assms by simp
  have "rank x < 2 * unat k" if "x \<in> set L" for x
  proof -
    have "rank x < Suc (2 * unat k')" using assms that by simp
    with k show ?thesis by simp
  qed
  moreover have "2 * unat k < rank y" if "y \<in> set R" for y
  proof -
    have "Suc (2 * unat k) < rank y" using assms that by simp
    then show ?thesis by simp
  qed
  ultimately show ?thesis using assms k by simp
qed

lemma ordered_separated:
  assumes "ordered (A @ map (\<lambda>(k, r). Ent k r) es @ B)" "0 < j" "j < length es"
  shows "ordered (A @ map (\<lambda>(k, r). Ent k r) (take j es) @ Sep (fst (es ! j)) # map (\<lambda>(k, r). Ent k r) (drop j es) @ B)"
proof -
  let ?E = "map (\<lambda>(k, r). Ent k r)"
  obtain i where i: "j = Suc i" using assms(2) by (cases j) auto
  obtain k r k' r' where kr: "es ! j = (k, r)" "es ! i = (k', r')" by (cases "es ! j"; cases "es ! i")
  have d: "drop j es = (k, r) # drop (Suc j) es" using assms(3) kr(1) by (metis Cons_nth_drop_Suc)
  have t: "take j es = take i es @ [(k', r')]" using assms(3) kr(2) unfolding i by (simp add: take_Suc_conv_app_nth)
  have "es = take i es @ (k', r') # (k, r) # drop (Suc j) es"
    using append_take_drop_id [of j es] unfolding d t by simp
  then have "?E es = ?E (take i es) @ Ent k' r' # Ent k r # ?E (drop (Suc j) es)"
    using map_append by (metis (mono_tags, lifting) list.simps(9) old.prod.case)
  then have "ordered ((A @ ?E (take i es)) @ Ent k' r' # Ent k r # ?E (drop (Suc j) es) @ B)" using assms(1) by simp
  from ordered_sep [OF this] show ?thesis unfolding t d kr(1) by (simp del: ordered_simps)
qed

text \<open>What an insertion of a new key makes of the tree.\<close>

definition grows_to :: "bt_env \<Rightarrow> bt_heap \<Rightarrow> btree \<Rightarrow> u64 \<Rightarrow> nat \<Rightarrow> bt_heap \<Rightarrow> btree \<Rightarrow> bool" where
  "grows_to e h t k r h' t' \<longleftrightarrow> tree_ok (order e) (nodes h') t' \<and> nodes_free h' (set (addrs t')) \<and> keeps_recs h h' \<and>
     map_of (ents (items t')) = (map_of (ents (items t)))(k \<mapsto> r) \<and>
     mset (ents (items t')) = add_mset (k, r) (mset (ents (items t)))"

lemma insert_room:
  assumes t: "tree_ok (order e) (nodes h) t" "nodes_free h (set (addrs t))" "t = fill c (Leaf a es nx)" "located k c"
    "map_of es k = None" and room: "length es < order e - 1"
  shows "\<exists>h'. insert_into_leaf (Node_at a) k (Rec_at r) h = Some (Node_at a, h') \<and>
    grows_to e h t k r h' (fill c (Leaf a (insert_entry k r es) nx))"
proof -
  let ?d = "order e" and ?t = "fill c (Leaf a (insert_entry k r es) nx)"
  have fr: "framed c" using t(4) by (simp add: located_def)
  have rep: "rep_c ?d (nodes h) c a" "rep ?d (nodes h) (par_of c) (Leaf a es nx)"
    using tree_okD(1) [OF t(1)] fr unfolding t(3) by (simp_all add: rep_fill)
  have dist: "distinct (addrs_c c @ [a])" using tree_okD(2) [OF t(1)] unfolding t(3) by (simp add: distinct_fill)
  obtain n where n: "insert_into_leaf (Node_at a) k (Rec_at r) h = Some (Node_at a, h\<lparr>nodes := (nodes h)(a \<mapsto> n)\<rparr>)"
      "rep ?d (nodes (h\<lparr>nodes := (nodes h)(a \<mapsto> n)\<rparr>)) (par_of c) (Leaf a (insert_entry k r es) nx)"
    using insert_into_leaf_ok [OF rep(2) room, of k r] by blast
  let ?h = "h\<lparr>nodes := (nodes h)(a \<mapsto> n)\<rparr>"
  have ch: "changes {a} h ?h" by (rule changes_one) simp
  have k: "k \<notin> fst ` set es" using t(5) by (simp add: map_of_eq_None_iff)
  have it: "items t = items_l c @ map (\<lambda>(k, r). Ent k r) es @ items_r c"
    "items ?t = items_l c @ map (\<lambda>(k, r). Ent k r) (insert_entry k r es) @ items_r c"
    unfolding t(3) using fr by (simp_all add: items_fill)
  obtain m where m: "shaped ?d (c = []) m (Leaf a es nx)" "shaped_c ?d m c"
    using tree_okD(4) [OF t(1)] shaped_fill [OF fr] unfolding t(3) by blast
  have "rep_c ?d (nodes ?h) c a" by (rule changes_rep_c [OF ch _ rep(1)]) (use dist in simp)
  then have "rep ?d (nodes ?h) Null ?t" using n(2) fr by (simp add: rep_fill)
  moreover have "distinct (addrs ?t)" using dist by (simp add: distinct_fill)
  moreover have "ordered (items ?t)"
    unfolding it by (rule inserted_items(1)) (use tree_okD(3) [OF t(1)] it t(4) k in simp_all)
  moreover have "\<exists>m. shaped ?d True m ?t"
    using m shaped_fill [OF fr, of ?d "Leaf a (insert_entry k r es) nx"] occupied_more [of "c = []" "cut (?d - 1)" "length es"]
    by (auto intro!: exI [of _ m])
  moreover have "chained (links ?t)" using tree_okD(5) [OF t(1)] unfolding t(3) by (simp add: links_fill)
  ultimately have "tree_ok ?d (nodes ?h) ?t" by (simp add: tree_ok_def)
  moreover have "nodes_free ?h (set (addrs ?t))"
    by (rule changes_free [OF ch]) (use t(2) in \<open>simp_all add: t(3) set_addrs_fill\<close>)
  moreover have "map_of (ents (items ?t)) = (map_of (ents (items t)))(k \<mapsto> r)"
    unfolding it by (rule inserted_items(2)) (use tree_okD(3) [OF t(1)] it t(4) k in simp_all)
  moreover have "mset (ents (items ?t)) = add_mset (k, r) (mset (ents (items t)))"
    unfolding it by (simp add: mset_insert_entry)
  ultimately show ?thesis using n(1) changesD(2) [OF ch] unfolding grows_to_def by blast
qed

lemma insert_split:
  assumes e: "env_ok e"
    and t: "tree_ok (order e) (nodes h) t" "nodes_free h (set (addrs t))" "t = fill c (Leaf a es nx)" "located k c"
    "map_of es k = None" and full: "length es = order e - 1"
  shows "\<exists>t' h'. insert_into_leaf_after_splitting e (Node_at (addr t)) (Node_at a) k (Rec_at r) h = Some (Node_at (addr t'), h') \<and>
    grows_to e h t k r h' t'"
proof -
  let ?d = "order e" and ?E = "map (\<lambda>(k, r). Ent k r)"
  define j where "j = cut (?d - 1)"
  define es' where "es' = insert_entry k r es"
  have j: "0 < j" "j < ?d" "length es' = ?d" "2 * j \<le> ?d"
    using env_okD(1) [OF e] cut_bounds [of "?d - 1"] full by (auto simp: j_def es'_def)
  have fr: "framed c" using t(4) by (simp add: located_def)
  have rep: "rep_c ?d (nodes h) c a" "rep ?d (nodes h) (par_of c) (Leaf a es nx)"
    using tree_okD(1) [OF t(1)] fr unfolding t(3) by (simp_all add: rep_fill)
  have dist: "distinct (addrs_c c @ [a])" using tree_okD(2) [OF t(1)] unfolding t(3) by (simp add: distinct_fill)
  define U where "U = set (addrs_c c @ [a])"
  have U: "nodes_free h U" "a \<in> U" using t(2) by (simp_all add: U_def t(3) set_addrs_fill)
  obtain b h1 where h1: "split_leaf e (Node_at a) k (Rec_at r) h = Some (fst (es' ! j), Node_at b, h1)" "b \<notin> U"
      "rep ?d (nodes h1) (par_of c) (Leaf a (take j es') (Node_at b))" "rep ?d (nodes h1) (par_of c) (Leaf b (drop j es') nx)"
      "\<forall>x \<in> U - {a}. nodes h1 x = nodes h x" "nodes_free h1 (insert b U)" "keeps_recs h h1"
    using split_leaf_ok [OF e U rep(2) full, of k r] unfolding j_def [symmetric] es'_def [symmetric] by (elim exE conjE) (rule that)
  let ?l = "Leaf a (take j es') (Node_at b)" and ?r = "Leaf b (drop j es') nx"
  have rc: "rep_c ?d (nodes h1) c (addr ?l)"
    using rep(1) h1(5) dist by (subst rep_c_cong [of c "nodes h1" "nodes h"]) (auto simp: U_def)
  have dd: "distinct (addrs_c c @ addrs ?l @ addrs ?r)" using dist h1(2) by (auto simp: U_def)
  have nf: "nodes_free h1 (set (addrs_c c @ addrs ?l @ addrs ?r))" using h1(6) by (simp add: U_def insert_commute)
  obtain m where m: "shaped ?d (c = []) m (Leaf a es nx)" "shaped_c ?d m c"
    using tree_okD(4) [OF t(1)] shaped_fill [OF fr] unfolding t(3) by blast
  have sh: "shaped ?d False m ?l" "shaped ?d False m ?r" using m(1) j by (simp_all add: occupied_def j_def)
  obtain t' h' where h': "insert_into_parent e (Node_at (root_of c a)) (Node_at a) (fst (es' ! j)) (Node_at b) h1 = Some (Node_at (addr t'), h')"
      "stands e h' t'" "keeps_recs h1 h'" "items t' = items_l c @ items ?l @ Sep (fst (es' ! j)) # items ?r @ items_r c"
      "links t' = links_l c @ links ?l @ links ?r @ links_r c"
    using insert_into_parent_ok [OF e rc h1(3,4) dd nf sh m(2), of "fst (es' ! j)"] unfolding addr.simps
    by (elim exE conjE) (rule that)
  have run: "insert_into_leaf_after_splitting e (Node_at (addr t)) (Node_at a) k (Rec_at r) h = Some (Node_at (addr t'), h')"
    using h1(1) h'(1) by (simp add: insert_into_leaf_after_splitting_def t(3) addr_fill)
  have k: "k \<notin> fst ` set es" using t(5) by (simp add: map_of_eq_None_iff)
  have it: "items t = items_l c @ ?E es @ items_r c" unfolding t(3) using fr by (simp add: items_fill)
  note ins = inserted_items [OF tree_okD(3) [OF t(1), unfolded it] t(4) k, of r, folded es'_def]
  have "ordered (items t')" using ordered_separated [OF ins(1) j(1)] j unfolding h'(4) by simp
  moreover have "chained (links t')"
    using tree_okD(5) [OF t(1)] chained_middle [of "links_l c" a nx "links_r c"]
      chained_middle [of "links_l c" a "Node_at b" "(b, nx) # links_r c"]
    unfolding h'(5) t(3) links_fill by (simp add: chained_Cons)
  ultimately have "tree_ok ?d (nodes h') t'" using h'(2) by (simp add: tree_ok_def stands_def)
  moreover have ents: "ents (items t') = ents (items_l c @ ?E es' @ items_r c)" unfolding h'(4) by simp
  ultimately show ?thesis
    using run h'(2) keeps_trans(1) [OF h1(7) h'(3)] ins(2)
    by (intro exI [of _ t'] exI [of _ h']) (simp add: grows_to_def stands_def ents it es'_def mset_insert_entry)
qed

text \<open>The last part of \<open>insert\<close>, for a key that is not in the tree.\<close>

lemma insert_new:
  assumes e: "env_ok e" and t: "tree_ok (order e) (nodes h) t" "nodes_free h (set (addrs t))" "map_of (ents (items t)) k = None"
  shows "\<exists>t' h'. do {
       leaf \<leftarrow> find_leaf (Node_at (addr t)) k h;
       n \<leftarrow> get_node leaf h;
       if num_keys n < order e - 1 then do {
         (_, h) \<leftarrow> insert_into_leaf leaf k (Rec_at r) h;
         Some (Node_at (addr t), h)
       } else insert_into_leaf_after_splitting e (Node_at (addr t)) leaf k (Rec_at r) h
     } = Some (Node_at (addr t'), h') \<and> grows_to e h t k r h' t'"
proof -
  obtain c a es nx where c: "t = fill c (Leaf a es nx)" "located k c" "find_leaf (Node_at (addr t)) k h = Some (Node_at a)"
      "map_of (ents (items t)) k = map_of es k"
    using find_bt_correct [OF t(1), of k] by (elim exE conjE) (rule that)
  have rep: "rep (order e) (nodes h) (par_of c) (Leaf a es nx)"
    using tree_okD(1) [OF t(1)] c(2) unfolding c(1) by (simp add: rep_fill located_def)
  then obtain n where n: "nodes h a = Some n" "holds (order e) n (map fst es) (map (\<lambda>e. Rec_at (snd e)) es)" by auto
  note nk = holdsD(1,4) [OF n(2), unfolded length_map]
  have None: "map_of es k = None" using c(4) t(3) by simp
  show ?thesis
  proof (cases "length es < order e - 1")
    case True
    obtain h' where "insert_into_leaf (Node_at a) k (Rec_at r) h = Some (Node_at a, h')"
        "grows_to e h t k r h' (fill c (Leaf a (insert_entry k r es) nx))"
      using insert_room [OF t(1,2) c(1,2) None True] by blast
    then show ?thesis using c(3) n(1) nk True
      by (intro exI [of _ "fill c (Leaf a (insert_entry k r es) nx)"] exI [of _ h']) (simp add: get_node_def addr_fill c(1))
  next
    case False
    then have "length es = order e - 1" using nk by simp
    from insert_split [OF e t(1,2) c(1,2) None this, of r] show ?thesis
      using c(3) n(1) nk False by (simp add: get_node_def)
  qed
qed

subsection \<open>Correctness of insertion\<close>

lemma distinct_snd_map_of:
  assumes "distinct (map snd xs)" "map_of xs k = Some r" "map_of xs k' = Some r"
  shows "k = k'"
proof -
  have "(k, r) \<in> set xs" "(k', r) \<in> set xs" using assms(2,3) by (simp_all add: map_of_SomeD)
  moreover have "inj_on snd (set xs)" using assms(1) by (simp add: distinct_map)
  ultimately show ?thesis using inj_onD [of snd "set xs" "(k, r)" "(k', r)"] by simp
qed

lemma map_of_recs_of: "map_of (ents (items t)) k = Some r \<Longrightarrow> r \<in> recs_of t"
  unfolding recs_of_def by (drule map_of_SomeD) (metis imageI snd_conv)

lemma find_bt_ptr:
  assumes "tree_ok d (nodes h) t"
  shows "\<exists>leaf. find_bt (Node_at (addr t)) k h = Some (rec_ptr (map_of (ents (items t)) k), leaf)"
proof -
  obtain a es where "find_bt (Node_at (addr t)) k h = Some (rec_ptr (map_of es k), Node_at a)"
      "map_of (ents (items t)) k = map_of es k"
    using find_bt_correct [OF assms, of k] by blast
  then show ?thesis by simp
qed

text \<open>A key that is in the tree: its record receives the value.\<close>

lemma insert_existing:
  assumes t: "index_of e h t" "map_of (ents (items t)) k = Some r"
  shows "\<exists>h'. insert_bt e (Node_at (addr t)) k v h = Some (Node_at (addr t), h') \<and> index_of e h' t \<and>
    value_map (recs h') t = (value_map (recs h) t)(k \<mapsto> v)"
proof -
  have r: "r \<in> recs_of t" using map_of_recs_of [OF t(2)] .
  then obtain rc where rc: "recs h r = Some rc" using t(1) by (auto simp: index_of_def)
  let ?h = "h\<lparr>recs := (recs h)(r \<mapsto> rc\<lparr>rec_value := v\<rparr>)\<rparr>"
  have ok: "tree_ok (order e) (nodes h) t" using t(1) by (simp add: index_of_def)
  obtain leaf where "find_bt (Node_at (addr t)) k h = Some (Rec_at r, leaf)"
    using find_bt_ptr [OF ok, of k] t(2) by auto
  then have "insert_bt e (Node_at (addr t)) k v h = Some (Node_at (addr t), ?h)"
    by (simp add: insert_bt_def get_rec_def set_rec_def rc)
  moreover have "recs_free ?h (recs_of t)"
    by (rule recs_free_update [of h]) (use t(1) r in \<open>auto simp: index_of_def\<close>)
  then have "index_of e ?h t" using t(1) by (auto simp: index_of_def nodes_free_def)
  moreover have "value_map (recs ?h) t = (value_map (recs h) t)(k \<mapsto> v)"
  proof
    fix k'
    have "map_of (ents (items t)) k' = Some r \<Longrightarrow> k' = k"
      using distinct_snd_map_of [of "ents (items t)" k' r k] t by (simp add: index_of_def)
    then show "value_map (recs ?h) t k' = ((value_map (recs h) t)(k \<mapsto> v)) k'"
      using t(2) by (cases "map_of (ents (items t)) k'") (auto simp: value_map_def)
  qed
  ultimately show ?thesis by blast
qed

text \<open>The heap after a new record was made and entered into the tree.\<close>

lemma grown_index:
  assumes t: "index_of e h t" "map_of (ents (items t)) k = None"
    and r: "r \<notin> recs_of t" "recs h1 r = Some rc" "\<forall>b \<in> recs_of t. recs h1 b = recs h b" "recs_free h1 (insert r (recs_of t))"
    and g: "grows_to e h1 t k r h' t'"
  shows "index_of e h' t'" "value_map (recs h') t' = (value_map (recs h) t)(k \<mapsto> rec_value rc)"
proof -
  have eqs: "mset (ents (items t')) = mset ((k, r) # ents (items t))" "keeps_recs h1 h'"
    using g by (simp_all add: grows_to_def)
  have recs': "recs_of t' = insert r (recs_of t)" unfolding recs_of_def mset_eq_setD [OF eqs(1)] by simp
  have rh: "recs h' = recs h1" using eqs(2) by (simp add: keeps_recs_def)
  have "distinct (map snd ((k, r) # ents (items t)))" using t(1) r(1) by (simp add: index_of_def recs_of_def)
  moreover have "mset (map snd (ents (items t'))) = mset (map snd ((k, r) # ents (items t)))"
    using arg_cong [OF eqs(1), of "image_mset snd"] by simp
  ultimately have "distinct (map snd (ents (items t')))" by (rule distinct_mset_eq)
  moreover have "recs_free h' (recs_of t')" using recs_free_keeps [OF r(4) eqs(2)] by (simp add: recs')
  moreover have "recs h' b \<noteq> None" if "b \<in> recs_of t'" for b
    using that r(2,3) t(1) by (auto simp: rh recs' index_of_def)
  ultimately show "index_of e h' t'" using g by (simp add: index_of_def grows_to_def)
  have m: "map_of (ents (items t')) = (map_of (ents (items t)))(k \<mapsto> r)" using g by (simp add: grows_to_def)
  show "value_map (recs h') t' = (value_map (recs h) t)(k \<mapsto> rec_value rc)"
  proof
    fix k'
    have "recs h1 b = recs h b" if "map_of (ents (items t)) k' = Some b" for b
      using r(3) map_of_recs_of [OF that] by blast
    then show "value_map (recs h') t' k' = ((value_map (recs h) t)(k \<mapsto> rec_value rc)) k'"
      using r(2) by (cases "map_of (ents (items t)) k'") (auto simp: value_map_def m rh)
  qed
qed

text \<open>The first key.\<close>

lemma start_new_tree_ok:
  assumes e: "env_ok e" and free: "nodes_free h {}"
  shows "\<exists>a h'. start_new_tree e k (Rec_at r) h = Some (Node_at a, h') \<and> keeps_recs h h' \<and>
    nodes_free h' {a} \<and> tree_ok (order e) (nodes h') (Leaf a [(k, r)] Null)"
proof -
  let ?d = "order e"
  have d: "?d = Suc (Suc (Suc (?d - 3)))" using env_okD(1) [OF e] by simp
  obtain a s h1 where a: "make_leaf e h = Some (Node_at a, h1)" "nodes h1 a = Some (fresh_node e True s)"
      "nodes_free h1 {a}" "keeps_recs h h1"
    using make_leaf_ok [OF e free] by auto
  define n where "n = (fresh_node e True s)\<lparr>keys := (replicate (?d - 1) 0)[0 := k],
    pointers := (replicate ?d Null)[0 := Rec_at r, ?d - 1 := Null], num_keys := 1\<rparr>"
  let ?h = "h1\<lparr>nodes := (nodes h1)(a \<mapsto> n)\<rparr>"
  have run: "start_new_tree e k (Rec_at r) h = Some (Node_at a, ?h)"
    using env_okD(1) [OF e] by (simp add: start_new_tree_def a(1,2) get_node_def set_node_def fresh_node_def n_def)
  obtain m where m: "?d = Suc (Suc (Suc m))" using d by blast
  have P: "pointers n = (replicate ?d Null)[0 := Rec_at r, ?d - 1 := Null]" by (simp add: n_def)
  also have "\<dots> = (replicate ?d Null)[0 := Rec_at r]"
    by (rule nth_equalityI) (use env_okD(1) [OF e] in \<open>auto simp: nth_list_update\<close>)
  finally have "holds ?d n [k] [Rec_at r]" "is_leaf n" "parent n = Null"
    by (simp_all add: n_def fresh_node_def m holds_def)
  moreover have "ld (pointers n) (?d - 1) = Some Null" unfolding P using env_okD(1) [OF e] by simp
  ultimately have "holds ?d n [k] [Rec_at r]" "ld (pointers n) (?d - 1) = Some Null" "is_leaf n" "parent n = Null" by blast+
  then have "rep ?d (nodes ?h) Null (Leaf a [(k, r)] Null)" by simp
  moreover have "shaped ?d True 0 (Leaf a [(k, r)] Null)" by (simp add: occupied_def)
  ultimately have "tree_ok ?d (nodes ?h) (Leaf a [(k, r)] Null)" unfolding tree_ok_def by auto
  moreover have "nodes_free ?h {a}" by (rule nodes_free_update [OF a(3)]) auto
  moreover have "keeps_recs h ?h" using a(4) by (simp add: keeps_recs_def)
  ultimately show ?thesis using run by blast
qed

text \<open>Inserting updates the map and keeps the invariant.\<close>

lemma insert_bt_ok:
  assumes e: "env_ok e" and ok: "bt_ok e root h m"
  shows "\<exists>root' h'. insert_bt e root k v h = Some (root', h') \<and> bt_ok e root' h' (m(k \<mapsto> v))"
  using ok unfolding bt_ok_def [of e root]
proof (elim disjE exE conjE)
  assume c: "root = Null" "m = Map.empty" "nodes_free h {}" "recs_free h {}"
  obtain r h1 where r: "make_record e v h = Some (Rec_at r, h1)" "recs h1 r = Some (zero_rec\<lparr>rec_value := v\<rparr>)"
      "recs_free h1 {r}" "keeps_nodes h h1"
    using make_record_ok [OF e c(4), of v] by auto
  obtain a h2 where a: "start_new_tree e k (Rec_at r) h1 = Some (Node_at a, h2)" "keeps_recs h1 h2" "nodes_free h2 {a}"
      "tree_ok (order e) (nodes h2) (Leaf a [(k, r)] Null)"
    using start_new_tree_ok [OF e nodes_free_keeps [OF c(3) r(4)], of k r] by blast
  let ?t = "Leaf a [(k, r)] Null"
  have "recs_of ?t = {r}" by (simp add: recs_of_def)
  moreover have "recs h2 r = Some (zero_rec\<lparr>rec_value := v\<rparr>)" using r(2) a(2) by (simp add: keeps_recs_def)
  ultimately have "index_of e h2 ?t" "value_map (recs h2) ?t = [k \<mapsto> v]"
    using a(3,4) recs_free_keeps [OF r(3) a(2)] by (auto simp: index_of_def value_map_def)
  then have "bt_ok e (Node_at a) h2 [k \<mapsto> v]" unfolding bt_ok_def by (intro disjI2 exI [of _ ?t]) simp
  moreover have "insert_bt e root k v h = Some (Node_at a, h2)"
    using r(1) a(1) c(1) by (simp add: insert_bt_def find_bt_def)
  ultimately show ?thesis using c(2) by blast
next
  fix t assume t: "root = Node_at (addr t)" "index_of e h t" "m = value_map (recs h) t"
  show ?thesis
  proof (cases "map_of (ents (items t)) k")
    case (Some r)
    from insert_existing [OF t(2) this, of v] obtain h' where h': "insert_bt e root k v h = Some (root, h')" "index_of e h' t"
        "m(k \<mapsto> v) = value_map (recs h') t" unfolding t(1,3) by auto
    then have "bt_ok e root h' (m(k \<mapsto> v))" unfolding bt_ok_def t(1) by blast
    with h'(1) show ?thesis by blast
  next
    case None
    have ok: "tree_ok (order e) (nodes h) t" "nodes_free h (set (addrs t))" "recs_free h (recs_of t)"
      using t(2) by (simp_all add: index_of_def)
    obtain r h1 where r: "make_record e v h = Some (Rec_at r, h1)" "r \<notin> recs_of t" "recs h1 r = Some (zero_rec\<lparr>rec_value := v\<rparr>)"
        "\<forall>b \<in> recs_of t. recs h1 b = recs h b" "recs_free h1 (insert r (recs_of t))" "keeps_nodes h h1"
      using make_record_ok [OF e ok(3), of v] by blast
    have ok1: "tree_ok (order e) (nodes h1) t" "nodes_free h1 (set (addrs t))"
      using ok(1) nodes_free_keeps [OF ok(2) r(6)] r(6) by (simp_all add: keeps_nodes_def)
    from insert_new [OF e ok1 None, of r] obtain t' h' where g: "do {
       leaf \<leftarrow> find_leaf (Node_at (addr t)) k h1;
       n \<leftarrow> get_node leaf h1;
       if num_keys n < order e - 1 then do {
         (_, h) \<leftarrow> insert_into_leaf leaf k (Rec_at r) h1;
         Some (Node_at (addr t), h)
       } else insert_into_leaf_after_splitting e (Node_at (addr t)) leaf k (Rec_at r) h1
     } = Some (Node_at (addr t'), h')" "grows_to e h1 t k r h' t'" by blast
    obtain leaf where "find_bt (Node_at (addr t)) k h = Some (Null, leaf)"
      using find_bt_ptr [OF ok(1), of k] None by auto
    then have "insert_bt e root k v h = Some (Node_at (addr t'), h')" using r(1) g(1) t(1) by (simp add: insert_bt_def)
    moreover have "index_of e h' t'" "m(k \<mapsto> v) = value_map (recs h') t'"
      using grown_index [OF t(2) None r(2-5) g(2)] by (simp_all add: t(3))
    then have "bt_ok e (Node_at (addr t')) h' (m(k \<mapsto> v))" unfolding bt_ok_def by blast
    ultimately show ?thesis by blast
  qed
qed

subsection \<open>Interface\<close>

text \<open>
  An index: a state stands for a map, looking up a key returns its value there and updating a key
  changes the map at this key.
\<close>

locale map_index =
  fixes stands_for :: "'s \<Rightarrow> ('k \<rightharpoonup> 'v) \<Rightarrow> bool"
    and lookup :: "'k \<Rightarrow> 's \<Rightarrow> 'v option option"
    and update :: "'k \<Rightarrow> 'v \<Rightarrow> 's \<Rightarrow> 's option"
  assumes lookup_law: "stands_for s m \<Longrightarrow> lookup k s = Some (m k)"
    and update_law: "stands_for s m \<Longrightarrow> \<exists>s'. update k v s = Some s' \<and> stands_for s' (m(k \<mapsto> v))"
begin

lemma updates_stand_for:
  "stands_for s m \<Longrightarrow> \<exists>s'. for_each (\<lambda>(k, v). update k v) kvs s = Some s' \<and> stands_for s' (m ++ map_of (rev kvs))"
proof (induction kvs arbitrary: s m)
  case (Cons kv kvs)
  obtain k v where kv: "kv = (k, v)" by (cases kv)
  obtain s' where s': "update k v s = Some s'" "stands_for s' (m(k \<mapsto> v))" using update_law [OF Cons.prems] by blast
  have "m(k \<mapsto> v) ++ map_of (rev kvs) = m ++ map_of (rev (kv # kvs))" by (simp add: kv map_add_assoc [symmetric])
  then show ?case using Cons.IH [OF s'(2)] s'(1) by (simp add: kv fun_upd_def)
qed simp

lemma lookup_after_updates:
  assumes "stands_for s Map.empty" "for_each (\<lambda>(k, v). update k v) kvs s = Some s'"
  shows "lookup k s' = Some (map_of (rev kvs) k)"
  using updates_stand_for [OF assms(1), of kvs] assms(2) lookup_law by auto

end

text \<open>The value that \<open>find\<close> gives access to, and \<open>insert\<close> on the root and the heap.\<close>

definition bt_lookup :: "u64 \<Rightarrow> pointer \<times> bt_heap \<Rightarrow> u64 option option" where
  "bt_lookup key = (\<lambda>(root, h). do {
     (r, _) \<leftarrow> find_bt root key h;
     if r = Null then Some None else map_option (\<lambda>r. Some (rec_value r)) (get_rec r h)
   })"

definition bt_update :: "bt_env \<Rightarrow> u64 \<Rightarrow> u64 \<Rightarrow> pointer \<times> bt_heap \<Rightarrow> (pointer \<times> bt_heap) option" where
  "bt_update e key v = (\<lambda>(root, h). insert_bt e root key v h)"

definition bt_stands_for :: "bt_env \<Rightarrow> pointer \<times> bt_heap \<Rightarrow> (u64 \<rightharpoonup> u64) \<Rightarrow> bool" where
  "bt_stands_for e s m \<longleftrightarrow> env_ok e \<and> bt_ok e (fst s) (snd s) m"

lemma bt_lookup_value:
  assumes "bt_ok e root h m"
  shows "bt_lookup key (root, h) = Some (m key)"
  using find_bt_value [OF assms, of key] by (cases "m key") (auto simp: bt_lookup_def get_rec_def)

interpretation bt: map_index "bt_stands_for e" bt_lookup "bt_update e" for e
proof
  fix s m and k v :: u64
  assume s: "bt_stands_for e s m"
  show "bt_lookup k s = Some (m k)" using s bt_lookup_value [of e "fst s" "snd s"] by (simp add: bt_stands_for_def)
  show "\<exists>s'. bt_update e k v s = Some s' \<and> bt_stands_for e s' (m(k \<mapsto> v))"
    using s insert_bt_ok [of e "fst s" "snd s" m k v] by (auto simp: bt_stands_for_def bt_update_def split_beta)
qed

text \<open>An environment: the default order of the tree and slabs of two structures.\<close>

definition demo_bt_env :: bt_env where
  "demo_bt_env = \<lparr>order = 6, node_slab = 2, rec_slab = 2, memalign = (\<lambda>_. True)\<rparr>"

lemma demo_bt_env_ok: "env_ok demo_bt_env"
  by (simp add: env_ok_def demo_bt_env_def)

subsection \<open>Theorems\<close>

text \<open>
  C15: Inserting into a well-formed B+ tree returns, without an access outside an array or through an
  invalid pointer, a root and a heap that again form a B+ tree: its leaves are at the same
  depth and linked in order, its nodes are occupied at least as much as the order demands, its
  keys are ordered, parent pointers and free lists are intact, and its contents are the old ones
  with the new value under the key.
\<close>

theorem btree_insert_updates:
  assumes "env_ok e" "bt_ok e root h m"
  shows "\<exists>root' h'. insert_bt e root k v h = Some (root', h') \<and> bt_ok e root' h' (m(k \<mapsto> v))"
  using assms by (rule insert_bt_ok)

theorem btree_insert_updates_witness:
  "\<exists>root h. insert_bt demo_bt_env Null 7 1 empty_heap = Some (root, h) \<and> bt_ok demo_bt_env root h [7 \<mapsto> 1]"
  by (rule btree_insert_updates [OF demo_bt_env_ok bt_ok_empty])

text \<open>
  C16: After any sequence of insertions into the empty tree, looking up any key finds the value
  inserted last under it, or a null pointer if there is none.
\<close>

theorem btree_lookup_after_inserts:
  assumes "env_ok e"
  shows "\<exists>s. for_each (\<lambda>(k, v). bt_update e k v) kvs (Null, empty_heap) = Some s \<and>
    (\<forall>key. bt_lookup key s = Some (map_of (rev kvs) key))"
proof -
  have start: "bt_stands_for e (Null, empty_heap) Map.empty" using assms bt_ok_empty by (simp add: bt_stands_for_def)
  obtain s where s: "for_each (\<lambda>(k, v). bt_update e k v) kvs (Null, empty_heap) = Some s"
    using bt.updates_stand_for [OF start] by blast
  from bt.lookup_after_updates [OF start this] s show ?thesis by blast
qed

theorem btree_lookup_after_inserts_witness:
  "\<exists>s. for_each (\<lambda>(k, v). bt_update demo_bt_env k v) [(7, 1), (3, 2), (7, 4)] (Null, empty_heap) = Some s \<and>
    bt_lookup 7 s = Some (Some 4) \<and> bt_lookup 5 s = Some None"
  using btree_lookup_after_inserts [OF demo_bt_env_ok, of "[(7, 1), (3, 2), (7, 4)]"] by auto

end
