(* ===== verification/Spec2Isabelle.thy ===== *)
theory Spec2Isabelle
  imports Policy SeqList XmtCsr ParPermute Xalloc MakeEdgelist OmpOld BTreeIndex
begin

text \<open>
  Verification of the Demeter prototype and its workloads.
\<close>

end
